(* ===== verification/Prelude.thy ===== *)
theory Prelude
  imports Main "HOL-Library.Word" "HOL-Library.Monad_Syntax"
begin

text \<open>
  Shared vocabulary of the development.

  \<^item> Machine integers (\<open>u8\<close>, \<open>u32\<close>, \<open>u64\<close>) and the power-of-two index masks that every ring
    of the repository uses (collection \<open>mask_simps\<close>).
  \<^item> Bounds-checked array accesses: \<open>load_at\<close> and \<open>store_at\<close> return \<open>None\<close> where the C program
    would read or write outside the array, so that memory safety is a theorem and not an
    assumption of the model.
  \<^item> Interleaving semantics: a system is a set of initial states and a step function that takes
    the identifier of the thread the scheduler picks; \<open>reachable\<close> is the set of states some
    schedule leads to, and the locale \<open>inductive_invariant\<close> is the interface every concurrent
    component is interpreted in.
  \<^item> The do-while loops of the code as one combinator, \<open>loop\<close>, with its total-correctness rule.
  \<^item> Singly linked lists in a heap (\<open>chain\<close>), with \<open>0\<close> as the null pointer.
  \<^item> The contracts \<open>bounded_fifo\<close> and \<open>fifo_queue\<close> that the ring buffers and linked queues
    implement, with the client lemmas proved once.
\<close>

unbundle bit_operations_syntax

section \<open>Machine integers\<close>

type_synonym u8 = "8 word"
type_synonym u16 = "16 word"
type_synonym u32 = "32 word"
type_synonym u64 = "64 word"

named_theorems mask_simps \<open>index masks of power-of-two tables, read as remainders\<close>

lemma unat_and_mask_eq [mask_simps]:
  "unat (x AND (2 ^ k - 1)) = unat x mod 2 ^ k" for x :: "'a::len word"
proof -
  have "x AND (2 ^ k - 1) = take_bit k x"
    by (simp add: take_bit_eq_mask mask_eq_decr_exp)
  then show ?thesis
    by (simp add: take_bit_eq_mod unsigned_take_bit_eq flip: take_bit_eq_mod)
qed

lemma unat_pow2 [mask_simps]:
  "k < LENGTH('a) \<Longrightarrow> unat (2 ^ k :: 'a::len word) = 2 ^ k"
  by transfer simp

lemma unat_pow2_minus_1 [mask_simps]:
  "k < LENGTH('a) \<Longrightarrow> unat (2 ^ k - 1 :: 'a::len word) = 2 ^ k - 1"
  by (simp add: unat_minus_one unat_pow2)

lemma unat_add_no_wrap:
  "unat a + unat b < 2 ^ LENGTH('a) \<Longrightarrow> unat (a + b) = unat a + unat b" for a b :: "'a::len word"
  by (simp add: unat_word_ariths)

lemma unat_Suc_less [simp]: "i < n \<Longrightarrow> unat (i + 1) = Suc (unat i)" for i n :: "'a::len word"
  by unat_arith

lemma unat_sub_le:
  "unat b \<le> unat a \<Longrightarrow> unat (a - b) = unat a - unat b" for a b :: "'a::len word"
  by (simp add: unat_sub word_le_nat_alt)

text \<open>
  Counters that run freely modulo \<open>2 ^ LENGTH('a)\<close> still index a power-of-two table
  consistently: reducing the wrapped sum is reducing the unwrapped one.
\<close>

lemma wrap_mod_pow2 [mask_simps]:
  "k \<le> LENGTH('a) \<Longrightarrow> unat (a + of_nat j) mod 2 ^ k = (unat a + j) mod 2 ^ k" for a :: "'a::len word"
proof -
  assume k: "k \<le> LENGTH('a)"
  have "unat (a + of_nat j) = (unat a + j) mod 2 ^ LENGTH('a)"
    by (simp add: unat_word_ariths unat_of_nat mod_simps)
  moreover have "(2::nat) ^ k dvd 2 ^ LENGTH('a)"
    using k by (rule le_imp_power_dvd)
  ultimately show ?thesis
    by (simp add: mod_mod_cancel)
qed

lemma le_pow2_minus_1 [simp]: "a \<le> 2 ^ k - Suc 0 \<longleftrightarrow> a < 2 ^ k" for a :: nat
  using zero_less_power [of "2::nat" k] by linarith

lemma unat_below: "unat x < 4294967296" for x :: u32
proof -
  have "unat x < 2 ^ LENGTH(32)" by (rule unsigned_less)
  then show ?thesis by simp
qed

lemma unat_of_small: "k < 32 \<Longrightarrow> j < 2 ^ k \<Longrightarrow> unat (of_nat j :: u32) = j"
proof -
  assume "k < 32" "j < 2 ^ k"
  moreover have "(2::nat) ^ k \<le> 2 ^ 32" using \<open>k < 32\<close> by (intro power_increasing) auto
  ultimately show ?thesis by (simp add: unat_of_nat)
qed

lemma add_mod_eq_iff:
  fixes h N :: nat
  assumes "i < N" "j < N"
  shows "(h + i) mod N = (h + j) mod N \<longleftrightarrow> i = j"
proof -
  have *: "a = b" if "(h + a) mod N = (h + b) mod N" "a \<le> b" "b < N" for a b
  proof -
    have "N dvd (h + b) - (h + a)" using that by (intro mod_eq_dvd_iff_nat [THEN iffD1]) simp_all
    then show ?thesis using that by (auto dest: dvd_imp_le)
  qed
  show ?thesis using * [of i j] * [of j i] assms by (cases "i \<le> j") auto
qed

lemma unat_uminus_dvd: "k \<le> LENGTH('a) \<Longrightarrow> 2 ^ k dvd unat w + unat (- w)" for w :: "'a::len word"
proof -
  assume "k \<le> LENGTH('a)"
  then have "(2::nat) ^ k dvd 2 ^ LENGTH('a)" by (rule le_imp_power_dvd)
  moreover have "2 ^ LENGTH('a) dvd unat w + unat (- w)"
    using unat_word_ariths(1) [of w "- w"] by (simp add: mod_eq_0_iff_dvd)
  ultimately show ?thesis by (rule dvd_trans)
qed

lemma pred_and_pow2: "(2 ^ k - 1) AND 2 ^ k = (0 :: nat)"
proof -
  have "(2 ^ k - 1) AND 2 ^ k = take_bit k (2 ^ k :: nat)"
    by (simp only: take_bit_eq_mask mask_eq_exp_minus_1 and.commute)
  then show ?thesis by (simp add: take_bit_eq_mod)
qed

lemma pred_and_zero_pow2: "0 < n \<Longrightarrow> (n - 1) AND n = 0 \<Longrightarrow> \<exists>k. n = 2 ^ k" for n :: nat
proof (induction n rule: less_induct)
  case (less n)
  show ?case
  proof (cases "even n")
    case True
    then obtain m where m: "n = 2 * m" by blast
    with less.prems have "(2 * m - 1) div 2 = m - 1" "0 < m" "odd (2 * m - 1)" by presburger+
    then have "(m - 1) AND m = 0"
      using less.prems(2) by (subst (asm) and_rec) (simp add: m)
    then obtain k where "m = 2 ^ k" using less.IH [of m] m \<open>0 < m\<close> by auto
    then have "n = 2 ^ Suc k" using m by simp
    then show ?thesis by blast
  next
    case False
    then obtain m where m: "n = 2 * m + 1" by (blast elim: oddE)
    then have "n = 2 ^ 0" using less.prems(2) by (subst (asm) and_rec) simp
    then show ?thesis by blast
  qed
qed

lemma sint_small:
  fixes w :: u64
  assumes "unat w < 2 ^ 63"
  shows "sint w = int (unat w)"
proof -
  have "int (unat w) < int (2 ^ 63)" using assms by (simp only: of_nat_less_iff)
  then have "uint w < 2 ^ 63" by simp
  moreover have "- (2 ^ 63) \<le> uint w" by (rule order_trans [OF _ uint_ge_0]) simp
  ultimately have "signed_take_bit 63 (uint w) = uint w" by (intro signed_take_bit_int_eq_self)
  then show ?thesis by (simp add: sint_uint)
qed

section \<open>Bounds-checked arrays\<close>

definition load_at :: "'a list \<Rightarrow> nat \<Rightarrow> 'a option" where
  "load_at xs i = (if i < length xs then Some (xs ! i) else None)"

definition store_at :: "'a list \<Rightarrow> nat \<Rightarrow> 'a \<Rightarrow> 'a list option" where
  "store_at xs i v = (if i < length xs then Some (xs[i := v]) else None)"

lemma load_at_in [simp]: "i < length xs \<Longrightarrow> load_at xs i = Some (xs ! i)"
  by (simp add: load_at_def)

lemma store_at_in [simp]: "i < length xs \<Longrightarrow> store_at xs i v = Some (xs[i := v])"
  by (simp add: store_at_def)

lemma store_at_length: "store_at xs i v = Some ys \<Longrightarrow> length ys = length xs"
  by (auto simp: store_at_def split: if_splits)

section \<open>Interleaved executions\<close>

text \<open>
  \<open>step e s\<close> is the state after the atomic action that event \<open>e\<close> names (the thread that moves,
  with the arguments it brings), \<open>None\<close> when that thread has no such action in \<open>s\<close>.
  A schedule is a list of events.
\<close>

fun exec :: "('e \<Rightarrow> 's \<Rightarrow> 's option) \<Rightarrow> 'e list \<Rightarrow> 's \<Rightarrow> 's option" where
  "exec step [] s = Some s"
| "exec step (e # es) s = (case step e s of None \<Rightarrow> None | Some s' \<Rightarrow> exec step es s')"

lemma exec_append:
  "exec step (es @ fs) s = (case exec step es s of None \<Rightarrow> None | Some s' \<Rightarrow> exec step fs s')"
  by (induction es arbitrary: s) (auto split: option.splits)

locale inductive_invariant =
  fixes init :: 's
    and step :: "'e \<Rightarrow> 's \<Rightarrow> 's option"
    and inv :: "'s \<Rightarrow> bool"
  assumes init_inv: "inv init"
    and step_inv: "inv s \<Longrightarrow> step e s = Some s' \<Longrightarrow> inv s'"
begin

lemma exec_inv: "inv s \<Longrightarrow> exec step es s = Some s' \<Longrightarrow> inv s'"
  by (induction es arbitrary: s) (auto split: option.splits intro: step_inv)

lemma reachable_inv: "exec step es init = Some s' \<Longrightarrow> inv s'"
  by (rule exec_inv [OF init_inv])

end

text \<open>A system that never gets stuck and never leaves its invariant, whatever it is asked to do.\<close>

locale total_system = inductive_invariant +
  assumes step_total: "inv s \<Longrightarrow> \<exists>s'. step e s = Some s'"
begin

lemma exec_total_from: "inv s \<Longrightarrow> \<exists>s'. exec step es s = Some s' \<and> inv s'"
proof (induction es arbitrary: s)
  case Nil
  then show ?case by simp
next
  case (Cons e es)
  obtain s1 where "step e s = Some s1" using step_total [OF Cons.prems] by blast
  with Cons.IH [of s1] step_inv [OF Cons.prems, of e s1] show ?case by simp
qed

lemma exec_total: "\<exists>s'. exec step es init = Some s' \<and> inv s'"
  by (rule exec_total_from [OF init_inv])

end

section \<open>Loops\<close>

text \<open>
  \<open>loop body\<close> repeats \<open>body\<close> while it answers \<open>Inl\<close> (the next state) and returns what it answers
  in \<open>Inr\<close>. A loop that never ends, and one whose body fails, is \<open>None\<close>.
\<close>

partial_function (option) loop :: "('s \<Rightarrow> ('s + 'r) option) \<Rightarrow> 's \<Rightarrow> 'r option" where
  "loop body s = Option.bind (body s) (\<lambda>r. case r of Inl s' \<Rightarrow> loop body s' | Inr x \<Rightarrow> Some x)"

lemma loop_stop [simp]: "body s = Some (Inr x) \<Longrightarrow> loop body s = Some x"
  by (subst loop.simps) simp

lemma loop_next: "body s = Some (Inl s') \<Longrightarrow> loop body s = loop body s'"
  by (subst loop.simps) simp

lemma loop_fail [simp]: "body s = None \<Longrightarrow> loop body s = None"
  by (subst loop.simps) simp

text \<open>Total correctness: an invariant \<open>P\<close> and a measure \<open>m\<close> that every repetition lowers.\<close>

lemma loop_total:
  fixes m :: "'s \<Rightarrow> nat"
  assumes "P s"
    and "\<And>s. P s \<Longrightarrow> (\<exists>x. body s = Some (Inr x) \<and> Q x) \<or> (\<exists>s'. body s = Some (Inl s') \<and> P s' \<and> m s' < m s)"
  shows "\<exists>x. loop body s = Some x \<and> Q x"
  using assms(1)
proof (induction "m s" arbitrary: s rule: less_induct)
  case less
  from assms(2) [OF less.prems] show ?case
    using less.hyps by (auto simp: loop_next)
qed

text \<open>Partial correctness: what holds of every result a loop may deliver.\<close>

lemma loop_partial:
  assumes "loop body s = Some x" "P s"
    and inv: "\<And>s s'. P s \<Longrightarrow> body s = Some (Inl s') \<Longrightarrow> P s'"
    and post: "\<And>s x. P s \<Longrightarrow> body s = Some (Inr x) \<Longrightarrow> Q x"
  shows "Q x"
proof -
  define R where "R b s x \<longleftrightarrow> (b = body \<longrightarrow> P s \<longrightarrow> Q x)" for b s x
  have "R body s x"
  proof (rule loop.raw_induct [where P = R, OF _ assms(1)])
    fix lp b s x
    assume IH: "\<And>b s x. lp b s = Some x \<Longrightarrow> R b s x"
      and eq: "b s \<bind> (\<lambda>r. case r of Inl s' \<Rightarrow> lp b s' | Inr x \<Rightarrow> Some x) = Some x"
    show "R b s x"
      unfolding R_def
    proof (intro impI)
      assume b: "b = body" and P: "P s"
      from eq obtain r where r: "body s = Some r" "(case r of Inl s' \<Rightarrow> lp b s' | Inr x \<Rightarrow> Some x) = Some x"
        unfolding b by (cases "body s") auto
      show "Q x"
      proof (cases r)
        case (Inl s')
        then have "lp b s' = Some x" using r(2) by simp
        from IH [OF this] have "P s' \<longrightarrow> Q x" using b by (simp add: R_def)
        then show ?thesis using inv [OF P] r(1) Inl by simp
      next
        case (Inr y)
        then show ?thesis using post [OF P] r by simp
      qed
    qed
  qed
  then show ?thesis using assms(2) by (simp add: R_def)
qed

section \<open>Linked lists in a heap\<close>

text \<open>
  \<open>chain nx p ps q\<close>: following \<open>nx\<close> from \<open>p\<close> visits exactly the nodes \<open>ps\<close>, none of them null,
  and arrives at \<open>q\<close>.
\<close>

type_synonym ptr = nat

abbreviation (input) NULL :: ptr where "NULL \<equiv> 0"

fun chain :: "(ptr \<Rightarrow> ptr) \<Rightarrow> ptr \<Rightarrow> ptr list \<Rightarrow> ptr \<Rightarrow> bool" where
  "chain nx p [] q \<longleftrightarrow> p = q"
| "chain nx p (a # as) q \<longleftrightarrow> p = a \<and> a \<noteq> NULL \<and> chain nx (nx a) as q"

lemma chain_append [simp]:
  "chain nx p (as @ bs) q \<longleftrightarrow> (\<exists>r. chain nx p as r \<and> chain nx r bs q)"
  by (induction as arbitrary: p) auto

lemma chain_upd [simp]: "a \<notin> set ps \<Longrightarrow> chain (nx(a := v)) p ps q = chain nx p ps q"
  by (induction ps arbitrary: p) auto

lemma chain_cong:
  "chain nx p ps q \<Longrightarrow> (\<And>a. a \<in> set ps \<Longrightarrow> nx' a = nx a) \<Longrightarrow> chain nx' p ps q"
  by (induction ps arbitrary: p) auto

lemma chain_null [simp]: "chain nx NULL ps NULL \<longleftrightarrow> ps = []"
  by (cases ps) auto

lemma chain_nonnull: "p \<noteq> NULL \<Longrightarrow> chain nx p ps NULL \<longleftrightarrow> (\<exists>qs. ps = p # qs \<and> chain nx (nx p) qs NULL)"
  by (cases ps) auto

lemma chain_no_null: "chain nx p ps q \<Longrightarrow> NULL \<notin> set ps"
  by (induction ps arbitrary: p) auto

lemma chain_unique: "chain nx p ps NULL \<Longrightarrow> chain nx p qs NULL \<Longrightarrow> ps = qs"
proof (induction ps arbitrary: p qs)
  case Nil
  then show ?case by simp
next
  case (Cons a as)
  then show ?case by (cases qs) auto
qed

lemma chain_distinct: "chain nx p ps NULL \<Longrightarrow> distinct ps"
proof (induction ps arbitrary: p)
  case Nil
  then show ?case by simp
next
  case (Cons a as)
  have "a \<notin> set as"
  proof
    assume "a \<in> set as"
    then obtain us vs where as: "as = us @ a # vs" by (auto simp: in_set_conv_decomp)
    with Cons.prems have "chain nx a (a # us @ a # vs) NULL" "chain nx a (a # vs) NULL" by auto
    then have "a # us @ a # vs = a # vs" by (rule chain_unique)
    then show False by (auto dest: arg_cong [where f = length])
  qed
  with Cons show ?case by auto
qed

lemma chain_snoc: "chain nx p (ps @ [a]) q \<longleftrightarrow> chain nx p ps a \<and> a \<noteq> NULL \<and> nx a = q"
  by auto

section \<open>Queue contracts\<close>

text \<open>
  A bounded first-in first-out queue. \<open>enq\<close> and \<open>deq\<close> return \<open>None\<close> when they refuse
  (full, respectively empty).
\<close>

locale bounded_fifo =
  fixes inv :: "'q \<Rightarrow> bool"
    and contents :: "'q \<Rightarrow> 'a list"
    and capacity :: "'q \<Rightarrow> nat"
    and enq :: "'a \<Rightarrow> 'q \<Rightarrow> 'q option"
    and deq :: "'q \<Rightarrow> ('a \<times> 'q) option"
  assumes enq_full: "inv q \<Longrightarrow> capacity q \<le> length (contents q) \<Longrightarrow> enq x q = None"
    and enq_room: "inv q \<Longrightarrow> length (contents q) < capacity q \<Longrightarrow>
      \<exists>q'. enq x q = Some q' \<and> inv q' \<and> contents q' = contents q @ [x] \<and> capacity q' = capacity q"
    and deq_empty: "inv q \<Longrightarrow> contents q = [] \<Longrightarrow> deq q = None"
    and deq_item: "inv q \<Longrightarrow> contents q = x # xs \<Longrightarrow>
      \<exists>q'. deq q = Some (x, q') \<and> inv q' \<and> contents q' = xs \<and> capacity q' = capacity q"
begin

fun enq_all :: "'a list \<Rightarrow> 'q \<Rightarrow> 'q option" where
  "enq_all [] q = Some q"
| "enq_all (x # xs) q = (case enq x q of None \<Rightarrow> None | Some q' \<Rightarrow> enq_all xs q')"

fun deq_n :: "nat \<Rightarrow> 'q \<Rightarrow> ('a list \<times> 'q) option" where
  "deq_n 0 q = Some ([], q)"
| "deq_n (Suc n) q = (case deq q of None \<Rightarrow> None | Some (x, q') \<Rightarrow>
     (case deq_n n q' of None \<Rightarrow> None | Some (xs, q'') \<Rightarrow> Some (x # xs, q'')))"

lemma enq_all_fits:
  "inv q \<Longrightarrow> length (contents q) + length xs \<le> capacity q \<Longrightarrow>
    \<exists>q'. enq_all xs q = Some q' \<and> inv q' \<and> contents q' = contents q @ xs \<and> capacity q' = capacity q"
proof (induction xs arbitrary: q)
  case Nil
  then show ?case by simp
next
  case (Cons x xs)
  then obtain q1 where q1: "enq x q = Some q1" "inv q1" "contents q1 = contents q @ [x]"
    "capacity q1 = capacity q"
    using enq_room [of q x] by auto
  with Cons.prems Cons.IH [of q1] show ?case by auto
qed

lemma deq_n_front:
  "inv q \<Longrightarrow> contents q = xs @ ys \<Longrightarrow>
    \<exists>q'. deq_n (length xs) q = Some (xs, q') \<and> inv q' \<and> contents q' = ys \<and> capacity q' = capacity q"
proof (induction xs arbitrary: q)
  case Nil
  then show ?case by simp
next
  case (Cons x xs)
  then obtain q1 where q1: "deq q = Some (x, q1)" "inv q1" "contents q1 = xs @ ys"
    "capacity q1 = capacity q"
    using deq_item [of q x "xs @ ys"] by auto
  with Cons.IH [of q1] show ?case by auto
qed

text \<open>What goes in comes out, in order.\<close>

lemma fifo_round_trip:
  assumes "inv q" "contents q = []" "length xs \<le> capacity q"
  shows "\<exists>q1 q2. enq_all xs q = Some q1 \<and> deq_n (length xs) q1 = Some (xs, q2) \<and> contents q2 = []"
proof -
  from assms obtain q1 where q1: "enq_all xs q = Some q1" "inv q1" "contents q1 = xs @ []"
    using enq_all_fits [of q xs] by auto
  from deq_n_front [OF q1(2,3)] q1(1) show ?thesis by auto
qed

end

text \<open>
  An unbounded queue that stands for the sequence of its elements (\<open>rel q xs\<close>). An insertion brings
  an element \<open>e\<close> that carries \<open>val e\<close> and is not in use yet (\<open>fresh e q xs\<close>); a removal reports an
  empty queue as \<open>None\<close>.
\<close>

fun drain :: "('q \<Rightarrow> ('a option \<times> 'q) option) \<Rightarrow> nat \<Rightarrow> 'q \<Rightarrow> ('a list \<times> 'q) option" where
  "drain deq 0 q = Some ([], q)"
| "drain deq (Suc n) q = do {
     (x, q) \<leftarrow> deq q;
     (xs, q) \<leftarrow> drain deq n q;
     Some (case x of None \<Rightarrow> xs | Some x \<Rightarrow> x # xs, q)
   }"

locale fifo_queue =
  fixes rel :: "'q \<Rightarrow> 'a list \<Rightarrow> bool"
    and fresh :: "'e \<Rightarrow> 'q \<Rightarrow> 'a list \<Rightarrow> bool"
    and val :: "'e \<Rightarrow> 'a"
    and enq :: "'e \<Rightarrow> 'q \<Rightarrow> 'q option"
    and deq :: "'q \<Rightarrow> ('a option \<times> 'q) option"
  assumes enq_rel: "rel q xs \<Longrightarrow> fresh e q xs \<Longrightarrow> \<exists>q'. enq e q = Some q' \<and> rel q' (xs @ [val e])"
    and deq_empty: "rel q [] \<Longrightarrow> \<exists>q'. deq q = Some (None, q') \<and> rel q' []"
    and deq_item: "rel q (x # xs) \<Longrightarrow> \<exists>q'. deq q = Some (Some x, q') \<and> rel q' xs"
begin

text \<open>Enough removals return everything that was inserted, in the order of insertion.\<close>

lemma drain_all:
  assumes "rel q xs" "length xs \<le> n"
  shows "\<exists>q'. drain deq n q = Some (xs, q') \<and> rel q' []"
  using assms
proof (induction n arbitrary: q xs)
  case (Suc n)
  show ?case
  proof (cases xs)
    case Nil
    then obtain q1 where q1: "deq q = Some (None, q1)" "rel q1 []" using deq_empty Suc.prems by blast
    then obtain q2 where "drain deq n q1 = Some ([], q2)" "rel q2 []" using Suc.IH [of q1 "[]"] by auto
    then show ?thesis using q1 Nil by simp
  next
    case (Cons x ys)
    then obtain q1 where q1: "deq q = Some (Some x, q1)" "rel q1 ys" using deq_item Suc.prems by blast
    then obtain q2 where "drain deq n q1 = Some (ys, q2)" "rel q2 []" using Suc.IH [of q1 ys] Suc.prems Cons by auto
    then show ?thesis using q1 Cons by simp
  qed
qed auto

lemma enq_then_drain:
  assumes "rel q xs" "fresh e q xs" "length xs < n"
  shows "\<exists>q1 q2. enq e q = Some q1 \<and> drain deq n q1 = Some (xs @ [val e], q2) \<and> rel q2 []"
  using enq_rel [OF assms(1,2)] drain_all [of _ "xs @ [val e]" n] assms(3) by fastforce

end

section \<open>Map contract\<close>

text \<open>
  A table that stands for a finite map (\<open>rel s M\<close>). \<open>put\<close> brings the address of the new node;
  both operations report whether the key was present.
\<close>

locale map_store =
  fixes rel :: "'s \<Rightarrow> ('k \<Rightarrow> 'v option) \<Rightarrow> bool"
    and fresh :: "'s \<Rightarrow> ptr \<Rightarrow> bool"
    and get :: "'s \<Rightarrow> 'k \<Rightarrow> 'v option option"
    and put :: "ptr \<Rightarrow> 's \<Rightarrow> 'k \<Rightarrow> 'v \<Rightarrow> (bool \<times> 's) option"
    and del :: "'s \<Rightarrow> 'k \<Rightarrow> (bool \<times> 's) option"
  assumes get_rel: "rel s M \<Longrightarrow> get s k = Some (M k)"
    and put_rel: "rel s M \<Longrightarrow> fresh s p \<Longrightarrow>
      \<exists>s'. put p s k v = Some (k \<in> dom M, s') \<and> rel s' (M(k \<mapsto> v))"
    and del_rel: "rel s M \<Longrightarrow> \<exists>s'. del s k = Some (k \<in> dom M, s') \<and> rel s' (M(k := None))"
begin

text \<open>A key that was put and deleted again is gone; the other keys keep their values.\<close>

lemma put_then_del:
  assumes "rel s M" "fresh s p"
  shows "\<exists>b s1 s2. put p s k v = Some (b, s1) \<and> del s1 k = Some (True, s2) \<and>
    (\<forall>x. get s2 x = Some (if x = k then None else M x))"
proof -
  obtain s1 where s1: "put p s k v = Some (k \<in> dom M, s1)" "rel s1 (M(k \<mapsto> v))"
    using put_rel [OF assms] by blast
  obtain s2 where s2: "del s1 k = Some (k \<in> dom (M(k \<mapsto> v)), s2)" "rel s2 ((M(k \<mapsto> v))(k := None))"
    using del_rel [OF s1(2)] by blast
  have "get s2 x = Some (if x = k then None else M x)" for x using get_rel [OF s2(2)] by simp
  with s1(1) s2(1) show ?thesis by simp
qed

end

end
