(* ===== verification/Ringbuffer.thy ===== *)
theory Ringbuffer
  imports Prelude
begin

text \<open>
  The DPDK-style ring of \<^verbatim>\<open>ringbuffer/ringbuffer.c\<close>: creation, the unrolled and wrapping copy
  macros, single-producer enqueue, single-consumer dequeue and the fullness tests. The head and
  tail indexes are 32-bit counters that wrap; the model keeps them at their width. Every access
  to the ring or to the caller's table is bounds-checked: the result \<open>None\<close> is undefined behaviour
  of the C program, and the theorems show that it never arises.
\<close>

section \<open>Data\<close>

record 'a ringbuf =
  prod_watermark :: u32
  prod_size :: u32
  prod_mask :: u32
  prod_head :: u32
  prod_tail :: u32
  cons_size :: u32
  cons_mask :: u32
  cons_head :: u32
  cons_tail :: u32
  ring :: "'a list"

definition EINVAL :: int where "EINVAL = 22"
definition ENOBUFS :: int where "ENOBUFS = 105"
definition EDQUOT :: int where "EDQUOT = 122"
definition ENOENT :: int where "ENOENT = 2"

section \<open>Creation\<close>

definition IS_POWEROF2 :: "u32 \<Rightarrow> bool" where
  "IS_POWEROF2 x \<longleftrightarrow> (x - 1) AND x = 0"

definition RING_SIZE_MASK :: u32 where
  "RING_SIZE_MASK = 0x0fffffff"

definition ALIGN_CEIL :: "u64 \<Rightarrow> u64 \<Rightarrow> u64" where
  "ALIGN_CEIL val align = val + (- val AND (align - 1))"

text \<open>
  The header is two cache lines (128 bytes) on the 64-bit targets, a table entry 8 bytes.
\<close>

definition ringbuf_get_memsize :: "u32 \<Rightarrow> int" where
  "ringbuf_get_memsize cnt =
     (if \<not> IS_POWEROF2 cnt \<or> RING_SIZE_MASK < cnt then - EINVAL
      else let bytes = 128 + ucast cnt * 8 in sint (ALIGN_CEIL bytes 64))"

definition ringbuf_init :: "'a ringbuf \<Rightarrow> u32 \<Rightarrow> 'a ringbuf" where
  "ringbuf_init r cnt =
     r\<lparr>prod_watermark := cnt, prod_size := cnt, cons_size := cnt,
       prod_mask := cnt - 1, cons_mask := cnt - 1,
       prod_head := 0, cons_head := 0, prod_tail := 0, cons_tail := 0\<rparr>"

text \<open>
  \<open>mem\<close> is what \<open>malloc\<close> hands out: \<open>None\<close> for NULL, otherwise a block with arbitrary contents.
\<close>

definition ringbuf_create :: "'a ringbuf option \<Rightarrow> u32 \<Rightarrow> 'a ringbuf option" where
  "ringbuf_create mem cnt =
     (if ringbuf_get_memsize cnt < 0 then None
      else case mem of None \<Rightarrow> None | Some r \<Rightarrow> Some (ringbuf_init r cnt))"

section \<open>The copy macros\<close>

text \<open>
  \<^verbatim>\<open>ENQUEUE_PTRS\<close> and \<^verbatim>\<open>DEQUEUE_PTRS\<close> run the same loops over the same two indexes, \<open>i\<close> into the
  caller's table and \<open>idx\<close> into the ring, and differ in the direction of the one assignment
  \<open>cp i idx\<close> they repeat.
\<close>

function ptrs_by_4 :: "(u32 \<Rightarrow> u32 \<Rightarrow> 'm \<Rightarrow> 'm option) \<Rightarrow> u32 \<Rightarrow> u32 \<Rightarrow> u32 \<Rightarrow> 'm
    \<Rightarrow> (u32 \<times> u32 \<times> 'm) option" where
  "ptrs_by_4 cp n i idx m =
     (if i < (n AND NOT 3) then do {
        m1 \<leftarrow> cp i idx m;
        m2 \<leftarrow> cp (i + 1) (idx + 1) m1;
        m3 \<leftarrow> cp (i + 2) (idx + 2) m2;
        m4 \<leftarrow> cp (i + 3) (idx + 3) m3;
        ptrs_by_4 cp n (i + 4) (idx + 4) m4
      } else Some (i, idx, m))"
  by pat_completeness auto
termination
proof (relation "measure (\<lambda>(cp, n, i, idx, m). unat (n AND NOT 3) - unat i)", goal_cases)
  case 1
  then show ?case by simp
next
  case (2 cp n i idx m x xa xb xc)
  have "n AND NOT 3 \<le> NOT 3" by (rule word_and_le1)
  then have "unat (n AND NOT 3) \<le> 2 ^ 32 - 4"
    by (simp add: word_le_nat_alt)
  with 2 have "unat (i + 4) = unat i + 4" "unat i < unat (n AND NOT 3)"
    by (auto simp: word_less_nat_alt unat_word_ariths)
  then show ?case by simp
qed

definition ptrs_one :: "(u32 \<Rightarrow> u32 \<Rightarrow> 'm \<Rightarrow> 'm option) \<Rightarrow> (u32 \<times> u32 \<times> 'm) \<Rightarrow> (u32 \<times> u32 \<times> 'm) option" where
  "ptrs_one cp = (\<lambda>(i, idx, m). do { m' \<leftarrow> cp i idx m; Some (i + 1, idx + 1, m') })"

definition ptrs_switch :: "(u32 \<Rightarrow> u32 \<Rightarrow> 'm \<Rightarrow> 'm option) \<Rightarrow> u32 \<Rightarrow> (u32 \<times> u32 \<times> 'm)
    \<Rightarrow> (u32 \<times> u32 \<times> 'm) option" where
  "ptrs_switch cp n s =
     (let c = n AND 3 in
      if c = 3 then do { s \<leftarrow> ptrs_one cp s; s \<leftarrow> ptrs_one cp s; ptrs_one cp s }
      else if c = 2 then do { s \<leftarrow> ptrs_one cp s; ptrs_one cp s }
      else if c = 1 then ptrs_one cp s
      else Some s)"

function ptrs_to_end :: "(u32 \<Rightarrow> u32 \<Rightarrow> 'm \<Rightarrow> 'm option) \<Rightarrow> u32 \<Rightarrow> u32 \<Rightarrow> u32 \<Rightarrow> 'm
    \<Rightarrow> (u32 \<times> u32 \<times> 'm) option" where
  "ptrs_to_end cp sz i idx m =
     (if idx < sz then do { m' \<leftarrow> cp i idx m; ptrs_to_end cp sz (i + 1) (idx + 1) m' }
      else Some (i, idx, m))"
  by pat_completeness auto
termination
  by (relation "measure (\<lambda>(cp, sz, i, idx, m). unat sz - unat idx)") (auto simp: word_less_nat_alt)

function ptrs_from_start :: "(u32 \<Rightarrow> u32 \<Rightarrow> 'm \<Rightarrow> 'm option) \<Rightarrow> u32 \<Rightarrow> u32 \<Rightarrow> u32 \<Rightarrow> 'm
    \<Rightarrow> (u32 \<times> u32 \<times> 'm) option" where
  "ptrs_from_start cp n i idx m =
     (if i < n then do { m' \<leftarrow> cp i idx m; ptrs_from_start cp n (i + 1) (idx + 1) m' }
      else Some (i, idx, m))"
  by pat_completeness auto
termination
  by (relation "measure (\<lambda>(cp, n, i, idx, m). unat n - unat i)") (auto simp: word_less_nat_alt)

definition ptrs_copy :: "(u32 \<Rightarrow> u32 \<Rightarrow> 'm \<Rightarrow> 'm option) \<Rightarrow> u32 \<Rightarrow> u32 \<Rightarrow> u32 \<Rightarrow> u32 \<Rightarrow> 'm \<Rightarrow> 'm option" where
  "ptrs_copy cp sz msk head n m =
     (let idx = head AND msk in
      if idx + n < sz then do {
        s \<leftarrow> ptrs_by_4 cp n 0 idx m;
        (i, idx, m) \<leftarrow> ptrs_switch cp n s;
        Some m
      } else do {
        (i, idx, m) \<leftarrow> ptrs_to_end cp sz 0 idx m;
        (i, idx, m) \<leftarrow> ptrs_from_start cp n i 0 m;
        Some m
      })"

definition ENQUEUE_PTRS :: "'a ringbuf \<Rightarrow> 'a list \<Rightarrow> u32 \<Rightarrow> u32 \<Rightarrow> u32 \<Rightarrow> 'a list option" where
  "ENQUEUE_PTRS r obj_table msk head n =
     ptrs_copy (\<lambda>i idx m. do { v \<leftarrow> load_at obj_table (unat i); store_at m (unat idx) v })
       (prod_size r) msk head n (ring r)"

definition DEQUEUE_PTRS :: "'a ringbuf \<Rightarrow> 'a list \<Rightarrow> u32 \<Rightarrow> u32 \<Rightarrow> u32 \<Rightarrow> 'a list option" where
  "DEQUEUE_PTRS r obj_table msk head n =
     ptrs_copy (\<lambda>i idx m. do { v \<leftarrow> load_at (ring r) (unat idx); store_at m (unat i) v })
       (cons_size r) msk head n obj_table"

section \<open>Operations\<close>

definition ringbuffer_sp_do_enqueue :: "'a ringbuf \<Rightarrow> 'a list \<Rightarrow> u32 \<Rightarrow> (int \<times> 'a ringbuf) option" where
  "ringbuffer_sp_do_enqueue r obj_table n =
     (let msk = prod_mask r; head = prod_head r; cons_tail = cons_tail r;
          free_entries = msk + cons_tail - head
      in if n > free_entries then Some (- ENOBUFS, r)
      else let prod_next = head + n; r1 = r\<lparr>prod_head := prod_next\<rparr> in do {
        cells \<leftarrow> ENQUEUE_PTRS r1 obj_table msk head n;
        Some (if (msk + 1) - free_entries + n > prod_watermark r1 then - EDQUOT else 0,
              r1\<lparr>ring := cells, prod_tail := prod_next\<rparr>)
      })"

definition ringbuffer_sc_do_dequeue :: "'a ringbuf \<Rightarrow> 'a list \<Rightarrow> u32 \<Rightarrow> (int \<times> 'a list \<times> 'a ringbuf) option" where
  "ringbuffer_sc_do_dequeue r obj_table n =
     (let msk = prod_mask r; head = cons_head r; prod_tail = prod_tail r;
          entries = prod_tail - head
      in if n > entries then Some (- ENOENT, obj_table, r)
      else let cons_next = head + n; r1 = r\<lparr>cons_head := cons_next\<rparr> in do {
        tbl \<leftarrow> DEQUEUE_PTRS r1 obj_table msk head n;
        Some (0, tbl, r1\<lparr>cons_tail := cons_next\<rparr>)
      })"

definition ringbuf_sp_enqueue :: "'a ringbuf \<Rightarrow> 'a \<Rightarrow> (int \<times> 'a ringbuf) option" where
  "ringbuf_sp_enqueue r obj = ringbuffer_sp_do_enqueue r [obj] 1"

text \<open>\<open>obj\<close> is the caller's variable behind \<open>obj_p\<close> before the call.\<close>

definition ringbuf_sc_dequeue :: "'a ringbuf \<Rightarrow> 'a \<Rightarrow> (int \<times> 'a list \<times> 'a ringbuf) option" where
  "ringbuf_sc_dequeue r obj = ringbuffer_sc_do_dequeue r [obj] 1"

definition ringbuf_is_full :: "'a ringbuf \<Rightarrow> bool" where
  "ringbuf_is_full r \<longleftrightarrow> (cons_tail r - prod_tail r - 1) AND prod_mask r = 0"

definition ringbuf_is_empty :: "'a ringbuf \<Rightarrow> bool" where
  "ringbuf_is_empty r \<longleftrightarrow> cons_tail r = prod_tail r"

section \<open>Specification\<close>

text \<open>
  The well-formed rings between operations, the queue a ring stands for and its capacity. The
  counters run freely modulo \<open>2 ^ 32\<close>: only their difference is bounded.
\<close>

definition ringbuf_inv :: "'a ringbuf \<Rightarrow> bool" where
  "ringbuf_inv r \<longleftrightarrow> (\<exists>k < 32. length (ring r) = 2 ^ k \<and> prod_size r = 2 ^ k \<and> cons_size r = 2 ^ k \<and>
     prod_mask r = 2 ^ k - 1 \<and> cons_mask r = 2 ^ k - 1) \<and>
     prod_head r = prod_tail r \<and> cons_head r = cons_tail r \<and>
     unat (prod_tail r - cons_tail r) < length (ring r)"

definition ringbuf_contents :: "'a ringbuf \<Rightarrow> 'a list" where
  "ringbuf_contents r =
     map (\<lambda>j. ring r ! ((unat (cons_tail r) + j) mod length (ring r))) [0..<unat (prod_tail r - cons_tail r)]"

definition ringbuf_capacity :: "'a ringbuf \<Rightarrow> nat" where
  "ringbuf_capacity r = length (ring r) - 1"

text \<open>
  The two operations as a client of a queue sees them: refused, or done.
\<close>

definition ring_enq :: "'a \<Rightarrow> 'a ringbuf \<Rightarrow> 'a ringbuf option" where
  "ring_enq x r = (case ringbuf_sp_enqueue r x of None \<Rightarrow> None
     | Some (rc, r') \<Rightarrow> if rc = - ENOBUFS then None else Some r')"

definition ring_deq :: "'a \<Rightarrow> 'a ringbuf \<Rightarrow> ('a \<times> 'a ringbuf) option" where
  "ring_deq obj r = (case ringbuf_sc_dequeue r obj of None \<Rightarrow> None
     | Some (rc, tbl, r') \<Rightarrow> if rc = 0 then Some (tbl ! 0, r') else None)"

text \<open>
  The reference copy: \<open>c\<close> assignments, one after the other, from position \<open>j\<close> on.
\<close>

primrec copies :: "(nat \<Rightarrow> 'm \<Rightarrow> 'm option) \<Rightarrow> nat \<Rightarrow> nat \<Rightarrow> 'm \<Rightarrow> 'm option" where
  "copies act j 0 m = Some m"
| "copies act j (Suc c) m = Option.bind (act j m) (copies act (Suc j) c)"

abbreviation cp_from where "cp_from cp b \<equiv> (\<lambda>j. cp (of_nat j :: u32) (b + of_nat j :: u32))"
abbreviation at_from where "at_from b q \<equiv> map_option (\<lambda>m. (of_nat q :: u32, b + of_nat q :: u32, m))"

abbreviation put_cell :: "'a list \<Rightarrow> nat \<Rightarrow> nat \<Rightarrow> nat \<Rightarrow> 'a list \<Rightarrow> 'a list option" where
  "put_cell tbl h N \<equiv> (\<lambda>j m. do { v \<leftarrow> load_at tbl j; store_at m ((h + j) mod N) v })"

abbreviation get_cell :: "'a list \<Rightarrow> nat \<Rightarrow> nat \<Rightarrow> nat \<Rightarrow> 'a list \<Rightarrow> 'a list option" where
  "get_cell cells h N \<equiv> (\<lambda>j m. do { v \<leftarrow> load_at cells ((h + j) mod N); store_at m j v })"

section \<open>The copy macros are the reference copy\<close>

declare ptrs_by_4.simps [simp del] ptrs_to_end.simps [simp del] ptrs_from_start.simps [simp del]

lemma unat_and_not_3: "unat (n AND - 4) = 4 * (unat n div 4)" for n :: u32
proof -
  have s: "Suc (Suc (k - 2)) = k" if "2 \<le> k" for k :: nat using that by simp
  have "n AND NOT (mask 2) = push_bit 2 (drop_bit 2 n)"
    by (rule bit_word_eqI) (auto simp: bit_simps s not_less)
  then have e: "n AND - 4 = push_bit 2 (drop_bit 2 n)"
    by (simp add: mask_eq_exp_minus_1)
  have n: "unat n < 2 ^ LENGTH(32)" by (rule unsigned_less)
  then have b: "4 * (unat n div 4) < 2 ^ 32" by simp
  have "unat (push_bit 2 (drop_bit 2 n)) = take_bit 32 (4 * (unat n div 4))"
    by (simp only: unsigned_push_bit_eq unsigned_drop_bit_eq)
      (use n in \<open>simp add: push_bit_eq_mult drop_bit_eq_div mult.commute take_bit_nat_eq_self\<close>)
  then show ?thesis unfolding e using b by (simp only: take_bit_nat_eq_self)
qed

lemma unat_and_3: "unat (n AND 3) = unat n mod 4" for n :: u32
  using unat_and_mask_eq [of n 2] by simp

lemma copies_add: "copies act j (c + d) m = Option.bind (copies act j c m) (copies act (j + c) d)"
  by (induction c arbitrary: j m) (auto simp: bind_eq_None_conv split: bind_splits)

lemma copies_cong:
  "(\<And>i m. j \<le> i \<Longrightarrow> i < j + c \<Longrightarrow> act i m = act' i m) \<Longrightarrow> copies act j c m = copies act' j c m"
  by (induction c arbitrary: j m) (auto split: bind_splits)

lemma ptrs_by_4_copies:
  "j + 4 * d = 4 * (unat n div 4) \<Longrightarrow>
   ptrs_by_4 cp n (of_nat j) (b + of_nat j) m = at_from b (j + 4 * d) (copies (cp_from cp b) j (4 * d) m)"
proof (induction d arbitrary: j m)
  case 0
  have "of_nat (unat (n AND - 4)) = (n AND - 4)" by simp
  with 0 have "of_nat j = (n AND - 4)" by (simp only: unat_and_not_3 mult_0_right add_0_right)
  then show ?case by (subst ptrs_by_4.simps) simp
next
  case (Suc d)
  from Suc.prems have "unat (of_nat j :: u32) < 4 * (unat n div 4)"
    using unat_below [of n] by (simp add: unat_of_nat)
  then have l: "of_nat j < (n AND - 4)"
    by (simp only: word_less_nat_alt unat_and_not_3)
  have e: "4 * Suc d = Suc (Suc (Suc (Suc (4 * d))))" by simp
  have "Suc (Suc (Suc (Suc j))) + 4 * d = 4 * (unat n div 4)" using Suc.prems by simp
  note IH = Suc.IH [OF this]
  show ?case unfolding e
    by (subst ptrs_by_4.simps) (use l IH in \<open>simp add: algebra_simps split: bind_splits\<close>)
qed

lemma ptrs_switch_copies:
  "ptrs_switch cp n (of_nat j, b + of_nat j, m) =
     at_from b (j + unat n mod 4) (copies (cp_from cp b) j (unat n mod 4) m)"
proof -
  have c: "(n AND 3 = 1) = (unat n mod 4 = Suc 0)" "(n AND 3 = 2) = (unat n mod 4 = Suc (Suc 0))"
    "(n AND 3 = 3) = (unat n mod 4 = Suc (Suc (Suc 0)))"
    by (auto simp: word_unat_eq_iff unat_and_3)
  have "unat n mod 4 < 4" by simp
  then consider "unat n mod 4 = 0" | "unat n mod 4 = Suc 0" | "unat n mod 4 = Suc (Suc 0)"
    | "unat n mod 4 = Suc (Suc (Suc 0))" by linarith
  then show ?thesis
    by cases (simp_all add: ptrs_switch_def Let_def c ptrs_one_def algebra_simps split: bind_splits)
qed

lemma ptrs_to_end_copies:
  "unat b + j + d = unat sz \<Longrightarrow>
   ptrs_to_end cp sz (of_nat j) (b + of_nat j) m = at_from b (j + d) (copies (cp_from cp b) j d m)"
proof (induction d arbitrary: j m)
  case 0
  then have "of_nat (unat b + j) = (of_nat (unat sz) :: u32)" by simp
  then have "b + of_nat j = sz" by simp
  then show ?case by (subst ptrs_to_end.simps) simp
next
  case (Suc d)
  then have "b + of_nat j < sz"
    using unat_below [of sz] by (simp add: word_less_nat_alt unat_word_ariths unat_of_nat)
  with Suc.prems Suc.IH [of "Suc j"] show ?case
    by (subst ptrs_to_end.simps) (simp add: algebra_simps split: bind_splits)
qed

lemma ptrs_from_start_copies:
  "j + d = unat n \<Longrightarrow>
   ptrs_from_start cp n (of_nat j) (b + of_nat j) m = at_from b (j + d) (copies (cp_from cp b) j d m)"
proof (induction d arbitrary: j m)
  case 0
  then show ?case by (subst ptrs_from_start.simps) auto
next
  case (Suc d)
  then have "of_nat j < n"
    using unat_below [of n] by (simp add: word_less_nat_alt unat_word_ariths unat_of_nat)
  with Suc.prems Suc.IH [of "Suc j"] show ?case
    by (subst ptrs_from_start.simps) (simp add: algebra_simps split: bind_splits)
qed

lemma ptrs_unrolled_copies:
  "Option.bind (ptrs_by_4 cp n 0 b m) (ptrs_switch cp n) = at_from b (unat n) (copies (cp_from cp b) 0 (unat n) m)"
proof -
  define q where "q = 4 * (unat n div 4)"
  have n: "unat n = q + unat n mod 4" by (simp add: q_def)
  have "ptrs_by_4 cp n 0 b m = at_from b q (copies (cp_from cp b) 0 q m)"
    using ptrs_by_4_copies [of 0 "unat n div 4" n cp b m] by (simp only: q_def) simp
  moreover have "Option.bind (at_from b q x) (ptrs_switch cp n) =
    at_from b (unat n) (Option.bind x (copies (cp_from cp b) q (unat n mod 4)))" for x
    using n by (cases x) (simp_all add: ptrs_switch_copies del: of_nat_add)
  ultimately show ?thesis by (subst (2) n) (simp add: copies_add)
qed

lemma ptrs_copy_copies:
  assumes k: "k < 32" and sz: "sz = 2 ^ k" and msk: "msk = 2 ^ k - 1" and n: "n \<le> msk"
  shows "ptrs_copy cp sz msk head n m =
    copies (\<lambda>j. cp (of_nat j) (of_nat ((unat head + j) mod 2 ^ k))) 0 (unat n) m"
proof -
  let ?b = "head AND msk" and ?act = "\<lambda>j. cp (of_nat j) (of_nat ((unat head + j) mod 2 ^ k) :: u32)"
  have b: "unat ?b = unat head mod 2 ^ k" by (simp add: msk unat_and_mask_eq)
  have usz: "unat sz = 2 ^ k" using k by (simp add: sz unat_pow2)
  have "unat n \<le> 2 ^ k - 1" using n k by (simp add: msk word_le_nat_alt unat_pow2_minus_1)
  then have un: "unat n < 2 ^ k" using zero_less_power [of "2::nat" k] by linarith
  have bk: "unat ?b < 2 ^ k" by (simp add: b)
  have k2: "(2::nat) ^ Suc k \<le> 2 ^ 32" using k by (intro power_increasing) auto
  have sum: "unat (?b + n) = unat ?b + unat n"
    using bk un k2 by (intro unat_add_no_wrap) simp
  have lo: "cp_from cp ?b j = ?act j" if "unat ?b + j < 2 ^ k" for j
  proof -
    have "(unat head + j) mod 2 ^ k = unat ?b + j"
      using that b by (metis mod_add_left_eq mod_less)
    then show ?thesis by simp
  qed
  have hi: "cp (of_nat j) (of_nat j - of_nat d) = ?act j"
    if "unat ?b + d = 2 ^ k" "d \<le> j" "j < d + 2 ^ k" for j d
  proof -
    have "unat ?b + j = 2 ^ k + (j - d)" using that by linarith
    moreover have "j - d < 2 ^ k" using that by linarith
    ultimately have "(unat ?b + j) mod 2 ^ k = j - d" by (simp only: mod_add_self1 mod_less)
    then have "(unat head + j) mod 2 ^ k = j - d" by (simp add: b mod_add_left_eq)
    with that show ?thesis by simp
  qed
  show ?thesis
  proof (cases "?b + n < sz")
    case True
    then have "unat ?b + unat n < 2 ^ k" by (simp add: word_less_nat_alt sum usz)
    then have c: "copies (cp_from cp ?b) 0 (unat n) m = copies ?act 0 (unat n) m"
      by (intro copies_cong) (simp add: lo)
    have "ptrs_copy cp sz msk head n m = 
       map_option (\<lambda>(i, idx, m). m) (Option.bind (ptrs_by_4 cp n 0 ?b m) (ptrs_switch cp n))"
      using True by (auto simp add: ptrs_copy_def Let_def split: bind_splits)
    with c show ?thesis by (simp add: ptrs_unrolled_copies option.map_comp comp_def option.map_ident)
  next
    case False
    then have "2 ^ k \<le> unat ?b + unat n" by (simp add: word_less_nat_alt sum usz)
    then obtain d e where d: "unat ?b + d = 2 ^ k" and e: "unat n = d + e"
      using bk by (metis add_le_cancel_left le_add_diff_inverse less_imp_le_nat)
    have 1: "ptrs_to_end cp sz 0 ?b m = at_from ?b d (copies ?act 0 d m)"
    proof -
      have "copies (cp_from cp ?b) 0 d m = copies ?act 0 d m"
        using d by (intro copies_cong) (simp add: lo)
      then show ?thesis using ptrs_to_end_copies [of ?b 0 d sz cp m] d usz by simp
    qed
    have 2: "ptrs_from_start cp n (of_nat d) 0 x = at_from (- of_nat d) (d + e) (copies ?act d e x)" for x
    proof -
      have "copies (cp_from cp (- of_nat d)) d e x = copies ?act d e x"
        using d e un by (intro copies_cong) (simp add: hi)
      then show ?thesis using ptrs_from_start_copies [of d e n cp "- of_nat d" x] e by simp
    qed
    have "ptrs_copy cp sz msk head n m = Option.bind (ptrs_to_end cp sz 0 ?b m)
        (\<lambda>(i, idx, m). map_option (\<lambda>(i, idx, m). m) (ptrs_from_start cp n i 0 m))"
      using False by (auto simp: ptrs_copy_def Let_def split: bind_splits)
    also have "\<dots> = Option.bind (copies ?act 0 d m) (copies ?act d e)"
      unfolding 1 by (cases "copies ?act 0 d m") (simp_all add: 2 option.map_comp comp_def option.map_ident del: of_nat_add)
    finally have "ptrs_copy cp sz msk head n m = Option.bind (copies ?act 0 d m) (copies ?act d e)" .
    then show ?thesis by (simp add: e copies_add)
  qed
qed

section \<open>What a copy does to the ring and to the table\<close>

lemma copies_Suc: "copies act 0 (Suc c) m = Option.bind (copies act 0 c m) (act c)"
  using copies_add [of act 0 c 1 m]
  by (cases "copies act 0 c m"; cases "act c (the (copies act 0 c m))") simp_all

declare copies.simps(2) [simp del]

lemma copies_into_ring:
  assumes "c \<le> length tbl" "c \<le> N" "length cells = N"
  shows "\<exists>cells'. copies (put_cell tbl h N) 0 c cells = Some cells' \<and> length cells' = N \<and>
    (\<forall>d < N. cells' ! ((h + d) mod N) = (if d < c then tbl ! d else cells ! ((h + d) mod N)))"
  using assms
proof (induction c)
  case 0
  then show ?case by simp
next
  case (Suc c)
  then obtain m where m: "copies (put_cell tbl h N) 0 c cells = Some m" "length m = N"
    "\<forall>d < N. m ! ((h + d) mod N) = (if d < c then tbl ! d else cells ! ((h + d) mod N))"
    by auto
  have lt: "(h + c) mod N < N" using Suc.prems by (intro mod_less_divisor) auto
  show ?case
  proof (intro exI conjI allI impI)
    show "copies (put_cell tbl h N) 0 (Suc c) cells = Some (m[(h + c) mod N := tbl ! c])"
      using Suc.prems lt m by (simp add: copies_Suc)
  next
    fix d assume "d < N"
    then show "m[(h + c) mod N := tbl ! c] ! ((h + d) mod N) =
      (if d < Suc c then tbl ! d else cells ! ((h + d) mod N))"
      using Suc.prems lt m by (auto simp: nth_list_update add_mod_eq_iff less_Suc_eq)
  qed (simp add: m)
qed

lemma copies_from_ring:
  assumes "c \<le> length tbl" "length cells = N" "0 < N"
  shows "copies (get_cell cells h N) 0 c tbl =
    Some (map (\<lambda>j. cells ! ((h + j) mod N)) [0..<c] @ drop c tbl)"
  using assms
proof (induction c)
  case 0
  then show ?case by simp
next
  case (Suc c)
  then have "(h + c) mod N < N" by (intro mod_less_divisor)
  with Suc show ?case
    by (simp add: copies_Suc list_update_append flip: Cons_nth_drop_Suc)
qed
lemma ENQUEUE_PTRS_cells:
  assumes k: "k < 32" "length (ring r) = 2 ^ k" "prod_size r = 2 ^ k" "msk = 2 ^ k - 1"
    and n: "n \<le> msk" "unat n \<le> length tbl"
  shows "\<exists>cells'. ENQUEUE_PTRS r tbl msk head n = Some cells' \<and> length cells' = 2 ^ k \<and>
    (\<forall>d < 2 ^ k. cells' ! ((unat head + d) mod 2 ^ k) =
      (if d < unat n then tbl ! d else ring r ! ((unat head + d) mod 2 ^ k)))"
proof -
  have "unat n \<le> 2 ^ k - 1" using n k by (simp add: word_le_nat_alt unat_pow2_minus_1)
  then have un: "unat n < 2 ^ k" using zero_less_power [of "2::nat" k] by linarith
  have "ENQUEUE_PTRS r tbl msk head n = copies (put_cell tbl (unat head) (2 ^ k)) 0 (unat n) (ring r)"
    unfolding ENQUEUE_PTRS_def using k un
    by (subst ptrs_copy_copies [OF k(1,3,4) n(1)], intro copies_cong) (simp add: unat_of_small)
  with copies_into_ring [of "unat n" tbl "2 ^ k" "ring r" "unat head"] k un n show ?thesis by simp
qed

lemma DEQUEUE_PTRS_cells:
  assumes k: "k < 32" "length (ring r) = 2 ^ k" "cons_size r = 2 ^ k" "msk = 2 ^ k - 1"
    and n: "n \<le> msk" "unat n \<le> length tbl"
  shows "DEQUEUE_PTRS r tbl msk head n =
    Some (map (\<lambda>j. ring r ! ((unat head + j) mod 2 ^ k)) [0..<unat n] @ drop (unat n) tbl)"
proof -
  have "unat n \<le> 2 ^ k - 1" using n k by (simp add: word_le_nat_alt unat_pow2_minus_1)
  then have un: "unat n < 2 ^ k" using zero_less_power [of "2::nat" k] by linarith
  have "DEQUEUE_PTRS r tbl msk head n = copies (get_cell (ring r) (unat head) (2 ^ k)) 0 (unat n) tbl"
    unfolding DEQUEUE_PTRS_def using k un
    by (subst ptrs_copy_copies [OF k(1,3,4) n(1)], intro copies_cong) (simp add: unat_of_small)
  with copies_from_ring [of "unat n" tbl "ring r" "2 ^ k" "unat head"] k n show ?thesis by simp
qed

lemma ringbuf_cells:
  "map (\<lambda>j. cells ! ((h + j) mod N)) [0..<u + c] =
   map (\<lambda>j. cells ! ((h + j) mod N)) [0..<u] @ map (\<lambda>j. cells ! ((h + u + j) mod N)) [0..<c]"
  by (auto simp: list_eq_iff_nth_eq nth_append add.assoc)

lemma ringbuf_free_entries:
  assumes "ringbuf_inv r"
  shows "unat (prod_mask r + cons_tail r - prod_head r) = ringbuf_capacity r - length (ringbuf_contents r)"
    "length (ringbuf_contents r) \<le> ringbuf_capacity r"
proof -
  from assms obtain k where k: "k < 32" "length (ring r) = 2 ^ k" "prod_mask r = 2 ^ k - 1"
    and p: "prod_head r = prod_tail r" and u: "unat (prod_tail r - cons_tail r) < 2 ^ k"
    by (auto simp: ringbuf_inv_def)
  then show le: "length (ringbuf_contents r) \<le> ringbuf_capacity r"
    by (simp add: ringbuf_contents_def ringbuf_capacity_def)
  have "prod_mask r + cons_tail r - prod_head r = prod_mask r - (prod_tail r - cons_tail r)"
    by (simp add: p)
  then show "unat (prod_mask r + cons_tail r - prod_head r) = ringbuf_capacity r - length (ringbuf_contents r)"
    using k u le by (simp only:) (simp add: unat_sub_le unat_pow2_minus_1 ringbuf_contents_def ringbuf_capacity_def)
qed

lemma enqueue_refused:
  assumes "ringbuf_inv r" "ringbuf_capacity r - length (ringbuf_contents r) < unat n"
  shows "ringbuffer_sp_do_enqueue r tbl n = Some (- ENOBUFS, r)"
  using assms ringbuf_free_entries [OF assms(1)]
  by (simp add: ringbuffer_sp_do_enqueue_def word_less_nat_alt)

lemma enqueue_accepted:
  assumes inv: "ringbuf_inv r" and fits: "length (ringbuf_contents r) + unat n \<le> ringbuf_capacity r"
    and tbl: "unat n \<le> length tbl"
  shows "\<exists>r'. ringbuffer_sp_do_enqueue r tbl n =
      Some (if unat (prod_watermark r) \<le> length (ringbuf_contents r) + unat n then - EDQUOT else 0, r') \<and>
    ringbuf_inv r' \<and> ringbuf_contents r' = ringbuf_contents r @ take (unat n) tbl \<and>
    ringbuf_capacity r' = ringbuf_capacity r \<and> prod_watermark r' = prod_watermark r"
proof -
  from inv obtain k where k: "k < 32" "length (ring r) = 2 ^ k" "prod_size r = 2 ^ k" "cons_size r = 2 ^ k"
      "prod_mask r = 2 ^ k - 1" "cons_mask r = 2 ^ k - 1"
    and p: "prod_head r = prod_tail r" "cons_head r = cons_tail r"
    and u: "unat (prod_tail r - cons_tail r) < 2 ^ k"
    by (auto simp: ringbuf_inv_def)
  let ?u = "prod_tail r - cons_tail r" and ?free = "prod_mask r + cons_tail r - prod_head r"
  have free: "unat ?free = 2 ^ k - 1 - unat ?u"
    using ringbuf_free_entries(1) [OF inv] k by (simp add: ringbuf_contents_def ringbuf_capacity_def)
  have n: "unat ?u + unat n < 2 ^ k" 
    using fits k by (simp add: ringbuf_contents_def ringbuf_capacity_def)
  then have nf: "\<not> ?free < n" by (simp add: word_less_nat_alt free)
  have nm: "n \<le> prod_mask r" using n k by (simp add: word_le_nat_alt unat_pow2_minus_1)
  have k2: "(2::nat) ^ k \<le> 2 ^ 31" using k by (intro power_increasing) auto
  let ?r1 = "r\<lparr>prod_head := prod_head r + n\<rparr>"
  obtain cells where cells: "ENQUEUE_PTRS ?r1 tbl (prod_mask r) (prod_head r) n = Some cells"
    "length cells = 2 ^ k"
    "\<forall>d < 2 ^ k. cells ! ((unat (prod_tail r) + d) mod 2 ^ k) =
      (if d < unat n then tbl ! d else ring r ! ((unat (prod_tail r) + d) mod 2 ^ k))"
    using ENQUEUE_PTRS_cells [of k ?r1 "prod_mask r" n tbl "prod_head r"] k nm tbl by (auto simp: p)
  have "unat (prod_tail r) mod 2 ^ k = (unat (cons_tail r) + unat ?u) mod 2 ^ k"
    using wrap_mod_pow2 [of k "cons_tail r" "unat ?u"] k by simp
  then have pt: "(unat (prod_tail r) + d) mod 2 ^ k = (unat (cons_tail r) + unat ?u + d) mod 2 ^ k" for d
    by (rule mod_add_cong) simp
  have old: "cells ! ((unat (cons_tail r) + i) mod 2 ^ k) = ring r ! ((unat (cons_tail r) + i) mod 2 ^ k)"
    if "i < unat ?u" for i
  proof -
    have "unat (cons_tail r) + unat ?u + (2 ^ k - unat ?u + i) = 2 ^ k + (unat (cons_tail r) + i)"
      using u by linarith
    then have "(unat (prod_tail r) + (2 ^ k - unat ?u + i)) mod 2 ^ k = (unat (cons_tail r) + i) mod 2 ^ k"
      unfolding pt by (simp only: mod_add_self1)
    moreover have "2 ^ k - unat ?u + i < 2 ^ k" "\<not> 2 ^ k - unat ?u + i < unat n" using that n by linarith+
    ultimately show ?thesis using cells(3) by metis
  qed
  have new: "cells ! ((unat (cons_tail r) + unat ?u + i) mod 2 ^ k) = tbl ! i" if "i < unat n" for i
    using cells(3) [rule_format, of i] that n unfolding pt by simp
  let ?r' = "?r1\<lparr>ring := cells, prod_tail := prod_head r + n\<rparr>"
  have un: "unat (prod_head r + n - cons_tail r) = unat ?u + unat n"
  proof -
    have "prod_head r + n - cons_tail r = ?u + n" by (simp add: p)
    moreover have "unat (?u + n) = unat ?u + unat n" using n k2 by (intro unat_add_no_wrap) simp
    ultimately show ?thesis by (simp only:)
  qed
  have inv': "ringbuf_inv ?r'"
    using k p n un cells(2) by (auto simp: ringbuf_inv_def)
  have "map (\<lambda>j. tbl ! j) [0..<unat n] = take (unat n) tbl"
    using tbl by (simp add: list_eq_iff_nth_eq)
  moreover have "map (\<lambda>j. cells ! ((unat (cons_tail r) + unat ?u + j) mod 2 ^ k)) [0..<unat n] =
      map (\<lambda>j. tbl ! j) [0..<unat n]"
    using new by (intro map_cong) simp_all
  ultimately have c': "ringbuf_contents ?r' = ringbuf_contents r @ take (unat n) tbl"
    by (simp add: ringbuf_contents_def un ringbuf_cells cells(2) k(2) old)
  have "unat (prod_mask r + 1 - ?free + n) = Suc (unat ?u + unat n)"
  proof -
    have "prod_mask r + 1 - ?free + n = ?u + n + 1" by (simp add: p)
    then show ?thesis using n k2 by (simp add: unat_word_ariths)
  qed
  then have "prod_watermark r < prod_mask r + 1 - ?free + n \<longleftrightarrow>
      unat (prod_watermark r) \<le> length (ringbuf_contents r) + unat n"
    by (simp add: word_less_nat_alt ringbuf_contents_def less_Suc_eq_le)
  with nf cells(1) have "ringbuffer_sp_do_enqueue r tbl n =
      Some (if unat (prod_watermark r) \<le> length (ringbuf_contents r) + unat n then - EDQUOT else 0, ?r')"
    by (simp add: ringbuffer_sp_do_enqueue_def Let_def)
  with inv' c' cells(2) k(2) show ?thesis by (auto simp: ringbuf_capacity_def)
qed

lemma dequeue_refused:
  assumes "ringbuf_inv r" "length (ringbuf_contents r) < unat n"
  shows "ringbuffer_sc_do_dequeue r tbl n = Some (- ENOENT, tbl, r)"
  using assms
  by (auto simp: ringbuffer_sc_do_dequeue_def word_less_nat_alt ringbuf_inv_def ringbuf_contents_def)

lemma dequeue_accepted:
  assumes inv: "ringbuf_inv r" and n: "unat n \<le> length (ringbuf_contents r)" and tbl: "unat n \<le> length tbl"
  shows "\<exists>r'. ringbuffer_sc_do_dequeue r tbl n =
      Some (0, take (unat n) (ringbuf_contents r) @ drop (unat n) tbl, r') \<and>
    ringbuf_inv r' \<and> ringbuf_contents r' = drop (unat n) (ringbuf_contents r) \<and>
    ringbuf_capacity r' = ringbuf_capacity r \<and> prod_watermark r' = prod_watermark r"
proof -
  from inv obtain k where k: "k < 32" "length (ring r) = 2 ^ k" "prod_size r = 2 ^ k" "cons_size r = 2 ^ k"
      "prod_mask r = 2 ^ k - 1" "cons_mask r = 2 ^ k - 1"
    and p: "prod_head r = prod_tail r" "cons_head r = cons_tail r"
    and u: "unat (prod_tail r - cons_tail r) < 2 ^ k"
    by (auto simp: ringbuf_inv_def)
  let ?u = "prod_tail r - cons_tail r"
  have nu: "unat n \<le> unat ?u" using n by (simp add: ringbuf_contents_def)
  then have nm: "n \<le> prod_mask r" using u k by (simp add: word_le_nat_alt unat_pow2_minus_1)
  let ?r1 = "r\<lparr>cons_head := cons_head r + n\<rparr>"
  let ?r' = "?r1\<lparr>cons_tail := cons_head r + n\<rparr>"
  have "DEQUEUE_PTRS ?r1 tbl (prod_mask r) (cons_head r) n =
      Some (take (unat n) (ringbuf_contents r) @ drop (unat n) tbl)"
    using DEQUEUE_PTRS_cells [of k ?r1 "prod_mask r" n tbl "cons_head r"] k nm tbl nu
    by (simp add: p ringbuf_contents_def take_map)
  then have "ringbuffer_sc_do_dequeue r tbl n =
      Some (0, take (unat n) (ringbuf_contents r) @ drop (unat n) tbl, ?r')"
    using nu by (simp add: ringbuffer_sc_do_dequeue_def Let_def p word_less_nat_alt)
  moreover have un: "unat (prod_tail r - (cons_tail r + n)) = unat ?u - unat n"
    using unat_sub_le [OF nu] by (simp add: algebra_simps)
  moreover have "ringbuf_inv ?r'" using k p u un by (auto simp: ringbuf_inv_def)
  moreover have "ringbuf_contents ?r' = drop (unat n) (ringbuf_contents r)"
  proof -
    have "(unat (cons_tail r + n) + i) mod 2 ^ k = (unat (cons_tail r) + (unat n + i)) mod 2 ^ k" for i
      using wrap_mod_pow2 [of k "cons_tail r" "unat n"] k
      by (subst add.assoc [symmetric], intro mod_add_cong) simp_all
    then show ?thesis
      using nu by (auto simp: ringbuf_contents_def un p k(2) list_eq_iff_nth_eq)
  qed
  ultimately show ?thesis by (auto simp: ringbuf_capacity_def)
qed

interpretation ring_fifo: bounded_fifo ringbuf_inv ringbuf_contents ringbuf_capacity ring_enq "ring_deq obj"
  for obj
proof
  fix q :: "'a ringbuf" and x
  assume "ringbuf_inv q" "ringbuf_capacity q \<le> length (ringbuf_contents q)"
  then show "ring_enq x q = None"
    by (simp add: ring_enq_def ringbuf_sp_enqueue_def enqueue_refused)
next
  fix q :: "'a ringbuf" and x
  assume "ringbuf_inv q" "length (ringbuf_contents q) < ringbuf_capacity q"
  then show "\<exists>q'. ring_enq x q = Some q' \<and> ringbuf_inv q' \<and> ringbuf_contents q' = ringbuf_contents q @ [x] \<and>
      ringbuf_capacity q' = ringbuf_capacity q"
    using enqueue_accepted [of q 1 "[x]"]
    by (auto simp: ring_enq_def ringbuf_sp_enqueue_def ENOBUFS_def EDQUOT_def)
next
  fix q :: "'a ringbuf"
  assume "ringbuf_inv q" "ringbuf_contents q = []"
  then show "ring_deq obj q = None"
    by (simp add: ring_deq_def ringbuf_sc_dequeue_def dequeue_refused ENOENT_def)
next
  fix q :: "'a ringbuf" and x xs
  assume "ringbuf_inv q" "ringbuf_contents q = x # xs"
  then show "\<exists>q'. ring_deq obj q = Some (x, q') \<and> ringbuf_inv q' \<and> ringbuf_contents q' = xs \<and>
      ringbuf_capacity q' = ringbuf_capacity q"
    using dequeue_accepted [of q 1 "[obj]"] by (auto simp: ring_deq_def ringbuf_sc_dequeue_def)
qed

lemma IS_POWEROF2_iff: "0 < x \<Longrightarrow> IS_POWEROF2 x \<longleftrightarrow> (\<exists>k < 32. x = 2 ^ k)"
proof
  assume "0 < x" "IS_POWEROF2 x"
  then have "0 < unat x" "unat (x - 1) = unat x - 1" "unat ((x - 1) AND x) = 0"
    by (auto simp add: IS_POWEROF2_def unat_gt_0 unat_minus_one)
  then have "0 < unat x" "(unat x - 1) AND unat x = 0" by (simp_all only: unsigned_and_eq)
  then obtain k where k: "unat x = 2 ^ k" using pred_and_zero_pow2 by blast
  then have "(2::nat) ^ k < 2 ^ 32" using unat_below [of x] by simp
  then have "k < 32" by (rule power_less_imp_less_exp [rotated]) simp
  moreover have "x = 2 ^ k" using k \<open>k < 32\<close> by (simp add: word_unat_eq_iff unat_pow2)
  ultimately show "\<exists>k < 32. x = 2 ^ k" by blast
next
  assume "\<exists>k < 32. x = 2 ^ k"
  then obtain k where "k < 32" "x = 2 ^ k" by blast
  then have "unat ((x - 1) AND x) = 0"
    by (simp only: unsigned_and_eq) (simp add: unat_pow2 unat_pow2_minus_1 pred_and_pow2 [simplified])
  then show "IS_POWEROF2 x" by (simp add: IS_POWEROF2_def word_unat_eq_iff)
qed

lemma complement_mod_64:
  fixes a b :: nat assumes "64 dvd a + b"
  shows "b mod 64 = 64 * ((a + 63) div 64) - a"
proof -
  define q r s t where "q = a div 64" and "r = a mod 64" and "s = b div 64" and "t = b mod 64"
  have a: "a = 64 * q + r" "r < 64" and b: "b = 64 * s + t" "t < 64" by (simp_all add: q_def r_def s_def t_def)
  have "a + b = 64 * (q + s) + (r + t)" using a b by simp
  then have "64 dvd r + t" using assms by (metis dvd_add_right_iff dvd_triv_left)
  then obtain c where c: "r + t = 64 * c" by (rule dvdE)
  then have "c = 0 \<or> c = 1" using a b by linarith
  then have "64 * ((a + 63) div 64) = a + t"
  proof
    assume "c = 1"
    then have "(a + 63) div 64 = q + 1" using a b c by (intro div_nat_eqI) simp_all
    then show ?thesis using a(1) c \<open>c = 1\<close> by simp
  next
    assume "c = 0"
    then have "r = 0" "t = 0" using c by simp_all
    moreover from this have "(a + 63) div 64 = q" using a by (intro div_nat_eqI) simp_all
    ultimately show ?thesis using a(1) by (simp only: add_0_right)
  qed
  then have "64 * ((a + 63) div 64) - a = t" by (simp only: add_diff_cancel_left')
  then show ?thesis by (simp only: t_def)
qed

lemma ALIGN_CEIL_64:
  assumes "unat bytes < 2 ^ 63"
  shows "unat (ALIGN_CEIL bytes 64) = 64 * ((unat bytes + 63) div 64)"
proof -
  have m: "unat (- bytes AND 63) = unat (- bytes) mod 64"
    using unat_and_mask_eq [of "- bytes" 6] by simp
  have "64 dvd unat bytes + unat (- bytes)" using unat_uminus_dvd [of 6 bytes] by simp
  then have "unat (- bytes) mod 64 = 64 * ((unat bytes + 63) div 64) - unat bytes"
    by (rule complement_mod_64)
  with m have "unat (- bytes AND 63) = 64 * ((unat bytes + 63) div 64) - unat bytes" by simp
  moreover have "unat bytes \<le> 64 * ((unat bytes + 63) div 64)"
    using mult_div_mod_eq [of 64 "unat bytes + 63"] mod_less_divisor [of 64 "unat bytes + 63"] by linarith
  ultimately have "unat bytes + unat (- bytes AND 63) = 64 * ((unat bytes + 63) div 64)" by simp
  moreover have "64 * ((unat bytes + 63) div 64) < 2 ^ 64" using assms by simp
  ultimately show ?thesis by (simp add: ALIGN_CEIL_def unat_add_no_wrap)
qed

lemma ringbuf_is_empty_iff: "ringbuf_is_empty r \<longleftrightarrow> ringbuf_contents r = []"
  by (auto simp: ringbuf_is_empty_def ringbuf_contents_def unat_eq_zero)

lemma ringbuf_is_full_iff:
  assumes "ringbuf_inv r"
  shows "ringbuf_is_full r \<longleftrightarrow> length (ringbuf_contents r) = ringbuf_capacity r"
proof -
  from assms obtain k where k: "k < 32" "length (ring r) = 2 ^ k" "prod_mask r = 2 ^ k - 1"
    and u: "unat (prod_tail r - cons_tail r) < 2 ^ k"
    by (auto simp: ringbuf_inv_def)
  let ?u = "prod_tail r - cons_tail r"
  have k2: "(2::nat) ^ k \<le> 2 ^ 31" using k by (intro power_increasing) auto
  have u1: "unat (?u + 1) = unat ?u + 1" using u k2 by (simp add: unat_word_ariths)
  have "cons_tail r - prod_tail r - 1 = - (?u + 1)" by simp
  then have "ringbuf_is_full r \<longleftrightarrow> unat (- (?u + 1)) mod 2 ^ k = 0"
    unfolding ringbuf_is_full_def by (simp add: word_unat_eq_iff k unat_and_mask_eq del: minus_add_distrib)
  also have "\<dots> \<longleftrightarrow> 2 ^ k dvd unat (?u + 1)"
  proof -
    have "2 ^ k dvd unat (?u + 1) + unat (- (?u + 1))" using k by (intro unat_uminus_dvd) simp
    then show ?thesis unfolding mod_eq_0_iff_dvd by (metis dvd_add_left_iff dvd_add_right_iff)
  qed
  also have "\<dots> \<longleftrightarrow> unat ?u + 1 = 2 ^ k"
    unfolding u1 using u by (auto dest: dvd_imp_le)
  finally show ?thesis using k by (auto simp: ringbuf_contents_def ringbuf_capacity_def)
qed
lemma ringbuf_get_memsize_pow2:
  assumes "k < 28"
  shows "ringbuf_get_memsize (2 ^ k) = int (64 * ((128 + 8 * 2 ^ k + 63) div 64))"
proof -
  have "(2::nat) ^ k \<le> 2 ^ 27" using assms by (intro power_increasing) auto
  moreover have p: "unat (2 ^ k :: u32) = 2 ^ k" using assms by (simp add: unat_pow2)
  ultimately have le: "unat (2 ^ k :: u32) \<le> 2 ^ 27" by simp
  then have 1: "\<not> RING_SIZE_MASK < 2 ^ k" by (simp add: RING_SIZE_MASK_def word_less_nat_alt)
  have 2: "IS_POWEROF2 (2 ^ k)" using assms le by (subst IS_POWEROF2_iff) (auto simp: word_less_nat_alt p intro!: exI [of _ k])
  have "unat (ucast (2 ^ k :: u32) :: u64) = 2 ^ k" using p le assms by (simp only: unsigned_ucast_eq) (simp add: take_bit_nat_eq_self)
  then have b: "unat (128 + ucast (2 ^ k :: u32) * 8 :: u64) = 128 + 8 * 2 ^ k"
    using le p by (simp add: unat_word_ariths)
  then have "unat (ALIGN_CEIL (128 + ucast (2 ^ k :: u32) * 8) 64) = 64 * ((128 + 8 * 2 ^ k + 63) div 64)"
    using le p by (subst ALIGN_CEIL_64) simp_all
  moreover from this have "unat (ALIGN_CEIL (128 + ucast (2 ^ k :: u32) * 8) 64) < 2 ^ 63" using le p by simp
  then have "sint (ALIGN_CEIL (128 + ucast (2 ^ k :: u32) * 8) 64) =
      int (unat (ALIGN_CEIL (128 + ucast (2 ^ k :: u32) * 8) 64))"
    by (rule sint_small)
  ultimately show ?thesis using 1 2 by (simp add: ringbuf_get_memsize_def)
qed

section \<open>Properties\<close>

definition demo_ring :: "nat ringbuf" where
  "demo_ring = \<lparr>prod_watermark = 4, prod_size = 4, prod_mask = 3, prod_head = 1, prod_tail = 1,
     cons_size = 4, cons_mask = 3, cons_head = 0xffffffff, cons_tail = 0xffffffff, ring = [11, 12, 13, 10]\<rparr>"

definition demo_drained :: "nat ringbuf" where
  "demo_drained = demo_ring\<lparr>prod_head := 0xffffffff, prod_tail := 0xffffffff\<rparr>"

lemma demo_ring_inv: "ringbuf_inv demo_ring"
  unfolding ringbuf_inv_def by (rule conjI, rule exI [of _ 2]) (simp_all add: demo_ring_def)

lemma demo_ring_contents: "ringbuf_contents demo_ring = [10, 11]" "ringbuf_capacity demo_ring = 3"
    "prod_watermark demo_ring = 4"
  by (simp_all add: ringbuf_contents_def demo_ring_def ringbuf_capacity_def upt_rec)

lemma demo_drained_inv: "ringbuf_inv demo_drained"
  unfolding ringbuf_inv_def
  by (rule conjI, rule exI [of _ 2]) (simp_all add: demo_drained_def demo_ring_def)

lemma demo_drained_contents: "ringbuf_contents demo_drained = []" "ringbuf_capacity demo_drained = 3"
  by (simp_all add: ringbuf_contents_def demo_drained_def demo_ring_def ringbuf_capacity_def)

text \<open>
  C1: enqueueing \<open>n\<close> objects on a well-formed ring appends exactly the first \<open>n\<close> objects of the
  caller's table to the queue, or refuses with \<open>-ENOBUFS\<close> and changes nothing when they do not fit;
  \<open>-EDQUOT\<close> is returned exactly when the objects in the ring afterwards are as many as the watermark
  or more. The comments of the code speak of the watermark being exceeded; the code already reports it when it
  is reached, because it subtracts the free entries from the size and not from the capacity. No access
  leaves the ring or the table (the result is never \<open>None\<close>), wherever the 32-bit counters stand.
\<close>

theorem ringbuf_enqueue_correct:
  assumes "ringbuf_inv r" "unat n \<le> length obj_table"
  shows "if ringbuf_capacity r < length (ringbuf_contents r) + unat n
    then ringbuffer_sp_do_enqueue r obj_table n = Some (- ENOBUFS, r)
    else \<exists>r'. ringbuffer_sp_do_enqueue r obj_table n =
        Some (if unat (prod_watermark r) \<le> length (ringbuf_contents r) + unat n then - EDQUOT else 0, r') \<and>
      ringbuf_inv r' \<and> ringbuf_contents r' = ringbuf_contents r @ take (unat n) obj_table \<and>
      ringbuf_capacity r' = ringbuf_capacity r"
  using enqueue_refused [OF assms(1), of n obj_table] enqueue_accepted [OF assms(1) _ assms(2)]
    ringbuf_free_entries(2) [OF assms(1)] by auto

theorem ringbuf_enqueue_correct_witness:
  "(\<exists>r'. ringbuffer_sp_do_enqueue demo_ring [20] 1 = Some (0, r') \<and> ringbuf_contents r' = [10, 11, 20]) \<and>
   ringbuffer_sp_do_enqueue demo_ring [20, 21] 2 = Some (- ENOBUFS, demo_ring)"
  using ringbuf_enqueue_correct [OF demo_ring_inv, of 1 "[20]"]
    ringbuf_enqueue_correct [OF demo_ring_inv, of 2 "[20, 21]"]
  by (auto simp: demo_ring_contents)

text \<open>
  C2: dequeueing \<open>n\<close> objects hands out the \<open>n\<close> oldest ones in order and leaves the rest, or refuses with
  \<open>-ENOENT\<close> and changes nothing when there are fewer. This is what the list of return values says; the
  sentence above it, that only the available objects are dequeued then, is not what the code does.
\<close>

theorem ringbuf_dequeue_correct:
  assumes "ringbuf_inv r" "unat n \<le> length obj_table"
  shows "if length (ringbuf_contents r) < unat n
    then ringbuffer_sc_do_dequeue r obj_table n = Some (- ENOENT, obj_table, r)
    else \<exists>r'. ringbuffer_sc_do_dequeue r obj_table n =
        Some (0, take (unat n) (ringbuf_contents r) @ drop (unat n) obj_table, r') \<and>
      ringbuf_inv r' \<and> ringbuf_contents r' = drop (unat n) (ringbuf_contents r) \<and>
      ringbuf_capacity r' = ringbuf_capacity r"
  using dequeue_refused [OF assms(1), of n obj_table] dequeue_accepted [OF assms(1) _ assms(2)] by auto

theorem ringbuf_dequeue_correct_witness:
  "(\<exists>r'. ringbuffer_sc_do_dequeue demo_ring [0, 0, 7] 2 = Some (0, [10, 11, 7], r') \<and> ringbuf_contents r' = []) \<and>
   ringbuffer_sc_do_dequeue demo_ring [0, 0, 7] 3 = Some (- ENOENT, [0, 0, 7], demo_ring)"
  using ringbuf_dequeue_correct [OF demo_ring_inv, of 2 "[0, 0, 7]"]
    ringbuf_dequeue_correct [OF demo_ring_inv, of 3 "[0, 0, 7]"]
  by (auto simp: demo_ring_contents)

text \<open>
  creation with a positive count succeeds exactly on powers of two within the size limit; the
  ring is then well-formed and empty, holds one object less than its size, has its watermark disabled,
  and the byte count asked from the allocator is cache-line aligned and covers header and table.
\<close>

theorem ringbuf_create_correct:
  assumes cnt: "0 < cnt" and blk: "length (ring blk) = unat cnt"
  shows "case ringbuf_create (Some blk) cnt of
      None \<Rightarrow> ringbuf_get_memsize cnt = - EINVAL \<and> (RING_SIZE_MASK < cnt \<or> (\<nexists>k. k < 32 \<and> cnt = 2 ^ k))
    | Some r \<Rightarrow> ringbuf_inv r \<and> ringbuf_contents r = [] \<and> ringbuf_capacity r = unat cnt - 1 \<and>
        prod_watermark r = cnt \<and>
        64 dvd ringbuf_get_memsize cnt \<and> 128 + 8 * int (unat cnt) \<le> ringbuf_get_memsize cnt"
proof (cases "RING_SIZE_MASK < cnt \<or> (\<nexists>k. k < 32 \<and> cnt = 2 ^ k)")
  case True
  then have "ringbuf_get_memsize cnt = - EINVAL"
    using IS_POWEROF2_iff [OF cnt] by (auto simp: ringbuf_get_memsize_def)
  with True show ?thesis by (auto simp: ringbuf_create_def EINVAL_def)
next
  case False
  then obtain k where "k < 32" "cnt = 2 ^ k" by auto
  moreover from False have "unat cnt \<le> 0x0fffffff" by (simp add: RING_SIZE_MASK_def word_less_nat_alt)
  ultimately have k: "k < 32" "cnt = 2 ^ k" "unat cnt \<le> 0x0fffffff" by simp_all
  have "k < 28"
  proof (rule ccontr)
    assume "\<not> k < 28"
    then have "(2::nat) ^ 28 \<le> 2 ^ k" by (intro power_increasing) auto
    with k show False by (simp add: unat_pow2)
  qed
  have m: "ringbuf_get_memsize cnt = int (64 * ((128 + 8 * 2 ^ k + 63) div 64))"
    unfolding k(2) by (rule ringbuf_get_memsize_pow2 [OF \<open>k < 28\<close>])
  have "128 + 8 * 2 ^ k \<le> 64 * ((128 + 8 * 2 ^ k + 63) div (64::nat))"
    using mult_div_mod_eq [of 64 "128 + 8 * 2 ^ k + 63 :: nat"] mod_less_divisor [of 64 "128 + 8 * 2 ^ k + 63 :: nat"]
    by linarith
  then have "int (128 + 8 * unat cnt) \<le> ringbuf_get_memsize cnt"
    unfolding m of_nat_le_iff using k by (simp add: unat_pow2)
  then have "128 + 8 * int (unat cnt) \<le> ringbuf_get_memsize cnt" by simp
  moreover have "0 \<le> ringbuf_get_memsize cnt" by (simp add: m)
  moreover have "64 dvd ringbuf_get_memsize cnt" by (simp add: m)
  moreover have "ringbuf_inv (ringbuf_init blk cnt)"
    using k blk by (auto simp: ringbuf_inv_def ringbuf_init_def unat_pow2)
  ultimately show ?thesis using blk
    by (auto simp: ringbuf_create_def ringbuf_contents_def ringbuf_capacity_def ringbuf_init_def)
qed

theorem ringbuf_create_correct_witness:
  "ringbuf_inv (the (ringbuf_create (Some (demo_ring\<lparr>ring := [0, 0]\<rparr>)) 2)) \<and>
   ringbuf_create (Some (demo_ring\<lparr>ring := [0, 0, 0]\<rparr>)) 3 = None"
  using ringbuf_create_correct [of 2 "demo_ring\<lparr>ring := [0, 0]\<rparr>"]
    ringbuf_create_correct [of 3 "demo_ring\<lparr>ring := [0, 0, 0]\<rparr>"]
  by (simp add: ringbuf_create_def ringbuf_get_memsize_def IS_POWEROF2_def RING_SIZE_MASK_def EINVAL_def ALIGN_CEIL_def)

text \<open>
  the fullness and emptiness tests agree with the queue the ring stands for.
\<close>

theorem ringbuf_is_full_or_empty:
  assumes "ringbuf_inv r"
  shows "(ringbuf_is_empty r \<longleftrightarrow> ringbuf_contents r = []) \<and>
    (ringbuf_is_full r \<longleftrightarrow> length (ringbuf_contents r) = ringbuf_capacity r)"
  using ringbuf_is_empty_iff ringbuf_is_full_iff [OF assms] by blast

theorem ringbuf_is_full_or_empty_witness: "\<not> ringbuf_is_empty demo_ring \<and> \<not> ringbuf_is_full demo_ring"
  using ringbuf_is_full_or_empty [OF demo_ring_inv] by (simp add: demo_ring_contents)

text \<open>
  what a producer enqueues into an empty ring one by one a consumer dequeues in the same order,
  for every position of the wrapping counters.
\<close>

theorem ringbuf_round_trip:
  assumes "ringbuf_inv r" "ringbuf_contents r = []" "length xs \<le> ringbuf_capacity r"
  shows "\<exists>r1 r2. ring_fifo.enq_all xs r = Some r1 \<and> ring_fifo.deq_n obj (length xs) r1 = Some (xs, r2) \<and>
    ringbuf_contents r2 = []"
  by (rule ring_fifo.fifo_round_trip [OF assms])

theorem ringbuf_round_trip_witness:
  "\<exists>r1 r2. ring_fifo.enq_all [5, 6, 7] demo_drained = Some r1 \<and>
    ring_fifo.deq_n 0 (length [5, 6, 7 :: nat]) r1 = Some ([5, 6, 7], r2) \<and> ringbuf_contents r2 = []"
  by (rule ringbuf_round_trip [OF demo_drained_inv]) (simp_all add: demo_drained_contents)

text \<open>
  a count of zero passes the power-of-two test, although the interface asks for a power of
  two: creation succeeds with an all-ones mask, and the first enqueue writes outside the (empty)
  table.
\<close>

theorem ringbuf_create_zero:
  "ring blk = [] \<Longrightarrow> \<exists>r. ringbuf_create (Some blk) 0 = Some r \<and> prod_mask r = 0xffffffff \<and>
    ringbuf_sp_enqueue r x = None"
  by (simp add: ringbuf_create_def ringbuf_get_memsize_def IS_POWEROF2_def RING_SIZE_MASK_def ALIGN_CEIL_def
      ringbuf_init_def ringbuf_sp_enqueue_def ringbuffer_sp_do_enqueue_def ENQUEUE_PTRS_def ptrs_copy_def
      ptrs_to_end.simps ptrs_from_start.simps store_at_def Let_def)

theorem ringbuf_create_zero_witness:
  "\<exists>r. ringbuf_create (Some (demo_ring\<lparr>ring := []\<rparr>)) 0 = Some r \<and> ringbuf_sp_enqueue r 5 = None"
  using ringbuf_create_zero [of "demo_ring\<lparr>ring := []\<rparr>" 5] by auto

end
