(* ===== verification/Mcslock.thy ===== *)
theory Mcslock
  imports Prelude
begin

text \<open>
  The queue lock of \<^verbatim>\<open>mcslock/mcslock.c\<close> under every interleaving of its atomic operations. Each
  thread brings one queue node; threads and their nodes are named by the same non-null pointer.
  The theorems: at most one thread holds the lock, threads enter in the order of their atomic
  exchanges on the lock word, and the lock is never stuck.
\<close>

section \<open>State\<close>

definition MCS_PROCEED :: u8 where "MCS_PROCEED = 0"
definition MCS_WAIT :: u8 where "MCS_WAIT = 1"

text \<open>Where a thread stands: the constructors are the points before each atomic operation.\<close>

datatype mcs_pc =
    Outside
  | Exchange
  | Set_wait ptr
  | Set_next ptr
  | Spin_wait
  | Holding
  | Load_next
  | Cas_lock
  | Spin_next
  | Signal ptr

record mcs =
  mlock :: ptr
  mnext :: "ptr \<Rightarrow> ptr"
  mwait :: "ptr \<Rightarrow> u8"
  mpc :: "ptr \<Rightarrow> mcs_pc"

definition at_pc :: "ptr \<Rightarrow> mcs_pc \<Rightarrow> mcs \<Rightarrow> mcs" where
  "at_pc t p s = s\<lparr>mpc := (mpc s)(t := p)\<rparr>"

section \<open>Operations\<close>

text \<open>
  \<open>mwait\<close> is not initialised by the code: its first contents are a parameter.
\<close>

definition mcslock_init :: "(ptr \<Rightarrow> ptr) \<Rightarrow> (ptr \<Rightarrow> u8) \<Rightarrow> mcs" where
  "mcslock_init nx w = \<lparr>mlock = NULL, mnext = nx, mwait = w, mpc = (\<lambda>_. Outside)\<rparr>"

definition wait_until_equal_u8 :: "ptr \<Rightarrow> u8 \<Rightarrow> mcs_pc \<Rightarrow> mcs \<Rightarrow> mcs" where
  "wait_until_equal_u8 t val k s = (if mwait s t = val then at_pc t k s else s)"

definition mcslock_acquire :: "ptr \<Rightarrow> mcs \<Rightarrow> mcs option" where
  "mcslock_acquire t s = (case mpc s t of
     Outside \<Rightarrow> Some (at_pc t Exchange (s\<lparr>mnext := (mnext s)(t := NULL)\<rparr>))
   | Exchange \<Rightarrow>
       (let prev = mlock s; s = s\<lparr>mlock := t\<rparr>
        in Some (at_pc t (if prev = NULL then Holding else Set_wait prev) s))
   | Set_wait prev \<Rightarrow> Some (at_pc t (Set_next prev) (s\<lparr>mwait := (mwait s)(t := MCS_WAIT)\<rparr>))
   | Set_next prev \<Rightarrow> Some (at_pc t Spin_wait (s\<lparr>mnext := (mnext s)(prev := t)\<rparr>))
   | Spin_wait \<Rightarrow> Some (wait_until_equal_u8 t MCS_PROCEED Holding s)
   | _ \<Rightarrow> None)"

definition mcslock_release :: "ptr \<Rightarrow> mcs \<Rightarrow> mcs option" where
  "mcslock_release t s = (case mpc s t of
     Holding \<Rightarrow> Some (at_pc t Load_next s)
   | Load_next \<Rightarrow> Some (at_pc t (if mnext s t = NULL then Cas_lock else Signal (mnext s t)) s)
   | Cas_lock \<Rightarrow>
       Some (if mlock s = t then at_pc t Outside (s\<lparr>mlock := NULL\<rparr>) else at_pc t Spin_next s)
   | Spin_next \<Rightarrow> Some (if mnext s t = NULL then s else at_pc t (Signal (mnext s t)) s)
   | Signal nx \<Rightarrow> Some (at_pc t Outside (s\<lparr>mwait := (mwait s)(nx := MCS_PROCEED)\<rparr>))
   | _ \<Rightarrow> None)"

definition mcs_step :: "ptr \<Rightarrow> mcs \<Rightarrow> mcs option" where
  "mcs_step t s =
     (if t = NULL then None
      else case mcslock_acquire t s of Some s' \<Rightarrow> Some s' | None \<Rightarrow> mcslock_release t s)"

section \<open>The queue behind the lock\<close>

definition holds_lock :: "mcs \<Rightarrow> ptr \<Rightarrow> bool" where
  "holds_lock s t \<longleftrightarrow> (case mpc s t of
     Holding \<Rightarrow> True | Load_next \<Rightarrow> True | Cas_lock \<Rightarrow> True | Spin_next \<Rightarrow> True | Signal n \<Rightarrow> True | _ \<Rightarrow> False)"

definition queued :: "mcs \<Rightarrow> ptr \<Rightarrow> bool" where
  "queued s t \<longleftrightarrow> mpc s t \<noteq> Outside \<and> mpc s t \<noteq> Exchange"

text \<open>\<open>u\<close> waits directly behind \<open>t\<close>.\<close>

definition link :: "mcs \<Rightarrow> ptr \<Rightarrow> ptr \<Rightarrow> bool" where
  "link s t u \<longleftrightarrow> (case mpc s u of
     Set_wait p \<Rightarrow> p = t \<and> mnext s t = NULL
   | Set_next p \<Rightarrow> p = t \<and> mnext s t = NULL \<and> mwait s u = MCS_WAIT
   | Spin_wait \<Rightarrow> mnext s t = u \<and> mwait s u = MCS_WAIT
   | _ \<Rightarrow> False)"

definition first_ok :: "mcs \<Rightarrow> ptr list \<Rightarrow> bool" where
  "first_ok s q \<longleftrightarrow> (case q of [] \<Rightarrow> True | t # ts \<Rightarrow> (case mpc s t of
     Spin_wait \<Rightarrow> mwait s t = MCS_PROCEED
   | Spin_next \<Rightarrow> ts \<noteq> []
   | Signal n \<Rightarrow> n = mnext s t \<and> n \<noteq> NULL
   | _ \<Rightarrow> holds_lock s t))"

definition links :: "mcs \<Rightarrow> ptr list \<Rightarrow> bool" where
  "links s q \<longleftrightarrow> successively (link s) q \<and> (q \<noteq> [] \<longrightarrow> mnext s (last q) = NULL)"

definition queue_shape :: "mcs \<Rightarrow> ptr list \<Rightarrow> bool" where
  "queue_shape s q \<longleftrightarrow> distinct q \<and> (\<forall>t. t \<in> set q \<longleftrightarrow> queued s t) \<and>
     mlock s = (if q = [] then NULL else last q) \<and> mpc s NULL = Outside \<and>
     (\<forall>t. mpc s t = Exchange \<longrightarrow> mnext s t = NULL)"

definition mcs_queue :: "mcs \<Rightarrow> ptr list \<Rightarrow> bool" where
  "mcs_queue s q \<longleftrightarrow> queue_shape s q \<and> links s q \<and> first_ok s q"

text \<open>Ghost logs: the order of the exchanges on the lock word and the order of entry.\<close>

record mcs_log =
  mstate :: mcs
  arrived :: "ptr list"
  entered :: "ptr list"

definition mcs_log_step :: "ptr \<Rightarrow> mcs_log \<Rightarrow> mcs_log option" where
  "mcs_log_step t l = (case mcs_step t (mstate l) of None \<Rightarrow> None | Some s' \<Rightarrow>
     Some \<lparr>mstate = s',
       arrived = (if mpc (mstate l) t = Exchange then arrived l @ [t] else arrived l),
       entered = (if mpc s' t = Holding \<and> mpc (mstate l) t \<noteq> Holding then entered l @ [t] else entered l)\<rparr>)"

definition mcs_log_init :: "(ptr \<Rightarrow> ptr) \<Rightarrow> (ptr \<Rightarrow> u8) \<Rightarrow> mcs_log" where
  "mcs_log_init nx w = \<lparr>mstate = mcslock_init nx w, arrived = [], entered = []\<rparr>"

text \<open>The threads of the queue that have not entered yet.\<close>

definition pending :: "mcs \<Rightarrow> ptr list \<Rightarrow> ptr list" where
  "pending s q = (if q \<noteq> [] \<and> holds_lock s (hd q) then tl q else q)"

definition mcs_log_inv :: "mcs_log \<Rightarrow> bool" where
  "mcs_log_inv l \<longleftrightarrow> (\<exists>q. mcs_queue (mstate l) q \<and>
     arrived l = entered l @ pending (mstate l) q)"

lemmas mcs_defs = mcs_step_def mcslock_acquire_def mcslock_release_def wait_until_equal_u8_def at_pc_def
  MCS_PROCEED_def MCS_WAIT_def

lemma in_set_tlD: "x \<in> set (tl xs) \<Longrightarrow> x \<in> set xs"
  by (cases xs) auto

lemma link_cong:
  "mnext s' t = mnext s t \<Longrightarrow> mpc s' u = mpc s u \<Longrightarrow> mwait s' u = mwait s u \<Longrightarrow> link s' t u = link s t u"
  by (simp add: link_def split: mcs_pc.split)

lemma links_cong:
  assumes "links s q" "\<And>t. t \<in> set q \<Longrightarrow> mnext s' t = mnext s t"
    and "\<And>u. u \<in> set (tl q) \<Longrightarrow> mpc s' u = mpc s u \<and> mwait s' u = mwait s u"
  shows "links s' q"
proof -
  have "successively (link s') q = successively (link s) q"
    using assms(2,3) by (induction q rule: induct_list012) (auto simp: link_cong [of s' _ s])
  with assms show ?thesis by (cases "q = []") (simp_all add: links_def)
qed

lemma links_snoc:
  "links s (q @ [t]) \<longleftrightarrow> successively (link s) q \<and> (q \<noteq> [] \<longrightarrow> link s (last q) t) \<and> mnext s t = NULL"
  by (auto simp: links_def successively_append_iff)

lemma links_tl: "links s (t # q) \<Longrightarrow> links s q"
  by (auto simp: links_def successively_Cons)

lemma links_mid:
  "links s (xs @ u # t # ys) \<longleftrightarrow> successively (link s) (xs @ [u]) \<and> link s u t \<and> links s (t # ys)"
  by (auto simp: links_def successively_append_iff successively_Cons)

lemma first_ok_cong:
  "first_ok s (t # ts) \<Longrightarrow> mpc s' t = mpc s t \<Longrightarrow> mwait s' t = mwait s t \<Longrightarrow> mnext s' t = mnext s t \<Longrightarrow>
    first_ok s' (t # ts)"
  by (auto simp: first_ok_def holds_lock_def split: mcs_pc.splits)

lemma waiting_not_head:
  assumes "mcs_queue s q" "queued s t" "\<not> holds_lock s t" "\<not> (mpc s t = Spin_wait \<and> mwait s t = MCS_PROCEED)"
  obtains xs u ys where "q = xs @ u # t # ys" "link s u t"
proof -
  have "t \<in> set q" using assms by (auto simp: mcs_queue_def queue_shape_def)
  then obtain xs ys where q: "q = xs @ t # ys" by (auto simp: in_set_conv_decomp)
  have "xs \<noteq> []"
    using assms q by (auto simp: mcs_queue_def first_ok_def holds_lock_def split: mcs_pc.splits)
  then obtain xs' u where xs: "xs = xs' @ [u]" by (cases xs rule: rev_cases) auto
  have "link s u t" using assms(1) q xs by (auto simp: mcs_queue_def links_mid)
  with q xs that show thesis by simp
qed

lemma holder_is_first:
  assumes "mcs_queue s q" "holds_lock s t"
  obtains ts where "q = t # ts"
proof -
  have "t \<in> set q" using assms by (auto simp: mcs_queue_def queue_shape_def queued_def holds_lock_def)
  then obtain xs ys where q: "q = xs @ t # ys" by (auto simp: in_set_conv_decomp)
  show thesis
  proof (cases xs rule: rev_cases)
    case Nil
    with q that show thesis by simp
  next
    case (snoc xs' u)
    with q assms(1) have "link s u t" by (auto simp: mcs_queue_def links_mid)
    with assms(2) show thesis by (auto simp: link_def holds_lock_def split: mcs_pc.splits)
  qed
qed

definition next_queue :: "mcs \<Rightarrow> ptr \<Rightarrow> ptr list \<Rightarrow> ptr list" where
  "next_queue s t q = (case mpc s t of
     Exchange \<Rightarrow> q @ [t]
   | Cas_lock \<Rightarrow> if mlock s = t then tl q else q
   | Signal n \<Rightarrow> tl q
   | _ \<Rightarrow> q)"

lemma mcs_queue_facts:
  assumes "mcs_queue s q"
  shows "distinct q" "t \<in> set q \<longleftrightarrow> queued s t" "mlock s = (if q = [] then NULL else last q)"
    "NULL \<notin> set q" "mpc s t = Exchange \<Longrightarrow> mnext s t = NULL" "links s q" "first_ok s q" "mpc s NULL = Outside"
  using assms by (auto simp: mcs_queue_def queue_shape_def queued_def)

lemma step_Outside:
  assumes q: "mcs_queue s q" and t: "mpc s t = Outside" "mcs_step t s = Some s'"
  shows "mcs_queue s' q"
proof -
  note Q = mcs_queue_facts [OF q]
  from t have f: "t \<noteq> NULL" "mlock s' = mlock s" "mnext s' = (mnext s)(t := NULL)" "mwait s' = mwait s"
    "mpc s' = (mpc s)(t := Exchange)"
    by (auto simp: mcs_defs split: if_splits)
  have n: "t \<notin> set q" using t Q(2) by (simp add: queued_def)
  have "links s' q" using Q(6) by (rule links_cong) (use n in \<open>auto simp: f dest: in_set_tlD\<close>)
  moreover have "first_ok s' q"
    using Q(7) n by (cases q) (auto simp: f first_ok_def [of _ "[]"] intro!: first_ok_cong [of s])
  moreover have "queue_shape s' q"
    using Q(1-5,8) f n by (auto simp: queue_shape_def queued_def)
  ultimately show ?thesis by (simp add: mcs_queue_def)
qed

lemma step_Exchange:
  assumes q: "mcs_queue s q" and t: "mpc s t = Exchange" "mcs_step t s = Some s'"
  shows "mcs_queue s' (q @ [t])"
proof -
  note Q = mcs_queue_facts [OF q]
  from t have f: "t \<noteq> NULL" "mlock s' = t" "mnext s' = mnext s" "mwait s' = mwait s"
    "mpc s' = (mpc s)(t := if mlock s = NULL then Holding else Set_wait (mlock s))"
    by (auto simp: mcs_defs Let_def split: if_splits)
  have n: "t \<notin> set q" using t Q(2) by (simp add: queued_def)
  have l: "links s' q" using Q(6) by (rule links_cong) (use n in \<open>auto simp: f dest: in_set_tlD\<close>)
  have "last q \<noteq> NULL" if "q \<noteq> []" using that Q(4) last_in_set by metis
  then have "link s' (last q) t" if "q \<noteq> []" using that l Q(3) by (simp add: link_def f links_def)
  then have "links s' (q @ [t])" using l t Q(5) [of t] by (subst links_snoc) (auto simp: f links_def)
  moreover have "first_ok s' (q @ [t])"
  proof (cases q)
    case Nil
    then show ?thesis using Q(3) by (simp add: first_ok_def f holds_lock_def)
  next
    case (Cons a as)
    then show ?thesis using Q(7) n
      by (auto simp: first_ok_def f holds_lock_def split: mcs_pc.splits)
  qed
  moreover have "queue_shape s' (q @ [t])"
    using Q(1-5,8) f n by (auto simp: queue_shape_def queued_def)
  ultimately show ?thesis by (simp add: mcs_queue_def)
qed

text \<open>A step of the first thread that stays first.\<close>

lemma step_first:
  assumes q: "mcs_queue s (t # ts)" and "first_ok s' (t # ts)" "queued s' t"
    and f: "mlock s' = mlock s" "mnext s' = mnext s" "mwait s' = mwait s" "mpc s' = (mpc s)(t := p)"
  shows "mcs_queue s' (t # ts)"
proof -
  note Q = mcs_queue_facts [OF q]
  have "links s' (t # ts)" using Q(6) by (rule links_cong) (use Q(1) in \<open>auto simp: f\<close>)
  moreover have "queue_shape s' (t # ts)"
    using Q(1-5,8) assms(3) f by (auto simp: queue_shape_def queued_def)
  ultimately show ?thesis using assms(2) by (simp add: mcs_queue_def)
qed

text \<open>A step of a waiting thread that stays behind its predecessor.\<close>

lemma step_waiting:
  assumes q: "mcs_queue s (xs @ u # t # ys)" and l: "link s' u t" and p: "queued s' t"
    and f: "mlock s' = mlock s" "mnext s' = (mnext s)(u := a)" "mwait s' = (mwait s)(t := b)"
    "mpc s' = (mpc s)(t := p)"
    and u: "first_ok s' (xs @ u # t # ys)"
  shows "mcs_queue s' (xs @ u # t # ys)"
proof -
  note Q = mcs_queue_facts [OF q]
  have "successively (link s') (xs @ [u])"
  proof -
    have "successively (link s) (xs @ [u])" using Q(6) by (simp add: links_mid)
    moreover have "link s' x y = link s x y" if "x \<in> set xs" "y \<in> set (xs @ [u])" for x y
      using that Q(1) by (intro link_cong) (auto simp: f)
    ultimately show ?thesis
      by (cases "xs = []") (auto simp: successively_append_iff cong: successively_cong)
  qed
  moreover have "links s' (t # ys)"
  proof (rule links_cong)
    show "links s (t # ys)" using Q(6) by (simp add: links_mid)
  qed (use Q(1) in \<open>auto simp: f split: if_splits\<close>)
  ultimately have "links s' (xs @ u # t # ys)" using l by (simp add: links_mid)
  moreover have "queued s u" using Q(2) [of u] by simp
  then have "queue_shape s' (xs @ u # t # ys)"
    using Q(1-5,8) f p by (auto simp: queue_shape_def queued_def)
  ultimately show ?thesis using u by (simp add: mcs_queue_def)
qed

lemma first_ok_waiting:
  assumes "mcs_queue s (xs @ u # t # ys)"
    and "mnext s' = (mnext s)(u := a)" "mwait s' = (mwait s)(t := b)" "mpc s' = (mpc s)(t := p)"
    and "a = mnext s u \<or> mnext s u = NULL"
  shows "first_ok s' (xs @ u # t # ys)"
proof -
  note Q = mcs_queue_facts [OF assms(1)]
  show ?thesis using Q(1,7) assms(2-)
    by (cases xs) (auto simp: first_ok_def holds_lock_def split: mcs_pc.splits)
qed

lemma step_Set_wait:
  assumes q: "mcs_queue s q" and t: "mpc s t = Set_wait p" "mcs_step t s = Some s'"
  shows "mcs_queue s' q"
proof -
  from t have f: "mlock s' = mlock s" "mnext s' = mnext s" "mwait s' = (mwait s)(t := MCS_WAIT)"
    "mpc s' = (mpc s)(t := Set_next p)"
    by (auto simp: mcs_defs split: if_splits)
  from t obtain xs u ys where x: "q = xs @ u # t # ys" "link s u t"
    using waiting_not_head [OF q, of t] by (auto simp: queued_def holds_lock_def)
  have "u \<noteq> t" using mcs_queue_facts(1) [OF q] x by auto
  with x t have "link s' u t" by (simp add: link_def f)
  moreover have "queued s' t" by (simp add: queued_def f)
  moreover have n: "mnext s' = (mnext s)(u := mnext s u)" by (simp add: f)
  moreover have "first_ok s' q"
    using first_ok_waiting [OF q [unfolded x(1)] n f(3,4)] x by simp
  ultimately show ?thesis using step_waiting [OF q [unfolded x(1)] _ _ f(1) n f(3,4)] x by simp
qed

lemma step_Set_next:
  assumes q: "mcs_queue s q" and t: "mpc s t = Set_next p" "mcs_step t s = Some s'"
  shows "mcs_queue s' q"
proof -
  from t have f: "mlock s' = mlock s" "mnext s' = (mnext s)(p := t)" "mwait s' = mwait s"
    "mpc s' = (mpc s)(t := Spin_wait)"
    by (auto simp: mcs_defs split: if_splits)
  from t obtain xs u ys where x: "q = xs @ u # t # ys" "link s u t"
    using waiting_not_head [OF q, of t] by (auto simp: queued_def holds_lock_def)
  from x t have p: "p = u" "mnext s u = NULL" "mwait s t = MCS_WAIT" by (simp_all add: link_def)
  then have "link s' u t" by (simp add: link_def f)
  moreover have "queued s' t" by (simp add: queued_def f)
  moreover have w: "mwait s' = (mwait s)(t := mwait s t)" by (simp add: f)
  moreover have "first_ok s' q"
    using first_ok_waiting [OF q [unfolded x(1)] f(2) [unfolded p(1)] w f(4)] x p by simp
  ultimately show ?thesis using step_waiting [OF q [unfolded x(1)] _ _ f(1) f(2) [unfolded p(1)] w f(4)] x by simp
qed

lemma step_Spin_wait:
  assumes q: "mcs_queue s q" and t: "mpc s t = Spin_wait" "mcs_step t s = Some s'"
  shows "mcs_queue s' q"
proof (cases "mwait s t = MCS_PROCEED")
  case False
  with t have "s' = s" by (auto simp: mcs_defs split: if_splits)
  with q show ?thesis by simp
next
  case True
  with t have f: "mlock s' = mlock s" "mnext s' = mnext s" "mwait s' = mwait s" "mpc s' = (mpc s)(t := Holding)"
    by (auto simp: mcs_defs split: if_splits)
  note Q = mcs_queue_facts [OF q]
  have "t \<in> set q" using t Q(2) by (simp add: queued_def)
  then obtain xs ys where x: "q = xs @ t # ys" by (auto simp: in_set_conv_decomp)
  have "xs = []"
  proof (cases xs rule: rev_cases)
    case (snoc xs' u)
    with Q(6) x have "link s u t" by (simp add: links_mid)
    with t True show ?thesis by (simp add: link_def MCS_WAIT_def MCS_PROCEED_def)
  qed
  then have q': "q = t # ys" using x by simp
  have "first_ok s' (t # ys)" by (simp add: first_ok_def f holds_lock_def)
  moreover have "queued s' t" by (simp add: queued_def f)
  ultimately show ?thesis unfolding q' by (rule step_first [OF q [unfolded q'] _ _ f])
qed

lemma step_release_waits:
  assumes q: "mcs_queue s q" and h: "holds_lock s t" and t: "mcs_step t s = Some s'" and p: "holds_lock s' t"
  shows "mcs_queue s' q"
proof -
  obtain ts where q': "q = t # ts" using holder_is_first [OF q h] .
  note Q = mcs_queue_facts [OF q]
  have f: "mlock s' = mlock s" "mnext s' = mnext s" "mwait s' = mwait s" "mpc s' = (mpc s)(t := mpc s' t)"
    using h t p by (auto simp: mcs_defs holds_lock_def split: mcs_pc.splits if_splits)
  have "ts \<noteq> []" if "mpc s t = Cas_lock" "mpc s' t = Spin_next"
    using t that Q(3) q' by (auto simp: mcs_defs split: if_splits)
  then have "first_ok s' (t # ts)"
    using t h p Q(7) q' f(2)
    by (auto simp: first_ok_def mcs_defs holds_lock_def split: mcs_pc.splits if_splits)
  moreover have "queued s' t" using p by (auto simp: queued_def holds_lock_def)
  ultimately show ?thesis unfolding q' by (rule step_first [OF q [unfolded q'] _ _ f])
qed

lemma step_release_leaves:
  assumes q: "mcs_queue s q" and h: "holds_lock s t" and t: "mcs_step t s = Some s'" and p: "\<not> holds_lock s' t"
  shows "mcs_queue s' (tl q) \<and> mpc s' t = Outside"
proof -
  obtain ts where q': "q = t # ts" using holder_is_first [OF q h] .
  note Q = mcs_queue_facts [OF q]
  have f: "mpc s' = (mpc s)(t := Outside)" "mnext s' = mnext s"
    using h t p by (auto simp: mcs_defs holds_lock_def split: mcs_pc.splits if_splits)
  consider (cas) "mpc s t = Cas_lock" "mlock s = t" | (sig) n where "mpc s t = Signal n"
    using h t p by (auto simp: mcs_defs holds_lock_def split: mcs_pc.splits if_splits)
  then have "mcs_queue s' ts"
  proof cases
    case cas
    have "ts = []"
    proof (rule ccontr)
      assume "ts \<noteq> []"
      then have "last ts \<in> set ts" "mlock s = last ts" using Q(3) q' by simp_all
      with cas Q(1) q' show False by simp
    qed
    moreover have "mlock s' = NULL" using cas t by (auto simp: mcs_defs split: if_splits)
    ultimately show ?thesis using Q(2,5,8) q' f
      by (auto simp: mcs_queue_def queue_shape_def queued_def links_def first_ok_def)
  next
    case sig
    then obtain r where ts: "ts = n # r" and n: "mpc s n = Spin_wait" 
      using Q(6,7) q' by (cases ts) (auto simp: first_ok_def links_def link_def split: mcs_pc.splits)
    have g: "mlock s' = mlock s" "mwait s' = (mwait s)(n := MCS_PROCEED)"
      using sig t by (auto simp: mcs_defs split: if_splits)
    have "links s' ts"
    proof (rule links_cong)
      show "links s ts" using Q(6) q' by (simp add: links_tl)
    qed (use Q(1) q' ts in \<open>auto simp: f g\<close>)
    moreover have "first_ok s' ts" using n Q(1) q' ts by (simp add: first_ok_def f g)
    moreover have "queue_shape s' ts" using Q(1-5,8) q' ts f g
      by (auto simp: queue_shape_def queued_def split: if_splits)
    ultimately show ?thesis by (simp add: mcs_queue_def)
  qed
  with q' f show ?thesis by simp
qed

lemma mcs_step_pc:
  assumes "mcs_step t s = Some s'"
  shows "mpc s' = (mpc s)(t := mpc s' t)" "t \<noteq> NULL"
  using assms by (auto simp: mcs_defs Let_def split: mcs_pc.splits if_splits)

lemma mcs_step_queue:
  assumes q: "mcs_queue s q" and t: "mcs_step t s = Some s'"
  shows "mcs_queue s' (next_queue s t q)"
proof (cases "mpc s t")
  case Outside
  then show ?thesis using step_Outside [OF q _ t] by (simp add: next_queue_def)
next
  case Exchange
  then show ?thesis using step_Exchange [OF q _ t] by (simp add: next_queue_def)
next
  case (Set_wait p)
  then show ?thesis using step_Set_wait [OF q _ t] by (simp add: next_queue_def)
next
  case (Set_next p)
  then show ?thesis using step_Set_next [OF q _ t] by (simp add: next_queue_def)
next
  case Spin_wait
  then show ?thesis using step_Spin_wait [OF q _ t] by (simp add: next_queue_def)
next
  case Holding
  then have "holds_lock s t" "holds_lock s' t" using t by (auto simp: mcs_defs holds_lock_def split: if_splits)
  then show ?thesis using Holding step_release_waits [OF q _ t] by (simp add: next_queue_def)
next
  case Load_next
  then have "holds_lock s t" "holds_lock s' t" using t by (auto simp: mcs_defs holds_lock_def split: if_splits)
  then show ?thesis using Load_next step_release_waits [OF q _ t] by (simp add: next_queue_def)
next
  case Cas_lock
  then have "holds_lock s t" "holds_lock s' t \<longleftrightarrow> mlock s \<noteq> t"
    using t by (auto simp: mcs_defs holds_lock_def split: if_splits)
  then show ?thesis using Cas_lock step_release_waits [OF q _ t] step_release_leaves [OF q _ t]
    by (simp add: next_queue_def)
next
  case Spin_next
  then have "holds_lock s t" "holds_lock s' t" using t by (auto simp: mcs_defs holds_lock_def split: if_splits)
  then show ?thesis using Spin_next step_release_waits [OF q _ t] by (simp add: next_queue_def)
next
  case (Signal n)
  then have "holds_lock s t" "\<not> holds_lock s' t" using t by (auto simp: mcs_defs holds_lock_def split: if_splits)
  then show ?thesis using Signal step_release_leaves [OF q _ t] by (simp add: next_queue_def)
qed

lemma mcs_init_queue: "mcs_queue (mcslock_init nx w) []"
  by (simp add: mcs_queue_def queue_shape_def links_def first_ok_def mcslock_init_def queued_def)

interpretation mcs_run: inductive_invariant "mcslock_init nx w" mcs_step "\<lambda>s. \<exists>q. mcs_queue s q"
  for nx w
proof
  show "\<exists>q. mcs_queue (mcslock_init nx w) q" using mcs_init_queue by blast
next
  fix s t s'
  assume "\<exists>q. mcs_queue s q" "mcs_step t s = Some s'"
  then show "\<exists>q. mcs_queue s' q" using mcs_step_queue by blast
qed

lemma pending_step:
  assumes q: "mcs_queue s q" and t: "mcs_step t s = Some s'"
  shows "(if mpc s t = Exchange then pending s q @ [t] else pending s q) =
    (if mpc s' t = Holding \<and> mpc s t \<noteq> Holding then t # pending s' (next_queue s t q)
     else pending s' (next_queue s t q))"
proof -
  note Q = mcs_queue_facts [OF q]
  have other: "holds_lock s' x = holds_lock s x" if "x \<noteq> t" for x
    unfolding holds_lock_def using that by (subst mcs_step_pc(1) [OF t]) simp
  have lq: "last q \<noteq> NULL" if "q \<noteq> []" using that Q(4) last_in_set [of q] by metis
  have enter: "mpc s t = Exchange \<and> q = [] \<or> mpc s t = Spin_wait" if "mpc s' t = Holding" "mpc s t \<noteq> Holding"
    using that t Q(3) lq
    by (auto simp: mcs_defs Let_def split: mcs_pc.splits if_splits)
  show ?thesis
  proof (cases "holds_lock s t")
    case True
    then obtain ts where q': "q = t # ts" using holder_is_first [OF q] by blast
    have "\<not> holds_lock s (hd ts)" "hd ts \<noteq> t" if "ts \<noteq> []"
      using that Q(1) q' holder_is_first [OF q, of "hd ts"] by (cases ts; auto)+
    then have ts: "pending s' ts = ts" by (auto simp: pending_def other)
    have "next_queue s t q = (if holds_lock s' t then q else ts)"
      using True t q' by (auto simp: next_queue_def holds_lock_def mcs_defs split: mcs_pc.splits if_splits)
    moreover have "mpc s t \<noteq> Exchange" "mpc s t \<noteq> Spin_wait" using True by (auto simp: holds_lock_def)
    ultimately show ?thesis using True q' ts enter by (auto simp: pending_def)
  next
    case False
    consider (exch) "mpc s t = Exchange" | (enter) "mpc s t = Spin_wait" "mwait s t = MCS_PROCEED"
      | (wait) "mpc s t \<noteq> Exchange" "\<not> (mpc s t = Spin_wait \<and> mwait s t = MCS_PROCEED)" by blast
    then show ?thesis
    proof cases
      case exch
      have "t \<notin> set q" using exch Q(2) by (simp add: queued_def)
      then have h: "q \<noteq> [] \<Longrightarrow> holds_lock s' (hd q) = holds_lock s (hd q)" by (intro other) auto
      have "mpc s' t = (if q = [] then Holding else Set_wait (mlock s))"
        using exch t Q(3) lq by (auto simp: mcs_defs Let_def split: if_splits)
      then show ?thesis using exch h by (cases q) (auto simp: next_queue_def pending_def holds_lock_def)
    next
      case enter
      have "mpc s' t = Holding" using enter t by (auto simp: mcs_defs split: if_splits)
      moreover obtain ts where "q = t # ts"
      proof -
        have "t \<in> set q" using Q(2) enter by (simp add: queued_def)
        then obtain xs ys where x: "q = xs @ t # ys" by (auto simp: in_set_conv_decomp)
        have "xs = []"
        proof (cases xs rule: rev_cases)
          case (snoc xs' u)
          with Q(6) x have "link s u t" by (simp add: links_mid)
          with enter show ?thesis by (simp add: link_def MCS_WAIT_def MCS_PROCEED_def)
        qed
        with x that show thesis by simp
      qed
      ultimately show ?thesis using enter False by (auto simp: next_queue_def pending_def holds_lock_def)
    next
      case wait
      have "\<not> holds_lock s' t" "mpc s' t \<noteq> Holding"
        using wait False t by (auto simp: holds_lock_def mcs_defs split: mcs_pc.splits if_splits)
      then have "holds_lock s' x = holds_lock s x" for x using False other by (cases "x = t") auto
      then have "pending s' q = pending s q" by (simp add: pending_def)
      moreover have "next_queue s t q = q"
        using wait False by (auto simp: next_queue_def holds_lock_def split: mcs_pc.splits)
      ultimately show ?thesis using wait \<open>mpc s' t \<noteq> Holding\<close> by simp
    qed
  qed
qed

lemma log_append:
  "(if a then p @ [t] else p) = (if e then t # p' else p') \<Longrightarrow>
    (if a then (es @ p) @ [t] else es @ p) = (if e then es @ [t] else es) @ p'"
  by (cases a; cases e) auto

interpretation mcs_fifo: inductive_invariant "mcs_log_init nx w" mcs_log_step mcs_log_inv
  for nx w
proof
  show "mcs_log_inv (mcs_log_init nx w)"
    using mcs_init_queue by (auto simp: mcs_log_inv_def mcs_log_init_def pending_def intro!: exI [of _ "[]"])
next
  fix l t l'
  assume l: "mcs_log_inv l" and st: "mcs_log_step t l = Some l'"
  then obtain q where q: "mcs_queue (mstate l) q" and a: "arrived l = entered l @ pending (mstate l) q"
    by (auto simp: mcs_log_inv_def)
  from st obtain s' where s': "mcs_step t (mstate l) = Some s'" 
    and l': "mstate l' = s'" "arrived l' = (if mpc (mstate l) t = Exchange then arrived l @ [t] else arrived l)"
      "entered l' = (if mpc s' t = Holding \<and> mpc (mstate l) t \<noteq> Holding then entered l @ [t] else entered l)"
    by (auto simp: mcs_log_step_def split: option.splits)
  have "arrived l' = entered l' @ pending s' (next_queue (mstate l) t q)"
    unfolding l' a by (rule log_append [OF pending_step [OF q s']])
  with mcs_step_queue [OF q s'] show "mcs_log_inv l'"
    unfolding mcs_log_inv_def l'(1) by blast
qed

text \<open>
  C3: at most one thread is between the return of \<open>mcslock_acquire\<close> and the end of
  \<open>mcslock_release\<close>, in every state that any interleaving of any number of threads reaches.
\<close>

theorem mcs_mutual_exclusion:
  assumes "exec mcs_step es (mcslock_init nx w) = Some s" "holds_lock s t" "holds_lock s u"
  shows "t = u"
proof -
  obtain q where q: "mcs_queue s q" using mcs_run.reachable_inv [OF assms(1)] by blast
  from holder_is_first [OF q assms(2)] holder_is_first [OF q assms(3)] show ?thesis by (metis list.inject)
qed

text \<open>A schedule of two contending threads: thread 1 enters, thread 2 queues behind it.\<close>

definition two_threads :: "ptr list" where
  "two_threads = [1, 2, 1, 2, 2, 2, 2]"

theorem mcs_mutual_exclusion_witness:
  "\<exists>s. exec mcs_step two_threads (mcslock_init (\<lambda>_. 7) (\<lambda>_. 0)) = Some s \<and> holds_lock s 1 \<and> mpc s 2 = Spin_wait \<and>
    (\<forall>u. holds_lock s u \<longrightarrow> 1 = u)"
proof -
  have "\<exists>s. exec mcs_step two_threads (mcslock_init (\<lambda>_. 7) (\<lambda>_. 0)) = Some s \<and> holds_lock s 1 \<and> mpc s 2 = Spin_wait"
    by (simp add: two_threads_def mcs_defs Let_def mcslock_init_def holds_lock_def)
  then obtain s where s: "exec mcs_step two_threads (mcslock_init (\<lambda>_. 7) (\<lambda>_. 0)) = Some s" "holds_lock s 1"
      "mpc s 2 = Spin_wait" by blast
  with mcs_mutual_exclusion [OF s(1) s(2)] show ?thesis by blast
qed

text \<open>
  C4: the lock is first come, first served: threads enter in the order in which their atomic
  exchanges took the lock word (the entry log is a prefix of the arrival log).
\<close>

theorem mcs_fifo_order:
  assumes "exec mcs_log_step es (mcs_log_init nx w) = Some l"
  shows "take (length (entered l)) (arrived l) = entered l"
  using mcs_fifo.reachable_inv [OF assms] by (auto simp: mcs_log_inv_def)

theorem mcs_fifo_order_witness:
  "\<exists>l. exec mcs_log_step (two_threads @ [1, 1, 1, 2]) (mcs_log_init (\<lambda>_. 7) (\<lambda>_. 0)) = Some l \<and>
    entered l = [1, 2] \<and> take (length (entered l)) (arrived l) = entered l"
proof -
  have "\<exists>l. exec mcs_log_step (two_threads @ [1, 1, 1, 2]) (mcs_log_init (\<lambda>_. 7) (\<lambda>_. 0)) = Some l \<and>
      entered l = [1, 2]"
    by (simp add: two_threads_def mcs_log_step_def mcs_log_init_def mcs_defs Let_def mcslock_init_def)
  then obtain l where l: "exec mcs_log_step (two_threads @ [1, 1, 1, 2]) (mcs_log_init (\<lambda>_. 7) (\<lambda>_. 0)) = Some l"
      "entered l = [1, 2]" by blast
  with mcs_fifo_order [OF l(1)] show ?thesis by blast
qed

text \<open>
  C5: the lock is never stuck: while any thread waits for it or holds it, some such thread has a
  step that changes the state (it is not just spinning).
\<close>

theorem mcs_no_deadlock:
  assumes "exec mcs_step es (mcslock_init nx w) = Some s" "queued s t"
  shows "\<exists>u s'. queued s u \<and> mcs_step u s = Some s' \<and> s' \<noteq> s"
proof -
  obtain q where q: "mcs_queue s q" using mcs_run.reachable_inv [OF assms(1)] by blast
  note Q = mcs_queue_facts [OF q]
  have "t \<in> set q" using assms(2) Q(2) by simp
  then obtain a as where a: "q = a # as" by (cases q) auto
  have a0: "a \<noteq> NULL" "queued s a" using Q(2) [of a] Q(4) a by auto
  show ?thesis
  proof (cases "mpc s a = Spin_next \<and> mnext s a = NULL")
    case False
    then have "\<exists>s'. mcs_step a s = Some s' \<and> mpc s' a \<noteq> mpc s a"
      using a0 Q(7) a by (auto simp: first_ok_def mcs_defs Let_def queued_def holds_lock_def split: mcs_pc.splits)
    with a0 show ?thesis by metis
  next
    case True
    then obtain b bs where b: "as = b # bs" "link s a b"
      using Q(6,7) a by (cases as) (auto simp: first_ok_def links_def)
    have b0: "b \<noteq> NULL" "queued s b" using Q(2) [of b] Q(4) a b by auto
    from b True b0 have "\<exists>s'. mcs_step b s = Some s' \<and> mpc s' b \<noteq> mpc s b"
      by (auto simp: link_def mcs_defs split: mcs_pc.splits)
    with b0 show ?thesis by metis
  qed
qed

theorem mcs_no_deadlock_witness:
  "\<exists>s. exec mcs_step (two_threads @ [1, 1]) (mcslock_init (\<lambda>_. 7) (\<lambda>_. 0)) = Some s \<and>
    mpc s 2 = Spin_wait \<and> (\<exists>u s'. queued s u \<and> mcs_step u s = Some s' \<and> s' \<noteq> s)"
proof -
  have "\<exists>s. exec mcs_step (two_threads @ [1, 1]) (mcslock_init (\<lambda>_. 7) (\<lambda>_. 0)) = Some s \<and> mpc s 2 = Spin_wait"
    by (simp add: two_threads_def mcs_defs Let_def mcslock_init_def)
  then obtain s where s: "exec mcs_step (two_threads @ [1, 1]) (mcslock_init (\<lambda>_. 7) (\<lambda>_. 0)) = Some s"
      "mpc s 2 = Spin_wait" by blast
  from s(2) have "queued s 2" by (simp add: queued_def)
  from mcs_no_deadlock [OF s(1) this] s show ?thesis by blast
qed

end
