(* ===== verification/Channel_Mutex.thy ===== *)
theory Channel_Mutex
  imports Prelude
begin

text \<open>
  The three-state futex mutex of \<^verbatim>\<open>channel/channel.c\<close>, under every interleaving of its atomic
  operations and of the kernel's wake-ups. The theorems: mutual exclusion, and no wake-up is lost
  (a sleeping thread is always going to be woken by someone).
\<close>

section \<open>State\<close>

definition UNLOCKED :: u32 where "UNLOCKED = 0"
definition LOCKED_NO_WAITER :: u32 where "LOCKED_NO_WAITER = 1"
definition LOCKED :: u32 where "LOCKED = 2"

text \<open>
  \<open>sleepers\<close> is the kernel's wait queue of the futex word.
  Program points of a thread inside \<open>mutex_lock\<close> and \<open>mutex_unlock\<close>; \<open>Asleep\<close> is a thread blocked by
  the kernel in \<open>futex_wait\<close>.
\<close>

datatype mutex_pc =
    Away
  | First_cas
  | Test_val u32
  | Futex_wait
  | Asleep
  | Retry_cas
  | Owner
  | Store_unlocked
  | Futex_wake

record mutex =
  mval :: u32
  mupc :: "nat \<Rightarrow> mutex_pc"
  sleepers :: "nat list"

definition goto :: "nat \<Rightarrow> mutex_pc \<Rightarrow> mutex \<Rightarrow> mutex" where
  "goto t p mu = mu\<lparr>mupc := (mupc mu)(t := p)\<rparr>"

section \<open>Operations\<close>

definition mutex_init :: mutex where
  "mutex_init = \<lparr>mval = UNLOCKED, mupc = (\<lambda>_. Away), sleepers = []\<rparr>"

text \<open>\<open>cas\<close> returns the value found.\<close>

definition cas :: "u32 \<Rightarrow> u32 \<Rightarrow> mutex \<Rightarrow> u32 \<times> mutex" where
  "cas expect new mu = (mval mu, if mval mu = expect then mu\<lparr>mval := new\<rparr> else mu)"

text \<open>The kernel blocks the caller only while the word still holds the expected value.\<close>

definition futex_wait :: "nat \<Rightarrow> u32 \<Rightarrow> mutex \<Rightarrow> mutex" where
  "futex_wait t val mu =
     (if mval mu = val then goto t Asleep (mu\<lparr>sleepers := sleepers mu @ [t]\<rparr>) else goto t Retry_cas mu)"

text \<open>
  \<open>futex_wake(., 1)\<close> wakes one sleeper, which the kernel chooses (\<open>w\<close>); with no sleeper it wakes nobody.
\<close>

definition wake :: "nat \<Rightarrow> mutex \<Rightarrow> mutex" where
  "wake w mu = goto w Retry_cas (mu\<lparr>sleepers := remove1 w (sleepers mu)\<rparr>)"

definition futex_wake :: "nat \<Rightarrow> mutex \<Rightarrow> mutex option" where
  "futex_wake w mu =
     (if sleepers mu = [] then Some mu else if w \<in> set (sleepers mu) then Some (wake w mu) else None)"

definition mutex_lock :: "nat \<Rightarrow> mutex \<Rightarrow> mutex option" where
  "mutex_lock t mu = (case mupc mu t of
     Away \<Rightarrow> Some (goto t First_cas mu)
   | First_cas \<Rightarrow>
       (let (val, mu) = cas UNLOCKED LOCKED_NO_WAITER mu
        in Some (goto t (if val \<noteq> UNLOCKED then Test_val val else Owner) mu))
   | Test_val val \<Rightarrow>
       (if val = LOCKED then Some (goto t Futex_wait mu)
        else let (old, mu) = cas LOCKED_NO_WAITER LOCKED mu
             in Some (goto t (if old \<noteq> UNLOCKED then Futex_wait else Retry_cas) mu))
   | Futex_wait \<Rightarrow> Some (futex_wait t LOCKED mu)
   | Retry_cas \<Rightarrow>
       (let (val, mu) = cas UNLOCKED LOCKED mu
        in Some (goto t (if val \<noteq> UNLOCKED then Test_val val else Owner) mu))
   | _ \<Rightarrow> None)"

definition mutex_unlock :: "nat \<Rightarrow> nat \<Rightarrow> mutex \<Rightarrow> mutex option" where
  "mutex_unlock t w mu = (case mupc mu t of
     Owner \<Rightarrow>
       (let orig = mval mu; mu = mu\<lparr>mval := orig - 1\<rparr>
        in Some (goto t (if orig \<noteq> LOCKED_NO_WAITER then Store_unlocked else Away) mu))
   | Store_unlocked \<Rightarrow> Some (goto t Futex_wake (mu\<lparr>mval := UNLOCKED\<rparr>))
   | Futex_wake \<Rightarrow> futex_wake w (goto t Away mu)
   | _ \<Rightarrow> None)"

text \<open>
  An event is a thread's next atomic operation (with the sleeper the kernel would wake), or the
  kernel returning from a sleep for no reason (a signal).
\<close>

datatype mutex_event = Thread nat nat | Spurious nat

fun mutex_step :: "mutex_event \<Rightarrow> mutex \<Rightarrow> mutex option" where
  "mutex_step (Thread t w) mu =
     (case mutex_lock t mu of Some mu' \<Rightarrow> Some mu' | None \<Rightarrow> mutex_unlock t w mu)"
| "mutex_step (Spurious t) mu = (if t \<in> set (sleepers mu) then Some (wake t mu) else None)"

section \<open>Invariants\<close>

definition owns :: "mutex \<Rightarrow> nat \<Rightarrow> bool" where
  "owns mu t \<longleftrightarrow> mupc mu t = Owner \<or> mupc mu t = Store_unlocked"

text \<open>A thread that is awake and will look at the lock word again, or will wake a sleeper.\<close>

definition will_act :: "mutex \<Rightarrow> nat \<Rightarrow> bool" where
  "will_act mu t \<longleftrightarrow> (case mupc mu t of
     Test_val v \<Rightarrow> True | Futex_wait \<Rightarrow> True | Retry_cas \<Rightarrow> True
   | Store_unlocked \<Rightarrow> True | Futex_wake \<Rightarrow> True | _ \<Rightarrow> False)"

definition own_inv :: "mutex \<Rightarrow> bool" where
  "own_inv mu \<longleftrightarrow> mval mu \<in> {UNLOCKED, LOCKED_NO_WAITER, LOCKED} \<and>
     (\<exists>h. \<forall>t. owns mu t \<longleftrightarrow> mval mu \<noteq> UNLOCKED \<and> t = h)"

definition sleep_inv :: "mutex \<Rightarrow> bool" where
  "sleep_inv mu \<longleftrightarrow> distinct (sleepers mu) \<and> (\<forall>t. t \<in> set (sleepers mu) \<longleftrightarrow> mupc mu t = Asleep)"

definition wake_inv :: "mutex \<Rightarrow> bool" where
  "wake_inv mu \<longleftrightarrow> (sleepers mu \<noteq> [] \<longrightarrow> mval mu = LOCKED \<or> (\<exists>t. will_act mu t))"

definition mutex_inv :: "mutex \<Rightarrow> bool" where
  "mutex_inv mu \<longleftrightarrow> own_inv mu \<and> sleep_inv mu \<and> wake_inv mu"

lemmas mutex_vals = UNLOCKED_def LOCKED_NO_WAITER_def LOCKED_def

lemma goto_simps [simp]:
  "mval (goto t p mu) = mval mu" "sleepers (goto t p mu) = sleepers mu"
  "mupc (goto t p mu) = (mupc mu)(t := p)"
  "owns (goto t p mu) u \<longleftrightarrow> (if u = t then p = Owner \<or> p = Store_unlocked else owns mu u)"
  "will_act (goto t p mu) u \<longleftrightarrow> (if u = t then (case p of
     Test_val v \<Rightarrow> True | Futex_wait \<Rightarrow> True | Retry_cas \<Rightarrow> True
   | Store_unlocked \<Rightarrow> True | Futex_wake \<Rightarrow> True | _ \<Rightarrow> False) else will_act mu u)"
  by (simp_all add: goto_def owns_def will_act_def)

lemma field_simps_mutex [simp]:
  "owns (mu\<lparr>mval := v\<rparr>) u = owns mu u" "will_act (mu\<lparr>mval := v\<rparr>) u = will_act mu u"
  "owns (mu\<lparr>sleepers := ss\<rparr>) u = owns mu u" "will_act (mu\<lparr>sleepers := ss\<rparr>) u = will_act mu u"
  by (simp_all add: owns_def will_act_def)

lemma mutex_init_inv: "mutex_inv mutex_init"
  by (simp add: mutex_inv_def own_inv_def sleep_inv_def wake_inv_def mutex_init_def owns_def)

text \<open>The four shapes a step can have.\<close>

lemma step_cases:
  assumes "mutex_step e mu = Some mu'"
  obtains (lock) t w where "e = Thread t w" "mutex_lock t mu = Some mu'"
  | (unlock) t w where "e = Thread t w" "mutex_unlock t w mu = Some mu'"
  | (spurious) t where "e = Spurious t" "t \<in> set (sleepers mu)" "mu' = wake t mu"
  using assms by (cases e) (auto split: option.splits if_splits)

lemma own_inv_same:
  "own_inv mu \<Longrightarrow> (\<And>u. owns mu' u = owns mu u) \<Longrightarrow> (mval mu' = UNLOCKED) = (mval mu = UNLOCKED) \<Longrightarrow>
    mval mu' \<in> {UNLOCKED, LOCKED_NO_WAITER, LOCKED} \<Longrightarrow> own_inv mu'"
  unfolding own_inv_def by simp

lemma own_inv_take:
  "own_inv mu \<Longrightarrow> mval mu = UNLOCKED \<Longrightarrow> (\<And>u. owns mu' u = (owns mu u \<or> u = t)) \<Longrightarrow>
    mval mu' \<in> {LOCKED_NO_WAITER, LOCKED} \<Longrightarrow> own_inv mu'"
  unfolding own_inv_def by (rule conjI, simp, rule exI [of _ t]) (auto simp: mutex_vals)

lemma own_inv_drop:
  assumes "own_inv mu" "owns mu t" "\<And>u. owns mu' u = (owns mu u \<and> u \<noteq> t)" "mval mu' = UNLOCKED"
  shows "own_inv mu'"
proof -
  from assms(1,2) have "owns mu u \<Longrightarrow> u = t" for u unfolding own_inv_def by auto
  with assms(3,4) show ?thesis by (auto simp: own_inv_def)
qed

lemma own_inv_val: "own_inv mu \<Longrightarrow> mval mu \<in> {UNLOCKED, LOCKED_NO_WAITER, LOCKED}"
  by (simp add: own_inv_def)

lemma own_inv_owner: "own_inv mu \<Longrightarrow> owns mu t \<Longrightarrow> mval mu = LOCKED_NO_WAITER \<or> mval mu = LOCKED"
  by (auto simp: own_inv_def)

lemma lock_own_inv:
  assumes inv: "own_inv mu" and st: "mutex_lock t mu = Some mu'"
  shows "own_inv mu'"
proof -
  note v = own_inv_val [OF inv]
  have t: "\<not> owns mu t" using st by (auto simp: mutex_lock_def owns_def)
  show ?thesis
  proof (cases "mval mu = UNLOCKED \<and> (mupc mu t = First_cas \<or> mupc mu t = Retry_cas)")
    case True
    then show ?thesis using st
      by (intro own_inv_take [OF inv, of _ t]) (auto simp: mutex_lock_def cas_def Let_def mutex_vals)
  next
    case False
    show ?thesis
    proof (rule own_inv_same [OF inv])
      show "owns mu' u = owns mu u" for u
        using False st t by (auto simp: mutex_lock_def cas_def futex_wait_def Let_def split: mutex_pc.splits if_splits)
      show "(mval mu' = UNLOCKED) = (mval mu = UNLOCKED)"
        using False st by (auto simp: mutex_lock_def cas_def futex_wait_def Let_def mutex_vals split: mutex_pc.splits if_splits)
      show "mval mu' \<in> {UNLOCKED, LOCKED_NO_WAITER, LOCKED}"
        using st v by (auto simp: mutex_lock_def cas_def futex_wait_def Let_def split: mutex_pc.splits if_splits)
    qed
  qed
qed

lemma unlock_own_inv:
  assumes inv: "own_inv mu" and sl: "sleep_inv mu" and st: "mutex_unlock t w mu = Some mu'"
  shows "own_inv mu'"
proof -
  note v = own_inv_val [OF inv]
  have w: "owns mu w = False" if "w \<in> set (sleepers mu)" using that sl by (auto simp: sleep_inv_def owns_def)
  show ?thesis
  proof (cases "mupc mu t")
    case Owner
    then have o: "owns mu t" by (simp add: owns_def)
    show ?thesis
    proof (cases "mval mu = LOCKED_NO_WAITER")
      case True
      with Owner st show ?thesis
        by (intro own_inv_drop [OF inv o]) (auto simp: mutex_unlock_def mutex_vals split: if_splits)
    next
      case False
      with own_inv_owner [OF inv o] have "mval mu = LOCKED" by simp
      with Owner st o show ?thesis
        by (intro own_inv_same [OF inv]) (auto simp: mutex_unlock_def mutex_vals split: if_splits)
    qed
  next
    case Store_unlocked
    then have o: "owns mu t" by (simp add: owns_def)
    with Store_unlocked st show ?thesis
      by (intro own_inv_drop [OF inv o]) (auto simp: mutex_unlock_def split: if_splits)
  next
    case Futex_wake
    then have "\<not> owns mu t" by (simp add: owns_def)
    with Futex_wake st w v show ?thesis
      by (intro own_inv_same [OF inv]) (auto simp: mutex_unlock_def futex_wake_def wake_def split: if_splits)
  qed (use st in \<open>simp_all add: mutex_unlock_def\<close>)
qed

lemma step_own_inv:
  assumes "own_inv mu" "sleep_inv mu" "mutex_step e mu = Some mu'"
  shows "own_inv mu'"
  using assms(3)
proof (cases rule: step_cases)
  case (spurious t)
  then have "\<not> owns mu t" using assms(2) by (simp add: sleep_inv_def owns_def)
  then show ?thesis using spurious own_inv_val [OF assms(1)]
    by (intro own_inv_same [OF assms(1)]) (auto simp: wake_def)
qed (use assms lock_own_inv unlock_own_inv in blast)+

lemma step_sleep_inv:
  assumes "sleep_inv mu" "mutex_step e mu = Some mu'"
  shows "sleep_inv mu'"
  using assms(2)
proof (cases rule: step_cases)
  case (lock t w)
  then show ?thesis using assms(1)
    by (auto simp: sleep_inv_def mutex_lock_def cas_def futex_wait_def Let_def split: mutex_pc.splits if_splits)
next
  case (unlock t w)
  then show ?thesis using assms(1)
    by (auto simp: sleep_inv_def mutex_unlock_def futex_wake_def wake_def Let_def split: mutex_pc.splits if_splits)
next
  case (spurious t)
  then show ?thesis using assms(1) by (auto simp: sleep_inv_def wake_def)
qed

lemma wake_invI: "mval mu = LOCKED \<Longrightarrow> wake_inv mu" "will_act mu t \<Longrightarrow> wake_inv mu" "sleepers mu = [] \<Longrightarrow> wake_inv mu"
  by (auto simp: wake_inv_def)

lemma step_wake_inv:
  assumes "own_inv mu" "sleep_inv mu" "wake_inv mu" "mutex_step e mu = Some mu'"
  shows "wake_inv mu'"
  using assms(4)
proof (cases rule: step_cases)
  case (lock t w)
  show ?thesis
  proof (cases "will_act mu t")
    case True
    then show ?thesis using lock own_inv_val [OF assms(1)]
      by (auto simp: wake_inv_def will_act_def [of mu] mutex_lock_def cas_def futex_wait_def Let_def split: mutex_pc.splits if_splits)
  next
    case False
    show ?thesis
    proof (cases "\<exists>u. will_act mu u")
      case True
      then obtain u where u: "will_act mu u" "u \<noteq> t" using False by metis
      then have "will_act mu' u"
        using lock by (auto simp: mutex_lock_def cas_def futex_wait_def Let_def split: mutex_pc.splits if_splits)
      then show ?thesis by (rule wake_invI(2))
    next
      case none: False
      have "mupc mu t = Away \<or> mupc mu t = First_cas"
        using lock False by (auto simp: will_act_def mutex_lock_def split: mutex_pc.splits)
      then show ?thesis using lock assms(3) none
        by (auto simp: wake_inv_def mutex_lock_def cas_def Let_def mutex_vals split: if_splits)
    qed
  qed
next
  case (unlock t w)
  show ?thesis
  proof (cases "mupc mu t = Owner \<and> mval mu = LOCKED_NO_WAITER")
    case True
    then have t: "\<not> will_act mu t" by (simp add: will_act_def)
    from True unlock have mu': "mu' = goto t Away (mu\<lparr>mval := UNLOCKED\<rparr>)"
      by (auto simp: mutex_unlock_def mutex_vals)
    show ?thesis
    proof (cases "sleepers mu = []")
      case False
      then obtain u where "will_act mu u" using assms(3) True by (auto simp: wake_inv_def mutex_vals)
      with t have "will_act mu' u" by (auto simp: mu')
      then show ?thesis by (rule wake_invI(2))
    qed (simp add: mu' wake_inv_def)
  next
    case False
    then show ?thesis using unlock
      by (auto simp: wake_inv_def mutex_unlock_def futex_wake_def wake_def Let_def split: mutex_pc.splits if_splits)
  qed
next
  case (spurious t)
  then show ?thesis by (intro wake_invI(2) [of _ t]) (simp add: wake_def)
qed

interpretation mutex_run: inductive_invariant mutex_init mutex_step mutex_inv
proof
  show "mutex_inv mutex_init" by (rule mutex_init_inv)
next
  fix mu e mu'
  assume "mutex_inv mu" "mutex_step e mu = Some mu'"
  then show "mutex_inv mu'"
    unfolding mutex_inv_def using step_own_inv step_sleep_inv step_wake_inv by blast
qed

section \<open>Properties\<close>

text \<open>
  C6: at most one thread holds the mutex in every state that any schedule reaches, including the
  window in which the unlocker has decremented the word but not yet stored the unlocked value.
\<close>

theorem mutex_mutual_exclusion:
  assumes "exec mutex_step es mutex_init = Some mu" "owns mu t" "owns mu u"
  shows "t = u"
  using mutex_run.reachable_inv [OF assms(1)] assms(2,3) by (auto simp: mutex_inv_def own_inv_def)

text \<open>Thread 1 takes the mutex, thread 2 finds it taken, marks it and sleeps.\<close>

definition contended :: "mutex_event list" where
  "contended = [Thread 1 0, Thread 1 0, Thread 2 0, Thread 2 0, Thread 2 0, Thread 2 0]"

lemma contended_run:
  "\<exists>mu. exec mutex_step contended mutex_init = Some mu \<and> owns mu 1 \<and> mupc mu 2 = Asleep \<and> sleepers mu = [2]"
  by (simp add: contended_def mutex_init_def mutex_lock_def cas_def futex_wait_def mutex_vals)

theorem mutex_mutual_exclusion_witness:
  "\<exists>mu. exec mutex_step contended mutex_init = Some mu \<and> owns mu 1 \<and> (\<forall>u. owns mu u \<longrightarrow> 1 = u)"
  using contended_run mutex_mutual_exclusion [of contended _ 1] by blast

text \<open>
  C7: no wake-up is lost: while a thread sleeps in the kernel, either the word says that there are
  waiters, so that the holder's unlock will wake one, or some awake thread is still going to
  re-examine the word or to wake a sleeper.
\<close>

theorem mutex_no_lost_wakeup:
  assumes "exec mutex_step es mutex_init = Some mu" "mupc mu t = Asleep"
  shows "mval mu = LOCKED \<and> (\<exists>h. owns mu h) \<or> (\<exists>u. will_act mu u)"
proof -
  have inv: "mutex_inv mu" by (rule mutex_run.reachable_inv [OF assms(1)])
  with assms(2) have "sleepers mu \<noteq> []" by (auto simp: mutex_inv_def sleep_inv_def)
  with inv show ?thesis by (auto simp: mutex_inv_def wake_inv_def own_inv_def mutex_vals)
qed

theorem mutex_no_lost_wakeup_witness:
  "\<exists>mu. exec mutex_step contended mutex_init = Some mu \<and> mupc mu 2 = Asleep \<and>
    (mval mu = LOCKED \<and> (\<exists>h. owns mu h) \<or> (\<exists>u. will_act mu u))"
  using contended_run mutex_no_lost_wakeup [of contended _ 2] by blast

end
