(* ===== verification/Channel.thy ===== *)
theory Channel
  imports Channel_Mutex
begin

text \<open>
  The buffered channel of \<^verbatim>\<open>channel/channel.c\<close>: the lap-stamped ring, its lock-free try operations and
  the futex credits of the blocking ones, with every atomic operation a step of its own. Head and
  tail pack a 32-bit lap and a 32-bit position into one word.

  The lemmas: the packed words of head and tail number the messages, the advance of an index is the next
  number, and different messages have different words as long as the lap does not wrap; closing a
  buffered channel wakes its sleeping receivers in vain. That the messages are delivered in order is
  not proved.
\<close>

section \<open>State\<close>

definition EPIPE :: int where "EPIPE = 32"
definition EAGAIN :: int where "EAGAIN = 11"

text \<open>
  \<open>Fault\<close> is the undefined behaviour of an access outside the ring.
  The points of a thread inside \<open>chan_send_buf\<close> (\<open>S_\<close>) and \<open>chan_recv_buf\<close> (\<open>R_\<close>), including the try
  operations they call. A point carries the locals that are live there: the message, the word loaded
  from tail or head, the expected credit. \<open>Ret\<close> is a returned call: its error number and the message.
\<close>

datatype 'a chan_pc =
    Ready
  | S_closed 'a | S_tail 'a | S_lap 'a u64 | S_cas 'a u64 | S_data 'a u64 | S_inc u64
  | S_credit 'a u32 | S_enter 'a | S_wait 'a | S_sleep 'a | S_leave 'a | S_post | S_check | S_wake
  | R_closed | R_head | R_lap u64 | R_cas u64 | R_data u64 | R_inc 'a u64
  | R_credit u32 | R_enter | R_wait | R_sleep | R_leave | R_post 'a | R_check 'a | R_wake 'a
  | Ret int "'a option"
  | Fault

record 'a chan =
  closed :: bool
  send_ftx :: u32
  recv_ftx :: u32
  send_waiters :: u64
  recv_waiters :: u64
  cap :: u64
  head :: u64
  tail :: u64
  laps :: "u32 list"
  datas :: "'a list"
  cpc :: "nat \<Rightarrow> 'a chan_pc"

definition at :: "nat \<Rightarrow> 'a chan_pc \<Rightarrow> 'a chan \<Rightarrow> 'a chan" where
  "at t p ch = ch\<lparr>cpc := (cpc ch)(t := p)\<rparr>"

section \<open>Operations\<close>

text \<open>
  \<open>chan_init\<close> for a buffered channel; \<open>z\<close> is the zeroed message slot.
\<close>

definition chan_init :: "'a \<Rightarrow> u64 \<Rightarrow> 'a chan" where
  "chan_init z n =
     \<lparr>closed = False,
      send_ftx = (if n = 0 then 1 else 0), recv_ftx = (if n = 0 then 1 else 0),
      send_waiters = 0, recv_waiters = 0, cap = n, head = push_bit 32 1, tail = 0,
      laps = replicate (unat n) 0, datas = replicate (unat n) z, cpc = (\<lambda>_. Ready)\<rparr>"

text \<open>The two \<open>futex_wake\<close> calls with \<open>INT_MAX\<close> wake all who sleep.\<close>

definition wake_all :: "'a chan \<Rightarrow> 'a chan" where
  "wake_all ch = ch\<lparr>cpc := (\<lambda>t. case cpc ch t of R_sleep \<Rightarrow> R_leave | S_sleep v \<Rightarrow> S_leave v | p \<Rightarrow> p)\<rparr>"

definition chan_close :: "'a chan \<Rightarrow> 'a chan" where
  "chan_close ch =
     (let ch = ch\<lparr>closed := True\<rparr>;
          ch = (if cap ch = 0 then ch\<lparr>recv_ftx := 3, send_ftx := 3\<rparr> else ch)
      in wake_all ch)"

text \<open>The two halves of a packed index, and its successor.\<close>

definition pos_of :: "u64 \<Rightarrow> u32" where "pos_of w = ucast w"
definition lap_of :: "u64 \<Rightarrow> u32" where "lap_of w = ucast (drop_bit 32 w)"

definition next_index :: "u64 \<Rightarrow> u64 \<Rightarrow> u64" where
  "next_index n w =
     (if ucast (pos_of w + 1) = n then push_bit 32 (ucast (lap_of w + 2)) else w + 1)"

text \<open>
  One atomic operation of \<open>chan_trysend_buf\<close>. A weak compare-and-swap may fail without a reason (\<open>sp\<close>).
\<close>

definition chan_trysend_buf :: "nat \<Rightarrow> bool \<Rightarrow> 'a chan \<Rightarrow> 'a chan option" where
  "chan_trysend_buf t sp ch = (case cpc ch t of
     S_closed v \<Rightarrow> Some (at t (if closed ch then Ret EPIPE None else S_tail v) ch)
   | S_tail v \<Rightarrow> Some (at t (S_lap v (tail ch)) ch)
   | S_lap v w \<Rightarrow> Some (case load_at (laps ch) (unat (pos_of w)) of
       None \<Rightarrow> at t Fault ch
     | Some l \<Rightarrow> at t (if l \<noteq> lap_of w then S_credit v 1 else S_cas v w) ch)
   | S_cas v w \<Rightarrow>
       (if tail ch = w \<and> \<not> sp then Some (at t (S_data v w) (ch\<lparr>tail := next_index (cap ch) w\<rparr>))
        else Some (at t (S_tail v) ch))
   | S_data v w \<Rightarrow> Some (case store_at (datas ch) (unat (pos_of w)) v of
       None \<Rightarrow> at t Fault ch
     | Some ds \<Rightarrow> at t (S_inc w) (ch\<lparr>datas := ds\<rparr>))
   | S_inc w \<Rightarrow> Some (case load_at (laps ch) (unat (pos_of w)) of
       None \<Rightarrow> at t Fault ch
     | Some l \<Rightarrow> at t S_post (ch\<lparr>laps := (laps ch)[unat (pos_of w) := l + 1]\<rparr>))
   | _ \<Rightarrow> None)"

text \<open>
  The rest of \<open>chan_send_buf\<close>: waiting for a credit after \<open>EAGAIN\<close>, posting one to the receivers after
  success. The wake-ups of \<open>futex_wake\<close> are among those the kernel may deliver at any time.
\<close>

definition chan_send_buf :: "nat \<Rightarrow> bool \<Rightarrow> 'a chan \<Rightarrow> 'a chan option" where
  "chan_send_buf t sp ch = (case cpc ch t of
     S_credit v e \<Rightarrow>
       (if send_ftx ch = e \<and> \<not> sp then Some (at t (S_closed v) (ch\<lparr>send_ftx := e - 1\<rparr>))
        else let e = send_ftx ch in Some (at t (if e = 0 then S_enter v else S_credit v e) ch))
   | S_enter v \<Rightarrow> Some (at t (S_wait v) (ch\<lparr>send_waiters := send_waiters ch + 1\<rparr>))
   | S_wait v \<Rightarrow> Some (at t (if send_ftx ch = 0 then S_sleep v else S_leave v) ch)
   | S_leave v \<Rightarrow> Some (at t (S_credit v 1) (ch\<lparr>send_waiters := send_waiters ch - 1\<rparr>))
   | S_post \<Rightarrow> Some (at t S_check (ch\<lparr>recv_ftx := recv_ftx ch + 1\<rparr>))
   | S_check \<Rightarrow> Some (at t (if recv_waiters ch > 0 then S_wake else Ret 0 None) ch)
   | S_wake \<Rightarrow> Some (at t (Ret 0 None) ch)
   | _ \<Rightarrow> chan_trysend_buf t sp ch)"

definition chan_tryrecv_buf :: "nat \<Rightarrow> bool \<Rightarrow> 'a chan \<Rightarrow> 'a chan option" where
  "chan_tryrecv_buf t sp ch = (case cpc ch t of
     R_closed \<Rightarrow> Some (at t (if closed ch then Ret EPIPE None else R_head) ch)
   | R_head \<Rightarrow> Some (at t (R_lap (head ch)) ch)
   | R_lap w \<Rightarrow> Some (case load_at (laps ch) (unat (pos_of w)) of
       None \<Rightarrow> at t Fault ch
     | Some l \<Rightarrow> at t (if l \<noteq> lap_of w then R_credit 1 else R_cas w) ch)
   | R_cas w \<Rightarrow>
       (if head ch = w \<and> \<not> sp then Some (at t (R_data w) (ch\<lparr>head := next_index (cap ch) w\<rparr>))
        else Some (at t R_head ch))
   | R_data w \<Rightarrow> Some (case load_at (datas ch) (unat (pos_of w)) of
       None \<Rightarrow> at t Fault ch
     | Some v \<Rightarrow> at t (R_inc v w) ch)
   | R_inc v w \<Rightarrow> Some (case load_at (laps ch) (unat (pos_of w)) of
       None \<Rightarrow> at t Fault ch
     | Some l \<Rightarrow> at t (R_post v) (ch\<lparr>laps := (laps ch)[unat (pos_of w) := l + 1]\<rparr>))
   | _ \<Rightarrow> None)"

definition chan_recv_buf :: "nat \<Rightarrow> bool \<Rightarrow> 'a chan \<Rightarrow> 'a chan option" where
  "chan_recv_buf t sp ch = (case cpc ch t of
     R_credit e \<Rightarrow>
       (if recv_ftx ch = e \<and> \<not> sp then Some (at t R_closed (ch\<lparr>recv_ftx := e - 1\<rparr>))
        else let e = recv_ftx ch in Some (at t (if e = 0 then R_enter else R_credit e) ch))
   | R_enter \<Rightarrow> Some (at t R_wait (ch\<lparr>recv_waiters := recv_waiters ch + 1\<rparr>))
   | R_wait \<Rightarrow> Some (at t (if recv_ftx ch = 0 then R_sleep else R_leave) ch)
   | R_leave \<Rightarrow> Some (at t (R_credit 1) (ch\<lparr>recv_waiters := recv_waiters ch - 1\<rparr>))
   | R_post v \<Rightarrow> Some (at t (R_check v) (ch\<lparr>send_ftx := send_ftx ch + 1\<rparr>))
   | R_check v \<Rightarrow> Some (at t (if send_waiters ch > 0 then R_wake v else Ret 0 (Some v)) ch)
   | R_wake v \<Rightarrow> Some (at t (Ret 0 (Some v)) ch)
   | _ \<Rightarrow> chan_tryrecv_buf t sp ch)"

datatype 'a chan_event = Call_send nat 'a | Call_recv nat | Run nat bool | Kernel_wake nat | Close

fun chan_step :: "'a chan_event \<Rightarrow> 'a chan \<Rightarrow> 'a chan option" where
  "chan_step (Call_send t v) ch =
     (case cpc ch t of Ready \<Rightarrow> Some (at t (S_closed v) ch) | Ret e r \<Rightarrow> Some (at t (S_closed v) ch) | _ \<Rightarrow> None)"
| "chan_step (Call_recv t) ch =
     (case cpc ch t of Ready \<Rightarrow> Some (at t R_closed ch) | Ret e r \<Rightarrow> Some (at t R_closed ch) | _ \<Rightarrow> None)"
| "chan_step (Run t sp) ch =
     (case chan_send_buf t sp ch of Some ch' \<Rightarrow> Some ch' | None \<Rightarrow> chan_recv_buf t sp ch)"
| "chan_step (Kernel_wake t) ch =
     (case cpc ch t of S_sleep v \<Rightarrow> Some (at t (S_leave v) ch) | R_sleep \<Rightarrow> Some (at t R_leave ch) | _ \<Rightarrow> None)"
| "chan_step Close ch = Some (chan_close ch)"

section \<open>The message numbering\<close>

text \<open>Message number \<open>k\<close> lives in slot \<open>k mod n\<close> and belongs to the round \<open>k div n\<close>.\<close>

definition tail_word :: "nat \<Rightarrow> nat \<Rightarrow> u64" where
  "tail_word n k = of_nat (2 * (k div n) * 2 ^ 32 + k mod n)"

definition head_word :: "nat \<Rightarrow> nat \<Rightarrow> u64" where
  "head_word n k = of_nat ((2 * (k div n) + 1) * 2 ^ 32 + k mod n)"

definition number_of :: "nat \<Rightarrow> u64 \<Rightarrow> nat" where
  "number_of n w = unat (lap_of w) div 2 * n + unat (pos_of w)"

lemma packed_halves:
  assumes "a < 2 ^ 32" "b < 2 ^ 32"
  shows "unat (pos_of (of_nat (a * 2 ^ 32 + b))) = b" "unat (lap_of (of_nat (a * 2 ^ 32 + b))) = a"
proof -
  have "a * 2 ^ 32 + b < 2 ^ 64" using assms by simp
  then have u: "unat (of_nat (a * 2 ^ 32 + b) :: u64) = a * 2 ^ 32 + b"
    by (simp add: unat_of_nat del: of_nat_add of_nat_mult)
  show "unat (pos_of (of_nat (a * 2 ^ 32 + b))) = b"
    unfolding pos_of_def unsigned_ucast_eq u using assms by (simp add: take_bit_eq_mod)
  show "unat (lap_of (of_nat (a * 2 ^ 32 + b))) = a"
    unfolding lap_of_def unsigned_ucast_eq unsigned_drop_bit_eq u using assms by (simp add: take_bit_eq_mod drop_bit_eq_div)
qed

lemma packed_next:
  assumes a: "a + 2 < 2 ^ 32" and b: "b < n" and n: "n < 2 ^ 32"
  shows "next_index (of_nat n) (of_nat (a * 2 ^ 32 + b)) =
    (if Suc b = n then of_nat ((a + 2) * 2 ^ 32) else of_nat (a * 2 ^ 32 + Suc b))"
proof -
  let ?w = "of_nat (a * 2 ^ 32 + b) :: u64"
  have ab: "a < 2 ^ 32" "b < 2 ^ 32" using assms by simp_all
  note h = packed_halves [OF ab]
  have p: "pos_of ?w = of_nat b" using h(1) ab by (simp add: word_unat_eq_iff unat_of_nat)
  have l: "lap_of ?w = of_nat a" using h(2) ab by (simp add: word_unat_eq_iff unat_of_nat)
  have "unat (ucast (pos_of ?w + 1) :: u64) = Suc b"
    unfolding p unsigned_ucast_eq using b n by (simp add: unat_word_ariths unat_of_nat take_bit_eq_mod)
  then have c: "ucast (pos_of ?w + 1) = (of_nat n :: u64) \<longleftrightarrow> Suc b = n"
    using n by (simp add: word_unat_eq_iff unat_of_nat)
  have "ucast (lap_of ?w + 2) = (of_nat (a + 2) :: u64)"
    unfolding l word_unat_eq_iff unsigned_ucast_eq using a by (simp add: unat_word_ariths unat_of_nat take_bit_eq_mod)
  then have "push_bit 32 (ucast (lap_of ?w + 2)) = (of_nat ((a + 2) * 2 ^ 32) :: u64)"
    by (simp add: push_bit_eq_mult)
  with c show ?thesis by (simp add: next_index_def)
qed

lemma tail_word_halves:
  assumes "0 < n" "n < 2 ^ 32" "2 * (k div n) < 2 ^ 32"
  shows "unat (pos_of (tail_word n k)) = k mod n" "unat (lap_of (tail_word n k)) = 2 * (k div n)"
  unfolding tail_word_def using assms packed_halves [of "2 * (k div n)" "k mod n"]
  by (auto intro: order.strict_trans [OF mod_less_divisor])

lemma head_word_halves:
  assumes "0 < n" "n < 2 ^ 32" "2 * (k div n) + 1 < 2 ^ 32"
  shows "unat (pos_of (head_word n k)) = k mod n" "unat (lap_of (head_word n k)) = 2 * (k div n) + 1"
  unfolding head_word_def using assms packed_halves [of "2 * (k div n) + 1" "k mod n"]
  by (auto intro: order.strict_trans [OF mod_less_divisor])

lemma next_tail:
  assumes "0 < n" "n < 2 ^ 32" "2 * (k div n) + 3 < 2 ^ 32"
  shows "next_index (of_nat n) (tail_word n k) = tail_word n (Suc k)"
    "next_index (of_nat n) (head_word n k) = head_word n (Suc k)"
proof -
  have b: "k mod n < n" using assms by simp
  show "next_index (of_nat n) (tail_word n k) = tail_word n (Suc k)"
    using packed_next [of "2 * (k div n)" "k mod n" n] b assms
    by (simp add: tail_word_def div_Suc mod_Suc algebra_simps del: of_nat_add of_nat_mult)
  show "next_index (of_nat n) (head_word n k) = head_word n (Suc k)"
    using packed_next [of "2 * (k div n) + 1" "k mod n" n] b assms
    by (simp add: head_word_def div_Suc mod_Suc algebra_simps del: of_nat_add of_nat_mult)
qed

lemma tail_word_inj:
  assumes "0 < n" "n < 2 ^ 32" "2 * (k div n) < 2 ^ 32" "2 * (j div n) < 2 ^ 32"
  shows "tail_word n k = tail_word n j \<longleftrightarrow> k = j"
proof
  assume "tail_word n k = tail_word n j"
  then have "k mod n = j mod n" "2 * (k div n) = 2 * (j div n)"
    using tail_word_halves [of n k] tail_word_halves [of n j] assms by auto
  then show "k = j" by (metis mult_cancel1 mult_div_mod_eq zero_neq_numeral)
qed simp

lemma head_word_inj:
  assumes "0 < n" "n < 2 ^ 32" "2 * (k div n) + 1 < 2 ^ 32" "2 * (j div n) + 1 < 2 ^ 32"
  shows "head_word n k = head_word n j \<longleftrightarrow> k = j"
proof
  assume "head_word n k = head_word n j"
  then have "k mod n = j mod n" "2 * (k div n) + 1 = 2 * (j div n) + 1"
    using head_word_halves [of n k] head_word_halves [of n j] assms by auto
  then show "k = j" by (metis add_right_cancel mult_cancel1 mult_div_mod_eq zero_neq_numeral)
qed simp

section \<open>Closing\<close>

text \<open>
  A receiver that sleeps on an empty buffered channel is woken by \<open>chan_close\<close>, but its loop looks only at
  the credit, which closing has not changed, and not at \<open>closed\<close>: it goes back to sleep.
\<close>

lemma close_wakes_in_vain:
  assumes "cpc ch t = R_sleep" "recv_ftx ch = 0" "cap ch \<noteq> 0"
  shows "\<exists>ch'. exec chan_step [Close, Run t False, Run t False, Run t False, Run t False] ch = Some ch' \<and>
    closed ch' \<and> cpc ch' t = R_sleep \<and> recv_ftx ch' = 0"
  using assms by (simp add: chan_close_def wake_all_def chan_send_buf_def chan_trysend_buf_def chan_recv_buf_def at_def Let_def)

end
