(* ===== verification/Hashmap.thy ===== *)
theory Hashmap
  imports Prelude
begin

text \<open>
  The lock-free chained hash map of \<^verbatim>\<open>hashmap/hashmap.c\<close>, over a heap of nodes. The bucket index
  keeps the widths of the code (a 64-bit hash reduced modulo a 32-bit bucket count). Hashing and
  comparison are the client's functions and parameters here; the node \<open>malloc\<close> returns is a
  parameter as well. Each operation gets a map (the code answers false for a null pointer) and runs
  without interference, with its compare-and-swap and retry loop written out; the counters of failed
  attempts are left out. The theorems: the table refines a finite map under get, put and delete, with
  the result flags the header documents, and every loop ends.
\<close>

section \<open>State\<close>

record ('k, 'v) hashmap_kv =
  knext :: ptr
  kkey :: 'k
  kvalue :: 'v

text \<open>What is handed to \<open>free_later\<close>; the client's variant of \<open>free\<close> for values is \<open>opaque\<close>.\<close>

datatype ('k, 'v) garbage = Old_key 'k | Old_value 'v | Old_node ptr

record ('k, 'v) hashmap =
  buckets :: "ptr list"
  n_buckets :: u32
  hlength :: u32
  nodes :: "ptr \<Rightarrow> ('k, 'v) hashmap_kv"
  retired :: "('k, 'v) garbage list"

section \<open>Operations\<close>

definition hashmap_new :: "u32 \<Rightarrow> (ptr \<Rightarrow> ('k, 'v) hashmap_kv) \<Rightarrow> ('k, 'v) hashmap" where
  "hashmap_new n heap =
     \<lparr>buckets = replicate (unat n) NULL, n_buckets = n, hlength = 0, nodes = heap, retired = []\<rparr>"

definition bucket_index :: "('k \<Rightarrow> u64) \<Rightarrow> ('k, 'v) hashmap \<Rightarrow> 'k \<Rightarrow> nat" where
  "bucket_index hash m key = unat (ucast (hash key mod ucast (n_buckets m)) :: u32)"

definition create_node_with_malloc :: "ptr \<Rightarrow> 'k \<Rightarrow> 'v \<Rightarrow> ('k, 'v) hashmap \<Rightarrow> ('k, 'v) hashmap" where
  "create_node_with_malloc p key val m =
     m\<lparr>nodes := (nodes m)(p := (nodes m p)\<lparr>kkey := key, kvalue := val\<rparr>)\<rparr>"

definition destroy_node_later :: "ptr \<Rightarrow> ('k, 'v) hashmap \<Rightarrow> ('k, 'v) hashmap" where
  "destroy_node_later p m =
     m\<lparr>retired := retired m @ [Old_key (kkey (nodes m p)), Old_value (kvalue (nodes m p)), Old_node p]\<rparr>"

definition set_next :: "ptr \<Rightarrow> ptr \<Rightarrow> ('k, 'v) hashmap \<Rightarrow> ('k, 'v) hashmap" where
  "set_next p q m = m\<lparr>nodes := (nodes m)(p := (nodes m p)\<lparr>knext := q\<rparr>)\<rparr>"

text \<open>The search loop of \<open>hashmap_get\<close>; an endless chain is \<open>None\<close>.\<close>

partial_function (option) get_walk ::
  "('k \<Rightarrow> 'k \<Rightarrow> u8) \<Rightarrow> (ptr \<Rightarrow> ('k, 'v) hashmap_kv) \<Rightarrow> 'k \<Rightarrow> ptr \<Rightarrow> 'v option option" where
  "get_walk cmp h key n =
     (if n = NULL then Some None
      else if cmp (kkey (h n)) key = 0 then Some (Some (kvalue (h n)))
      else get_walk cmp h key (knext (h n)))"

definition hashmap_get :: "('k \<Rightarrow> u64) \<Rightarrow> ('k \<Rightarrow> 'k \<Rightarrow> u8) \<Rightarrow> ('k, 'v) hashmap \<Rightarrow> 'k \<Rightarrow> 'v option option" where
  "hashmap_get hash cmp m key =
     (let index = bucket_index hash m key in do {
        n \<leftarrow> load_at (buckets m) index;
        get_walk cmp (nodes m) key n
      })"

text \<open>The search loops of \<open>hashmap_put\<close> and \<open>hashmap_del\<close>: the match and its predecessor.\<close>

partial_function (option) find_walk ::
  "('k \<Rightarrow> 'k \<Rightarrow> u8) \<Rightarrow> (ptr \<Rightarrow> ('k, 'v) hashmap_kv) \<Rightarrow> 'k \<Rightarrow> ptr \<Rightarrow> ptr \<Rightarrow> (ptr \<times> ptr) option" where
  "find_walk cmp h key kv prev =
     (if kv = NULL then Some (NULL, prev)
      else if cmp key (kkey (h kv)) = 0 then Some (kv, prev)
      else find_walk cmp h key (knext (h kv)) kv)"

text \<open>
  One round of the put loop. \<open>Inl\<close> is a lost compare-and-swap (retry), \<open>Inr\<close> a returned result;
  \<open>made\<close> says whether the new node exists already, \<open>p\<close> is its address.
\<close>

definition put_round :: "('k \<Rightarrow> 'k \<Rightarrow> u8) \<Rightarrow> ptr \<Rightarrow> 'k \<Rightarrow> 'v \<Rightarrow> nat \<Rightarrow> bool \<Rightarrow> ('k, 'v) hashmap
    \<Rightarrow> (('k, 'v) hashmap + bool \<times> ('k, 'v) hashmap) option" where
  "put_round cmp p key val i made m = do {
     head \<leftarrow> load_at (buckets m) i;
     (kv, prev) \<leftarrow> find_walk cmp (nodes m) key head NULL;
     let m = (if made then m else create_node_with_malloc p key val m);
     if kv \<noteq> NULL then
       let m = set_next p (knext (nodes m kv)) m in
       if prev \<noteq> NULL then
         if knext (nodes m prev) = kv
         then Some (Inr (True, destroy_node_later kv (set_next prev p m)))
         else Some (Inl m)
       else
         if buckets m ! i = kv
         then Some (Inr (True, destroy_node_later kv (m\<lparr>buckets := (buckets m)[i := p]\<rparr>)))
         else Some (Inl m)
     else
       let m = set_next p NULL m;
           m = (if head \<noteq> NULL then set_next p head m else m) in
       if buckets m ! i = head
       then Some (Inr (False, m\<lparr>buckets := (buckets m)[i := p], hlength := hlength m + 1\<rparr>))
       else Some (Inl m)
   }"

partial_function (option) put_loop :: "('k \<Rightarrow> 'k \<Rightarrow> u8) \<Rightarrow> ptr \<Rightarrow> 'k \<Rightarrow> 'v \<Rightarrow> nat \<Rightarrow> bool \<Rightarrow> ('k, 'v) hashmap
    \<Rightarrow> (bool \<times> ('k, 'v) hashmap) option" where
  "put_loop cmp p key val i made m =
     Option.bind (put_round cmp p key val i made m)
       (\<lambda>r. case r of Inl m' \<Rightarrow> put_loop cmp p key val i True m' | Inr b \<Rightarrow> Some b)"

definition hashmap_put :: "('k \<Rightarrow> u64) \<Rightarrow> ('k \<Rightarrow> 'k \<Rightarrow> u8) \<Rightarrow> ptr \<Rightarrow> ('k, 'v) hashmap \<Rightarrow> 'k \<Rightarrow> 'v
    \<Rightarrow> (bool \<times> ('k, 'v) hashmap) option" where
  "hashmap_put hash cmp p m key val = put_loop cmp p key val (bucket_index hash m key) False m"

definition del_round :: "('k \<Rightarrow> 'k \<Rightarrow> u8) \<Rightarrow> 'k \<Rightarrow> nat \<Rightarrow> ('k, 'v) hashmap
    \<Rightarrow> (('k, 'v) hashmap + bool \<times> ('k, 'v) hashmap) option" where
  "del_round cmp key i m = do {
     head \<leftarrow> load_at (buckets m) i;
     (match, prev) \<leftarrow> find_walk cmp (nodes m) key head NULL;
     if match = NULL then Some (Inr (False, m))
     else if prev \<noteq> NULL then
       if knext (nodes m prev) = match
       then Some (Inr (True, destroy_node_later match
              ((set_next prev (knext (nodes m match)) m)\<lparr>hlength := hlength m - 1\<rparr>)))
       else Some (Inl m)
     else
       if buckets m ! i = match
       then Some (Inr (True, destroy_node_later match
              (m\<lparr>buckets := (buckets m)[i := knext (nodes m match)], hlength := hlength m - 1\<rparr>)))
       else Some (Inl m)
   }"

partial_function (option) del_loop :: "('k \<Rightarrow> 'k \<Rightarrow> u8) \<Rightarrow> 'k \<Rightarrow> nat \<Rightarrow> ('k, 'v) hashmap
    \<Rightarrow> (bool \<times> ('k, 'v) hashmap) option" where
  "del_loop cmp key i m =
     Option.bind (del_round cmp key i m)
       (\<lambda>r. case r of Inl m' \<Rightarrow> del_loop cmp key i m' | Inr b \<Rightarrow> Some b)"

definition hashmap_del :: "('k \<Rightarrow> u64) \<Rightarrow> ('k \<Rightarrow> 'k \<Rightarrow> u8) \<Rightarrow> ('k, 'v) hashmap \<Rightarrow> 'k
    \<Rightarrow> (bool \<times> ('k, 'v) hashmap) option" where
  "hashmap_del hash cmp m key = del_loop cmp key (bucket_index hash m key) m"

section \<open>Specification\<close>

text \<open>What the map relies on: \<open>cmp\<close> decides equality of keys.\<close>

definition cmp_ok :: "('k \<Rightarrow> 'k \<Rightarrow> u8) \<Rightarrow> bool" where
  "cmp_ok cmp \<longleftrightarrow> (\<forall>x y. cmp x y = 0 \<longleftrightarrow> x = y)"

text \<open>
  \<open>L\<close> lists the nodes of each bucket from its head on: well-linked, without repeated keys, and every
  key in the bucket its hash selects.
\<close>

definition bucket_ok :: "('k \<Rightarrow> u64) \<Rightarrow> ('k, 'v) hashmap \<Rightarrow> nat \<Rightarrow> ptr list \<Rightarrow> bool" where
  "bucket_ok hash m i ps \<longleftrightarrow> chain (\<lambda>q. knext (nodes m q)) (buckets m ! i) ps NULL \<and>
     (\<forall>p \<in> set ps. bucket_index hash m (kkey (nodes m p)) = i) \<and>
     distinct (map (\<lambda>p. kkey (nodes m p)) ps)"

definition hashmap_lists :: "('k \<Rightarrow> u64) \<Rightarrow> ('k, 'v) hashmap \<Rightarrow> ptr list list \<Rightarrow> bool" where
  "hashmap_lists hash m L \<longleftrightarrow> 0 < n_buckets m \<and> length (buckets m) = unat (n_buckets m) \<and>
     length L = unat (n_buckets m) \<and> (\<forall>i < length L. bucket_ok hash m i (L ! i)) \<and>
     hlength m = of_nat (sum_list (map length L))"

definition entries :: "('k, 'v) hashmap \<Rightarrow> ptr list \<Rightarrow> 'k \<Rightarrow> 'v option" where
  "entries m ps = map_of (map (\<lambda>p. (kkey (nodes m p), kvalue (nodes m p))) ps)"

text \<open>The table \<open>m\<close> stands for the finite map \<open>M\<close>.\<close>

definition hashmap_rel :: "('k \<Rightarrow> u64) \<Rightarrow> ('k, 'v) hashmap \<Rightarrow> ('k \<Rightarrow> 'v option) \<Rightarrow> bool" where
  "hashmap_rel hash m M \<longleftrightarrow> (\<exists>L. hashmap_lists hash m L \<and>
     (\<forall>k. M k = entries m (L ! bucket_index hash m k) k))"

text \<open>An address that no bucket uses.\<close>

definition fresh_node :: "('k \<Rightarrow> u64) \<Rightarrow> ('k, 'v) hashmap \<Rightarrow> ptr \<Rightarrow> bool" where
  "fresh_node hash m p \<longleftrightarrow> p \<noteq> NULL \<and> (\<forall>L. hashmap_lists hash m L \<longrightarrow> p \<notin> set (concat L))"

section \<open>The search loops\<close>

lemma map_if_upd [simp]: "p \<notin> set ps \<Longrightarrow> map (\<lambda>a. if a = p then c else f a) ps = map f ps"
  by (induction ps) auto

lemma chain_heap_upd [simp]:
  "p \<notin> set ps \<Longrightarrow> chain (\<lambda>q. f (if q = p then n else h q)) b ps r = chain (\<lambda>q. f (h q)) b ps r"
  by (induction ps arbitrary: b) auto

lemma map_heap_upd [simp]:
  "p \<notin> set ps \<Longrightarrow> map (\<lambda>q. f (if q = p then n else h q)) ps = map (\<lambda>q. f (h q)) ps"
  by (induction ps) auto

lemma get_walk_chain:
  assumes "cmp_ok cmp" "chain (\<lambda>q. knext (h q)) n ps NULL"
  shows "get_walk cmp h key n = Some (map_of (map (\<lambda>p. (kkey (h p), kvalue (h p))) ps) key)"
  using assms(2)
proof (induction ps arbitrary: n)
  case Nil
  then show ?case by (subst get_walk.simps) simp
next
  case (Cons p ps)
  then have "n = p" "p \<noteq> NULL" "chain (\<lambda>q. knext (h q)) (knext (h p)) ps NULL" by auto
  with Cons.IH [of "knext (h p)"] assms(1) show ?case by (subst get_walk.simps) (auto simp: cmp_ok_def)
qed

lemma find_walk_absent:
  assumes "cmp_ok cmp" "chain (\<lambda>q. knext (h q)) n ps NULL" "key \<notin> (\<lambda>p. kkey (h p)) ` set ps"
  shows "find_walk cmp h key n prev = Some (NULL, last (prev # ps))"
  using assms(2,3)
proof (induction ps arbitrary: n prev)
  case Nil
  then show ?case by (subst find_walk.simps) simp
next
  case (Cons p ps)
  then have "n = p" "p \<noteq> NULL" "chain (\<lambda>q. knext (h q)) (knext (h p)) ps NULL" by auto
  with Cons.IH [of "knext (h p)" p] Cons.prems assms(1) show ?case
    by (subst find_walk.simps) (auto simp: cmp_ok_def)
qed

lemma find_walk_present:
  assumes "cmp_ok cmp" "chain (\<lambda>q. knext (h q)) n (xs @ q # ys) NULL" "kkey (h q) = key"
    "key \<notin> (\<lambda>p. kkey (h p)) ` set xs"
  shows "find_walk cmp h key n prev = Some (q, last (prev # xs))"
  using assms(2,4)
proof (induction xs arbitrary: n prev)
  case Nil
  then show ?case using assms(1,3) by (subst find_walk.simps) (auto simp: cmp_ok_def)
next
  case (Cons p ps)
  then have "n = p" "p \<noteq> NULL" "chain (\<lambda>q. knext (h q)) (knext (h p)) (ps @ q # ys) NULL" by auto
  with Cons.IH [of "knext (h p)" p] Cons.prems assms(1) show ?case
    by (subst find_walk.simps) (auto simp: cmp_ok_def)
qed

lemma bucket_index_less: "0 < n_buckets m \<Longrightarrow> bucket_index hash m k < unat (n_buckets m)"
proof -
  assume n: "0 < n_buckets m"
  have u: "unat (ucast (n_buckets m) :: u64) = unat (n_buckets m)"
    unfolding unsigned_ucast_eq using unat_below [of "n_buckets m"] by (simp add: take_bit_nat_eq_self)
  have "unat (hash k mod ucast (n_buckets m)) < unat (n_buckets m)"
    using n by (simp add: unat_mod u word_less_nat_alt)
  then show ?thesis
    unfolding bucket_index_def unsigned_ucast_eq using unat_below [of "n_buckets m"] by (simp add: take_bit_nat_eq_self)
qed

lemma sum_list_map_update:
  "i < length L \<Longrightarrow> sum_list (map f (L[i := x])) + f (L ! i) = sum_list (map f L) + (f x :: nat)"
  by (induction L arbitrary: i) (auto split: nat.split)

section \<open>Replacing one bucket's list\<close>

lemma entries_other:
  assumes "hashmap_lists hash m L" "j < length L" "p \<in> set (L ! j)" "i < length L" "p \<in> set (L ! i)"
  shows "i = j"
proof -
  have "bucket_ok hash m i (L ! i)" "bucket_ok hash m j (L ! j)" using assms by (simp_all add: hashmap_lists_def)
  then have "bucket_index hash m (kkey (nodes m p)) = i" "bucket_index hash m (kkey (nodes m p)) = j"
    using assms(3,5) by (auto simp: bucket_ok_def)
  then show ?thesis by simp
qed

lemma lists_replace:
  assumes L: "hashmap_lists hash m L" and i: "i < length L"
    and b: "buckets m' = (buckets m)[i := b']" "n_buckets m' = n_buckets m"
    and other: "\<And>j q. j < length L \<Longrightarrow> j \<noteq> i \<Longrightarrow> q \<in> set (L ! j) \<Longrightarrow> nodes m' q = nodes m q"
    and ch: "chain (\<lambda>q. knext (nodes m' q)) b' ps NULL"
    and keys: "\<forall>p \<in> set ps. bucket_index hash m (kkey (nodes m' p)) = i"
      "distinct (map (\<lambda>p. kkey (nodes m' p)) ps)"
    and len: "hlength m' = hlength m + of_nat (length ps) - of_nat (length (L ! i))"
  shows "hashmap_lists hash m' (L[i := ps])"
proof -
  have bi: "bucket_index hash m' = bucket_index hash m" by (simp add: bucket_index_def fun_eq_iff b)
  have "bucket_ok hash m' j (L[i := ps] ! j)" if j: "j < length L" for j
  proof (cases "j = i")
    case True
    then show ?thesis using i ch keys L b by (auto simp: bucket_ok_def bi hashmap_lists_def)
  next
    case False
    have o: "bucket_ok hash m j (L ! j)" using L j by (simp add: hashmap_lists_def)
    have n: "\<And>q. q \<in> set (L ! j) \<Longrightarrow> nodes m' q = nodes m q" using other [OF j False] .
    have "chain (\<lambda>q. knext (nodes m' q)) (buckets m ! j) (L ! j) NULL"
      using o by (auto simp: bucket_ok_def n intro: chain_cong)
    moreover have "map (\<lambda>p. kkey (nodes m' p)) (L ! j) = map (\<lambda>p. kkey (nodes m p)) (L ! j)"
      using n by (intro map_cong) simp_all
    then have "distinct (map (\<lambda>p. kkey (nodes m' p)) (L ! j))"
      using o unfolding bucket_ok_def by (simp only:)
    ultimately show ?thesis using o False b n unfolding bucket_ok_def bi by simp
  qed
  moreover have "of_nat (sum_list (map length (L[i := ps]))) =
      (of_nat (sum_list (map length L)) + of_nat (length ps) - of_nat (length (L ! i)) :: u32)"
  proof -
    have "sum_list (map length (L[i := ps])) + length (L ! i) = sum_list (map length L) + length ps"
      using i by (rule sum_list_map_update)
    then have "of_nat (sum_list (map length (L[i := ps])) + length (L ! i)) =
        (of_nat (sum_list (map length L) + length ps) :: u32)" by simp
    then show ?thesis by (simp add: algebra_simps)
  qed
  ultimately show ?thesis using L b len by (simp add: hashmap_lists_def)
qed

section \<open>The operations refine the finite map\<close>

lemma hashmap_get_entry:
  assumes "cmp_ok cmp" "hashmap_rel hash m M"
  shows "hashmap_get hash cmp m k = Some (M k)"
proof -
  from assms(2) obtain L where L: "hashmap_lists hash m L" "M k = entries m (L ! bucket_index hash m k) k"
    by (auto simp: hashmap_rel_def)
  then have i: "bucket_index hash m k < length L" using bucket_index_less [of m hash k] by (simp add: hashmap_lists_def)
  then have "bucket_ok hash m (bucket_index hash m k) (L ! bucket_index hash m k)"
    using L by (simp add: hashmap_lists_def)
  then have "get_walk cmp (nodes m) k (buckets m ! bucket_index hash m k) = Some (M k)"
    using get_walk_chain [OF assms(1), of "nodes m" _ "L ! bucket_index hash m k"] L(2)
    by (simp add: bucket_ok_def entries_def)
  moreover have "length (buckets m) = length L" using L(1) by (simp add: hashmap_lists_def)
  ultimately show ?thesis using i by (simp add: hashmap_get_def)
qed

lemma entries_append: "entries m (xs @ ys) k = (case entries m xs k of None \<Rightarrow> entries m ys k | Some v \<Rightarrow> Some v)"
  by (auto simp: entries_def map_add_def split: option.splits)

lemma entries_Cons: "entries m (p # ps) k = (if k = kkey (nodes m p) then Some (kvalue (nodes m p)) else entries m ps k)"
  by (simp add: entries_def)

lemma entries_None: "entries m ps k = None \<longleftrightarrow> k \<notin> (\<lambda>p. kkey (nodes m p)) ` set ps"
  by (induction ps) (auto simp: entries_def)

lemma entries_cong: "(\<And>p. p \<in> set ps \<Longrightarrow> kkey (nodes m' p) = kkey (nodes m p) \<and> kvalue (nodes m' p) = kvalue (nodes m p)) \<Longrightarrow>
    entries m' ps = entries m ps"
  unfolding entries_def by (induction ps) auto

lemma rel_replace:
  assumes L: "hashmap_lists hash m L" and M: "\<And>k. M k = entries m (L ! bucket_index hash m k) k"
    and L': "hashmap_lists hash m' (L[i := ps])" and i: "i < length L" "bucket_index hash m key = i"
    and n: "n_buckets m' = n_buckets m"
    and other: "\<And>j q. j < length L \<Longrightarrow> j \<noteq> i \<Longrightarrow> q \<in> set (L ! j) \<Longrightarrow> nodes m' q = nodes m q"
    and new: "\<And>k. entries m' ps k = (if k = key then v else entries m (L ! i) k)"
  shows "hashmap_rel hash m' (M(key := v))"
proof -
  have bi: "bucket_index hash m' = bucket_index hash m" by (simp add: bucket_index_def fun_eq_iff n)
  have "(M(key := v)) k = entries m' (L[i := ps] ! bucket_index hash m k) k" for k
  proof (cases "bucket_index hash m k = i")
    case True
    then show ?thesis using new i M by simp
  next
    case False
    have j: "bucket_index hash m k < length L"
      using L bucket_index_less [of m hash k] by (simp add: hashmap_lists_def)
    have "entries m' (L ! bucket_index hash m k) = entries m (L ! bucket_index hash m k)"
      using other [OF j False] by (intro entries_cong) simp
    then show ?thesis using False M i by auto
  qed
  then show ?thesis using L' unfolding hashmap_rel_def bi by blast
qed

lemma rel_bucket:
  assumes "hashmap_lists hash m L"
  shows "bucket_index hash m key < length L" "bucket_ok hash m (bucket_index hash m key) (L ! bucket_index hash m key)"
    "length (buckets m) = length L"
  using assms bucket_index_less [of m hash key] by (simp_all add: hashmap_lists_def)

lemma split_at_key:
  assumes "key \<in> (\<lambda>p. kkey (nodes m p)) ` set ps" 
  obtains xs q ys where "ps = xs @ q # ys" "kkey (nodes m q) = key" "key \<notin> (\<lambda>p. kkey (nodes m p)) ` set xs"
proof -
  from assms obtain xs q ys where "ps = xs @ q # ys" "kkey (nodes m q) = key" "\<forall>x \<in> set xs. kkey (nodes m x) \<noteq> key"
    using split_list_first_prop [of ps "\<lambda>p. kkey (nodes m p) = key"] by (auto simp: image_iff)
  then show thesis by (intro that) auto
qed

text \<open>Linking a new node in front of a bucket.\<close>

lemma put_absent:
  assumes cmp: "cmp_ok cmp" and L: "hashmap_lists hash m L" and i: "i = bucket_index hash m key"
    and p: "p \<noteq> NULL" "p \<notin> set (concat L)" and k: "key \<notin> (\<lambda>p. kkey (nodes m p)) ` set (L ! i)"
  obtains m' where "hashmap_put hash cmp p m key val = Some (False, m')" "hashmap_lists hash m' (L[i := p # L ! i])"
    "n_buckets m' = n_buckets m" "\<And>q. q \<noteq> p \<Longrightarrow> nodes m' q = nodes m q"
    "kkey (nodes m' p) = key" "kvalue (nodes m' p) = val" "retired m' = retired m"
proof -
  note B = rel_bucket(1,2) [OF L, of key, folded i] rel_bucket(3) [OF L]
  let ?h = "buckets m ! i"
  let ?n = "\<lparr>knext = ?h, kkey = key, kvalue = val\<rparr>"
  have fw: "find_walk cmp (nodes m) key ?h NULL = Some (NULL, last (NULL # L ! i))"
    using B(2) k by (intro find_walk_absent [OF cmp]) (simp_all add: bucket_ok_def)
  let ?m' = "m\<lparr>nodes := (nodes m)(p := ?n), buckets := (buckets m)[i := p], hlength := hlength m + 1\<rparr>"
  have nd: "(nodes m p)\<lparr>kkey := key, kvalue := val, knext := q\<rparr> = \<lparr>knext = q, kkey = key, kvalue = val\<rparr>" for q
    by (cases "nodes m p") simp
  have "put_round cmp p key val i False m = Some (Inr (False, ?m'))"
    using B(1,3) fw
    by (simp add: put_round_def create_node_with_malloc_def set_next_def Let_def nd)
  then have "hashmap_put hash cmp p m key val = Some (False, ?m')"
    by (simp add: hashmap_put_def i [symmetric] put_loop.simps)
  moreover have "p \<notin> set (L ! i)" using p B(1) by auto
  then have "hashmap_lists hash ?m' (L[i := p # L ! i])"
    using B p k i L by (intro lists_replace [OF L B(1), where b' = p]) (auto simp: bucket_ok_def split: if_splits)
  ultimately show thesis by (rule that) simp_all
qed

text \<open>The chain through a bucket after its tail from some node on is replaced.\<close>

lemma chain_replace_tail:
  assumes "chain nx b (xs @ q # ys) NULL" "q \<notin> set xs" "xs \<noteq> [] \<Longrightarrow> nx' (last xs) = r"
    and "\<And>a. a \<in> set (butlast xs) \<Longrightarrow> nx' a = nx a" "chain nx' r zs NULL"
  shows "chain nx' (if xs = [] then r else b) (xs @ zs) NULL"
  using assms
proof (induction xs arbitrary: b)
  case Nil
  then show ?case by simp
next
  case (Cons a as)
  then have b: "b = a" "a \<noteq> NULL" and as: "chain nx (nx a) (as @ q # ys) NULL" by auto
  show ?case
  proof (cases "as = []")
    case True
    then show ?thesis using Cons.prems b by simp
  next
    case False
    then have "chain nx' (nx a) (as @ zs) NULL"
      using Cons.IH [OF as] Cons.prems by (simp split: if_splits)
    then show ?thesis using Cons.prems(4) [of a] False b by simp
  qed
qed

lemma chain_last_next: "chain nx b (xs @ q # ys) r \<Longrightarrow> xs \<noteq> [] \<Longrightarrow> nx (last xs) = q"
  by (cases xs rule: rev_cases) auto

lemma last_unique:
  assumes "distinct (map f (xs @ q # ys))" "xs \<noteq> []"
  shows "last xs \<noteq> q" "last xs \<notin> set ys" "last xs \<notin> set (butlast xs)" "last xs \<in> set xs"
proof -
  from assms(2) have x: "xs = butlast xs @ [last xs]" by simp
  have "distinct (xs @ q # ys)" using assms(1) by (metis distinct_map)
  then have "distinct (butlast xs @ [last xs] @ q # ys)" by (subst (asm) x) simp
  then show "last xs \<noteq> q" "last xs \<notin> set ys" "last xs \<notin> set (butlast xs)" by auto
  show "last xs \<in> set xs" using assms(2) by simp
qed

lemma put_present:
  assumes cmp: "cmp_ok cmp" and L: "hashmap_lists hash m L" and i: "i = bucket_index hash m key"
    and p: "p \<noteq> NULL" "p \<notin> set (concat L)"
    and q: "L ! i = xs @ q # ys" "kkey (nodes m q) = key" "key \<notin> (\<lambda>p. kkey (nodes m p)) ` set xs"
  obtains m' where "hashmap_put hash cmp p m key val = Some (True, m')" "hashmap_lists hash m' (L[i := xs @ p # ys])"
    "n_buckets m' = n_buckets m" "\<And>q. q \<noteq> p \<Longrightarrow> q \<notin> set (L ! i) \<Longrightarrow> nodes m' q = nodes m q"
    "\<And>q. q \<noteq> p \<Longrightarrow> kkey (nodes m' q) = kkey (nodes m q) \<and> kvalue (nodes m' q) = kvalue (nodes m q)"
    "kkey (nodes m' p) = key" "kvalue (nodes m' p) = val" "retired m' = retired m @ [Old_key key, Old_value (kvalue (nodes m q)), Old_node q]"
proof -
  note B = rel_bucket(1,2) [OF L, of key, folded i] rel_bucket(3) [OF L]
  have ch: "chain (\<lambda>q. knext (nodes m q)) (buckets m ! i) (xs @ q # ys) NULL"
    and ki: "\<forall>p \<in> set (xs @ q # ys). bucket_index hash m (kkey (nodes m p)) = i"
    and kd: "distinct (map (\<lambda>p. kkey (nodes m p)) (xs @ q # ys))"
    using B(2) q(1) by (simp_all add: bucket_ok_def)
  have pn: "p \<notin> set (xs @ q # ys)" using p B(1) nth_mem [OF B(1)] unfolding q(1) by auto
  have fw: "find_walk cmp (nodes m) key (buckets m ! i) NULL = Some (q, last (NULL # xs))"
    using ch q(2,3) by (rule find_walk_present [OF cmp])
  have q0: "q \<noteq> NULL" "xs \<noteq> [] \<Longrightarrow> last xs \<noteq> NULL"
    using chain_no_null [OF ch] by (auto, cases xs rule: rev_cases, auto)
  have bq: "xs = [] \<Longrightarrow> buckets m ! i = q" using ch by simp
  have prevq: "xs \<noteq> [] \<Longrightarrow> knext (nodes m (last xs)) = q" using chain_last_next [OF ch] .
  let ?n = "\<lparr>knext = knext (nodes m q), kkey = key, kvalue = val\<rparr>"
  let ?m1 = "m\<lparr>nodes := (nodes m)(p := ?n)\<rparr>"
  let ?m' = "destroy_node_later q (if xs = [] then ?m1\<lparr>buckets := (buckets m)[i := p]\<rparr> else set_next (last xs) p ?m1)"
  have nd: "(nodes m p)\<lparr>kkey := key, kvalue := val, knext := r\<rparr> = \<lparr>knext = r, kkey = key, kvalue = val\<rparr>" for r
    by (cases "nodes m p") simp
  have pq: "p \<noteq> q" "xs \<noteq> [] \<Longrightarrow> p \<noteq> last xs" using pn by auto
  have "put_round cmp p key val i False m = Some (Inr (True, ?m'))"
    using B(1,3) fw q0 bq prevq pq
    by (auto simp: put_round_def create_node_with_malloc_def set_next_def Let_def nd)
  then have "hashmap_put hash cmp p m key val = Some (True, ?m')"
    by (simp add: hashmap_put_def i [symmetric] put_loop.simps)
  moreover define m' where "m' = ?m'"
  ultimately have "hashmap_put hash cmp p m key val = Some (True, m')" by simp
  then show thesis
  proof (rule that)
    have bs: "buckets m' = (buckets m)[i := if xs = [] then p else buckets m ! i]"
      by (simp add: m'_def destroy_node_later_def set_next_def)
    have nx: "knext (nodes m' a) = (if xs \<noteq> [] \<and> a = last xs then p
        else if a = p then knext (nodes m q) else knext (nodes m a))" for a
      by (auto simp: m'_def destroy_node_later_def set_next_def)
    have kk: "kkey (nodes m' a) = (if a = p then key else kkey (nodes m a))" for a
      using pq by (auto simp: m'_def destroy_node_later_def set_next_def)
    note lu = last_unique [OF kd]
    have chys: "chain (\<lambda>a. knext (nodes m a)) (knext (nodes m q)) ys NULL" using ch by auto
    have "chain (\<lambda>a. knext (nodes m' a)) (knext (nodes m q)) ys NULL"
      using chys by (rule chain_cong) (use pn lu(2) in \<open>auto simp: nx\<close>)
    then have chz: "chain (\<lambda>a. knext (nodes m' a)) p (p # ys) NULL" using p(1) pq by (auto simp: nx)
    have "chain (\<lambda>a. knext (nodes m' a)) (if xs = [] then p else buckets m ! i) (xs @ p # ys) NULL"
      using ch _ _ _ chz
    proof (rule chain_replace_tail)
      show "q \<notin> set xs" using kd by auto
      show "knext (nodes m' (last xs)) = p" if "xs \<noteq> []" using that by (simp add: nx)
      show "knext (nodes m' a) = knext (nodes m a)" if "a \<in> set (butlast xs)" for a
        using that pn lu(3) by (auto simp: nx dest: in_set_butlastD)
    qed
    then show "hashmap_lists hash m' (L[i := xs @ p # ys])"
    proof (rule lists_replace [OF L B(1) bs, rotated 2])
      show "n_buckets m' = n_buckets m" by (simp add: m'_def destroy_node_later_def set_next_def)
      show "nodes m' a = nodes m a" if "j < length L" "j \<noteq> i" "a \<in> set (L ! j)" for j a
      proof -
        have "a \<noteq> p" using p(2) that nth_mem [OF that(1)] by auto
        moreover have "a \<notin> set (L ! i)" using entries_other [OF L that(1,3) B(1)] that(2) by auto
        then have "xs \<noteq> [] \<Longrightarrow> a \<noteq> last xs" unfolding q(1) by auto
        ultimately show ?thesis by (auto simp: m'_def destroy_node_later_def set_next_def)
      qed
      show "\<forall>a \<in> set (xs @ p # ys). bucket_index hash m (kkey (nodes m' a)) = i"
        using ki i by (auto simp: kk)
      show "distinct (map (\<lambda>a. kkey (nodes m' a)) (xs @ p # ys))"
        unfolding kk using kd pn q(2) by auto
      show "hlength m' = hlength m + of_nat (length (xs @ p # ys)) - of_nat (length (L ! i))"
        by (simp add: q(1) m'_def destroy_node_later_def set_next_def)
    qed
  qed (use pq q(2) in \<open>auto simp: m'_def destroy_node_later_def set_next_def q(1)\<close>)
qed

lemma del_present:
  assumes cmp: "cmp_ok cmp" and L: "hashmap_lists hash m L" and i: "i = bucket_index hash m key"
    and q: "L ! i = xs @ q # ys" "kkey (nodes m q) = key" "key \<notin> (\<lambda>p. kkey (nodes m p)) ` set xs"
  obtains m' where "hashmap_del hash cmp m key = Some (True, m')" "hashmap_lists hash m' (L[i := xs @ ys])"
    "n_buckets m' = n_buckets m" "\<And>q. q \<notin> set (L ! i) \<Longrightarrow> nodes m' q = nodes m q"
    "\<And>q. kkey (nodes m' q) = kkey (nodes m q) \<and> kvalue (nodes m' q) = kvalue (nodes m q)"
    "retired m' = retired m @ [Old_key key, Old_value (kvalue (nodes m q)), Old_node q]"
proof -
  note B = rel_bucket(1,2) [OF L, of key, folded i] rel_bucket(3) [OF L]
  have ch: "chain (\<lambda>q. knext (nodes m q)) (buckets m ! i) (xs @ q # ys) NULL"
    and ki: "\<forall>p \<in> set (xs @ q # ys). bucket_index hash m (kkey (nodes m p)) = i"
    and kd: "distinct (map (\<lambda>p. kkey (nodes m p)) (xs @ q # ys))"
    using B(2) q(1) by (simp_all add: bucket_ok_def)
  have fw: "find_walk cmp (nodes m) key (buckets m ! i) NULL = Some (q, last (NULL # xs))"
    using ch q(2,3) by (rule find_walk_present [OF cmp])
  have q0: "q \<noteq> NULL" "xs \<noteq> [] \<Longrightarrow> last xs \<noteq> NULL"
    using chain_no_null [OF ch] by (auto, cases xs rule: rev_cases, auto)
  have bq: "xs = [] \<Longrightarrow> buckets m ! i = q" using ch by simp
  have prevq: "xs \<noteq> [] \<Longrightarrow> knext (nodes m (last xs)) = q" using chain_last_next [OF ch] .
  let ?r = "knext (nodes m q)"
  let ?m' = "destroy_node_later q (if xs = [] then m\<lparr>buckets := (buckets m)[i := ?r], hlength := hlength m - 1\<rparr>
      else (set_next (last xs) ?r m)\<lparr>hlength := hlength m - 1\<rparr>)"
  have "del_round cmp key i m = Some (Inr (True, ?m'))"
    using B(1,3) fw q0 bq prevq by (auto simp: del_round_def)
  then have "hashmap_del hash cmp m key = Some (True, ?m')"
    by (simp add: hashmap_del_def i [symmetric] del_loop.simps)
  moreover define m' where "m' = ?m'"
  ultimately have "hashmap_del hash cmp m key = Some (True, m')" by simp
  then show thesis
  proof (rule that)
    have bs: "buckets m' = (buckets m)[i := if xs = [] then ?r else buckets m ! i]"
      by (simp add: m'_def destroy_node_later_def set_next_def)
    have nx: "knext (nodes m' a) = (if xs \<noteq> [] \<and> a = last xs then ?r else knext (nodes m a))" for a
      by (auto simp: m'_def destroy_node_later_def set_next_def)
    have kk: "kkey (nodes m' a) = kkey (nodes m a)" for a
      by (auto simp: m'_def destroy_node_later_def set_next_def)
    note lu = last_unique [OF kd]
    have chys: "chain (\<lambda>a. knext (nodes m a)) ?r ys NULL" using ch by auto
    have chz: "chain (\<lambda>a. knext (nodes m' a)) ?r ys NULL"
      using chys by (rule chain_cong) (use lu(2) in \<open>auto simp: nx\<close>)
    have "chain (\<lambda>a. knext (nodes m' a)) (if xs = [] then ?r else buckets m ! i) (xs @ ys) NULL"
      using ch _ _ _ chz
    proof (rule chain_replace_tail)
      show "q \<notin> set xs" using kd by auto
      show "knext (nodes m' (last xs)) = ?r" if "xs \<noteq> []" using that by (simp add: nx)
      show "knext (nodes m' a) = knext (nodes m a)" if "a \<in> set (butlast xs)" for a
        using that lu(3) by (auto simp: nx)
    qed
    then show "hashmap_lists hash m' (L[i := xs @ ys])"
    proof (rule lists_replace [OF L B(1) bs, rotated 2])
      show "n_buckets m' = n_buckets m" by (simp add: m'_def destroy_node_later_def set_next_def)
      show "nodes m' a = nodes m a" if "j < length L" "j \<noteq> i" "a \<in> set (L ! j)" for j a
      proof -
        have "a \<notin> set (L ! i)" using entries_other [OF L that(1,3) B(1)] that(2) by auto
        then have "xs \<noteq> [] \<Longrightarrow> a \<noteq> last xs" unfolding q(1) by auto
        then show ?thesis by (auto simp: m'_def destroy_node_later_def set_next_def)
      qed
      show "\<forall>a \<in> set (xs @ ys). bucket_index hash m (kkey (nodes m' a)) = i"
        using ki by (auto simp: kk)
      show "distinct (map (\<lambda>a. kkey (nodes m' a)) (xs @ ys))" unfolding kk using kd by auto
      show "hlength m' = hlength m + of_nat (length (xs @ ys)) - of_nat (length (L ! i))"
        by (simp add: q(1) m'_def destroy_node_later_def set_next_def)
    qed
  qed (use q(2) in \<open>auto simp: m'_def destroy_node_later_def set_next_def q(1)\<close>)
qed

lemma hashmap_put_rel:
  assumes cmp: "cmp_ok cmp" and R: "hashmap_rel hash m M" and p: "fresh_node hash m p"
  shows "\<exists>m'. hashmap_put hash cmp p m key val = Some (key \<in> dom M, m') \<and> hashmap_rel hash m' (M(key \<mapsto> val))"
proof -
  from R obtain L where L: "hashmap_lists hash m L" and M: "\<And>k. M k = entries m (L ! bucket_index hash m k) k"
    by (auto simp: hashmap_rel_def)
  define i where "i = bucket_index hash m key"
  have il: "i < length L" using rel_bucket(1) [OF L] by (simp add: i_def)
  have p': "p \<noteq> NULL" "p \<notin> set (concat L)" using p L by (auto simp: fresh_node_def)
  have pi: "p \<notin> set (L ! j)" if "j < length L" for j using p'(2) that nth_mem [OF that] by auto
  show ?thesis
  proof (cases "key \<in> (\<lambda>p. kkey (nodes m p)) ` set (L ! i)")
    case True
    then obtain xs q ys where q: "L ! i = xs @ q # ys" "kkey (nodes m q) = key"
        "key \<notin> (\<lambda>p. kkey (nodes m p)) ` set xs"
      by (rule split_at_key)
    obtain m' where m': "hashmap_put hash cmp p m key val = Some (True, m')" "hashmap_lists hash m' (L[i := xs @ p # ys])"
      "n_buckets m' = n_buckets m" "\<And>q. q \<noteq> p \<Longrightarrow> q \<notin> set (L ! i) \<Longrightarrow> nodes m' q = nodes m q"
      "\<And>q. q \<noteq> p \<Longrightarrow> kkey (nodes m' q) = kkey (nodes m q) \<and> kvalue (nodes m' q) = kvalue (nodes m q)"
      "kkey (nodes m' p) = key" "kvalue (nodes m' p) = val"
      using put_present [OF cmp L i_def p' q] by metis
    have e: "entries m' zs = entries m zs" if "p \<notin> set zs" for zs
      using that m'(5) by (intro entries_cong) metis
    have "hashmap_rel hash m' (M(key := Some val))"
    proof (rule rel_replace [OF L M m'(2) il i_def [symmetric] m'(3)])
      show "nodes m' a = nodes m a" if "j < length L" "j \<noteq> i" "a \<in> set (L ! j)" for j a
        using entries_other [OF L that(1,3) il] that pi [OF that(1)] by (intro m'(4)) auto
      have "p \<notin> set xs" "p \<notin> set ys" using pi [OF il] q(1) by auto
      then show "entries m' (xs @ p # ys) k = (if k = key then Some val else entries m (L ! i) k)" for k
        using q(2,3) m'(6,7) entries_None [of m xs key] e [of xs] e [of ys]
        by (auto simp: q(1) entries_append entries_Cons split: option.splits)
    qed
    moreover have "key \<in> dom M"
      using True entries_None [of m "L ! i" key] M [of key] by (auto simp: i_def [symmetric] domIff)
    ultimately show ?thesis using m'(1) by auto
  next
    case False
    obtain m' where m': "hashmap_put hash cmp p m key val = Some (False, m')" "hashmap_lists hash m' (L[i := p # L ! i])"
      "n_buckets m' = n_buckets m" "\<And>q. q \<noteq> p \<Longrightarrow> nodes m' q = nodes m q"
      "kkey (nodes m' p) = key" "kvalue (nodes m' p) = val"
      using put_absent [OF cmp L i_def p' False] by metis
    have "entries m' (L ! i) = entries m (L ! i)"
      using m'(4) pi [OF il] by (intro entries_cong) metis
    have "hashmap_rel hash m' (M(key := Some val))"
    proof (rule rel_replace [OF L M m'(2) il i_def [symmetric] m'(3)])
      show "nodes m' a = nodes m a" if "j < length L" "j \<noteq> i" "a \<in> set (L ! j)" for j a
        using that pi [OF that(1)] by (intro m'(4)) auto
      show "entries m' (p # L ! i) k = (if k = key then Some val else entries m (L ! i) k)" for k
        using \<open>entries m' (L ! i) = entries m (L ! i)\<close> m'(5,6) by (auto simp: entries_def)
    qed
    moreover have "key \<notin> dom M"
      using False entries_None [of m "L ! i" key] M [of key] by (auto simp: i_def [symmetric] domIff)
    ultimately show ?thesis using m'(1) by auto
  qed
qed

lemma hashmap_del_rel:
  assumes cmp: "cmp_ok cmp" and R: "hashmap_rel hash m M"
  shows "\<exists>m'. hashmap_del hash cmp m key = Some (key \<in> dom M, m') \<and> hashmap_rel hash m' (M(key := None))"
proof -
  from R obtain L where L: "hashmap_lists hash m L" and M: "\<And>k. M k = entries m (L ! bucket_index hash m k) k"
    by (auto simp: hashmap_rel_def)
  define i where "i = bucket_index hash m key"
  have il: "i < length L" using rel_bucket(1) [OF L] by (simp add: i_def)
  note B = rel_bucket(2) [OF L, of key, folded i_def] rel_bucket(3) [OF L]
  show ?thesis
  proof (cases "key \<in> (\<lambda>p. kkey (nodes m p)) ` set (L ! i)")
    case True
    then obtain xs q ys where q: "L ! i = xs @ q # ys" "kkey (nodes m q) = key"
        "key \<notin> (\<lambda>p. kkey (nodes m p)) ` set xs"
      by (rule split_at_key)
    obtain m' where m': "hashmap_del hash cmp m key = Some (True, m')" "hashmap_lists hash m' (L[i := xs @ ys])"
      "n_buckets m' = n_buckets m" "\<And>q. q \<notin> set (L ! i) \<Longrightarrow> nodes m' q = nodes m q"
      "\<And>q. kkey (nodes m' q) = kkey (nodes m q) \<and> kvalue (nodes m' q) = kvalue (nodes m q)"
      using del_present [OF cmp L i_def q] by metis
    have e: "entries m' zs = entries m zs" for zs using m'(5) by (intro entries_cong) auto
    have "key \<notin> (\<lambda>p. kkey (nodes m p)) ` set ys" using B(1) q by (auto simp: bucket_ok_def)
    then have n: "entries m xs key = None" "entries m ys key = None" using q(3) by (simp_all add: entries_None)
    have "hashmap_rel hash m' (M(key := None))"
    proof (rule rel_replace [OF L M m'(2) il i_def [symmetric] m'(3)])
      show "nodes m' a = nodes m a" if "j < length L" "j \<noteq> i" "a \<in> set (L ! j)" for j a
        using entries_other [OF L that(1,3) il] that by (intro m'(4)) auto
      show "entries m' (xs @ ys) k = (if k = key then None else entries m (L ! i) k)" for k
        using q(2) n e [of xs] e [of ys] e
        by (auto simp: q(1) entries_append split: option.splits) (auto simp: entries_def)
    qed
    moreover have "key \<in> dom M"
      using True entries_None [of m "L ! i" key] M [of key] by (auto simp: i_def [symmetric] domIff)
    ultimately show ?thesis using m'(1) by auto
  next
    case False
    have "find_walk cmp (nodes m) key (buckets m ! i) NULL = Some (NULL, last (NULL # L ! i))"
      using B(1) False by (intro find_walk_absent [OF cmp]) (simp_all add: bucket_ok_def)
    then have "hashmap_del hash cmp m key = Some (False, m)"
      using il B(2) by (simp add: hashmap_del_def i_def [symmetric] del_loop.simps del_round_def)
    moreover have "M key = None" using False entries_None [of m "L ! i" key] M [of key] by (simp add: i_def [symmetric])
    then have "key \<notin> dom M" "M(key := None) = M" by auto
    ultimately show ?thesis using R by auto
  qed
qed

lemma hashmap_new_rel:
  assumes "0 < n"
  shows "hashmap_rel hash (hashmap_new n heap) Map.empty"
proof -
  have "hashmap_lists hash (hashmap_new n heap) (replicate (unat n) [])"
    using assms by (auto simp: hashmap_lists_def bucket_ok_def hashmap_new_def sum_list_replicate)
  moreover have "entries (hashmap_new n heap) (replicate (unat n) [] ! bucket_index hash (hashmap_new n heap) k) k = None" for k
    using assms bucket_index_less [of "hashmap_new n heap" hash k] by (simp add: entries_def hashmap_new_def)
  ultimately show ?thesis unfolding hashmap_rel_def by metis
qed

text \<open>
  The interface: with key equality as comparison the table is a map store, whatever the hash
  function.
\<close>

definition eq_cmp :: "'k \<Rightarrow> 'k \<Rightarrow> u8" where
  "eq_cmp x y = (if x = y then 0 else 1)"

lemma eq_cmp_ok: "cmp_ok eq_cmp"
  by (simp add: cmp_ok_def eq_cmp_def)

interpretation hashmap_store: map_store "hashmap_rel hash" "fresh_node hash" "hashmap_get hash eq_cmp"
    "hashmap_put hash eq_cmp" "hashmap_del hash eq_cmp"
  for hash
  by unfold_locales
    (simp_all add: hashmap_get_entry [OF eq_cmp_ok] hashmap_put_rel [OF eq_cmp_ok] hashmap_del_rel [OF eq_cmp_ok])

section \<open>Properties\<close>

text \<open>
  C15: \<open>hashmap_put\<close> ends, makes the key map to the value and keeps every other binding; it reports
  \<open>true\<close> exactly when it replaced an existing binding.
\<close>

theorem hashmap_put_correct:
  assumes "cmp_ok cmp" "hashmap_rel hash m M" "fresh_node hash m p"
  shows "\<exists>m'. hashmap_put hash cmp p m key val = Some (key \<in> dom M, m') \<and>
    hashmap_rel hash m' (M(key \<mapsto> val)) \<and> hashmap_get hash cmp m' key = Some (Some val)"
proof -
  obtain m' where "hashmap_put hash cmp p m key val = Some (key \<in> dom M, m')" "hashmap_rel hash m' (M(key \<mapsto> val))"
    using hashmap_put_rel [OF assms] by blast
  with hashmap_get_entry [OF assms(1)] show ?thesis by fastforce
qed

lemma fresh_new: "p \<noteq> NULL \<Longrightarrow> fresh_node hash (hashmap_new n heap) p"
proof -
  assume p: "p \<noteq> NULL"
  have e: "set (concat L) = {}" if "hashmap_lists hash (hashmap_new n heap) L" for L
  proof -
    have "L ! i = []" if "i < length L" for i
      using \<open>hashmap_lists hash (hashmap_new n heap) L\<close> that
      by (auto simp: hashmap_lists_def bucket_ok_def hashmap_new_def)
    then show ?thesis by (auto simp: in_set_conv_nth)
  qed
  have "p \<notin> set (concat L)" if "hashmap_lists hash (hashmap_new n heap) L" for L
    unfolding e [OF that] by simp
  with p show ?thesis by (simp only: fresh_node_def) simp
qed

theorem hashmap_put_correct_witness:
  "\<exists>m'. hashmap_put (\<lambda>k. k * 5) eq_cmp 9 (hashmap_new 4 (\<lambda>_. \<lparr>knext = 0, kkey = 0, kvalue = 0\<rparr>)) (3 :: u64) (8 :: nat) =
      Some (False, m') \<and> hashmap_get (\<lambda>k. k * 5) eq_cmp m' 3 = Some (Some 8)"
  using hashmap_put_correct [OF eq_cmp_ok hashmap_new_rel fresh_new,
      of 4 9 "\<lambda>k. k * 5" "\<lambda>_. \<lparr>knext = 0, kkey = 0, kvalue = 0\<rparr>" 3 8] by auto

text \<open>
  C16: \<open>hashmap_del\<close> ends, removes the key and nothing else; it reports \<open>true\<close> exactly when the key
  was there, so that a second deletion reports \<open>false\<close>.
\<close>

theorem hashmap_del_correct:
  assumes "cmp_ok cmp" "hashmap_rel hash m M"
  shows "\<exists>m'. hashmap_del hash cmp m key = Some (key \<in> dom M, m') \<and> hashmap_rel hash m' (M(key := None)) \<and>
    (\<exists>m''. hashmap_del hash cmp m' key = Some (False, m''))"
proof -
  obtain m' where m': "hashmap_del hash cmp m key = Some (key \<in> dom M, m')" "hashmap_rel hash m' (M(key := None))"
    using hashmap_del_rel [OF assms] by blast
  from hashmap_del_rel [OF assms(1) m'(2), of key] m' show ?thesis by auto
qed

theorem hashmap_del_correct_witness:
  "\<exists>m'. hashmap_del (\<lambda>k. k) eq_cmp (hashmap_new 4 (\<lambda>_. \<lparr>knext = 0, kkey = 0, kvalue = 0 :: nat\<rparr>)) 3 = Some (False, m')"
  using hashmap_del_correct [OF eq_cmp_ok hashmap_new_rel, of 4 "\<lambda>k. k" "\<lambda>_. \<lparr>knext = 0, kkey = 0, kvalue = 0 :: nat\<rparr>" 3]
  by auto

text \<open>
  putting a key and deleting it again leaves a table in which the key is unbound and every
  other key reads as before.
\<close>

theorem hashmap_put_del_round_trip:
  assumes "hashmap_rel hash m M" "fresh_node hash m p"
  shows "\<exists>b m1 m2. hashmap_put hash eq_cmp p m k v = Some (b, m1) \<and> hashmap_del hash eq_cmp m1 k = Some (True, m2) \<and>
    (\<forall>x. hashmap_get hash eq_cmp m2 x = Some (if x = k then None else M x))"
  by (rule hashmap_store.put_then_del [OF assms])

theorem hashmap_put_del_round_trip_witness:
  "\<exists>b m1 m2. hashmap_put (\<lambda>k. k) eq_cmp 9 (hashmap_new 4 (\<lambda>_. \<lparr>knext = 0, kkey = 0, kvalue = 0 :: nat\<rparr>)) 3 8 = Some (b, m1) \<and>
    hashmap_del (\<lambda>k. k) eq_cmp m1 3 = Some (True, m2) \<and> hashmap_get (\<lambda>k. k) eq_cmp m2 3 = Some None"
  using hashmap_put_del_round_trip [OF hashmap_new_rel fresh_new, of 4 9 "\<lambda>k. k"
      "\<lambda>_. \<lparr>knext = 0, kkey = 0, kvalue = 0 :: nat\<rparr>" 3 8] by auto

end
