(* ===== verification/Free_Later.thy ===== *)
theory Free_Later
  imports Prelude
begin

text \<open>
  Deferred release of memory, \<^verbatim>\<open>hashmap/free_later.c\<close>: the registration list, the two buffers, the
  spin locks and the stage/run/exit protocol, as calls that run one after the other. The theorems
  state what the code does rather than what its header promises: the spin lock is never given
  back, nothing is ever staged, and no registered variable is ever released.
\<close>

section \<open>State\<close>

text \<open>
  A list (\<open>list_t\<close>) is the sequence of its values from the head on, with its length counter.
  \<open>released\<close> records the calls of the release functions, oldest first.
\<close>

record 'v fl_list =
  vals :: "'v list"
  llength :: u32

record 'v free_later_state =
  buffer :: "'v fl_list option"
  buffer_prev :: "'v fl_list option"
  stage_lock :: bool
  run_lock :: bool
  released :: "'v list"

section \<open>Operations\<close>

definition list_new :: "'v fl_list" where
  "list_new = \<lparr>vals = [], llength = 0\<rparr>"

definition list_add :: "'v fl_list \<Rightarrow> 'v \<Rightarrow> 'v fl_list" where
  "list_add l v = l\<lparr>vals := v # vals l, llength := llength l + 1\<rparr>"

text \<open>\<open>CAS\<close> returns the value found and the new contents.\<close>

definition CAS :: "'b \<Rightarrow> 'b \<Rightarrow> 'b \<Rightarrow> 'b \<times> 'b" where
  "CAS a b c = (a, if a = b then c else a)"

text \<open>
  Spinning on a lock that nobody gives back never ends: \<open>None\<close>.
\<close>

definition acquire_lock :: "bool \<Rightarrow> bool option" where
  "acquire_lock lock = (let (old, new) = CAS lock False True in if old then None else Some new)"

text \<open>The compare-and-swap works on the local copy \<open>l\<close>; the lock itself is returned as it was.\<close>

definition release_lock :: "bool \<Rightarrow> bool" where
  "release_lock lock = (let l = lock; (old, l) = CAS l True False in lock)"

definition free_later_init :: "'v free_later_state \<Rightarrow> 'v free_later_state" where
  "free_later_init s = s\<lparr>buffer := Some list_new\<rparr>"

text \<open>Registering before initialisation dereferences NULL: \<open>None\<close>.\<close>

definition free_later :: "'v \<Rightarrow> 'v free_later_state \<Rightarrow> 'v free_later_state option" where
  "free_later v s = (case buffer s of None \<Rightarrow> None | Some l \<Rightarrow> Some (s\<lparr>buffer := Some (list_add l v)\<rparr>))"

definition free_later_stage :: "'v free_later_state \<Rightarrow> 'v free_later_state option" where
  "free_later_stage s = do {
     lk \<leftarrow> acquire_lock (stage_lock s);
     let s = s\<lparr>stage_lock := lk\<rparr>;
     if (case buffer_prev s of None \<Rightarrow> True | Some l \<Rightarrow> llength l = 0)
     then Some (s\<lparr>stage_lock := release_lock (stage_lock s)\<rparr>)
     else let s = s\<lparr>buffer_prev := buffer s, buffer := Some list_new\<rparr>
          in Some (s\<lparr>stage_lock := release_lock (stage_lock s)\<rparr>)
   }"

text \<open>
  The loop over the staged buffer frees a list node and then reads its link, which is undefined. The
  model goes on as if the link were still there, which only allows more releases; the theorems show that
  no buffer with a node is ever staged, so this is never reached.
\<close>

definition free_later_run :: "'v free_later_state \<Rightarrow> 'v free_later_state option" where
  "free_later_run s = (case buffer_prev s of
     None \<Rightarrow> Some s
   | Some l \<Rightarrow> do {
       lk \<leftarrow> acquire_lock (run_lock s);
       let s = s\<lparr>run_lock := lk, released := released s @ vals l, buffer_prev := None\<rparr>;
       Some (s\<lparr>run_lock := release_lock (run_lock s)\<rparr>)
     })"

definition free_later_exit :: "'v free_later_state \<Rightarrow> 'v free_later_state option" where
  "free_later_exit s = do {
     s \<leftarrow> free_later_run s;
     s \<leftarrow> free_later_stage s;
     s \<leftarrow> free_later_run s;
     Some (s\<lparr>buffer := None\<rparr>)
   }"

text \<open>The state at program start: the file's static variables.\<close>

definition fl_start :: "'v free_later_state" where
  "fl_start = \<lparr>buffer = None, buffer_prev = None, stage_lock = False, run_lock = False, released = []\<rparr>"

datatype 'v fl_call = Init | Later 'v | Stage | Run | Exit

fun fl_step :: "'v fl_call \<Rightarrow> 'v free_later_state \<Rightarrow> 'v free_later_state option" where
  "fl_step Init s = Some (free_later_init s)"
| "fl_step (Later v) s = free_later v s"
| "fl_step Stage s = free_later_stage s"
| "fl_step Run s = free_later_run s"
| "fl_step Exit s = free_later_exit s"

section \<open>Properties\<close>

definition nothing_staged :: "'v free_later_state \<Rightarrow> bool" where
  "nothing_staged s \<longleftrightarrow> buffer_prev s = None \<and> released s = []"

lemmas fl_defs = acquire_lock_def release_lock_def CAS_def free_later_init_def free_later_def
  free_later_stage_def free_later_run_def free_later_exit_def

lemma stage_result:
  "nothing_staged s \<Longrightarrow> free_later_stage s =
    (if stage_lock s then None else Some (s\<lparr>stage_lock := True\<rparr>))"
  by (simp add: nothing_staged_def fl_defs)

lemma run_result: "nothing_staged s \<Longrightarrow> free_later_run s = Some s"
  by (simp add: nothing_staged_def fl_defs)

interpretation fl_run: inductive_invariant fl_start fl_step nothing_staged
proof
  show "nothing_staged fl_start" by (simp add: nothing_staged_def fl_start_def)
next
  fix s c s'
  assume "nothing_staged s" "fl_step c s = Some s'"
  then show "nothing_staged s'"
    by (cases c) (auto simp: stage_result run_result free_later_exit_def free_later_def free_later_init_def
        nothing_staged_def split: option.splits if_splits bind_splits)
qed

text \<open>
  C38: no sequence of calls, from program start and ending with \<open>free_later_exit\<close> or not, ever invokes a
  release function or stages a buffer: the first staging needs a staged buffer to be there already.
  The header promises that the exit call releases every registered variable.
\<close>

theorem free_later_never_releases:
  assumes "exec fl_step cs fl_start = Some s"
  shows "released s = [] \<and> buffer_prev s = None"
  using fl_run.reachable_inv [OF assms] by (simp add: nothing_staged_def)

theorem free_later_never_releases_witness:
  "\<exists>s. exec fl_step [Init, Later (7::nat), Run, Exit] fl_start = Some s \<and> released s = [] \<and> buffer_prev s = None"
proof -
  have "\<exists>s. exec fl_step [Init, Later (7::nat), Run, Exit] fl_start = Some s"
    by (simp add: fl_defs fl_start_def)
  with free_later_never_releases [of "[Init, Later (7::nat), Run, Exit]"] show ?thesis by blast
qed

text \<open>
  the spin lock is never given back: after one staging call every further one spins forever.
\<close>

theorem free_later_second_stage_hangs:
  assumes "exec fl_step cs fl_start = Some s" "free_later_stage s = Some s'"
  shows "free_later_stage s' = None"
proof -
  have "nothing_staged s" by (rule fl_run.reachable_inv [OF assms(1)])
  then show ?thesis using assms(2) stage_result [of s] stage_result [of s']
    by (auto simp: nothing_staged_def split: if_splits)
qed

theorem free_later_second_stage_hangs_witness:
  "\<exists>s s'. exec fl_step [Init, Later (7::nat)] fl_start = Some s \<and> free_later_stage s = Some s' \<and>
    free_later_stage s' = None"
proof -
  have "\<exists>s s'. exec fl_step [Init, Later (7::nat)] fl_start = Some s \<and> free_later_stage s = Some s'"
    by (simp add: fl_defs fl_start_def)
  with free_later_second_stage_hangs [of "[Init, Later (7::nat)]"] show ?thesis by blast
qed

end
