(* ===== verification/Lf_Timer.thy ===== *)
theory Lf_Timer
  imports Prelude
begin

text \<open>
  The lock-free timer table of \<^verbatim>\<open>lf-timer/lf_timer.c\<close>: a freelist of timer slots, the array of
  expiration ticks with its sentinels, and the scan that expires due timers. Ticks and handles keep
  their widths; the address of \<open>timers[i]\<close> is \<open>i + 1\<close> and \<open>0\<close> is null. Every operation runs
  without interference, with its compare-and-swap loop written out. A callback is the client's
  code: a parameter that changes the client's own data. Calling a null callback and leaving an
  array are failures (\<open>None\<close>).

  The theorems: the unrolled read-ahead scan is a plain scan of the slots below the high watermark;
  \<open>lf_timer_expire\<close> calls back exactly the due timers; the table stays well-formed, and no client that
  keeps to the interface makes it fail.
\<close>

section \<open>State\<close>

type_synonym lf_timer_t = u32
type_synonym lf_tick_t = u64

definition MAXTIMERS :: nat where "MAXTIMERS = 8192"

definition LF_TIMER_NULL :: lf_timer_t where "LF_TIMER_NULL = - 1"

definition LF_TIMER_TICK_INVALID :: lf_tick_t where "LF_TIMER_TICK_INVALID = NOT 0"

record 'cb timer =
  cb :: "'cb option"
  arg :: ptr

record freelist =
  head :: ptr
  fcount :: u64

record ('cb, 'u) g_timer =
  earliest :: lf_tick_t
  current :: lf_tick_t
  hi_watermark :: u32
  expirations :: "lf_tick_t list"
  timers :: "'cb timer list"
  freelist :: freelist
  user :: 'u

definition init_timers :: "'u \<Rightarrow> ('cb, 'u) g_timer" where
  "init_timers u =
     \<lparr>earliest = LF_TIMER_TICK_INVALID, current = 0, hi_watermark = 0,
      expirations = replicate MAXTIMERS 0 @ [0, 0, 0, 0],
      timers = (map (\<lambda>i. \<lparr>cb = None, arg = Suc (i + 1)\<rparr>) [0..<MAXTIMERS])
        [MAXTIMERS - 1 := \<lparr>cb = None, arg = NULL\<rparr>],
      freelist = \<lparr>head = Suc 0, fcount = 0\<rparr>,
      user = u\<rparr>"

section \<open>Expiration\<close>

definition store_expiration :: "nat \<Rightarrow> lf_tick_t \<Rightarrow> ('cb, 'u) g_timer \<Rightarrow> ('cb, 'u) g_timer option" where
  "store_expiration i e g = do {
     es \<leftarrow> store_at (expirations g) i e;
     Some (g\<lparr>expirations := es\<rparr>)
   }"

text \<open>The compare-and-swap loop: \<open>Inr None\<close> leaves the timer alone, \<open>Inr (Some exp)\<close> has won it.\<close>

definition expire_round :: "lf_tick_t \<Rightarrow> nat \<Rightarrow> ('cb, 'u) g_timer
    \<Rightarrow> (('cb, 'u) g_timer + lf_tick_t option \<times> ('cb, 'u) g_timer) option" where
  "expire_round now p g = do {
     exp \<leftarrow> load_at (expirations g) p;
     if \<not> exp \<le> now then Some (Inr (None, g))
     else do {
       v \<leftarrow> load_at (expirations g) p;
       if v = exp then do {
         g \<leftarrow> store_expiration p LF_TIMER_TICK_INVALID g;
         Some (Inr (Some exp, g))
       } else Some (Inl g)
     }
   }"

definition expire_one_timer :: "('cb \<Rightarrow> lf_timer_t \<Rightarrow> lf_tick_t \<Rightarrow> ptr \<Rightarrow> 'u \<Rightarrow> 'u)
    \<Rightarrow> lf_tick_t \<Rightarrow> nat \<Rightarrow> ('cb, 'u) g_timer \<Rightarrow> ('cb, 'u) g_timer option" where
  "expire_one_timer call now p g = do {
     (won, g) \<leftarrow> loop (expire_round now p) g;
     case won of
       None \<Rightarrow> Some g
     | Some exp \<Rightarrow> do {
         tim \<leftarrow> load_at (timers g) p;
         f \<leftarrow> cb tim;
         Some (g\<lparr>user := call f (of_nat p) exp (arg tim) (user g)\<rparr>)
       }
   }"

definition MIN_tick :: "lf_tick_t \<Rightarrow> lf_tick_t \<Rightarrow> lf_tick_t" where
  "MIN_tick a b = (if a < b then a else b)"

text \<open>
  One test of the scan: the value \<open>w\<close> read earlier from slot \<open>p\<close>. \<open>Inr\<close> is the \<open>break\<close> at the top.
\<close>

definition scan_test :: "('cb \<Rightarrow> lf_timer_t \<Rightarrow> lf_tick_t \<Rightarrow> ptr \<Rightarrow> 'u \<Rightarrow> 'u)
    \<Rightarrow> lf_tick_t \<Rightarrow> nat \<Rightarrow> nat \<Rightarrow> lf_tick_t \<Rightarrow> lf_tick_t \<times> ('cb, 'u) g_timer
    \<Rightarrow> (lf_tick_t \<times> ('cb, 'u) g_timer + lf_tick_t \<times> ('cb, 'u) g_timer) option" where
  "scan_test call now tp p w eg = (case eg of (e, g) \<Rightarrow>
     if w \<le> now then
       if p \<ge> tp then Some (Inr (e, g))
       else do {
         g \<leftarrow> expire_one_timer call now p g;
         Some (Inl (e, g))
       }
     else Some (Inl (MIN_tick e w, g)))"

text \<open>
  Half of the unrolled loop body: read the next pair ahead, then test the pair read before. The
  state holds the read pointer and the pair in hand.
\<close>

definition scan_half :: "('cb \<Rightarrow> lf_timer_t \<Rightarrow> lf_tick_t \<Rightarrow> ptr \<Rightarrow> 'u \<Rightarrow> 'u)
    \<Rightarrow> lf_tick_t \<Rightarrow> nat \<Rightarrow> nat \<times> lf_tick_t \<times> lf_tick_t \<times> lf_tick_t \<times> ('cb, 'u) g_timer
    \<Rightarrow> (nat \<times> lf_tick_t \<times> lf_tick_t \<times> lf_tick_t \<times> ('cb, 'u) g_timer + lf_tick_t \<times> ('cb, 'u) g_timer) option" where
  "scan_half call now tp st = (case st of (p, w0, w1, e, g) \<Rightarrow> do {
     pair0 \<leftarrow> load_at (expirations g) p;
     pair1 \<leftarrow> load_at (expirations g) (p + 1);
     let p = p + 2;
     r0 \<leftarrow> scan_test call now tp (p - 4) w0 (e, g);
     case r0 of Inr res \<Rightarrow> Some (Inr res) | Inl eg \<Rightarrow> do {
       r1 \<leftarrow> scan_test call now tp (p - 4 + 1) w1 eg;
       case r1 of Inr res \<Rightarrow> Some (Inr res) | Inl (e, g) \<Rightarrow> Some (Inl (p, pair0, pair1, e, g))
     }
   })"

definition scan_round :: "('cb \<Rightarrow> lf_timer_t \<Rightarrow> lf_tick_t \<Rightarrow> ptr \<Rightarrow> 'u \<Rightarrow> 'u)
    \<Rightarrow> lf_tick_t \<Rightarrow> nat \<Rightarrow> nat \<times> lf_tick_t \<times> lf_tick_t \<times> lf_tick_t \<times> ('cb, 'u) g_timer
    \<Rightarrow> (nat \<times> lf_tick_t \<times> lf_tick_t \<times> lf_tick_t \<times> ('cb, 'u) g_timer + lf_tick_t \<times> ('cb, 'u) g_timer) option" where
  "scan_round call now tp st = do {
     r \<leftarrow> scan_half call now tp st;
     case r of Inr res \<Rightarrow> Some (Inr res) | Inl st \<Rightarrow> scan_half call now tp st
   }"

definition scan_timers :: "('cb \<Rightarrow> lf_timer_t \<Rightarrow> lf_tick_t \<Rightarrow> ptr \<Rightarrow> 'u \<Rightarrow> 'u)
    \<Rightarrow> lf_tick_t \<Rightarrow> nat \<Rightarrow> nat \<Rightarrow> ('cb, 'u) g_timer \<Rightarrow> (lf_tick_t \<times> ('cb, 'u) g_timer) option" where
  "scan_timers call now cur tp g = do {
     pair0 \<leftarrow> load_at (expirations g) cur;
     pair1 \<leftarrow> load_at (expirations g) (cur + 1);
     loop (scan_round call now tp) (cur + 2, pair0, pair1, LF_TIMER_TICK_INVALID, g)
   }"

definition update_earliest_round :: "lf_tick_t \<Rightarrow> ('cb, 'u) g_timer
    \<Rightarrow> (('cb, 'u) g_timer + ('cb, 'u) g_timer) option" where
  "update_earliest_round exp g =
     (let old = earliest g in
      if exp \<ge> old then Some (Inr g)
      else if earliest g = old then Some (Inr (g\<lparr>earliest := exp\<rparr>))
      else Some (Inl g))"

definition update_earliest :: "lf_tick_t \<Rightarrow> ('cb, 'u) g_timer \<Rightarrow> ('cb, 'u) g_timer option" where
  "update_earliest exp = loop (update_earliest_round exp)"

definition lf_timer_expire :: "('cb \<Rightarrow> lf_timer_t \<Rightarrow> lf_tick_t \<Rightarrow> ptr \<Rightarrow> 'u \<Rightarrow> 'u)
    \<Rightarrow> ('cb, 'u) g_timer \<Rightarrow> ('cb, 'u) g_timer option" where
  "lf_timer_expire call g =
     (let now = current g in
      if earliest g \<le> now then do {
        let g = g\<lparr>earliest := LF_TIMER_TICK_INVALID\<rparr>;
        (e, g) \<leftarrow> scan_timers call now 0 (unat (hi_watermark g)) g;
        update_earliest e g
      } else Some g)"

section \<open>Ticks, allocation and arming\<close>

text \<open>The loop state holds the expected value, which a failed compare-and-swap refreshes.\<close>

definition tick_set_round :: "lf_tick_t \<Rightarrow> lf_tick_t \<times> ('cb, 'u) g_timer
    \<Rightarrow> (lf_tick_t \<times> ('cb, 'u) g_timer + ('cb, 'u) g_timer) option" where
  "tick_set_round tck st = (case st of (old, g) \<Rightarrow>
     if tck \<le> old then Some (Inr g)
     else if current g = old then Some (Inr (g\<lparr>current := tck\<rparr>))
     else Some (Inl (current g, g)))"

definition lf_timer_tick_set :: "lf_tick_t \<Rightarrow> ('cb, 'u) g_timer \<Rightarrow> ('cb, 'u) g_timer option" where
  "lf_timer_tick_set tck g =
     (if tck = LF_TIMER_TICK_INVALID then Some g
      else loop (tick_set_round tck) (current g, g))"

definition lf_timer_tick_get :: "('cb, 'u) g_timer \<Rightarrow> lf_tick_t" where
  "lf_timer_tick_get g = current g"

definition fetch_umax_round :: "u32 \<Rightarrow> u32 \<times> ('cb, 'u) g_timer
    \<Rightarrow> (u32 \<times> ('cb, 'u) g_timer + u32 \<times> ('cb, 'u) g_timer) option" where
  "fetch_umax_round val st = (case st of (old, g) \<Rightarrow>
     if val \<le> old then Some (Inr (old, g))
     else if hi_watermark g = old then Some (Inr (old, g\<lparr>hi_watermark := val\<rparr>))
     else Some (Inl (hi_watermark g, g)))"

definition lockfree_fetch_umax_4 :: "u32 \<Rightarrow> ('cb, 'u) g_timer \<Rightarrow> (u32 \<times> ('cb, 'u) g_timer) option" where
  "lockfree_fetch_umax_4 val g = loop (fetch_umax_round val) (hi_watermark g, g)"

text \<open>The double-width compare-and-swap on the freelist; on failure the expected value is refreshed.\<close>

definition lockfree_compare_exchange_pp :: "freelist \<Rightarrow> freelist \<Rightarrow> ('cb, 'u) g_timer
    \<Rightarrow> bool \<times> freelist \<times> ('cb, 'u) g_timer" where
  "lockfree_compare_exchange_pp old neu g =
     (if freelist g = old then (True, old, g\<lparr>freelist := neu\<rparr>) else (False, freelist g, g))"

definition alloc_round :: "('cb, 'u) g_timer \<Rightarrow> (('cb, 'u) g_timer + ptr \<times> ('cb, 'u) g_timer) option" where
  "alloc_round g = do {
     let old = \<lparr>head = head (freelist g), fcount = fcount (freelist g)\<rparr>;
     if head old = NULL then Some (Inr (NULL, g))
     else do {
       t \<leftarrow> load_at (timers g) (head old - 1);
       let neu = \<lparr>head = arg t, fcount = fcount old + 1\<rparr>;
       (case lockfree_compare_exchange_pp old neu g of (ok, _, g) \<Rightarrow>
          if ok then Some (Inr (head old, g)) else Some (Inl g))
     }
   }"

definition lf_timer_alloc :: "'cb option \<Rightarrow> ptr \<Rightarrow> ('cb, 'u) g_timer
    \<Rightarrow> (lf_timer_t \<times> ('cb, 'u) g_timer) option" where
  "lf_timer_alloc f a g = do {
     (h, g) \<leftarrow> loop alloc_round g;
     if h = NULL then Some (LF_TIMER_NULL, g)
     else do {
       let idx = (of_nat (h - 1) :: u32);
       g \<leftarrow> store_expiration (unat idx) LF_TIMER_TICK_INVALID g;
       ts \<leftarrow> store_at (timers g) (unat idx) \<lparr>cb = f, arg = a\<rparr>;
       (old_max, g) \<leftarrow> lockfree_fetch_umax_4 (idx + 1) (g\<lparr>timers := ts\<rparr>);
       Some (idx, g)
     }
   }"

definition free_round :: "nat \<Rightarrow> ('cb, 'u) g_timer \<Rightarrow> (('cb, 'u) g_timer + ('cb, 'u) g_timer) option" where
  "free_round i g = do {
     let old = freelist g;
     ts \<leftarrow> store_at (timers g) i \<lparr>cb = None, arg = head old\<rparr>;
     let neu = \<lparr>head = Suc i, fcount = fcount old + 1\<rparr>;
     (case lockfree_compare_exchange_pp old neu (g\<lparr>timers := ts\<rparr>) of (ok, _, g) \<Rightarrow>
        if ok then Some (Inr g) else Some (Inl g))
   }"

definition lf_timer_free :: "lf_timer_t \<Rightarrow> ('cb, 'u) g_timer \<Rightarrow> ('cb, 'u) g_timer option" where
  "lf_timer_free idx g =
     (if idx \<ge> hi_watermark g then Some g
      else do {
        e \<leftarrow> load_at (expirations g) (unat idx);
        if e \<noteq> LF_TIMER_TICK_INVALID then Some g
        else loop (free_round (unat idx)) g
      })"

definition update_expiration_round :: "nat \<Rightarrow> lf_tick_t \<Rightarrow> bool \<Rightarrow> ('cb, 'u) g_timer
    \<Rightarrow> (('cb, 'u) g_timer + bool \<times> ('cb, 'u) g_timer) option" where
  "update_expiration_round i exp active g = do {
     old \<leftarrow> load_at (expirations g) i;
     if (if active then old = LF_TIMER_TICK_INVALID else old \<noteq> LF_TIMER_TICK_INVALID)
     then Some (Inr (False, g))
     else do {
       v \<leftarrow> load_at (expirations g) i;
       if v = old then do { g \<leftarrow> store_expiration i exp g; Some (Inr (True, g)) }
       else Some (Inl g)
     }
   }"

definition update_expiration :: "lf_timer_t \<Rightarrow> lf_tick_t \<Rightarrow> bool \<Rightarrow> ('cb, 'u) g_timer
    \<Rightarrow> (bool \<times> ('cb, 'u) g_timer) option" where
  "update_expiration idx exp active g =
     (if idx \<ge> hi_watermark g then Some (False, g)
      else do {
        (ok, g) \<leftarrow> loop (update_expiration_round (unat idx) exp active) g;
        if \<not> ok then Some (False, g)
        else do {
          g \<leftarrow> (if exp \<noteq> LF_TIMER_TICK_INVALID then update_earliest exp g else Some g);
          Some (True, g)
        }
      })"

definition lf_timer_set :: "lf_timer_t \<Rightarrow> lf_tick_t \<Rightarrow> ('cb, 'u) g_timer \<Rightarrow> (bool \<times> ('cb, 'u) g_timer) option" where
  "lf_timer_set idx exp g =
     (if exp = LF_TIMER_TICK_INVALID then Some (False, g) else update_expiration idx exp False g)"

definition lf_timer_reset :: "lf_timer_t \<Rightarrow> lf_tick_t \<Rightarrow> ('cb, 'u) g_timer \<Rightarrow> (bool \<times> ('cb, 'u) g_timer) option" where
  "lf_timer_reset idx exp g =
     (if exp = LF_TIMER_TICK_INVALID then Some (False, g) else update_expiration idx exp True g)"

definition lf_timer_cancel :: "lf_timer_t \<Rightarrow> ('cb, 'u) g_timer \<Rightarrow> (bool \<times> ('cb, 'u) g_timer) option" where
  "lf_timer_cancel idx g = update_expiration idx LF_TIMER_TICK_INVALID True g"

section \<open>Well-formed tables\<close>

text \<open>
  \<open>rs\<close> are the recycled slots, in freelist order; the slots from the high watermark on were never
  used and follow them. No active timer expires before \<open>earliest\<close>, which is what lets
  \<open>lf_timer_expire\<close> skip the scan.
\<close>

definition freelist_ok :: "('cb, 'u) g_timer \<Rightarrow> nat list \<Rightarrow> bool" where
  "freelist_ok g rs \<longleftrightarrow> unat (hi_watermark g) \<le> MAXTIMERS \<and> set rs \<subseteq> {..<unat (hi_watermark g)} \<and>
     chain (\<lambda>p. arg (timers g ! (p - 1))) (head (freelist g))
       (map Suc (rs @ [unat (hi_watermark g)..<MAXTIMERS])) NULL"

definition slots_ok :: "('cb, 'u) g_timer \<Rightarrow> bool" where
  "slots_ok g \<longleftrightarrow> length (expirations g) = MAXTIMERS + 4 \<and> length (timers g) = MAXTIMERS \<and>
     current g \<noteq> LF_TIMER_TICK_INVALID \<and>
     (\<forall>i. unat (hi_watermark g) \<le> i \<longrightarrow> i < MAXTIMERS + 4 \<longrightarrow> expirations g ! i = 0)"

definition armed_ok :: "('cb, 'u) g_timer \<Rightarrow> bool" where
  "armed_ok g \<longleftrightarrow> (\<forall>i < unat (hi_watermark g). earliest g \<le> expirations g ! i)"

definition owners_ok :: "('cb, 'u) g_timer \<Rightarrow> nat list \<Rightarrow> bool" where
  "owners_ok g rs \<longleftrightarrow> (\<forall>i < unat (hi_watermark g).
     if i \<in> set rs then expirations g ! i = LF_TIMER_TICK_INVALID else cb (timers g ! i) \<noteq> None)"

definition timer_inv :: "('cb, 'u) g_timer \<Rightarrow> nat list \<Rightarrow> bool" where
  "timer_inv g rs \<longleftrightarrow> freelist_ok g rs \<and> slots_ok g \<and> armed_ok g \<and> owners_ok g rs"

lemma le_INVALID [simp]: "x \<le> LF_TIMER_TICK_INVALID"
  by (simp add: LF_TIMER_TICK_INVALID_def)

lemma not_due_INVALID: "now \<noteq> LF_TIMER_TICK_INVALID \<Longrightarrow> \<not> LF_TIMER_TICK_INVALID \<le> now"
  using le_INVALID [of now] by (meson order_antisym)

section \<open>The scan\<close>

definition fire :: "('cb \<Rightarrow> lf_timer_t \<Rightarrow> lf_tick_t \<Rightarrow> ptr \<Rightarrow> 'u \<Rightarrow> 'u)
    \<Rightarrow> nat \<Rightarrow> ('cb, 'u) g_timer \<Rightarrow> ('cb, 'u) g_timer" where
  "fire call i g = g\<lparr>expirations := (expirations g)[i := LF_TIMER_TICK_INVALID],
     user := call (the (cb (timers g ! i))) (of_nat i) (expirations g ! i) (arg (timers g ! i)) (user g)\<rparr>"

text \<open>The reference scan handles one slot.\<close>

definition scan_at :: "('cb \<Rightarrow> lf_timer_t \<Rightarrow> lf_tick_t \<Rightarrow> ptr \<Rightarrow> 'u \<Rightarrow> 'u)
    \<Rightarrow> lf_tick_t \<Rightarrow> nat \<Rightarrow> lf_tick_t \<times> ('cb, 'u) g_timer \<Rightarrow> lf_tick_t \<times> ('cb, 'u) g_timer" where
  "scan_at call now i eg = (case eg of (e, g) \<Rightarrow>
     if expirations g ! i \<le> now then (e, fire call i g) else (MIN_tick e (expirations g ! i), g))"

lemma expire_one_timer_fire:
  assumes "p < length (expirations g)" "p < length (timers g)" "cb (timers g ! p) \<noteq> None"
    "expirations g ! p \<le> now"
  shows "expire_one_timer call now p g = Some (fire call p g)"
proof -
  have "loop (expire_round now p) g =
      Some (Some (expirations g ! p), g\<lparr>expirations := (expirations g)[p := LF_TIMER_TICK_INVALID]\<rparr>)"
    using assms by (intro loop_stop) (simp add: expire_round_def store_expiration_def)
  with assms show ?thesis by (auto simp: expire_one_timer_def fire_def)
qed

text \<open>What the scan needs of the part of the table it has not reached.\<close>

definition scan_pre :: "lf_tick_t \<Rightarrow> nat \<Rightarrow> nat \<Rightarrow> ('cb, 'u) g_timer \<Rightarrow> bool" where
  "scan_pre now tp i g \<longleftrightarrow> length (expirations g) = MAXTIMERS + 4 \<and> length (timers g) = MAXTIMERS \<and>
     tp \<le> MAXTIMERS \<and> expirations g ! tp = 0 \<and>
     (\<forall>j. i \<le> j \<longrightarrow> j < tp \<longrightarrow> expirations g ! j \<le> now \<longrightarrow> cb (timers g ! j) \<noteq> None)"

lemma scan_at_keeps:
  assumes "scan_at call now i (e, g) = (e', g')"
  shows "length (expirations g') = length (expirations g)" "timers g' = timers g"
    "\<And>j. j \<noteq> i \<Longrightarrow> expirations g' ! j = expirations g ! j"
  using assms by (auto simp: scan_at_def fire_def split: if_splits)

lemma scan_at_pre:
  "scan_pre now tp i g \<Longrightarrow> i < tp \<Longrightarrow> scan_at call now i (e, g) = (e', g') \<Longrightarrow> scan_pre now tp (Suc i) g'"
  using scan_at_keeps [of call now i e g e' g'] by (simp add: scan_pre_def)

lemma scan_test_inside:
  assumes "scan_pre now tp i g" "i < tp"
  shows "scan_test call now tp i (expirations g ! i) (e, g) = Some (Inl (scan_at call now i (e, g)))"
  using assms expire_one_timer_fire [of i g now call]
  by (auto simp: scan_test_def scan_at_def scan_pre_def)

lemma scan_test_top:
  "scan_pre now tp i g \<Longrightarrow> scan_test call now tp tp (expirations g ! tp) (e, g) = Some (Inr (e, g))"
  by (simp add: scan_test_def scan_pre_def)

lemma scan_half_step:
  assumes pre: "scan_pre now tp i g" and i: "i \<le> tp"
  shows "scan_half call now tp (i + 2, expirations g ! i, expirations g ! (i + 1), e, g) =
    Some (if i + 2 \<le> tp
      then (case scan_at call now (i + 1) (scan_at call now i (e, g)) of (e', g') \<Rightarrow>
        Inl (i + 4, expirations g' ! (i + 2), expirations g' ! (i + 3), e', g'))
      else Inr (fold (scan_at call now) [i..<tp] (e, g)))"
proof -
  have ld: "load_at (expirations g) (i + 2) = Some (expirations g ! (i + 2))"
    "load_at (expirations g) (i + 2 + 1) = Some (expirations g ! (i + 3))"
    using pre i by (simp_all add: scan_pre_def numeral_eq_Suc)
  consider (here) "i = tp" | (in1) "i < tp" by (metis i le_neq_implies_less)
  then show ?thesis
  proof cases
    case here
    have "expirations g ! i = expirations g ! tp" using here by simp
    then show ?thesis using scan_test_top [OF pre, of call e] ld here by (simp add: scan_half_def)
  next
    case in1
    obtain e1 g1 where r1: "scan_at call now i (e, g) = (e1, g1)" by fastforce
    note k1 = scan_at_keeps [OF r1]
    have pre1: "scan_pre now tp (Suc i) g1" by (rule scan_at_pre [OF pre in1 r1])
    have n1: "expirations g ! (i + 1) = expirations g1 ! (i + 1)" using k1(3) [of "i + 1"] by simp
    show ?thesis
    proof (cases "i + 1 = tp")
      case True
      then have tp: "tp = Suc i" by simp
      show ?thesis using ld scan_test_inside [OF pre in1, of call e] scan_test_top [OF pre1, of call e1] r1 n1
        unfolding tp by (simp add: scan_half_def)
    next
      case False
      then have in2: "Suc i < tp" using in1 by simp
      obtain e2 g2 where r2: "scan_at call now (Suc i) (e1, g1) = (e2, g2)" by fastforce
      note k2 = scan_at_keeps [OF r2]
      have "expirations g2 ! (i + 2) = expirations g ! (i + 2)" "expirations g2 ! (i + 3) = expirations g ! (i + 3)"
        using k1(3) [of "i + 2"] k1(3) [of "i + 3"] k2(3) [of "i + 2"] k2(3) [of "i + 3"] by simp_all
      with in2 show ?thesis using ld scan_test_inside [OF pre in1, of call e]
          scan_test_inside [OF pre1 in2, of call e1] r1 r2 n1
        by (simp add: scan_half_def)
    qed
  qed
qed

lemma scan_two:
  assumes "scan_pre now tp i g" "i + 2 \<le> tp"
    and "scan_at call now (i + 1) (scan_at call now i (e, g)) = (e', g')"
  shows "scan_pre now tp (i + 2) g'"
    and "fold (scan_at call now) [i..<tp] (e, g) = fold (scan_at call now) [i + 2..<tp] (e', g')"
proof -
  obtain e1 g1 where r1: "scan_at call now i (e, g) = (e1, g1)" by fastforce
  with assms scan_at_pre [OF assms(1) _ r1] show "scan_pre now tp (i + 2) g'"
    using scan_at_pre [of now tp "Suc i" g1 call e1 e' g'] by simp
  have "[i..<tp] = i # (i + 1) # [i + 2..<tp]" using assms(2) by (simp add: upt_conv_Cons)
  then show "fold (scan_at call now) [i..<tp] (e, g) = fold (scan_at call now) [i + 2..<tp] (e', g')"
    using assms(3) by simp
qed

lemma scan_loop:
  assumes "scan_pre now tp i g" "i \<le> tp"
  shows "loop (scan_round call now tp) (i + 2, expirations g ! i, expirations g ! (i + 1), e, g) =
    Some (fold (scan_at call now) [i..<tp] (e, g))"
  using assms
proof (induction "tp - i" arbitrary: i e g rule: less_induct)
  case less
  note h1 = scan_half_step [OF less.prems, of call e]
  show ?case
  proof (cases "i + 2 \<le> tp")
    case False
    then show ?thesis using h1 by (intro loop_stop) (simp add: scan_round_def)
  next
    case True
    obtain e1 g1 where r1: "scan_at call now (i + 1) (scan_at call now i (e, g)) = (e1, g1)" by fastforce
    note t1 = scan_two [OF less.prems(1) True r1]
    note h2 = scan_half_step [OF t1(1) True, of call e1]
    have body: "scan_round call now tp (i + 2, expirations g ! i, expirations g ! (i + 1), e, g) =
        scan_half call now tp (i + 2 + 2, expirations g1 ! (i + 2), expirations g1 ! (i + 2 + 1), e1, g1)"
      using h1 True r1 by (simp add: scan_round_def numeral_eq_Suc)
    show ?thesis
    proof (cases "i + 4 \<le> tp")
      case False
      then show ?thesis using h2 body t1(2) by (intro loop_stop) simp
    next
      case True
      then have i4: "i + 2 + 2 \<le> tp" by simp
      obtain e2 g2 where r2: "scan_at call now (i + 2 + 1) (scan_at call now (i + 2) (e1, g1)) = (e2, g2)" by fastforce
      note t2 = scan_two [OF t1(1) i4 r2]
      have "scan_round call now tp (i + 2, expirations g ! i, expirations g ! (i + 1), e, g) =
          Some (Inl (i + 4 + 2, expirations g2 ! (i + 4), expirations g2 ! (i + 4 + 1), e2, g2))"
        using body h2 i4 r2 by (simp add: numeral_eq_Suc)
      moreover have "loop (scan_round call now tp) (i + 4 + 2, expirations g2 ! (i + 4), expirations g2 ! (i + 4 + 1), e2, g2) =
          Some (fold (scan_at call now) [i + 4..<tp] (e2, g2))"
        using less.hyps [of "i + 4" g2 e2] t2(1) True by (simp add: numeral_eq_Suc)
      ultimately show ?thesis using t1(2) t2(2) by (simp add: loop_next numeral_eq_Suc)
    qed
  qed
qed

lemma scan_timers_fold:
  assumes "scan_pre now tp 0 g"
  shows "scan_timers call now 0 tp g = Some (fold (scan_at call now) [0..<tp] (LF_TIMER_TICK_INVALID, g))"
proof -
  have "load_at (expirations g) 0 = Some (expirations g ! 0)" "load_at (expirations g) (0 + 1) = Some (expirations g ! (0 + 1))"
    using assms by (simp_all add: scan_pre_def)
  then show ?thesis using scan_loop [OF assms, of call LF_TIMER_TICK_INVALID] unfolding scan_timers_def by simp
qed

text \<open>What the reference scan of the first \<open>n\<close> slots has done.\<close>

definition callbacks :: "('cb \<Rightarrow> lf_timer_t \<Rightarrow> lf_tick_t \<Rightarrow> ptr \<Rightarrow> 'u \<Rightarrow> 'u)
    \<Rightarrow> ('cb, 'u) g_timer \<Rightarrow> nat list \<Rightarrow> 'u \<Rightarrow> 'u" where
  "callbacks call g = fold (\<lambda>i. call (the (cb (timers g ! i))) (of_nat i) (expirations g ! i) (arg (timers g ! i)))"

lemma MIN_tick_min: "MIN_tick a b = min a b"
  by (auto simp: MIN_tick_def min_def)

lemma scan_result:
  assumes "n \<le> length (expirations g)" "fold (scan_at call now) [0..<n] (LF_TIMER_TICK_INVALID, g) = (e', g')"
  shows "g' = g\<lparr>expirations := map (\<lambda>e. if e \<le> now then LF_TIMER_TICK_INVALID else e) (take n (expirations g)) @ drop n (expirations g),
      user := callbacks call g (filter (\<lambda>i. expirations g ! i \<le> now) [0..<n]) (user g)\<rparr>"
    and "\<And>i. i < n \<Longrightarrow> \<not> expirations g ! i \<le> now \<Longrightarrow> e' \<le> expirations g ! i"
proof -
  have "g' = g\<lparr>expirations := map (\<lambda>e. if e \<le> now then LF_TIMER_TICK_INVALID else e) (take n (expirations g)) @ drop n (expirations g),
      user := callbacks call g (filter (\<lambda>i. expirations g ! i \<le> now) [0..<n]) (user g)\<rparr> \<and>
      (\<forall>i < n. \<not> expirations g ! i \<le> now \<longrightarrow> e' \<le> expirations g ! i)"
    using assms
  proof (induction n arbitrary: e' g')
    case 0
    then show ?case by (simp add: callbacks_def)
  next
    case (Suc n)
    obtain e1 g1 where r1: "fold (scan_at call now) [0..<n] (LF_TIMER_TICK_INVALID, g) = (e1, g1)" by fastforce
    note IH = Suc.IH [OF _ r1]
    have n: "n < length (expirations g)" using Suc.prems by simp
    let ?m = "map (\<lambda>e. if e \<le> now then LF_TIMER_TICK_INVALID else e)"
    have r: "scan_at call now n (e1, g1) = (e', g')" using Suc.prems r1 by simp
    have dn: "drop n (expirations g) = expirations g ! n # drop (Suc n) (expirations g)"
      using n by (simp add: Cons_nth_drop_Suc)
    have g1: "g1 = g\<lparr>expirations := ?m (take n (expirations g)) @ expirations g ! n # drop (Suc n) (expirations g),
        user := callbacks call g (filter (\<lambda>i. expirations g ! i \<le> now) [0..<n]) (user g)\<rparr>"
      using IH n by (simp add: dn)
    have e1: "\<And>i. i < n \<Longrightarrow> \<not> expirations g ! i \<le> now \<Longrightarrow> e1 \<le> expirations g ! i" using IH n by simp
    have u: "(?m (take n (expirations g)) @ x # ys)[n := y] = ?m (take n (expirations g)) @ y # ys" for x y ys
      using n by (simp add: list_update_append)
    have at: "expirations g1 ! n = expirations g ! n" using n by (simp add: g1 nth_append)
    have at': "(?m (take n (expirations g)) @ x # ys) ! n = x" for x ys using n by (simp add: nth_append)
    have tk: "take (Suc n) (expirations g) = take n (expirations g) @ [expirations g ! n]"
      using n by (rule take_Suc_conv_app_nth)
    show ?case
    proof (cases "expirations g ! n \<le> now")
      case True
      then have "e' = e1" "g' = fire call n g1" using r at by (simp_all add: scan_at_def)
      moreover have "fire call n g1 = g\<lparr>expirations := ?m (take (Suc n) (expirations g)) @ drop (Suc n) (expirations g),
          user := callbacks call g (filter (\<lambda>i. expirations g ! i \<le> now) [0..<Suc n]) (user g)\<rparr>"
        using True by (simp add: fire_def g1 u at' tk callbacks_def)
      ultimately show ?thesis using e1 True by (auto simp: less_Suc_eq)
    next
      case False
      then have "e' = min e1 (expirations g ! n)" "g' = g1" using r at by (simp_all add: scan_at_def MIN_tick_min)
      then show ?thesis using False e1 by (auto simp: less_Suc_eq g1 tk intro: min.coboundedI1)
    qed
  qed
  then show "g' = g\<lparr>expirations := map (\<lambda>e. if e \<le> now then LF_TIMER_TICK_INVALID else e) (take n (expirations g)) @ drop n (expirations g),
      user := callbacks call g (filter (\<lambda>i. expirations g ! i \<le> now) [0..<n]) (user g)\<rparr>"
    and "\<And>i. i < n \<Longrightarrow> \<not> expirations g ! i \<le> now \<Longrightarrow> e' \<le> expirations g ! i" by blast+
qed

section \<open>The operations keep the table well-formed\<close>

lemma update_earliest_min: "update_earliest e g = Some (g\<lparr>earliest := min e (earliest g)\<rparr>)"
proof (cases "e \<ge> earliest g")
  case True
  then show ?thesis
    unfolding update_earliest_def
    by (intro loop_stop) (simp add: update_earliest_round_def min_def Let_def)
next
  case False
  then show ?thesis
    unfolding update_earliest_def
    by (intro loop_stop) (simp add: update_earliest_round_def min_def Let_def)
qed

lemma timer_inv_scan_pre:
  "timer_inv g rs \<Longrightarrow> scan_pre (current g) (unat (hi_watermark g)) 0 (g\<lparr>earliest := e\<rparr>)"
  using not_due_INVALID [of "current g"]
  by (auto simp: timer_inv_def freelist_ok_def slots_ok_def owners_ok_def scan_pre_def split: if_splits)

text \<open>The state that \<open>lf_timer_expire\<close> leaves.\<close>

definition expired :: "('cb \<Rightarrow> lf_timer_t \<Rightarrow> lf_tick_t \<Rightarrow> ptr \<Rightarrow> 'u \<Rightarrow> 'u)
    \<Rightarrow> ('cb, 'u) g_timer \<Rightarrow> lf_tick_t \<Rightarrow> ('cb, 'u) g_timer" where
  "expired call g e = (let n = unat (hi_watermark g) in g\<lparr>earliest := e,
     expirations := map (\<lambda>e. if e \<le> current g then LF_TIMER_TICK_INVALID else e) (take n (expirations g)) @ drop n (expirations g),
     user := callbacks call g (filter (\<lambda>i. expirations g ! i \<le> current g) [0..<n]) (user g)\<rparr>)"

lemma expired_nothing_due:
  assumes inv: "timer_inv g rs" and e: "\<not> earliest g \<le> current g"
  shows "expired call g (earliest g) = g"
proof -
  have nd: "\<not> expirations g ! i \<le> current g" if "i < unat (hi_watermark g)" for i
  proof
    assume d: "expirations g ! i \<le> current g"
    have "earliest g \<le> expirations g ! i" using inv that by (simp add: timer_inv_def armed_ok_def)
    with d e show False by (meson order_trans)
  qed
  have "map (\<lambda>e. if e \<le> current g then LF_TIMER_TICK_INVALID else e) (take (unat (hi_watermark g)) (expirations g)) =
      take (unat (hi_watermark g)) (expirations g)"
    using nd by (auto intro!: nth_equalityI)
  moreover have "filter (\<lambda>i. expirations g ! i \<le> current g) [0..<unat (hi_watermark g)] = []"
    using nd by (simp add: filter_empty_conv)
  ultimately show ?thesis by (simp add: expired_def callbacks_def)
qed

lemma expire_result:
  assumes inv: "timer_inv g rs"
  shows "\<exists>e. lf_timer_expire call g = Some (expired call g e) \<and>
    (\<forall>i < unat (hi_watermark g). \<not> expirations g ! i \<le> current g \<longrightarrow> e \<le> expirations g ! i)"
proof (cases "earliest g \<le> current g")
  case False
  then have "lf_timer_expire call g = Some (expired call g (earliest g))"
    using expired_nothing_due [OF inv False] by (simp add: lf_timer_expire_def)
  moreover have "\<forall>i < unat (hi_watermark g). \<not> expirations g ! i \<le> current g \<longrightarrow> earliest g \<le> expirations g ! i"
  proof (intro allI impI)
    fix i assume "i < unat (hi_watermark g)"
    then show "earliest g \<le> expirations g ! i"
      using inv by (simp add: timer_inv_def armed_ok_def)
  qed
  ultimately show ?thesis by blast
next
  case True
  let ?g = "g\<lparr>earliest := LF_TIMER_TICK_INVALID\<rparr>" and ?n = "unat (hi_watermark g)"
  obtain e' g' where r: "fold (scan_at call (current g)) [0..<?n] (LF_TIMER_TICK_INVALID, ?g) = (e', g')" by fastforce
  have n: "?n \<le> length (expirations ?g)" using inv by (simp add: timer_inv_def freelist_ok_def slots_ok_def)
  note res = scan_result [OF n r]
  have "scan_timers call (current g) 0 ?n ?g = Some (e', g')"
    using scan_timers_fold [OF timer_inv_scan_pre [OF inv, of LF_TIMER_TICK_INVALID], of call] r by simp
  then have "lf_timer_expire call g = Some (g'\<lparr>earliest := min e' (earliest g')\<rparr>)"
    using True by (simp add: lf_timer_expire_def update_earliest_min Let_def)
  moreover have "g'\<lparr>earliest := min e' (earliest g')\<rparr> = expired call g e'"
    by (simp add: res(1) expired_def Let_def callbacks_def min_def)
  ultimately show ?thesis using res(2) by auto
qed

lemma expired_nth:
  assumes "timer_inv g rs" "i < MAXTIMERS + 4"
  shows "expirations (expired call g e) ! i =
    (if i < unat (hi_watermark g) \<and> expirations g ! i \<le> current g then LF_TIMER_TICK_INVALID else expirations g ! i)"
  using assms by (simp add: expired_def Let_def nth_append timer_inv_def slots_ok_def freelist_ok_def)

lemma expired_fields [simp]:
  "timers (expired call g e) = timers g" "current (expired call g e) = current g"
  "hi_watermark (expired call g e) = hi_watermark g" "freelist (expired call g e) = freelist g"
  "earliest (expired call g e) = e" "length (expirations (expired call g e)) = length (expirations g)"
  by (simp_all add: expired_def Let_def)

lemma expired_inv:
  assumes inv: "timer_inv g rs"
    and e: "\<And>i. i < unat (hi_watermark g) \<Longrightarrow> \<not> expirations g ! i \<le> current g \<Longrightarrow> e \<le> expirations g ! i"
  shows "timer_inv (expired call g e) rs"
  unfolding timer_inv_def
proof (intro conjI)
  have hi: "i < MAXTIMERS + 4" if "i < unat (hi_watermark g)" for i
    using inv that by (simp add: timer_inv_def freelist_ok_def)
  show "freelist_ok (expired call g e) rs" using inv by (simp add: timer_inv_def freelist_ok_def)
  show "slots_ok (expired call g e)"
    using inv expired_nth [OF inv, of _ call e] by (simp add: timer_inv_def slots_ok_def)
  show "armed_ok (expired call g e)"
    using expired_nth [OF inv hi, of _ call e] e by (simp add: armed_ok_def)
  show "owners_ok (expired call g e) rs"
    using inv expired_nth [OF inv hi, of _ call e] by (simp add: timer_inv_def owners_ok_def)
qed

lemma expire_inv:
  assumes "timer_inv g rs"
  shows "\<exists>g'. lf_timer_expire call g = Some g' \<and> timer_inv g' rs \<and> hi_watermark g' = hi_watermark g"
proof -
  obtain e where e: "lf_timer_expire call g = Some (expired call g e)"
    "\<forall>i < unat (hi_watermark g). \<not> expirations g ! i \<le> current g \<longrightarrow> e \<le> expirations g ! i"
    using expire_result [OF assms, of call] by blast
  then show ?thesis using expired_inv [OF assms, of e call] by simp
qed

lemma update_expiration_eq:
  assumes "idx < hi_watermark g" "unat idx < length (expirations g)"
  shows "update_expiration idx e active g = Some (
    if active = (expirations g ! unat idx = LF_TIMER_TICK_INVALID) then (False, g)
    else (True, g\<lparr>expirations := (expirations g)[unat idx := e], earliest := min e (earliest g)\<rparr>))"
proof -
  have "loop (update_expiration_round (unat idx) e active) g = Some (
      if active = (expirations g ! unat idx = LF_TIMER_TICK_INVALID) then (False, g)
      else (True, g\<lparr>expirations := (expirations g)[unat idx := e]\<rparr>))"
    using assms by (intro loop_stop) (simp add: update_expiration_round_def store_expiration_def)
  with assms show ?thesis
    by (simp add: update_expiration_def update_earliest_min not_le [symmetric] min_absorb2)
qed

lemma update_expiration_inv:
  assumes inv: "timer_inv g rs" and "active \<or> unat idx \<notin> set rs \<or> hi_watermark g \<le> idx"
  shows "\<exists>b g'. update_expiration idx e active g = Some (b, g') \<and> timer_inv g' rs \<and> hi_watermark g' = hi_watermark g"
proof (cases "idx < hi_watermark g")
  case False
  then show ?thesis using inv by (auto simp: update_expiration_def)
next
  case True
  then have i: "unat idx < unat (hi_watermark g)" by (simp add: word_less_nat_alt)
  then have il: "unat idx < length (expirations g)"
    using inv by (simp add: timer_inv_def freelist_ok_def slots_ok_def)
  show ?thesis
  proof (cases "active = (expirations g ! unat idx = LF_TIMER_TICK_INVALID)")
    case True
    then show ?thesis using update_expiration_eq [OF \<open>idx < hi_watermark g\<close> il] inv by auto
  next
    case False
    let ?g = "g\<lparr>expirations := (expirations g)[unat idx := e], earliest := min e (earliest g)\<rparr>"
    have "unat idx \<notin> set rs" using False inv assms(2) i \<open>idx < hi_watermark g\<close>
      by (auto simp: timer_inv_def owners_ok_def)
    then have "timer_inv ?g rs"
      using inv i by (auto simp: timer_inv_def freelist_ok_def slots_ok_def armed_ok_def owners_ok_def nth_list_update min_def)
    then show ?thesis using False update_expiration_eq [OF \<open>idx < hi_watermark g\<close> il] by auto
  qed
qed

lemma tick_set_inv:
  assumes "timer_inv g rs"
  shows "\<exists>g'. lf_timer_tick_set t g = Some g' \<and> timer_inv g' rs \<and> hi_watermark g' = hi_watermark g \<and>
    current g' = (if t = LF_TIMER_TICK_INVALID then current g else max t (current g))"
proof -
  have "loop (tick_set_round t) (current g, g) = Some (if t \<le> current g then g else g\<lparr>current := t\<rparr>)"
    by (intro loop_stop) (simp add: tick_set_round_def)
  then show ?thesis using assms
    by (auto simp: lf_timer_tick_set_def timer_inv_def freelist_ok_def slots_ok_def armed_ok_def owners_ok_def max_def)
qed

lemma free_inv:
  assumes inv: "timer_inv g rs" and i: "unat idx < unat (hi_watermark g)" "unat idx \<notin> set rs"
  shows "\<exists>g'. lf_timer_free idx g = Some g' \<and> hi_watermark g' = hi_watermark g \<and>
    timer_inv g' (if expirations g ! unat idx = LF_TIMER_TICK_INVALID then unat idx # rs else rs)"
proof -
  have l: "unat idx < length (expirations g)" "unat idx < length (timers g)" "\<not> hi_watermark g \<le> idx"
    using inv i(1) by (simp_all add: timer_inv_def freelist_ok_def slots_ok_def word_le_nat_alt)
  show ?thesis
  proof (cases "expirations g ! unat idx = LF_TIMER_TICK_INVALID")
    case False
    then show ?thesis using l inv by (simp add: lf_timer_free_def)
  next
    case True
    let ?g = "g\<lparr>timers := (timers g)[unat idx := \<lparr>cb = None, arg = head (freelist g)\<rparr>],
      freelist := \<lparr>head = Suc (unat idx), fcount = fcount (freelist g) + 1\<rparr>\<rparr>"
    have "loop (free_round (unat idx)) g = Some ?g"
      using l by (intro loop_stop) (simp add: free_round_def lockfree_compare_exchange_pp_def Let_def)
    then have "lf_timer_free idx g = Some ?g" using l True by (simp add: lf_timer_free_def)
    moreover have "timer_inv ?g (unat idx # rs)"
    proof -
      let ?ps = "map Suc (rs @ [unat (hi_watermark g)..<MAXTIMERS])"
      have ch: "chain (\<lambda>p. arg (timers g ! (p - 1))) (head (freelist g)) ?ps NULL"
        using inv by (simp add: timer_inv_def freelist_ok_def)
      have "chain (\<lambda>p. arg (timers ?g ! (p - 1))) (head (freelist g)) ?ps NULL"
      proof (rule chain_cong [OF ch])
        fix a assume "a \<in> set ?ps"
        then have "a - 1 \<noteq> unat idx" using i by auto
        then show "arg (timers ?g ! (a - 1)) = arg (timers g ! (a - 1))" by simp
      qed
      then have "freelist_ok ?g (unat idx # rs)"
        using inv i l by (simp add: timer_inv_def freelist_ok_def)
      then show ?thesis using inv True l i
        by (auto simp: timer_inv_def slots_ok_def armed_ok_def owners_ok_def nth_list_update)
    qed
    ultimately show ?thesis using True by simp
  qed
qed

lemma fetch_umax_eq: "lockfree_fetch_umax_4 v g = Some (hi_watermark g, g\<lparr>hi_watermark := max v (hi_watermark g)\<rparr>)"
  unfolding lockfree_fetch_umax_4_def
  by (intro loop_stop) (simp add: fetch_umax_round_def max_def)

lemma alloc_empty:
  assumes "head (freelist g) = NULL"
  shows "lf_timer_alloc f a g = Some (LF_TIMER_NULL, g)"
proof -
  have "loop alloc_round g = Some (NULL, g)"
    using assms by (intro loop_stop) (simp add: alloc_round_def Let_def)
  then show ?thesis by (simp add: lf_timer_alloc_def)
qed

definition allocated :: "nat \<Rightarrow> 'cb option \<Rightarrow> ptr \<Rightarrow> ('cb, 'u) g_timer \<Rightarrow> ('cb, 'u) g_timer" where
  "allocated i f a g = g\<lparr>freelist := \<lparr>head = arg (timers g ! i), fcount = fcount (freelist g) + 1\<rparr>,
     expirations := (expirations g)[i := LF_TIMER_TICK_INVALID],
     timers := (timers g)[i := \<lparr>cb = f, arg = a\<rparr>],
     hi_watermark := max (of_nat i + 1) (hi_watermark g)\<rparr>"

lemma MAXTIMERS_word: "i < MAXTIMERS \<Longrightarrow> unat (of_nat i :: u32) = i"
  "i < MAXTIMERS \<Longrightarrow> unat (of_nat i + 1 :: u32) = Suc i"
proof -
  assume i: "i < MAXTIMERS"
  then show u: "unat (of_nat i :: u32) = i" by (simp add: unat_of_nat MAXTIMERS_def)
  have "unat (of_nat i :: u32) + unat (1 :: u32) < 2 ^ LENGTH(32)" using i u by (simp add: MAXTIMERS_def)
  from unat_add_no_wrap [OF this] u show "unat (of_nat i + 1 :: u32) = Suc i" by simp
qed

lemma alloc_head:
  assumes "head (freelist g) = Suc i" "i < MAXTIMERS" "slots_ok g"
  shows "lf_timer_alloc f a g = Some (of_nat i, allocated i f a g)"
proof -
  have "loop alloc_round g =
      Some (Suc i, g\<lparr>freelist := \<lparr>head = arg (timers g ! i), fcount = fcount (freelist g) + 1\<rparr>\<rparr>)"
    using assms by (intro loop_stop) (simp add: alloc_round_def Let_def lockfree_compare_exchange_pp_def slots_ok_def)
  then show ?thesis
    using assms(2,3)
    by (simp add: lf_timer_alloc_def store_expiration_def slots_ok_def MAXTIMERS_word fetch_umax_eq allocated_def Let_def)
qed

lemma allocated_inv:
  assumes inv: "timer_inv g rs" and f: "f \<noteq> None"
    and fs: "rs @ [unat (hi_watermark g)..<MAXTIMERS] = i # fs" and rs': "rs' = tl rs"
  shows "timer_inv (allocated i f a g) rs'" "i < MAXTIMERS"
    "unat (hi_watermark (allocated i f a g)) = max (Suc i) (unat (hi_watermark g))"
    "rs' @ [unat (hi_watermark (allocated i f a g))..<MAXTIMERS] = fs"
    "i \<notin> set fs" "head (freelist g) = Suc i"
proof -
  let ?h = "unat (hi_watermark g)" and ?g = "allocated i f a g"
  have inv': "freelist_ok g rs" "slots_ok g" "armed_ok g" "owners_ok g rs" using inv by (simp_all add: timer_inv_def)
  have "i \<in> set (rs @ [?h..<MAXTIMERS])" by (simp add: fs)
  then show i: "i < MAXTIMERS" using inv'(1) by (auto simp: freelist_ok_def)
  have len: "length (expirations g) = MAXTIMERS + 4" "length (timers g) = MAXTIMERS"
    using inv'(2) by (simp_all add: slots_ok_def)
  have ch: "chain (\<lambda>p. arg (timers g ! (p - 1))) (head (freelist g)) (Suc i # map Suc fs) NULL"
    using inv'(1) fs by (simp add: freelist_ok_def flip: map_append)
  then show "head (freelist g) = Suc i" by simp
  show nfs: "i \<notin> set fs" using chain_distinct [OF ch] by auto
  show hi: "unat (hi_watermark ?g) = max (Suc i) ?h"
    using MAXTIMERS_word(2) [OF i] by (simp add: allocated_def max_def word_le_nat_alt)
  show fs': "rs' @ [unat (hi_watermark ?g)..<MAXTIMERS] = fs"
  proof (cases rs)
    case Nil
    then have "?h = i" "fs = [Suc i..<MAXTIMERS]" using fs i by (auto simp: upt_eq_Cons_conv)
    then show ?thesis using Nil rs' hi by simp
  next
    case (Cons r rs2)
    then have "r = i" "fs = rs2 @ [?h..<MAXTIMERS]" "i < ?h" using fs inv'(1) by (auto simp: freelist_ok_def)
    then show ?thesis using Cons rs' hi by (simp add: max_def)
  qed
  have sub: "set rs' \<subseteq> set rs" using rs' by (cases rs) auto
  have new: "j = i \<or> j < ?h" if "j < unat (hi_watermark ?g)" for j
  proof (cases rs)
    case Nil
    then have "?h = i" using fs i by (auto simp: upt_eq_Cons_conv)
    then show ?thesis using that hi by auto
  next
    case (Cons r rs2)
    then have "i < ?h" using fs inv'(1) by (auto simp: freelist_ok_def)
    then show ?thesis using that hi by auto
  qed
  show "timer_inv ?g rs'"
    unfolding timer_inv_def
  proof (intro conjI)
    have "chain (\<lambda>p. arg (timers ?g ! (p - 1))) (head (freelist ?g)) (map Suc fs) NULL"
    proof (rule chain_cong)
      show "chain (\<lambda>p. arg (timers g ! (p - 1))) (head (freelist ?g)) (map Suc fs) NULL"
        using ch by (simp add: allocated_def)
      fix b assume "b \<in> set (map Suc fs)"
      then have "b - 1 \<noteq> i" using nfs by auto
      then show "arg (timers ?g ! (b - 1)) = arg (timers g ! (b - 1))" by (simp add: allocated_def)
    qed
    moreover have "set rs' \<subseteq> {..<unat (hi_watermark ?g)}" using sub inv'(1) hi by (auto simp: freelist_ok_def)
    ultimately show "freelist_ok ?g rs'"
      using fs' hi i inv'(1) by (simp add: freelist_ok_def)
    show "slots_ok ?g"
      using inv'(2) hi by (simp add: slots_ok_def allocated_def nth_list_update)
    show "armed_ok ?g"
      using inv'(3) new len i by (auto simp: armed_ok_def nth_list_update) (auto simp: allocated_def nth_list_update)
    have nrs: "i \<notin> set rs'" using nfs fs' by auto
    have mem: "j \<in> set rs' \<longleftrightarrow> j \<in> set rs" if "j \<noteq> i" for j using that fs rs' by (cases rs) auto
    show "owners_ok ?g rs'"
      unfolding owners_ok_def
    proof (intro allI impI)
      fix j assume "j < unat (hi_watermark ?g)"
      then show "if j \<in> set rs' then expirations ?g ! j = LF_TIMER_TICK_INVALID else cb (timers ?g ! j) \<noteq> None"
        using new [of j] inv'(4) f nrs mem [of j] len i
        by (cases "j = i") (simp_all add: owners_ok_def allocated_def)
    qed
  qed
qed

lemma alloc_full:
  assumes inv: "timer_inv g rs" and fs: "rs @ [unat (hi_watermark g)..<MAXTIMERS] = []"
  shows "head (freelist g) = NULL" "rs = []" "unat (hi_watermark g) = MAXTIMERS"
  using assms by (auto simp: timer_inv_def freelist_ok_def)

lemma init_arg: "i < MAXTIMERS \<Longrightarrow> arg (timers (init_timers u) ! i) = (if Suc i = MAXTIMERS then NULL else Suc (Suc i))"
  by (auto simp: init_timers_def nth_list_update)

lemma init_timer_inv: "timer_inv (init_timers u) []"
proof -
  have ch: "chain (\<lambda>p. arg (timers (init_timers u :: ('a, 'b) g_timer) ! (p - 1))) (Suc k) (map Suc [k..<MAXTIMERS]) NULL"
    if "k < MAXTIMERS" for k
    using that
  proof (induction "MAXTIMERS - k" arbitrary: k rule: less_induct)
    case less
    show ?case
    proof (cases "Suc k = MAXTIMERS")
      case True
      then show ?thesis using init_arg [of "MAXTIMERS - 1" u] by (simp add: upt_conv_Cons flip: True)
    next
      case False
      then have "Suc k < MAXTIMERS" using less.prems by simp
      with less.hyps [of "Suc k"] less.prems show ?thesis using init_arg [of k u] by (simp add: upt_conv_Cons)
    qed
  qed
  have "0 < MAXTIMERS" by (simp add: MAXTIMERS_def)
  then have "freelist_ok (init_timers u :: ('a, 'b) g_timer) []"
    using ch [of 0] by (simp add: freelist_ok_def) (simp add: init_timers_def)
  moreover have "slots_ok (init_timers u :: ('a, 'b) g_timer)"
    by (auto simp: slots_ok_def init_timers_def LF_TIMER_TICK_INVALID_def nth_append nth_Cons split: nat.splits)
  ultimately show ?thesis by (simp add: timer_inv_def armed_ok_def owners_ok_def init_timers_def)
qed

section \<open>Clients\<close>

text \<open>
  A client holds the handles it was given. It allocates with a callback, arms and frees only handles
  it holds, and may call everything else with any argument.
\<close>

datatype 'cb call =
    Alloc 'cb ptr
  | Free lf_timer_t
  | Set lf_timer_t lf_tick_t
  | Reset lf_timer_t lf_tick_t
  | Cancel lf_timer_t
  | Tick lf_tick_t
  | Expire

record ('cb, 'u) client =
  table :: "('cb, 'u) g_timer"
  live :: "lf_timer_t list"

definition client_init :: "'u \<Rightarrow> ('cb, 'u) client" where
  "client_init u = \<lparr>table = init_timers u, live = []\<rparr>"

fun client_step :: "('cb \<Rightarrow> lf_timer_t \<Rightarrow> lf_tick_t \<Rightarrow> ptr \<Rightarrow> 'u \<Rightarrow> 'u)
    \<Rightarrow> 'cb call \<Rightarrow> ('cb, 'u) client \<Rightarrow> ('cb, 'u) client option" where
  "client_step call (Alloc f a) c = do {
     (idx, g) \<leftarrow> lf_timer_alloc (Some f) a (table c);
     Some (c\<lparr>table := g, live := (if idx = LF_TIMER_NULL then live c else idx # live c)\<rparr>)
   }"
| "client_step call (Free idx) c =
     (if idx \<in> set (live c) then do {
        let kept = (expirations (table c) ! unat idx \<noteq> LF_TIMER_TICK_INVALID);
        g \<leftarrow> lf_timer_free idx (table c);
        Some (c\<lparr>table := g, live := (if kept then live c else removeAll idx (live c))\<rparr>)
      } else Some c)"
| "client_step call (Set idx e) c =
     (if idx \<in> set (live c) then do {
        (ok, g) \<leftarrow> lf_timer_set idx e (table c);
        Some (c\<lparr>table := g\<rparr>)
      } else Some c)"
| "client_step call (Reset idx e) c = do {
     (ok, g) \<leftarrow> lf_timer_reset idx e (table c);
     Some (c\<lparr>table := g\<rparr>)
   }"
| "client_step call (Cancel idx) c = do {
     (ok, g) \<leftarrow> lf_timer_cancel idx (table c);
     Some (c\<lparr>table := g\<rparr>)
   }"
| "client_step call (Tick t) c = do {
     g \<leftarrow> lf_timer_tick_set t (table c);
     Some (c\<lparr>table := g\<rparr>)
   }"
| "client_step call Expire c = do {
     g \<leftarrow> lf_timer_expire call (table c);
     Some (c\<lparr>table := g\<rparr>)
   }"

definition client_inv :: "('cb, 'u) client \<Rightarrow> bool" where
  "client_inv c \<longleftrightarrow> distinct (live c) \<and> (\<exists>rs. timer_inv (table c) rs \<and>
     (\<forall>i. i \<in> set (live c) \<longleftrightarrow> unat i < unat (hi_watermark (table c)) \<and> unat i \<notin> set rs))"

lemma alloc_result:
  assumes c: "client_inv c"
  shows "\<exists>idx g. lf_timer_alloc (Some f) a (table c) = Some (idx, g) \<and> idx \<notin> set (live c) \<and>
    client_inv (c\<lparr>table := g, live := (if idx = LF_TIMER_NULL then live c else idx # live c)\<rparr>)"
proof -
  obtain rs where inv: "timer_inv (table c) rs"
    and lv: "\<And>i. i \<in> set (live c) \<longleftrightarrow> unat i < unat (hi_watermark (table c)) \<and> unat i \<notin> set rs"
    using c by (auto simp: client_inv_def)
  have hM: "unat (hi_watermark (table c)) \<le> MAXTIMERS" using inv by (simp add: timer_inv_def freelist_ok_def)
  have nul: "\<not> unat LF_TIMER_NULL < MAXTIMERS" by (simp add: LF_TIMER_NULL_def MAXTIMERS_def unsigned_minus_1_eq_mask mask_eq_exp_minus_1)
  show ?thesis
  proof (cases "rs @ [unat (hi_watermark (table c))..<MAXTIMERS]")
    case Nil
    have "lf_timer_alloc (Some f) a (table c) = Some (LF_TIMER_NULL, table c)"
      by (rule alloc_empty) (rule alloc_full [OF inv Nil])
    moreover have "LF_TIMER_NULL \<notin> set (live c)" using lv [of LF_TIMER_NULL] nul hM by simp
    ultimately show ?thesis using c by (intro exI [of _ LF_TIMER_NULL] exI [of _ "table c"]) (simp add: client_inv_def)
  next
    case (Cons i fs)
    let ?g = "allocated i (Some f) a (table c)" and ?i = "of_nat i :: lf_timer_t"
    note al = allocated_inv(1,3,4) [where f = "Some f" and a = a, OF inv _ Cons refl]
    have iM: "i < MAXTIMERS" and hd: "head (freelist (table c)) = Suc i" and ifs: "i \<notin> set fs"
      using allocated_inv(2,5,6) [where f = "Some f", OF inv _ Cons refl] by simp_all
    have r: "lf_timer_alloc (Some f) a (table c) = Some (?i, ?g)"
      using alloc_head [OF hd iM] inv by (simp add: timer_inv_def)
    have ui: "unat ?i = i" by (rule MAXTIMERS_word [OF iM])
    then have nn: "?i \<noteq> LF_TIMER_NULL" using nul iM by auto
    have out: "i \<in> set rs \<or> unat (hi_watermark (table c)) \<le> i"
      using Cons by (cases rs) (auto simp: upt_eq_Cons_conv)
    then have fr: "?i \<notin> set (live c)" using lv [of ?i] ui by auto
    have mem: "j \<in> set (?i # live c) \<longleftrightarrow> unat j < unat (hi_watermark ?g) \<and> unat j \<notin> set (tl rs)" for j
    proof (cases "unat j = i")
      case True
      then have "unat j = unat ?i" using ui by simp
      then have "j = ?i" by (rule unsigned_word_eqI)
      moreover have "set (tl rs) \<subseteq> set fs" using al(3) by (metis Un_upper1 set_append option.distinct(1))
      then have "i \<notin> set (tl rs)" using ifs by blast
      ultimately show ?thesis using True ui al(2) by simp
    next
      case False
      then have "j \<noteq> ?i" using ui by auto
      moreover have "unat j \<in> set (tl rs) \<longleftrightarrow> unat j \<in> set rs" using False Cons by (cases rs) auto
      moreover have "unat j < unat (hi_watermark ?g) \<longleftrightarrow> unat j < unat (hi_watermark (table c))"
      proof (cases rs)
        case Nil
        then have "unat (hi_watermark (table c)) = i" using Cons by (simp add: upt_eq_Cons_conv)
        then show ?thesis using False al(2) by auto
      next
        case (Cons r rs2)
        then have "i \<in> set rs" using \<open>rs @ _ = i # fs\<close> by simp
        then have "i < unat (hi_watermark (table c))" using inv by (auto simp: timer_inv_def freelist_ok_def)
        then show ?thesis using al(2) by simp
      qed
      ultimately show ?thesis using lv [of j] by simp
    qed
    then have "client_inv (c\<lparr>table := ?g, live := ?i # live c\<rparr>)"
      using al(1) fr c unfolding client_inv_def by (intro conjI exI [of _ "tl rs"]) simp_all
    then show ?thesis using r fr nn by (intro exI [of _ ?i] exI [of _ ?g]) simp
  qed
qed

lemma client_same:
  assumes "client_inv c"
    and "\<And>rs. timer_inv (table c) rs \<Longrightarrow> (\<And>i. i \<in> set (live c) \<Longrightarrow> unat i \<notin> set rs) \<Longrightarrow>
      \<exists>g. r = Some g \<and> timer_inv g rs \<and> hi_watermark g = hi_watermark (table c)"
  shows "\<exists>g. r = Some g \<and> client_inv (c\<lparr>table := g\<rparr>)"
proof -
  obtain rs where inv: "timer_inv (table c) rs"
    and lv: "\<And>i. i \<in> set (live c) \<longleftrightarrow> unat i < unat (hi_watermark (table c)) \<and> unat i \<notin> set rs"
    using assms(1) by (auto simp: client_inv_def)
  then obtain g where "r = Some g" "timer_inv g rs" "hi_watermark g = hi_watermark (table c)"
    using assms(2) [OF inv] by blast
  with lv assms(1) show ?thesis by (auto simp: client_inv_def)
qed

lemma update_same:
  assumes c: "client_inv c" and "active \<or> idx \<in> set (live c)"
  shows "\<exists>b g. update_expiration idx e active (table c) = Some (b, g) \<and> client_inv (c\<lparr>table := g\<rparr>)"
proof -
  have "\<exists>g. map_option snd (update_expiration idx e active (table c)) = Some g \<and> client_inv (c\<lparr>table := g\<rparr>)"
  proof (rule client_same [OF c])
    fix rs assume inv: "timer_inv (table c) rs" and lv: "\<And>i. i \<in> set (live c) \<Longrightarrow> unat i \<notin> set rs"
    with assms(2) have "active \<or> unat idx \<notin> set rs \<or> hi_watermark (table c) \<le> idx" by blast
    from update_expiration_inv [OF inv this, of e]
    show "\<exists>g. map_option snd (update_expiration idx e active (table c)) = Some g \<and> timer_inv g rs \<and>
      hi_watermark g = hi_watermark (table c)" by auto
  qed
  then show ?thesis by auto
qed

lemma free_result:
  assumes c: "client_inv c" and idx: "idx \<in> set (live c)"
  shows "\<exists>g. lf_timer_free idx (table c) = Some g \<and>
    client_inv (c\<lparr>table := g, live := (if expirations (table c) ! unat idx \<noteq> LF_TIMER_TICK_INVALID
      then live c else removeAll idx (live c))\<rparr>)"
proof -
  obtain rs where inv: "timer_inv (table c) rs"
    and lv: "\<And>i. i \<in> set (live c) \<longleftrightarrow> unat i < unat (hi_watermark (table c)) \<and> unat i \<notin> set rs"
    using c by (auto simp: client_inv_def)
  then obtain g where g: "lf_timer_free idx (table c) = Some g" "hi_watermark g = hi_watermark (table c)"
    "timer_inv g (if expirations (table c) ! unat idx = LF_TIMER_TICK_INVALID then unat idx # rs else rs)"
    using free_inv [OF inv, of idx] idx by blast
  have "i \<noteq> idx \<longleftrightarrow> unat i \<noteq> unat idx" for i by (metis unsigned_word_eqI)
  then have "i \<in> set (removeAll idx (live c)) \<longleftrightarrow>
      unat i < unat (hi_watermark (table c)) \<and> unat i \<notin> set (unat idx # rs)" for i
    using lv [of i] by auto
  moreover have "distinct (removeAll idx (live c))" using c by (simp add: client_inv_def distinct_removeAll)
  ultimately show ?thesis using g c lv unfolding client_inv_def by (cases "expirations (table c) ! unat idx = LF_TIMER_TICK_INVALID") auto
qed

lemma client_step_inv: "client_inv c \<Longrightarrow> \<exists>c'. client_step call e c = Some c' \<and> client_inv c'"
proof (cases e)
  case (Alloc f a)
  assume "client_inv c"
  then show ?thesis using alloc_result [of c f a] Alloc by auto
next
  case (Free idx)
  assume c: "client_inv c"
  then show ?thesis using free_result [OF c, of idx] Free by (auto simp: Let_def)
next
  case (Set idx e)
  assume c: "client_inv c"
  then show ?thesis using update_same [OF c, of False idx e] Set by (auto simp: lf_timer_set_def)
next
  case (Reset idx e)
  assume c: "client_inv c"
  then show ?thesis using update_same [OF c, of True idx e] Reset by (auto simp: lf_timer_reset_def)
next
  case (Cancel idx)
  assume c: "client_inv c"
  then show ?thesis using update_same [OF c, of True idx LF_TIMER_TICK_INVALID] Cancel by (auto simp: lf_timer_cancel_def)
next
  case (Tick t)
  assume c: "client_inv c"
  have "\<exists>g. lf_timer_tick_set t (table c) = Some g \<and> client_inv (c\<lparr>table := g\<rparr>)"
    by (rule client_same [OF c]) (use tick_set_inv in blast)
  then show ?thesis using Tick by auto
next
  case Expire
  assume c: "client_inv c"
  have "\<exists>g. lf_timer_expire call (table c) = Some g \<and> client_inv (c\<lparr>table := g\<rparr>)"
    by (rule client_same [OF c]) (use expire_inv in blast)
  then show ?thesis using Expire by auto
qed

lemma init_hi [simp]: "hi_watermark (init_timers u) = 0"
  by (simp add: init_timers_def)

lemma client_init_inv: "client_inv (client_init u)"
  by (auto simp: client_inv_def client_init_def intro!: exI [of _ "[]"] init_timer_inv)

interpretation timer_client: total_system "client_init u" "client_step call" client_inv for call u
proof unfold_locales
  show "client_inv (client_init u)" by (rule client_init_inv)
next
  fix s :: "('b, 'a) client" and e s'
  assume "client_inv s" "client_step call e s = Some s'"
  then show "client_inv s'" using client_step_inv [of s call e] by auto
next
  fix s :: "('b, 'a) client" and e
  assume "client_inv s"
  then show "\<exists>s'. client_step call e s = Some s'" using client_step_inv [of s call e] by auto
qed

section \<open>Properties\<close>

text \<open>
  C17: Expiration is exact. On a well-formed table \<open>lf_timer_expire\<close> returns, and it has called back
  exactly the timers whose expiration tick is due, once each, in slot order, with their own handle,
  tick and argument; those become inactive, every other timer keeps its tick, and \<open>earliest\<close> is
  again a lower bound of the armed ticks, so that the next call may rely on it.
\<close>

theorem lf_timer_expire_exact:
  assumes "timer_inv g rs"
  shows "\<exists>g'. lf_timer_expire call g = Some g' \<and>
    user g' = callbacks call g (filter (\<lambda>i. expirations g ! i \<le> current g) [0..<unat (hi_watermark g)]) (user g) \<and>
    (\<forall>i < unat (hi_watermark g). expirations g' ! i =
      (if expirations g ! i \<le> current g then LF_TIMER_TICK_INVALID else expirations g ! i)) \<and>
    (\<forall>i < unat (hi_watermark g). earliest g' \<le> expirations g' ! i) \<and>
    timers g' = timers g \<and> timer_inv g' rs"
proof -
  obtain e where e: "lf_timer_expire call g = Some (expired call g e)"
    "\<forall>i < unat (hi_watermark g). \<not> expirations g ! i \<le> current g \<longrightarrow> e \<le> expirations g ! i"
    using expire_result [OF assms, of call] by blast
  have inv: "timer_inv (expired call g e) rs" using expired_inv [OF assms] e(2) by blast
  have "i < MAXTIMERS + 4" if "i < unat (hi_watermark g)" for i
    using assms that by (simp add: timer_inv_def freelist_ok_def)
  note n = expired_nth [OF assms this, of _ call e]
  have "user (expired call g e) =
      callbacks call g (filter (\<lambda>i. expirations g ! i \<le> current g) [0..<unat (hi_watermark g)]) (user g)"
    by (simp add: expired_def Let_def)
  with e inv n show ?thesis
    by (intro exI [of _ "expired call g e"]) (simp add: timer_inv_def armed_ok_def)
qed

theorem lf_timer_expire_exact_witness:
  "\<exists>g'. lf_timer_expire (\<lambda>f i e a u. u + 1) (init_timers (0 :: nat) :: (nat, nat) g_timer) = Some g' \<and>
    user g' = 0 \<and> timer_inv g' []"
  using lf_timer_expire_exact [OF init_timer_inv, of "\<lambda>f i e a u. u + 1" "0 :: nat"]
  by (auto simp: callbacks_def init_timers_def)

text \<open>
  The optimised scan, unrolled twice and reading each pair of slots ahead of the tests, is a plain
  left-to-right scan of the slots below the high watermark, and it never reads outside the array: the
  four sentinels are enough.
\<close>

theorem scan_timers_plain:
  assumes "timer_inv g rs"
  shows "scan_timers call (current g) 0 (unat (hi_watermark g)) g =
    Some (fold (scan_at call (current g)) [0..<unat (hi_watermark g)] (LF_TIMER_TICK_INVALID, g))"
  using scan_timers_fold [OF timer_inv_scan_pre [OF assms, of "earliest g"], of call] by simp

theorem scan_timers_plain_witness:
  "scan_timers (\<lambda>(f :: nat) i e a u. u + 1) 0 0 0 (init_timers (0 :: nat)) = Some (LF_TIMER_TICK_INVALID, init_timers 0)"
  using scan_timers_plain [OF init_timer_inv, of "\<lambda>(f :: nat) i e a u. u + 1" "0 :: nat"] by (simp add: init_timers_def)

text \<open>
  C18: No sequence of calls makes the library fail. Whatever a client that keeps to the interface does,
  each call returns: no null callback is invoked, no array is left, no loop runs on. Afterwards the
  client's handles are pairwise different and the table is well-formed, and a further allocation
  gives a handle that nobody holds, or \<open>LF_TIMER_NULL\<close>.
\<close>

theorem lf_timer_clients_safe:
  "\<exists>c rs idx g. exec (client_step call) es (client_init u) = Some c \<and> distinct (live c) \<and>
    timer_inv (table c) rs \<and> lf_timer_alloc (Some f) a (table c) = Some (idx, g) \<and> idx \<notin> set (live c)"
proof -
  obtain c where c: "exec (client_step call) es (client_init u) = Some c" "client_inv c"
    using timer_client.exec_total [of call es u] by blast
  then show ?thesis using alloc_result [OF c(2), of f a] by (auto simp: client_inv_def)
qed

end
