(* ===== verification/Coro_List.thy ===== *)
theory Coro_List
  imports Prelude
begin

text \<open>
  The intrusive circular doubly linked lists of \<^verbatim>\<open>coro/list.h\<close>, on a heap of \<open>next\<close> and \<open>prev\<close> links.
  An entry is identified with its embedded list node, so \<open>list_entry\<close> is the identity and the
  entry variants of the iterators coincide with the plain ones. \<open>LIST_POISONING\<close> is not defined in
  the build. The theorems: every operation refines the corresponding operation on sequences, for any
  number of lists that share the heap, and iteration visits the elements in order and ends.
\<close>

section \<open>Operations\<close>

record list_head =
  prev :: "ptr \<Rightarrow> ptr"
  nxt :: "ptr \<Rightarrow> ptr"

definition set_nxt :: "ptr \<Rightarrow> ptr \<Rightarrow> list_head \<Rightarrow> list_head" where
  "set_nxt a b h = h\<lparr>nxt := (nxt h)(a := b)\<rparr>"

definition set_prev :: "ptr \<Rightarrow> ptr \<Rightarrow> list_head \<Rightarrow> list_head" where
  "set_prev a b h = h\<lparr>prev := (prev h)(a := b)\<rparr>"

definition INIT_LIST_HEAD :: "ptr \<Rightarrow> list_head \<Rightarrow> list_head" where
  "INIT_LIST_HEAD head h =
     (let h = set_nxt head head h in
      set_prev head head h)"

definition list_add :: "ptr \<Rightarrow> ptr \<Rightarrow> list_head \<Rightarrow> list_head" where
  "list_add node head h =
     (let next = nxt h head;
          h = set_prev next node h;
          h = set_nxt node next h;
          h = set_prev node head h in
      set_nxt head node h)"

definition list_add_tail :: "ptr \<Rightarrow> ptr \<Rightarrow> list_head \<Rightarrow> list_head" where
  "list_add_tail node head h =
     (let pre = prev h head;
          h = set_nxt pre node h;
          h = set_nxt node head h;
          h = set_prev node pre h in
      set_prev head node h)"

definition list_del :: "ptr \<Rightarrow> list_head \<Rightarrow> list_head" where
  "list_del node h =
     (let next = nxt h node;
          pre = prev h node;
          h = set_prev next pre h in
      set_nxt pre next h)"

definition list_del_init :: "ptr \<Rightarrow> list_head \<Rightarrow> list_head" where
  "list_del_init node h = INIT_LIST_HEAD node (list_del node h)"

definition list_empty :: "ptr \<Rightarrow> list_head \<Rightarrow> bool" where
  "list_empty head h \<longleftrightarrow> nxt h head = head"

definition list_is_singular :: "ptr \<Rightarrow> list_head \<Rightarrow> bool" where
  "list_is_singular head h \<longleftrightarrow> \<not> list_empty head h \<and> prev h head = nxt h head"

definition list_splice :: "ptr \<Rightarrow> ptr \<Rightarrow> list_head \<Rightarrow> list_head" where
  "list_splice lst head h =
     (let head_first = nxt h head;
          list_first = nxt h lst;
          list_last = prev h lst in
      if list_empty lst h then h
      else
        let h = set_nxt head list_first h;
            h = set_prev list_first head h;
            h = set_nxt list_last head_first h in
        set_prev head_first list_last h)"

definition list_splice_tail :: "ptr \<Rightarrow> ptr \<Rightarrow> list_head \<Rightarrow> list_head" where
  "list_splice_tail lst head h =
     (let head_last = prev h head;
          list_first = nxt h lst;
          list_last = prev h lst in
      if list_empty lst h then h
      else
        let h = set_prev head list_last h;
            h = set_nxt list_last head h;
            h = set_prev list_first head_last h in
        set_nxt head_last list_first h)"

definition list_splice_init :: "ptr \<Rightarrow> ptr \<Rightarrow> list_head \<Rightarrow> list_head" where
  "list_splice_init lst head h = INIT_LIST_HEAD lst (list_splice lst head h)"

definition list_splice_tail_init :: "ptr \<Rightarrow> ptr \<Rightarrow> list_head \<Rightarrow> list_head" where
  "list_splice_tail_init lst head h = INIT_LIST_HEAD lst (list_splice_tail lst head h)"

definition list_cut_position :: "ptr \<Rightarrow> ptr \<Rightarrow> ptr \<Rightarrow> list_head \<Rightarrow> list_head" where
  "list_cut_position head_to head_from node h =
     (let head_from_first = nxt h head_from in
      if list_empty head_from h then h
      else if head_from = node then INIT_LIST_HEAD head_to h
      else
        let h = set_nxt head_from (nxt h node) h;
            h = set_prev (nxt h head_from) head_from h;
            h = set_prev head_to node h;
            h = set_nxt node head_to h;
            h = set_nxt head_to head_from_first h in
        set_prev (nxt h head_to) head_to h)"

definition list_move :: "ptr \<Rightarrow> ptr \<Rightarrow> list_head \<Rightarrow> list_head" where
  "list_move node head h = list_add node head (list_del node h)"

definition list_move_tail :: "ptr \<Rightarrow> ptr \<Rightarrow> list_head \<Rightarrow> list_head" where
  "list_move_tail node head h = list_add_tail node head (list_del node h)"

definition list_first_entry :: "ptr \<Rightarrow> list_head \<Rightarrow> ptr" where
  "list_first_entry head h = nxt h head"

definition list_last_entry :: "ptr \<Rightarrow> list_head \<Rightarrow> ptr" where
  "list_last_entry head h = prev h head"

text \<open>
  The iterators run a loop body \<open>f\<close> on each node; the body may change the heap and a state of its
  own. \<open>list_for_each\<close> follows \<open>next\<close> after the body, \<open>list_for_each_safe\<close> reads it before.
\<close>

definition list_for_each :: "(ptr \<Rightarrow> list_head \<times> 'a \<Rightarrow> list_head \<times> 'a) \<Rightarrow> ptr \<Rightarrow> list_head \<times> 'a
    \<Rightarrow> (list_head \<times> 'a) option" where
  "list_for_each f head s = loop (\<lambda>(node, s).
     if node = head then Some (Inr s)
     else let s = f node s in Some (Inl (nxt (fst s) node, s))) (nxt (fst s) head, s)"

definition list_for_each_safe :: "(ptr \<Rightarrow> list_head \<times> 'a \<Rightarrow> list_head \<times> 'a) \<Rightarrow> ptr \<Rightarrow> list_head \<times> 'a
    \<Rightarrow> (list_head \<times> 'a) option" where
  "list_for_each_safe f head s =
     (let node = nxt (fst s) head; safe = nxt (fst s) node in
      loop (\<lambda>(node, safe, s).
        if node = head then Some (Inr s)
        else let s = f node s; node = safe; safe = nxt (fst s) node in Some (Inl (node, safe, s)))
      (node, safe, s))"

section \<open>Sequences\<close>

text \<open>\<open>seg h a xs b\<close>: from \<open>a\<close> through \<open>xs\<close> to \<open>b\<close>, linked in both directions.\<close>

fun seg :: "list_head \<Rightarrow> ptr \<Rightarrow> ptr list \<Rightarrow> ptr \<Rightarrow> bool" where
  "seg h a [] b \<longleftrightarrow> nxt h a = b \<and> prev h b = a"
| "seg h a (x # xs) b \<longleftrightarrow> nxt h a = x \<and> prev h x = a \<and> seg h x xs b"

definition is_list :: "list_head \<Rightarrow> ptr \<Rightarrow> ptr list \<Rightarrow> bool" where
  "is_list h head ps \<longleftrightarrow> distinct (head # ps) \<and> seg h head ps head"

lemma seg_append [simp]: "seg h a (xs @ y # ys) b \<longleftrightarrow> seg h a xs y \<and> seg h y ys b"
  by (induction xs arbitrary: a) auto

lemma seg_set_nxt [simp]: "c \<notin> set (a # xs) \<Longrightarrow> seg (set_nxt c v h) a xs b = seg h a xs b"
  by (induction xs arbitrary: a) (auto simp: set_nxt_def)

lemma seg_set_prev [simp]: "c \<notin> set (xs @ [b]) \<Longrightarrow> seg (set_prev c v h) a xs b = seg h a xs b"
  by (induction xs arbitrary: a) (auto simp: set_prev_def)

lemma seg_cong:
  "seg h a xs b \<Longrightarrow> (\<And>c. c \<in> set (a # xs) \<Longrightarrow> nxt h' c = nxt h c) \<Longrightarrow>
    (\<And>c. c \<in> set (xs @ [b]) \<Longrightarrow> prev h' c = prev h c) \<Longrightarrow> seg h' a xs b"
  by (induction xs arbitrary: a) auto

lemma links [simp]:
  "nxt (set_nxt a b h) c = (if c = a then b else nxt h c)" "prev (set_nxt a b h) = prev h"
  "prev (set_prev a b h) c = (if c = a then b else prev h c)" "nxt (set_prev a b h) = nxt h"
  by (simp_all add: set_nxt_def set_prev_def)

text \<open>The neighbours of a head, and of a node.\<close>

lemma seg_last: "seg h a xs b \<Longrightarrow> prev h b = last (a # xs)"
  by (induction xs arbitrary: a) auto

lemma seg_first: "seg h a xs b \<Longrightarrow> nxt h a = hd (xs @ [b])"
  by (cases xs) auto

lemma is_list_empty: "is_list h head ps \<Longrightarrow> list_empty head h \<longleftrightarrow> ps = []"
  by (cases ps) (auto simp: is_list_def list_empty_def)

lemma is_list_singular: "is_list h head ps \<Longrightarrow> list_is_singular head h \<longleftrightarrow> length ps = 1"
proof -
  assume l: "is_list h head ps"
  then have n: "nxt h head = hd (ps @ [head])" "prev h head = last (head # ps)"
    by (auto simp: is_list_def seg_first seg_last)
  show ?thesis
  proof (cases ps)
    case Nil
    then show ?thesis using is_list_empty [OF l] by (simp add: list_is_singular_def)
  next
    case (Cons p qs)
    then have "p \<notin> set qs" using l by (simp add: is_list_def)
    then have "last (p # qs) = p \<longleftrightarrow> qs = []" using last_in_set [of qs] by auto
    then show ?thesis using n Cons is_list_empty [OF l] by (simp add: list_is_singular_def)
  qed
qed

section \<open>Several lists in one heap\<close>

definition cells :: "(ptr \<Rightarrow> ptr list option) \<Rightarrow> ptr set" where
  "cells A = {x. \<exists>q ps. A q = Some ps \<and> x \<in> set (q # ps)}"

definition list_rel :: "list_head \<Rightarrow> (ptr \<Rightarrow> ptr list option) \<Rightarrow> bool" where
  "list_rel h A \<longleftrightarrow> (\<forall>q ps. A q = Some ps \<longrightarrow> is_list h q ps \<and> set (q # ps) \<inter> cells (A(q := None)) = {})"

lemma list_relD:
  assumes "list_rel h A" "A q = Some ps"
  shows "is_list h q ps" "set (q # ps) \<inter> cells (A(q := None)) = {}" "distinct (q # ps)" "seg h q ps q"
  using assms by (auto simp: list_rel_def is_list_def)

lemma cells_upd: "cells (A(q \<mapsto> ps)) = set (q # ps) \<union> cells (A(q := None))"
  by (auto simp: cells_def split: if_splits)

lemma cells_drop: "cells (A(q := None)) \<subseteq> cells A"
  by (auto simp: cells_def split: if_splits)

lemma rel_drop: "list_rel h A \<Longrightarrow> list_rel h (A(q := None))"
  unfolding list_rel_def using cells_drop by (fastforce simp: fun_upd_twist split: if_splits)

lemma rel_frame:
  assumes "list_rel h A" "\<And>c. c \<in> cells A \<Longrightarrow> nxt h' c = nxt h c \<and> prev h' c = prev h c"
  shows "list_rel h' A"
  unfolding list_rel_def
proof (intro allI impI conjI)
  fix q ps assume a: "A q = Some ps"
  note d = list_relD [OF assms(1) a]
  show "set (q # ps) \<inter> cells (A(q := None)) = {}" by (rule d)
  have in_cells: "c \<in> cells A" if "c \<in> set (q # ps)" for c using a that by (auto simp: cells_def)
  have "seg h' q ps q" by (rule seg_cong [OF d(4)]) (use assms(2) in_cells in auto)
  then show "is_list h' q ps" using d(3) by (simp add: is_list_def)
qed

lemma rel_add:
  assumes "list_rel h A" "is_list h q ps" "set (q # ps) \<inter> cells (A(q := None)) = {}" "A q = None"
  shows "list_rel h (A(q \<mapsto> ps))"
  unfolding list_rel_def
proof (intro allI impI)
  fix q' ps' assume a: "(A(q \<mapsto> ps)) q' = Some ps'"
  show "is_list h q' ps' \<and> set (q' # ps') \<inter> cells ((A(q \<mapsto> ps))(q' := None)) = {}"
  proof (cases "q' = q")
    case True
    then show ?thesis using a assms(2,3) by simp
  next
    case False
    then have a': "A q' = Some ps'" using a by simp
    note d = list_relD [OF assms(1) a']
    have "(A(q \<mapsto> ps))(q' := None) = (A(q' := None))(q \<mapsto> ps)" using False by (simp add: fun_upd_twist)
    moreover have "set (q' # ps') \<subseteq> cells (A(q := None))" using a' False by (auto simp: cells_def)
    moreover have "cells ((A(q' := None))(q := None)) \<subseteq> cells (A(q' := None))" by (rule cells_drop)
    ultimately show ?thesis using d assms(3) by (auto simp: cells_upd)
  qed
qed

text \<open>Replacing one list, the links of all others untouched.\<close>

lemma rel_upd:
  assumes "list_rel h A" "is_list h' q ps" "set (q # ps) \<inter> cells (A(q := None)) = {}"
    and "\<And>c. c \<in> cells (A(q := None)) \<Longrightarrow> nxt h' c = nxt h c \<and> prev h' c = prev h c"
  shows "list_rel h' (A(q \<mapsto> ps))"
proof -
  have "list_rel h' (A(q := None))" by (rule rel_frame [OF rel_drop [OF assms(1)] assms(4)])
  from rel_add [OF this assms(2)] assms(3) show ?thesis by simp
qed

section \<open>Each operation on one list\<close>

lemma init_list: "is_list (INIT_LIST_HEAD q h) q []"
  by (simp add: is_list_def INIT_LIST_HEAD_def Let_def)

lemma add_list: "is_list h q ps \<Longrightarrow> n \<notin> set (q # ps) \<Longrightarrow> is_list (list_add n q h) q (n # ps)"
  by (cases ps) (auto simp: is_list_def list_add_def Let_def)

lemma add_tail_list:
  assumes "is_list h q ps" "n \<notin> set (q # ps)"
  shows "is_list (list_add_tail n q h) q (ps @ [n])"
  using assms by (cases ps rule: rev_cases) (auto simp: is_list_def list_add_tail_def Let_def)

lemma del_list:
  assumes "is_list h q (xs @ n # ys)"
  shows "is_list (list_del n h) q (xs @ ys)"
  using assms
  by (cases xs rule: rev_cases; cases ys) (auto simp: is_list_def list_del_def Let_def)

text \<open>Both links of every cell outside the two lists keep their values (\<open>same_links\<close>).\<close>

definition same_links :: "ptr set \<Rightarrow> list_head \<Rightarrow> list_head \<Rightarrow> bool" where
  "same_links S h' h \<longleftrightarrow> (\<forall>c. c \<notin> S \<longrightarrow> nxt h' c = nxt h c \<and> prev h' c = prev h c)"

lemma init_same: "same_links {q} (INIT_LIST_HEAD q h) h"
  by (simp add: same_links_def INIT_LIST_HEAD_def Let_def)

lemma add_same: "is_list h q ps \<Longrightarrow> same_links (set (n # q # ps)) (list_add n q h) h"
  by (cases ps) (auto simp: same_links_def list_add_def Let_def is_list_def)

lemma add_tail_same: "is_list h q ps \<Longrightarrow> same_links (set (n # q # ps)) (list_add_tail n q h) h"
  by (cases ps rule: rev_cases) (auto simp: same_links_def list_add_tail_def Let_def is_list_def)

lemma del_same: "is_list h q (xs @ n # ys) \<Longrightarrow> same_links (set (q # xs @ ys)) (list_del n h) h"
  by (cases xs rule: rev_cases; cases ys) (auto simp: same_links_def list_del_def Let_def is_list_def)

text \<open>Redirecting the end of a segment.\<close>

lemma seg_relink:
  assumes "seg h a xs b" "\<And>c. c \<in> set (butlast (a # xs)) \<Longrightarrow> nxt h' c = nxt h c"
    "\<And>c. c \<in> set xs \<Longrightarrow> prev h' c = prev h c" "nxt h' (last (a # xs)) = b'" "prev h' b' = last (a # xs)"
  shows "seg h' a xs b'"
  using assms
proof (induction xs arbitrary: a)
  case Nil
  then show ?case by simp
next
  case (Cons x xs)
  have "seg h' x xs b'" by (rule Cons.IH) (use Cons.prems in auto)
  then show ?case using Cons.prems by auto
qed

lemma last_not_butlast: "distinct (a # xs) \<Longrightarrow> c \<in> set (butlast (a # xs)) \<Longrightarrow> c \<noteq> last (a # xs)"
  by (induction xs arbitrary: a) (auto split: if_splits)

lemma splice_list:
  assumes l: "is_list h l ls" and q: "is_list h q ps" and d: "set (l # ls) \<inter> set (q # ps) = {}"
  shows "is_list (list_splice l q h) q (ls @ ps) \<and> same_links (set (q # ls @ ps)) (list_splice l q h) h"
proof (cases ls)
  case Nil
  then have "list_splice l q h = h" using is_list_empty [OF l] by (simp add: list_splice_def)
  then show ?thesis using Nil q by (simp add: same_links_def)
next
  case (Cons f ms)
  define z where "z = last (f # ms)"
  define p where "p = hd (ps @ [q])"
  define h' where "h' = list_splice l q h"
  have sl: "nxt h l = f" "seg h f ms l" and sq: "seg h q ps q" and D: "distinct (l # q # ls @ ps)"
    using l q d Cons by (auto simp: is_list_def)
  have n: "nxt h q = p" "prev h l = z" using seg_first [OF sq] seg_last [OF sl(2)] by (simp_all add: p_def z_def)
  have h': "h' = set_prev p z (set_nxt z p (set_prev f q (set_nxt q f h)))"
    using n sl(1) is_list_empty [OF l] Cons by (simp add: h'_def list_splice_def Let_def)
  have zp: "z \<in> set (f # ms)" "p \<in> set (q # ps)" by (simp add: z_def) (cases ps; simp add: p_def)
  have neq: "z \<noteq> q" "z \<noteq> p" "p \<noteq> f" "q \<noteq> f" using zp D Cons by auto
  have 1: "seg h' f ms p"
  proof (rule seg_relink [OF sl(2), folded z_def])
    fix c assume c: "c \<in> set (butlast (f # ms))"
    have "c \<noteq> z" using last_not_butlast [OF _ c] D Cons by (simp add: z_def)
    moreover have "c \<noteq> q" using in_set_butlastD [OF c] D Cons by auto
    ultimately show "nxt h' c = nxt h c" by (simp add: h')
  next
    fix c assume c: "c \<in> set ms"
    have "c \<noteq> p" "c \<noteq> f" using c zp(2) D Cons by auto
    then show "prev h' c = prev h c" by (simp add: h')
  qed (use neq in \<open>simp_all add: h'\<close>)
  have "seg h' q (ls @ ps) q"
  proof (cases ps)
    case Nil
    then show ?thesis using 1 Cons neq by (simp add: h' p_def)
  next
    case (Cons p1 rs)
    then have p: "p = p1" "seg h p rs q" using sq by (simp_all add: p_def)
    have out: "c \<noteq> z \<and> c \<noteq> f" if "c \<in> set (q # ps)" for c using that zp(1) D \<open>ls = f # ms\<close> by auto
    have "seg h' p rs q"
    proof (rule seg_cong [OF p(2)])
      fix c assume c: "c \<in> set (p # rs)"
      have "c \<noteq> q" "c \<noteq> z" using c out [of c] D Cons p(1) by auto
      then show "nxt h' c = nxt h c" by (simp add: h')
    next
      fix c assume c: "c \<in> set (rs @ [q])"
      have "c \<noteq> p" "c \<noteq> f" using c out [of c] D Cons p(1) by auto
      then show "prev h' c = prev h c" by (simp add: h')
    qed
    then show ?thesis using 1 Cons \<open>ls = f # ms\<close> p(1) neq by (simp add: h')
  qed
  moreover have "same_links (set (q # ls @ ps)) h' h" using zp Cons by (auto simp: same_links_def h')
  ultimately show ?thesis using D by (auto simp: is_list_def h'_def)
qed

lemma splice_tail_list:
  assumes l: "is_list h l ls" and q: "is_list h q ps" and d: "set (l # ls) \<inter> set (q # ps) = {}"
  shows "is_list (list_splice_tail l q h) q (ps @ ls) \<and> same_links (set (q # ls @ ps)) (list_splice_tail l q h) h"
proof (cases ls)
  case Nil
  then have "list_splice_tail l q h = h" using is_list_empty [OF l] by (simp add: list_splice_tail_def)
  then show ?thesis using Nil q by (simp add: same_links_def)
next
  case (Cons f ms)
  define z where "z = last (f # ms)"
  define p where "p = last (q # ps)"
  define h' where "h' = list_splice_tail l q h"
  have sl: "nxt h l = f" "seg h f ms l" and sq: "seg h q ps q" and D: "distinct (l # q # ls @ ps)"
    using l q d Cons by (auto simp: is_list_def)
  have n: "prev h q = p" "prev h l = z" using seg_last [OF sq] seg_last [OF sl(2)] by (simp_all add: p_def z_def)
  have h': "h' = set_nxt p f (set_prev f p (set_nxt z q (set_prev q z h)))"
    using n sl(1) is_list_empty [OF l] Cons by (simp add: h'_def list_splice_tail_def Let_def)
  have zp: "z \<in> set (f # ms)" "p \<in> set (q # ps)" by (simp_all add: z_def p_def)
  have neq: "z \<noteq> q" "z \<noteq> p" "p \<noteq> f" "q \<noteq> f" using zp D Cons by auto
  have 1: "seg h' f ms q"
  proof (rule seg_relink [OF sl(2), folded z_def])
    fix c assume c: "c \<in> set (butlast (f # ms))"
    have "c \<noteq> z" using last_not_butlast [OF _ c] D Cons by (simp add: z_def)
    moreover have "c \<noteq> p" using in_set_butlastD [OF c] zp(2) D Cons by auto
    ultimately show "nxt h' c = nxt h c" by (simp add: h')
  next
    fix c assume c: "c \<in> set ms"
    have "c \<noteq> q" "c \<noteq> f" using c D Cons by auto
    then show "prev h' c = prev h c" by (simp add: h')
  qed (use neq in \<open>simp_all add: h'\<close>)
  have 2: "seg h' q ps f"
  proof (rule seg_relink [OF sq, folded p_def])
    fix c assume c: "c \<in> set (butlast (q # ps))"
    have "c \<noteq> p" using last_not_butlast [OF _ c] D by (simp add: p_def)
    moreover have "c \<noteq> z" using in_set_butlastD [OF c] zp(1) D Cons by auto
    ultimately show "nxt h' c = nxt h c" by (simp add: h')
  next
    fix c assume c: "c \<in> set ps"
    have "c \<noteq> q" "c \<noteq> f" using c D Cons by auto
    then show "prev h' c = prev h c" by (simp add: h')
  qed (use neq in \<open>simp_all add: h'\<close>)
  have "seg h' q (ps @ ls) q" using 1 2 Cons by simp
  moreover have "same_links (set (q # ls @ ps)) h' h" using zp Cons by (auto simp: same_links_def h')
  ultimately show ?thesis using D by (auto simp: is_list_def h'_def)
qed

lemma cut_list:
  assumes "is_list h q (xs @ n # ys)" "t \<notin> set (q # xs @ n # ys)"
  shows "is_list (list_cut_position t q n h) t (xs @ [n])" "is_list (list_cut_position t q n h) q ys"
    "same_links (set (t # q # xs @ n # ys)) (list_cut_position t q n h) h"
proof -
  have e: "\<not> list_empty q h" using is_list_empty [OF assms(1)] by simp
  have "q \<noteq> n" using assms(1) by (simp add: is_list_def)
  note ne = e this
  have D: "distinct (t # q # n # xs @ ys)" "distinct (rev ys @ rev xs @ [n, q, t])"
    using assms by (auto simp: is_list_def)
  have sg: "seg h q xs n" "seg h n ys q" using assms(1) by (simp_all add: is_list_def)
  define x where "x = hd (xs @ [n])"
  define y where "y = hd (ys @ [q])"
  have n: "nxt h q = x" "nxt h n = y" using sg seg_first by (auto simp: x_def y_def)
  have xy: "x \<in> set (n # xs)" "y \<in> set (q # ys)" by (cases xs; simp add: x_def) (cases ys; simp add: y_def)
  then have neq: "x \<noteq> t" "y \<noteq> t" "x \<noteq> q" "y \<noteq> n" "x \<noteq> y" using D by auto
  define h' where "h' = list_cut_position t q n h"
  have h': "h' = set_prev x t (set_nxt t x (set_nxt n t (set_prev t n (set_prev y q (set_nxt q y h)))))"
    using ne n by (simp add: h'_def list_cut_position_def Let_def)
  have 1: "seg h' t xs n"
  proof (cases xs)
    case Nil
    then show ?thesis using D neq by (auto simp: h' x_def)
  next
    case (Cons a us)
    then have x: "x = a" and a: "seg h a us n" using sg by (simp_all add: x_def)
    have ny: "y \<notin> set (n # xs)" using xy(2) D(1) by auto
    have "seg h' a us n"
    proof (rule seg_cong [OF a])
      fix c assume c: "c \<in> set (a # us)"
      have "c \<noteq> t" "c \<noteq> n" "c \<noteq> q" using c D(1) Cons by auto
      then show "nxt h' c = nxt h c" by (simp add: h')
    next
      fix c assume c: "c \<in> set (us @ [n])"
      have "c \<noteq> x" "c \<noteq> t" "c \<noteq> y" using c D(1) Cons x ny by auto
      then show "prev h' c = prev h c" by (simp add: h')
    qed
    then show ?thesis using Cons x neq by (simp add: h')
  qed
  have 2: "seg h' q ys q"
  proof (cases ys)
    case Nil
    then show ?thesis using D neq by (auto simp: h' y_def)
  next
    case (Cons a us)
    then have y: "y = a" and a: "seg h a us q" using sg by (simp_all add: y_def)
    have nx: "x \<notin> set (q # ys)" using xy(1) D(1) by auto
    have "seg h' a us q"
    proof (rule seg_cong [OF a])
      fix c assume c: "c \<in> set (a # us)"
      have "c \<noteq> t" "c \<noteq> n" "c \<noteq> q" using c D(1) Cons by auto
      then show "nxt h' c = nxt h c" by (simp add: h')
    next
      fix c assume c: "c \<in> set (us @ [q])"
      have "c \<noteq> x" "c \<noteq> t" "c \<noteq> y" using c D(1) Cons y nx by auto
      then show "prev h' c = prev h c" by (simp add: h')
    qed
    then show ?thesis using Cons y neq D(1) by (auto simp: h')
  qed
  have "same_links (set (t # q # xs @ n # ys)) h' h" using xy by (auto simp: same_links_def h')
  moreover have "nxt h' n = t" "prev h' t = n" using D neq by (auto simp: h')
  ultimately have "is_list (list_cut_position t q n h) t (xs @ [n]) \<and> is_list (list_cut_position t q n h) q ys \<and>
      same_links (set (t # q # xs @ n # ys)) (list_cut_position t q n h) h"
    using 1 2 D unfolding h'_def [symmetric] is_list_def by auto
  then show "is_list (list_cut_position t q n h) t (xs @ [n])" "is_list (list_cut_position t q n h) q ys"
    "same_links (set (t # q # xs @ n # ys)) (list_cut_position t q n h) h" by blast+
qed

section \<open>The operations on all lists\<close>

datatype list_op =
    Init ptr
  | Add ptr ptr
  | Add_tail ptr ptr
  | Del ptr
  | Del_init ptr
  | Move ptr ptr
  | Move_tail ptr ptr
  | Splice ptr ptr
  | Splice_tail ptr ptr
  | Splice_init ptr ptr
  | Splice_tail_init ptr ptr
  | Cut ptr ptr ptr

fun run_op :: "list_op \<Rightarrow> list_head \<Rightarrow> list_head" where
  "run_op (Init q) = INIT_LIST_HEAD q"
| "run_op (Add n q) = list_add n q"
| "run_op (Add_tail n q) = list_add_tail n q"
| "run_op (Del n) = list_del n"
| "run_op (Del_init n) = list_del_init n"
| "run_op (Move n q) = list_move n q"
| "run_op (Move_tail n q) = list_move_tail n q"
| "run_op (Splice l q) = list_splice l q"
| "run_op (Splice_tail l q) = list_splice_tail l q"
| "run_op (Splice_init l q) = list_splice_init l q"
| "run_op (Splice_tail_init l q) = list_splice_tail_init l q"
| "run_op (Cut t q n) = list_cut_position t q n"

text \<open>The same operations on sequences, and what their documentation asks of the arguments.\<close>

definition removed :: "ptr \<Rightarrow> (ptr \<Rightarrow> ptr list option) \<Rightarrow> ptr \<Rightarrow> ptr list option" where
  "removed n A q = map_option (removeAll n) (A q)"

definition is_node :: "ptr \<Rightarrow> (ptr \<Rightarrow> ptr list option) \<Rightarrow> bool" where
  "is_node n A \<longleftrightarrow> (\<exists>q ps. A q = Some ps \<and> n \<in> set ps)"

fun spec_op :: "list_op \<Rightarrow> (ptr \<Rightarrow> ptr list option) \<Rightarrow> ptr \<Rightarrow> ptr list option" where
  "spec_op (Init q) A = A(q \<mapsto> [])"
| "spec_op (Add n q) A = A(q \<mapsto> n # the (A q))"
| "spec_op (Add_tail n q) A = A(q \<mapsto> the (A q) @ [n])"
| "spec_op (Del n) A = removed n A"
| "spec_op (Del_init n) A = (removed n A)(n \<mapsto> [])"
| "spec_op (Move n q) A = (removed n A)(q \<mapsto> n # the (removed n A q))"
| "spec_op (Move_tail n q) A = (removed n A)(q \<mapsto> the (removed n A q) @ [n])"
| "spec_op (Splice l q) A = A(l := None, q \<mapsto> the (A l) @ the (A q))"
| "spec_op (Splice_tail l q) A = A(l := None, q \<mapsto> the (A q) @ the (A l))"
| "spec_op (Splice_init l q) A = A(q \<mapsto> the (A l) @ the (A q), l \<mapsto> [])"
| "spec_op (Splice_tail_init l q) A = A(q \<mapsto> the (A q) @ the (A l), l \<mapsto> [])"
| "spec_op (Cut t q n) A =
     (let ps = the (A q) in
      if ps = [] then A
      else if q = n then A(t \<mapsto> [])
      else A(q \<mapsto> tl (dropWhile (\<lambda>p. p \<noteq> n) ps), t \<mapsto> takeWhile (\<lambda>p. p \<noteq> n) ps @ [n]))"

fun pre_op :: "list_op \<Rightarrow> (ptr \<Rightarrow> ptr list option) \<Rightarrow> bool" where
  "pre_op (Init q) A \<longleftrightarrow> q \<notin> cells (A(q := None))"
| "pre_op (Add n q) A \<longleftrightarrow> A q \<noteq> None \<and> n \<notin> cells A"
| "pre_op (Add_tail n q) A \<longleftrightarrow> A q \<noteq> None \<and> n \<notin> cells A"
| "pre_op (Del n) A \<longleftrightarrow> is_node n A"
| "pre_op (Del_init n) A \<longleftrightarrow> is_node n A"
| "pre_op (Move n q) A \<longleftrightarrow> is_node n A \<and> A q \<noteq> None"
| "pre_op (Move_tail n q) A \<longleftrightarrow> is_node n A \<and> A q \<noteq> None"
| "pre_op (Splice l q) A \<longleftrightarrow> A l \<noteq> None \<and> A q \<noteq> None \<and> l \<noteq> q"
| "pre_op (Splice_tail l q) A \<longleftrightarrow> A l \<noteq> None \<and> A q \<noteq> None \<and> l \<noteq> q"
| "pre_op (Splice_init l q) A \<longleftrightarrow> A l \<noteq> None \<and> A q \<noteq> None \<and> l \<noteq> q"
| "pre_op (Splice_tail_init l q) A \<longleftrightarrow> A l \<noteq> None \<and> A q \<noteq> None \<and> l \<noteq> q"
| "pre_op (Cut t q n) A \<longleftrightarrow> A q \<noteq> None \<and> t \<noteq> q \<and> t \<notin> cells (A(t := None)) \<and> n \<in> set (q # the (A q))"

lemma rel_same:
  assumes "list_rel h A" "is_list h' q ps" "same_links S h' h" "S \<inter> cells (A(q := None)) = {}"
    "set (q # ps) \<subseteq> S"
  shows "list_rel h' (A(q \<mapsto> ps))"
  by (rule rel_upd [OF assms(1,2)]) (use assms(3-5) in \<open>auto simp: same_links_def\<close>)

lemma in_cells: "A q = Some ps \<Longrightarrow> set (q # ps) \<subseteq> cells A"
  by (auto simp: cells_def)

lemma rel_init: "list_rel h A \<Longrightarrow> q \<notin> cells (A(q := None)) \<Longrightarrow> list_rel (INIT_LIST_HEAD q h) (A(q \<mapsto> []))"
  by (rule rel_same [OF _ init_list init_same]) auto

lemma rel_list_add:
  assumes "list_rel h A" "A q = Some ps" "n \<notin> cells A"
  shows "list_rel (list_add n q h) (A(q \<mapsto> n # ps))"
proof -
  note d = list_relD [OF assms(1,2)]
  have n: "n \<notin> set (q # ps)" using in_cells [of A q ps, OF assms(2)] assms(3) by auto
  show ?thesis
    by (rule rel_same [OF assms(1) add_list [OF d(1) n] add_same [OF d(1)]])
      (use d(2) assms(3) cells_drop [of A q] in auto)
qed

lemma rel_list_add_tail:
  assumes "list_rel h A" "A q = Some ps" "n \<notin> cells A"
  shows "list_rel (list_add_tail n q h) (A(q \<mapsto> ps @ [n]))"
proof -
  note d = list_relD [OF assms(1,2)]
  have n: "n \<notin> set (q # ps)" using in_cells [of A q ps, OF assms(2)] assms(3) by auto
  show ?thesis
    by (rule rel_same [OF assms(1) add_tail_list [OF d(1) n] add_tail_same [OF d(1)]])
      (use d(2) assms(3) cells_drop [of A q] in auto)
qed

lemma rel_list_del:
  assumes rel: "list_rel h A" and n: "is_node n A"
  shows "list_rel (list_del n h) (removed n A)" "n \<notin> cells (removed n A)"
proof -
  obtain q ps where a: "A q = Some ps" "n \<in> set ps" using n by (auto simp: is_node_def)
  note d = list_relD [OF rel a(1)]
  obtain xs ys where ps: "ps = xs @ n # ys" using a(2) by (auto simp: in_set_conv_decomp)
  have ra: "removeAll n ps = xs @ ys" using d(3) ps by (auto simp: removeAll_append)
  have other: "n \<notin> set (q' # ps')" if "A q' = Some ps'" "q' \<noteq> q" for q' ps'
  proof -
    have "set (q' # ps') \<subseteq> cells (A(q := None))" using that in_cells [of "A(q := None)" q' ps'] by simp
    then show ?thesis using d(2) a(2) by auto
  qed
  have eq: "removed n A = A(q \<mapsto> xs @ ys)"
  proof
    fix q'
    show "removed n A q' = (A(q \<mapsto> xs @ ys)) q'"
      using a ra other [of q'] by (cases "q' = q"; cases "A q'") (auto simp: removed_def intro: removeAll_id)
  qed
  have "list_rel (list_del n h) (A(q \<mapsto> xs @ ys))"
    by (rule rel_same [OF rel del_list del_same]) (use d(1,2) ps in auto)
  then show "list_rel (list_del n h) (removed n A)" by (simp add: eq)
  have "n \<notin> cells (A(q := None))" using d(2) a(2) by auto
  then show "n \<notin> cells (removed n A)" using d(3) ps by (simp add: eq cells_upd)
qed

lemma two_lists:
  assumes rel: "list_rel h A" and A: "A l = Some ls" "A q = Some ps" "l \<noteq> q"
  shows "is_list h l ls" "is_list h q ps" "set (l # ls) \<inter> set (q # ps) = {}"
    "(set (l # ls) \<union> set (q # ps)) \<inter> cells ((A(l := None))(q := None)) = {}"
proof -
  note dl = list_relD [OF rel A(1)] and dq = list_relD [OF rel A(2)]
  show "is_list h l ls" "is_list h q ps" by (rule dl dq)+
  have "set (q # ps) \<subseteq> cells (A(l := None))" using A in_cells [of "A(l := None)" q ps] by simp
  then show "set (l # ls) \<inter> set (q # ps) = {}" using dl(2) by auto
  have "cells ((A(l := None))(q := None)) \<subseteq> cells (A(l := None))" "cells ((A(l := None))(q := None)) \<subseteq> cells (A(q := None))"
    using cells_drop [of "A(l := None)" q] cells_drop [of "A(q := None)" l] A(3) by (simp_all add: fun_upd_twist)
  then show "(set (l # ls) \<union> set (q # ps)) \<inter> cells ((A(l := None))(q := None)) = {}" using dl(2) dq(2) by auto
qed

lemma rel_splice:
  assumes rel: "list_rel h A" and A: "A l = Some ls" "A q = Some ps" "l \<noteq> q"
  shows "list_rel (list_splice l q h) (A(l := None, q \<mapsto> ls @ ps))"
    and "l \<notin> cells (A(l := None, q \<mapsto> ls @ ps))"
proof -
  note d = two_lists [OF assms]
  show "list_rel (list_splice l q h) (A(l := None, q \<mapsto> ls @ ps))"
    by (rule rel_same [OF rel_drop [OF rel] splice_list [OF d(1,2,3), THEN conjunct1] splice_list [OF d(1,2,3), THEN conjunct2]])
      (use d(4) in auto)
  show "l \<notin> cells (A(l := None, q \<mapsto> ls @ ps))" using d(1,3,4) A(3) by (auto simp: cells_upd is_list_def)
qed

lemma rel_splice_tail:
  assumes rel: "list_rel h A" and A: "A l = Some ls" "A q = Some ps" "l \<noteq> q"
  shows "list_rel (list_splice_tail l q h) (A(l := None, q \<mapsto> ps @ ls))"
    and "l \<notin> cells (A(l := None, q \<mapsto> ps @ ls))"
proof -
  note d = two_lists [OF assms]
  show "list_rel (list_splice_tail l q h) (A(l := None, q \<mapsto> ps @ ls))"
    by (rule rel_same [OF rel_drop [OF rel] splice_tail_list [OF d(1,2,3), THEN conjunct1] splice_tail_list [OF d(1,2,3), THEN conjunct2]])
      (use d(4) in auto)
  show "l \<notin> cells (A(l := None, q \<mapsto> ps @ ls))" using d(1,3,4) A(3) by (auto simp: cells_upd is_list_def)
qed

lemma rel_cut:
  assumes rel: "list_rel h A" and A: "A q = Some (xs @ n # ys)" "t \<noteq> q" "t \<notin> cells (A(t := None))"
  shows "list_rel (list_cut_position t q n h) (A(q \<mapsto> ys, t \<mapsto> xs @ [n]))"
proof -
  define h' where "h' = list_cut_position t q n h"
  define A' where "A' = A(t := None)"
  have rel': "list_rel h A'" and q: "A' q = Some (xs @ n # ys)" and tA: "t \<notin> cells A'"
    using rel_drop [OF rel] A by (simp_all add: A'_def)
  define B where "B = A'(q := None)"
  note d = list_relD [OF rel' q, folded B_def]
  have t: "t \<notin> set (q # xs @ n # ys)" using in_cells [of A', OF q] tA by auto
  note c = cut_list [OF d(1) t, folded h'_def]
  have tB: "t \<notin> cells B" using tA cells_drop [of A' q] by (auto simp: B_def)
  have tN: "(B(q \<mapsto> ys)) t = None" using A(2) by (simp add: B_def A'_def)
  then have tU: "(B(q \<mapsto> ys))(t := None) = B(q \<mapsto> ys)" by (rule fun_upd_idem)
  have "list_rel h' B"
    by (rule rel_frame [OF rel_drop [OF rel', of q, folded B_def]]) (use c(3) d(2) tB in \<open>auto simp: same_links_def\<close>)
  then have 1: "list_rel h' (B(q \<mapsto> ys))"
    by (rule rel_add [OF _ c(2)]) (use d(2) in \<open>auto simp: B_def\<close>)
  have "list_rel h' ((B(q \<mapsto> ys))(t \<mapsto> xs @ [n]))"
  proof (rule rel_add [OF 1 c(1) _ tN])
    have "cells (B(q := None)) = cells B" by (simp add: B_def)
    then show "set (t # xs @ [n]) \<inter> cells ((B(q \<mapsto> ys))(t := None)) = {}"
      unfolding tU cells_upd using d(2,3) t tB by auto
  qed
  moreover have "(B(q \<mapsto> ys))(t \<mapsto> xs @ [n]) = A(q \<mapsto> ys, t \<mapsto> xs @ [n])"
    using A(2) by (auto simp: B_def A'_def)
  ultimately show ?thesis by (simp add: h'_def)
qed

lemma list_op_refines:
  assumes rel: "list_rel h A" and pre: "pre_op op A"
  shows "list_rel (run_op op h) (spec_op op A)"
proof (cases op)
  case (Init q)
  then show ?thesis using rel_init [OF rel] pre by simp
next
  case (Add n q)
  then show ?thesis using rel_list_add [OF rel] pre by auto
next
  case (Add_tail n q)
  then show ?thesis using rel_list_add_tail [OF rel] pre by auto
next
  case (Del n)
  then show ?thesis using rel_list_del [OF rel] pre by simp
next
  case (Del_init n)
  then show ?thesis using rel_list_del [OF rel, of n] pre cells_drop [of "removed n A" n]
    by (auto simp: list_del_init_def intro!: rel_init)
next
  case (Move n q)
  then show ?thesis using rel_list_del [OF rel, of n] pre
    by (auto simp: list_move_def removed_def intro!: rel_list_add)
next
  case (Move_tail n q)
  then show ?thesis using rel_list_del [OF rel, of n] pre
    by (auto simp: list_move_tail_def removed_def intro!: rel_list_add_tail)
next
  case (Splice l q)
  then show ?thesis using rel_splice [OF rel] pre by auto
next
  case (Splice_tail l q)
  then show ?thesis using rel_splice_tail [OF rel] pre by auto
next
  case (Splice_init l q)
  with pre obtain ls ps where A: "A l = Some ls" "A q = Some ps" "l \<noteq> q" by auto
  note r = rel_splice [OF rel A]
  have "(A(l := None, q \<mapsto> ls @ ps))(l := None) = A(l := None, q \<mapsto> ls @ ps)" using A(3) by auto
  then have "list_rel (run_op op h) (A(l := None, q \<mapsto> ls @ ps, l \<mapsto> []))"
    using rel_init [OF r(1), of l] r(2) Splice_init by (simp add: list_splice_init_def)
  moreover have "A(l := None, q \<mapsto> ls @ ps, l \<mapsto> []) = spec_op op A" using A Splice_init by auto
  ultimately show ?thesis by simp
next
  case (Splice_tail_init l q)
  with pre obtain ls ps where A: "A l = Some ls" "A q = Some ps" "l \<noteq> q" by auto
  note r = rel_splice_tail [OF rel A]
  have "(A(l := None, q \<mapsto> ps @ ls))(l := None) = A(l := None, q \<mapsto> ps @ ls)" using A(3) by auto
  then have "list_rel (run_op op h) (A(l := None, q \<mapsto> ps @ ls, l \<mapsto> []))"
    using rel_init [OF r(1), of l] r(2) Splice_tail_init by (simp add: list_splice_tail_init_def)
  moreover have "A(l := None, q \<mapsto> ps @ ls, l \<mapsto> []) = spec_op op A" using A Splice_tail_init by auto
  ultimately show ?thesis by simp
next
  case (Cut t q n)
  with pre obtain ps where A: "A q = Some ps" and t: "t \<noteq> q" "t \<notin> cells (A(t := None))" and n: "n \<in> set (q # ps)"
    by auto
  note d = list_relD [OF rel A]
  have e: "list_empty q h \<longleftrightarrow> ps = []" using d(1) by (rule is_list_empty)
  show ?thesis
  proof (cases "ps = [] \<or> q = n")
    case True
    then show ?thesis using Cut A e rel rel_init [OF rel t(2)] by (auto simp: list_cut_position_def Let_def)
  next
    case False
    then have "n \<in> set ps" using n by auto
    then obtain xs ys where ps: "ps = xs @ n # ys" by (auto simp: in_set_conv_decomp)
    have "n \<notin> set xs" using d(3) ps by auto
    then have "takeWhile (\<lambda>p. p \<noteq> n) ps = xs" "dropWhile (\<lambda>p. p \<noteq> n) ps = n # ys"
      unfolding ps by (auto simp: takeWhile_append dropWhile_append)
    then show ?thesis using rel_cut [OF rel _ t, of xs n ys] A ps False Cut by simp
  qed
qed

section \<open>Iteration\<close>

lemma for_each_seg:
  assumes "seg (fst s) a ps head" "head \<notin> set ps" "\<And>n s. fst (f n s) = fst s"
  shows "loop (\<lambda>(node, s). if node = head then Some (Inr s)
      else let s = f node s in Some (Inl (nxt (fst s) node, s))) (nxt (fst s) a, s) = Some (fold f ps s)"
  using assms(1,2)
proof (induction ps arbitrary: a s)
  case Nil
  then show ?case by (intro loop_stop) simp
next
  case (Cons p ps)
  have "seg (fst (f p s)) p ps head" using Cons.prems assms(3) by simp
  from Cons.IH [OF this] Cons.prems show ?case by (subst loop_next) (simp_all add: Let_def)
qed

text \<open>
  What a loop body may do to the rest of the list: with the nodes \<open>n # ps\<close> still ahead of it, it
  keeps the links from the next node on.
\<close>

definition keeps_ahead :: "(ptr \<Rightarrow> list_head \<times> 'a \<Rightarrow> list_head \<times> 'a) \<Rightarrow> ptr \<Rightarrow> bool" where
  "keeps_ahead f head \<longleftrightarrow> (\<forall>n ps a s. is_list (fst s) head (a @ n # ps) \<longrightarrow>
     (\<exists>b. is_list (fst (f n s)) head (b @ ps)))"

lemma seg_path: "seg h a (xs @ p # ps) q \<Longrightarrow> seg h p ps q"
  by simp

lemma for_each_safe_fold:
  assumes f: "keeps_ahead f head" and l: "is_list (fst s) head (a @ ps)"
    and safe: "node = hd (ps @ [head])" "ps = [] \<or> safe = hd (tl ps @ [head])"
  shows "loop (\<lambda>(node, safe, s). if node = head then Some (Inr s)
      else let s = f node s; node = safe; safe = nxt (fst s) node in Some (Inl (node, safe, s)))
    (node, safe, s) = Some (fold f ps s)"
  using l safe
proof (induction ps arbitrary: a s node safe)
  case Nil
  then show ?case by (intro loop_stop) simp
next
  case (Cons p ps)
  obtain b where b: "is_list (fst (f p s)) head (b @ ps)" using f Cons.prems(1) unfolding keeps_ahead_def by blast
  have ne: "node \<noteq> head" using Cons.prems by (auto simp: is_list_def)
  have "ps = [] \<or> nxt (fst (f p s)) (hd (ps @ [head])) = hd (tl ps @ [head])"
  proof (cases ps)
    case (Cons r rs)
    then have "seg (fst (f p s)) r rs head" using b by (auto simp: is_list_def dest: seg_path)
    then show ?thesis using Cons by (auto dest: seg_first)
  qed simp
  with Cons.IH [OF b, of "hd (ps @ [head])" "nxt (fst (f p s)) (hd (ps @ [head]))"] ne Cons.prems
  show ?case by (subst loop_next) (auto simp: Let_def)
qed

section \<open>Properties\<close>

text \<open>
  C28: The list operations refine sequences. For any number of lists on one heap, each operation of
  \<^verbatim>\<open>list.h\<close> (insertion at either end, deletion, moving, splicing and cutting), used as its
  documentation asks, changes the lists it names as the operation on sequences says and leaves every
  other list as it was; both link directions stay consistent.
\<close>

theorem list_ops_refine_sequences:
  assumes "list_rel h A" "pre_op op A"
  shows "list_rel (run_op op h) (spec_op op A)"
  by (rule list_op_refines [OF assms])

definition demo_heap :: list_head where
  "demo_heap = list_add_tail 3 1 (list_add 2 1 (INIT_LIST_HEAD 1 \<lparr>prev = \<lambda>_. 0, nxt = \<lambda>_. 0\<rparr>))"

lemma demo_rel: "list_rel demo_heap [1 \<mapsto> [2, 3]]"
  by (auto simp: list_rel_def is_list_def cells_def demo_heap_def list_add_tail_def list_add_def
      INIT_LIST_HEAD_def Let_def set_nxt_def set_prev_def split: if_splits)

theorem list_ops_refine_sequences_witness:
  "list_rel (list_cut_position 9 1 2 demo_heap) [1 \<mapsto> [3], 9 \<mapsto> [2]]"
  using list_ops_refine_sequences [OF demo_rel, of "Cut 9 1 2"] by (simp add: cells_def)

text \<open>
  Iteration is complete and ends. \<open>list_for_each\<close> runs its body on exactly the elements, in order,
  for a body that leaves the links alone; \<open>list_for_each_safe\<close> does so even for a body that unlinks
  the element it is given, such as deletion of every element.
\<close>

theorem list_iteration_complete:
  assumes "is_list h head ps"
  shows "((\<forall>n s. fst (f n s) = fst s) \<longrightarrow> list_for_each f head (h, x) = Some (fold f ps (h, x))) \<and>
    (keeps_ahead g head \<longrightarrow> list_for_each_safe g head (h, x) = Some (fold g ps (h, x))) \<and>
    keeps_ahead (\<lambda>n (h, y). (list_del n h, n # y)) head"
proof (intro conjI impI)
  have sg: "seg h head ps head" "head \<notin> set ps" using assms by (simp_all add: is_list_def)
  show "list_for_each f head (h, x) = Some (fold f ps (h, x))" if "\<forall>n s. fst (f n s) = fst s"
    using for_each_seg [of "(h, x)" head ps head f] sg that by (simp add: list_for_each_def)
  have n: "nxt h head = hd (ps @ [head])" using sg(1) by (rule seg_first)
  have n2: "ps = [] \<or> nxt h (hd ps) = hd (tl ps @ [head])"
    using sg by (cases ps) (auto dest: seg_first)
  show "list_for_each_safe g head (h, x) = Some (fold g ps (h, x))" if "keeps_ahead g head"
    using for_each_safe_fold [OF that, of "(h, x)" "[]" ps "nxt h head" "nxt h (nxt h head)"] assms n n2
    by (cases ps) (auto simp: list_for_each_safe_def Let_def)
  show "keeps_ahead (\<lambda>n (h, y). (list_del n h, n # y)) head"
    unfolding keeps_ahead_def by (auto split: prod.splits) (blast intro: del_list)
qed

theorem list_iteration_complete_witness:
  "list_for_each_safe (\<lambda>n (h, y). (list_del n h, n # y)) 1 (demo_heap, []) \<noteq> None \<and>
   list_for_each (\<lambda>n (h, y). (h, n # y)) 1 (demo_heap, []) = Some (demo_heap, [3, 2])"
proof -
  have l: "is_list demo_heap 1 [2, 3]" using demo_rel by (auto simp: list_rel_def)
  from list_iteration_complete [OF l, of "\<lambda>n (h, y). (h, n # y)" "[]" "\<lambda>n (h, y). (list_del n h, n # y)"]
  show ?thesis by (auto split: prod.splits)
qed

end
