(* ===== verification/Coro.thy ===== *)
theory Coro
  imports Coro_List
begin

text \<open>
  The coroutine scheduler of \<^verbatim>\<open>coro/coro.c\<close>, on the lists of \<^verbatim>\<open>coro/list.h\<close>. A jump buffer is the
  program point it was filled at; a jump is a change of the control point, and one step of the model
  runs from one jump to the next. The address the \<open>k\<close>-th \<open>malloc\<close> returns is a parameter; \<open>tasklist\<close>
  lives at address 1. What is printed is recorded as events, with the task they belong to.

  Every jump into a task goes to a \<open>setjmp\<close> whose function was itself left by a jump, which the C standard
  leaves undefined. Whether the platform keeps such a jump buffer usable, so that control goes on
  behind the \<open>setjmp\<close> with unknown local variables, is the parameter \<open>keeps\<close>; the code then reads only
  \<open>cur_task\<close>, other static variables and the heap. Overflow of an \<open>int\<close> or of a \<open>long long\<close> is \<open>None\<close>.

  The theorems: on such a platform the scheduler runs every registered task to completion and ends,
  each task doing exactly the iterations its own loop asks for, and on any other the first switch to a
  task is undefined; the Fibonacci routine is right exactly as long as the result fits 64 bits.
\<close>

section \<open>State\<close>

datatype event =
    Started string int
  | Fib string int int
  | Number string int
  | Resumed string
  | Complete string

text \<open>\<open>Entry\<close> is the \<open>setjmp\<close> before the loop of a task, \<open>In_loop\<close> the one inside.\<close>

datatype env_point = Entry | In_loop

datatype task_fun = Task0 | Task1

record task =
  env :: env_point
  code :: task_fun
  task_name :: string
  tn :: int
  ti :: int

record arg =
  an :: int
  ai :: int
  aname :: string

datatype control = Sched | Resume

record coro =
  links :: list_head
  mem :: "ptr \<Rightarrow> task"
  tasks :: "task_fun list"
  args :: "arg list"
  ntasks :: int
  next_i :: nat
  cur_task :: ptr
  control :: control
  out :: "(ptr \<times> event) list"

abbreviation (input) tasklist :: ptr where "tasklist \<equiv> 1"

definition print :: "ptr \<Rightarrow> event \<Rightarrow> coro \<Rightarrow> coro" where
  "print t e s = s\<lparr>out := out s @ [(t, e)]\<rparr>"

section \<open>Operations\<close>

definition fits_int :: "int \<Rightarrow> bool" where
  "fits_int x \<longleftrightarrow> - (2 ^ 31) \<le> x \<and> x < 2 ^ 31"

definition fits_long_long :: "int \<Rightarrow> bool" where
  "fits_long_long x \<longleftrightarrow> - (2 ^ 63) \<le> x \<and> x < 2 ^ 63"

text \<open>
  The loop of \<open>fib_sequence\<close> over the indices \<open>is\<close>. A negative argument makes the array too short for its
  first two elements. The array is on the stack; it has at most 94 elements before the sum overflows.
\<close>

fun fib_fill :: "nat list \<Rightarrow> int list \<Rightarrow> int list option" where
  "fib_fill [] f = Some f"
| "fib_fill (i # ix) f = do {
     x \<leftarrow> load_at f (i - 1);
     y \<leftarrow> load_at f (i - 2);
     if fits_long_long (x + y) then do { f \<leftarrow> store_at f i (x + y); fib_fill ix f } else None
   }"

definition fib_sequence :: "int \<Rightarrow> int option" where
  "fib_sequence k = (if k < 0 then None else do {
     f \<leftarrow> fib_fill [2..<nat k + 1] ((replicate (nat k + 2) 0)[0 := 0, 1 := 1]);
     load_at f (nat k)
   })"

definition task_add :: "ptr \<Rightarrow> coro \<Rightarrow> coro" where
  "task_add t s = s\<lparr>links := list_add_tail t tasklist (links s)\<rparr>"

text \<open>The inner \<open>None\<close> is the return without a jump.\<close>

definition task_switch :: "bool \<Rightarrow> coro \<Rightarrow> coro option option" where
  "task_switch keeps s =
     (if \<not> list_empty tasklist (links s) then
        let t = list_first_entry tasklist (links s) in
        if keeps then Some (Some (s\<lparr>links := list_del t (links s), cur_task := t, control := Resume\<rparr>)) else None
      else Some None)"

text \<open>A name that does not fit the ten bytes of \<open>task_name\<close> overruns them, and a failed \<open>malloc\<close> is not noticed (\<open>None\<close>).\<close>

definition task_start :: "(nat \<Rightarrow> ptr) \<Rightarrow> nat \<Rightarrow> task_fun \<Rightarrow> arg \<Rightarrow> coro \<Rightarrow> coro option" where
  "task_start mal k f a s =
     (if mal k = NULL \<or> length (aname a) \<ge> 10 then None else
      let t = mal k;
          s = s\<lparr>mem := (mem s)(t := \<lparr>env = Entry, code = f, task_name = aname a, tn = an a, ti = ai a\<rparr>)\<rparr>;
          s = s\<lparr>links := INIT_LIST_HEAD t (links s)\<rparr>;
          s = print t (Started (aname a) (an a)) s;
          s = task_add t s in
      Some (s\<lparr>control := Sched\<rparr>))"

definition task0_body :: "task \<Rightarrow> event option" where
  "task0_body tk = map_option (Fib (task_name tk) (ti tk)) (fib_sequence (ti tk))"

definition task1_body :: "task \<Rightarrow> event option" where
  "task1_body tk = Some (Number (task_name tk) (ti tk))"

definition task_body :: "task \<Rightarrow> event option" where
  "task_body tk = (case code tk of Task0 \<Rightarrow> task0_body tk | Task1 \<Rightarrow> task1_body tk)"

definition task_stride :: "task_fun \<Rightarrow> int" where
  "task_stride f = (case f of Task0 \<Rightarrow> 2 | Task1 \<Rightarrow> 1)"

text \<open>
  The head of the task's loop: another iteration, or completion. If \<open>task_switch\<close> returned, the task would go
  on as after a jump.
\<close>

definition task_loop :: "bool \<Rightarrow> ptr \<Rightarrow> coro \<Rightarrow> coro option" where
  "task_loop keeps t s =
     (if ti (mem s t) < tn (mem s t) then do {
        let s = s\<lparr>mem := (mem s)(t := (mem s t)\<lparr>env := In_loop\<rparr>)\<rparr>;
        e \<leftarrow> task_body (mem s t);
        let s = task_add t (print t e s);
        j \<leftarrow> task_switch keeps s;
        Some (case j of Some s' \<Rightarrow> s' | None \<Rightarrow> s\<lparr>control := Resume\<rparr>)
      } else Some ((print t (Complete (task_name (mem s t))) s)\<lparr>control := Sched\<rparr>))"

definition task_resume :: "bool \<Rightarrow> coro \<Rightarrow> coro option" where
  "task_resume keeps s =
     (let t = cur_task s in
      case env (mem s t) of
        Entry \<Rightarrow> task_loop keeps t s
      | In_loop \<Rightarrow>
          let s = print t (Resumed (task_name (mem s t))) s;
              i = ti (mem s t) + task_stride (code (mem s t)) in
          if fits_int i then task_loop keeps t (s\<lparr>mem := (mem s)(t := (mem s t)\<lparr>ti := i\<rparr>)\<rparr>) else None)"

text \<open>From the \<open>setjmp\<close> of the scheduler to the next jump, or to its return (\<open>Inr\<close>).\<close>

definition schedule_step :: "bool \<Rightarrow> (nat \<Rightarrow> ptr) \<Rightarrow> coro \<Rightarrow> (coro + coro) option" where
  "schedule_step keeps mal s =
     (if \<not> fits_int (ntasks s - 1) then None
      else if ntasks s > 0 then do {
        let s = s\<lparr>ntasks := ntasks s - 1\<rparr>;
        a \<leftarrow> load_at (args s) (next_i s);
        f \<leftarrow> load_at (tasks s) (next_i s);
        let k = next_i s;
        s \<leftarrow> task_start mal k f a (s\<lparr>next_i := k + 1\<rparr>);
        Some (Inl s)
      } else do {
        let s = s\<lparr>ntasks := ntasks s - 1\<rparr>;
        j \<leftarrow> task_switch keeps s;
        Some (case j of Some s' \<Rightarrow> Inl s' | None \<Rightarrow> Inr s)
      })"

definition coro_step :: "bool \<Rightarrow> (nat \<Rightarrow> ptr) \<Rightarrow> coro \<Rightarrow> (coro + coro) option" where
  "coro_step keeps mal s = (case control s of
     Sched \<Rightarrow> schedule_step keeps mal s
   | Resume \<Rightarrow> map_option Inl (task_resume keeps s))"

definition schedule :: "bool \<Rightarrow> (nat \<Rightarrow> ptr) \<Rightarrow> coro \<Rightarrow> coro option" where
  "schedule keeps mal s = loop (coro_step keeps mal) s"

definition coro_init :: "task_fun list \<Rightarrow> arg list \<Rightarrow> list_head \<Rightarrow> (ptr \<Rightarrow> task) \<Rightarrow> coro" where
  "coro_init fs as h m = \<lparr>links = INIT_LIST_HEAD tasklist h, mem = m, tasks = fs, args = as,
     ntasks = int (length fs), next_i = 0, cur_task = NULL, control = Sched, out = []\<rparr>"

definition main_args :: "arg list" where
  "main_args = [\<lparr>an = 70, ai = 0, aname = ''Task 0''\<rparr>, \<lparr>an = 70, ai = 1, aname = ''Task 1''\<rparr>,
     \<lparr>an = 70, ai = 0, aname = ''Task 2''\<rparr>]"

definition main :: "bool \<Rightarrow> (nat \<Rightarrow> ptr) \<Rightarrow> list_head \<Rightarrow> (ptr \<Rightarrow> task) \<Rightarrow> coro option" where
  "main keeps mal h m = schedule keeps mal (coro_init [Task0, Task0, Task1] main_args h m)"

section \<open>What each task prints\<close>

fun fib :: "nat \<Rightarrow> nat" where
  "fib 0 = 0"
| "fib (Suc 0) = 1"
| "fib (Suc (Suc n)) = fib n + fib (Suc n)"

definition line :: "task \<Rightarrow> event" where
  "line tk = (case code tk of Task0 \<Rightarrow> Fib (task_name tk) (ti tk) (int (fib (nat (ti tk)))) | Task1 \<Rightarrow> Number (task_name tk) (ti tk))"

function trace :: "task \<Rightarrow> event list" where
  "trace tk = (if ti tk < tn tk
     then line tk # Resumed (task_name tk) # trace (tk\<lparr>ti := ti tk + task_stride (code tk)\<rparr>)
     else [Complete (task_name tk)])"
  by auto
termination
  by (relation "measure (\<lambda>tk. nat (tn tk - ti tk))") (auto simp: task_stride_def split: task_fun.splits)

declare trace.simps [simp del]

lemma env_ti: "tk\<lparr>env := e, ti := x\<rparr> = tk\<lparr>ti := x, env := e\<rparr>"
  by simp

lemma trace_env [simp]: "trace (tk\<lparr>env := e\<rparr>) = trace tk"
proof (induction tk rule: trace.induct)
  case (1 tk)
  have "line (tk\<lparr>env := e\<rparr>) = line tk" by (simp add: line_def split: task_fun.split)
  with 1 show ?case by (subst (1 2) trace.simps) (simp add: env_ti)
qed

definition remaining :: "task \<Rightarrow> event list" where
  "remaining tk = (case env tk of
     Entry \<Rightarrow> trace tk
   | In_loop \<Rightarrow> Resumed (task_name tk) # trace (tk\<lparr>ti := ti tk + task_stride (code tk)\<rparr>))"

definition new_task :: "task_fun \<Rightarrow> arg \<Rightarrow> task" where
  "new_task f a = \<lparr>env = Entry, code = f, task_name = aname a, tn = an a, ti = ai a\<rparr>"

definition full_trace :: "task_fun \<Rightarrow> arg \<Rightarrow> event list" where
  "full_trace f a = Started (aname a) (an a) # trace (new_task f a)"

definition printed :: "coro \<Rightarrow> ptr \<Rightarrow> event list" where
  "printed s t = map snd (filter (\<lambda>e. fst e = t) (out s))"

lemma printed_print [simp]: "printed (print t e s) u = printed s u @ (if u = t then [e] else [])"
  by (simp add: printed_def print_def)

lemma print_fields [simp]:
  "links (print t e s) = links s" "mem (print t e s) = mem s" "tasks (print t e s) = tasks s"
  "args (print t e s) = args s" "ntasks (print t e s) = ntasks s" "next_i (print t e s) = next_i s"
  "cur_task (print t e s) = cur_task s" "control (print t e s) = control s"
  by (simp_all add: print_def)

section \<open>The Fibonacci routine\<close>

text \<open>The largest Fibonacci number that fits a \<open>long long\<close> is the one with index 92.\<close>

lemma fib_iter: "((\<lambda>(a, b). (b, a + b)) ^^ n) (0, 1) = (int (fib n), int (fib (Suc n)))"
  by (induction n) simp_all

lemma fib_mono: "m \<le> n \<Longrightarrow> fib m \<le> fib n"
proof (induction n rule: fib.induct)
  case (3 n)
  then show ?case by (cases "m = Suc (Suc n)") (auto simp: le_Suc_eq)
qed (auto simp: le_Suc_eq)

lemma fib_92: "int (fib 92) = 7540113804746346429" "int (fib 93) = 12200160415121876738"
proof -
  have "((\<lambda>(a, b). (b, a + b :: int)) ^^ 92) (0, 1) = (7540113804746346429, 12200160415121876738)" by code_simp
  moreover have "Suc 92 = 93" by simp
  ultimately show "int (fib 92) = 7540113804746346429" "int (fib 93) = 12200160415121876738" using fib_iter [of 92] by auto
qed

lemma fib_fits: "fits_long_long (int (fib n)) \<longleftrightarrow> n \<le> 92"
proof
  assume f: "fits_long_long (int (fib n))"
  show "n \<le> 92"
  proof (rule ccontr)
    assume "\<not> n \<le> 92"
    then have "int (fib 93) \<le> int (fib n)" using fib_mono [of 93 n] by simp
    then show False using f fib_92 by (simp add: fits_long_long_def)
  qed
next
  assume "n \<le> 92"
  then have "int (fib n) \<le> int (fib 92)" using fib_mono by simp
  then show "fits_long_long (int (fib n))" using fib_92 by (simp add: fits_long_long_def)
qed

lemma fib_fill_append: "fib_fill (ix @ jx) f = do { f \<leftarrow> fib_fill ix f; fib_fill jx f }"
  by (induction ix arbitrary: f) (auto split: bind_splits)

lemma fib_fill_step:
  assumes "length f = k + 2" "\<forall>i \<le> n. f ! i = int (fib i)" "0 < n" "n \<le> k"
  shows "fib_fill [Suc n] f = (if Suc n \<le> 92 then Some (f[Suc n := int (fib (Suc n))]) else None)"
proof -
  have "int (fib n) + int (fib (n - 1)) = int (fib (Suc n))" using assms(3) by (cases n) simp_all
  moreover have "n - 1 < k + 2" "n < k + 2" "Suc n < k + 2" using assms(4) by simp_all
  ultimately show ?thesis using assms(1,2) fib_fits [of "Suc n"] by (simp add: load_at_def store_at_def)
qed

lemma fib_fill_fib:
  assumes "n \<le> k" "0 < n" "n \<le> 92"
  shows "\<exists>f. fib_fill [2..<n + 1] ((replicate (k + 2) 0)[0 := 0, 1 := 1]) = Some f \<and> length f = k + 2 \<and> (\<forall>i \<le> n. f ! i = int (fib i))"
  using assms
proof (induction n)
  case (Suc n)
  show ?case
  proof (cases n)
    case 0
    then show ?thesis by (auto simp: le_Suc_eq)
  next
    case (Suc m)
    then obtain f where f: "fib_fill [2..<n + 1] ((replicate (k + 2) 0)[0 := 0, 1 := 1]) = Some f" "length f = k + 2"
        "\<forall>i \<le> n. f ! i = int (fib i)"
      using Suc.IH Suc.prems by auto
    have u: "[2..<Suc n + 1] = [2..<n + 1] @ [Suc n]" using Suc by simp
    show ?thesis unfolding u fib_fill_append using f fib_fill_step [OF f(2,3)] Suc Suc.prems
      by (auto simp: nth_list_update le_Suc_eq)
  qed
qed simp

text \<open>The routine is exact for the indices from 0 to 92, and undefined for all others.\<close>

lemma fib_sequence_fib: "fib_sequence k = (if 0 \<le> k \<and> k \<le> 92 then Some (int (fib (nat k))) else None)"
proof (cases "0 \<le> k")
  case True
  then obtain n where k: "k = int n" using zero_le_imp_eq_int by blast
  consider "n = 0" | "0 < n" "n \<le> 92" | "92 < n" by linarith
  then show ?thesis
  proof cases
    case 1
    then show ?thesis using k by (simp add: fib_sequence_def load_at_def)
  next
    case 2
    then obtain f where f: "fib_fill [2..<n + 1] ((replicate (n + 2) 0)[0 := 0, 1 := 1]) = Some f" "length f = n + 2"
        "\<forall>i \<le> n. f ! i = int (fib i)"
      using fib_fill_fib [of n n] by auto
    then have "load_at f n = Some (int (fib n))" by (simp add: load_at_def)
    then show ?thesis using f(1) k 2 unfolding fib_sequence_def by (simp only: nat_int) simp
  next
    case 3
    obtain f where f: "fib_fill [2..<92 + 1] ((replicate (n + 2) 0)[0 := 0, 1 := 1]) = Some f" "length f = n + 2"
        "\<forall>i \<le> 92. f ! i = int (fib i)"
      using fib_fill_fib [of 92 n] 3 by auto
    have "[2..<n + 1] = [2..<92 + 1] @ [93..<n + 1]" using 3 upt_add_eq_append [of 2 93 "n - 92"] by simp
    also have "[93..<n + 1] = [Suc 92] @ [94..<n + 1]" using 3 by (simp add: upt_conv_Cons)
    finally have u: "[2..<n + 1] = [2..<92 + 1] @ [Suc 92] @ [94..<n + 1]" .
    have "fib_fill [Suc 92] f = None" using fib_fill_step [OF f(2,3)] 3 by simp
    then have "fib_fill [2..<n + 1] ((replicate (n + 2) 0)[0 := 0, 1 := 1]) = None"
      unfolding u fib_fill_append f(1) by (simp only: Option.bind.simps)
    then show ?thesis using k 3 by (simp add: fib_sequence_def)
  qed
qed (simp add: fib_sequence_def)

section \<open>The invariant of the scheduler\<close>

text \<open>
  \<open>q\<close> is the ready queue and \<open>todo\<close> gives what each started task still has to print.
\<close>

definition arg_ok :: "task_fun \<Rightarrow> arg \<Rightarrow> bool" where
  "arg_ok f a \<longleftrightarrow> length (aname a) < 10 \<and> 0 \<le> ai a \<and> fits_int (ai a) \<and> fits_int (an a) \<and> (f = Task0 \<longrightarrow> an a \<le> 93)"

definition registered :: "(nat \<Rightarrow> ptr) \<Rightarrow> task_fun list \<Rightarrow> arg list \<Rightarrow> bool" where
  "registered mal fs as \<longleftrightarrow> length fs = length as \<and> length fs < 2 ^ 31 \<and> inj_on mal {..<length fs} \<and>
     tasklist \<notin> mal ` {..<length fs} \<and> NULL \<notin> mal ` {..<length fs} \<and> (\<forall>j < length fs. arg_ok (fs ! j) (as ! j))"

definition task_ok :: "task_fun \<Rightarrow> arg \<Rightarrow> task \<Rightarrow> bool" where
  "task_ok f a tk \<longleftrightarrow> code tk = f \<and> tn tk = an a \<and> 0 \<le> ti tk"

text \<open>A task that waits inside its loop has not reached its bound.\<close>

definition waits_ok :: "task \<Rightarrow> bool" where
  "waits_ok tk \<longleftrightarrow> (env tk = In_loop \<longrightarrow> ti tk < tn tk)"

definition sched_ok :: "(nat \<Rightarrow> ptr) \<Rightarrow> task_fun list \<Rightarrow> arg list \<Rightarrow> coro \<Rightarrow> ptr list \<Rightarrow> bool" where
  "sched_ok mal fs as s q \<longleftrightarrow> is_list (links s) tasklist q \<and> set q \<subseteq> mal ` {..<next_i s} \<and>
     (\<forall>t \<in> set q. waits_ok (mem s t)) \<and> tasks s = fs \<and> args s = as \<and> next_i s \<le> length fs \<and>
     (if ntasks s > 0 then int (next_i s) + ntasks s = int (length fs) else next_i s = length fs)"

definition todo_ok :: "(nat \<Rightarrow> ptr) \<Rightarrow> task_fun list \<Rightarrow> arg list \<Rightarrow> coro \<Rightarrow> (ptr \<Rightarrow> event list) \<Rightarrow> bool" where
  "todo_ok mal fs as s todo \<longleftrightarrow> (\<forall>j < length fs.
     if j < next_i s
     then printed s (mal j) @ todo (mal j) = full_trace (fs ! j) (as ! j) \<and> task_ok (fs ! j) (as ! j) (mem s (mal j))
     else printed s (mal j) = [])"

definition ready :: "ptr list \<Rightarrow> coro \<Rightarrow> ptr \<Rightarrow> event list" where
  "ready q s t = (if t \<in> set q then remaining (mem s t) else [])"

text \<open>After the tasks are started, \<open>ntasks\<close> goes down once for every task that leaves the queue for good.\<close>

definition count_ok :: "coro \<Rightarrow> ptr list \<Rightarrow> bool" where
  "count_ok s q \<longleftrightarrow> (ntasks s \<le> 0 \<longrightarrow> int (length q) - ntasks s \<le> int (next_i s))"

definition coro_inv :: "(nat \<Rightarrow> ptr) \<Rightarrow> task_fun list \<Rightarrow> arg list \<Rightarrow> coro \<Rightarrow> bool" where
  "coro_inv mal fs as s \<longleftrightarrow> (\<exists>q. sched_ok mal fs as s q \<and> count_ok s q \<and>
     (case control s of
        Sched \<Rightarrow> todo_ok mal fs as s (ready q s)
      | Resume \<Rightarrow> todo_ok mal fs as s (ready (cur_task s # q) s) \<and>
          cur_task s \<in> mal ` {..<next_i s} \<and> cur_task s \<notin> set q \<and> waits_ok (mem s (cur_task s))))"

definition left :: "(nat \<Rightarrow> ptr) \<Rightarrow> task_fun list \<Rightarrow> arg list \<Rightarrow> coro \<Rightarrow> nat" where
  "left mal fs as s = (\<Sum>j < length fs. length (full_trace (fs ! j) (as ! j)) - length (printed s (mal j)))"

lemma switch_ok:
  assumes "sched_ok mal fs as s (t # q)" "todo_ok mal fs as s (ready (t # q) s)" "control s' = Resume"
    "links s' = list_del t (links s)" "cur_task s' = t" "mem s' = mem s" "tasks s' = tasks s" "args s' = args s"
    "next_i s' = next_i s" "out s' = out s" "ntasks s' = ntasks s \<or> ntasks s \<le> 0 \<and> ntasks s' = ntasks s - 1"
    "count_ok s' q"
  shows "coro_inv mal fs as s'"
proof -
  have l: "is_list (links s) tasklist ([] @ t # q)" using assms(1) by (simp add: sched_ok_def)
  have "is_list (links s') tasklist q" using del_list [OF l] assms(4) by simp
  then have "sched_ok mal fs as s' q" using assms(1,5-) by (auto simp: sched_ok_def split: if_splits)
  moreover have "t \<notin> set q" using l by (simp add: is_list_def)
  moreover have "todo_ok mal fs as s' (ready (t # q) s')"
  proof -
    have "printed s' = printed s" "ready (t # q) s' = ready (t # q) s"
      using assms(6,10) by (auto simp: printed_def ready_def)
    then show ?thesis using assms(2,6,9) by (simp add: todo_ok_def)
  qed
  moreover have "t \<in> mal ` {..<next_i s'}" "waits_ok (mem s' t)" using assms(1,5-) by (auto simp: sched_ok_def)
  ultimately show ?thesis using assms(3,5,12) by (auto simp: coro_inv_def)
qed

lemma queue_length:
  assumes "sched_ok mal fs as s q"
  shows "length q \<le> next_i s"
proof -
  have "length q = card (set q)" using assms by (simp add: sched_ok_def is_list_def distinct_card)
  also have "\<dots> \<le> card (mal ` {..<next_i s})" using assms by (intro card_mono) (auto simp: sched_ok_def)
  also have "\<dots> \<le> next_i s" using card_image_le [of "{..<next_i s}" mal] by simp
  finally show ?thesis .
qed

lemma task_switch_first:
  assumes "is_list (links s) tasklist (t # q)"
  shows "task_switch keeps s =
    (if keeps then Some (Some (s\<lparr>links := list_del t (links s), cur_task := t, control := Resume\<rparr>)) else None)"
proof -
  have "nxt (links s) tasklist = t" "\<not> list_empty tasklist (links s)"
    using assms is_list_empty [OF assms] by (simp_all add: is_list_def)
  then show ?thesis by (simp add: task_switch_def list_first_entry_def Let_def)
qed

lemma left_less:
  assumes "j < length fs" "length (printed s (mal j)) < length (printed s' (mal j))"
    "length (printed s' (mal j)) \<le> length (full_trace (fs ! j) (as ! j))"
    "\<And>i. i < length fs \<Longrightarrow> i \<noteq> j \<Longrightarrow> printed s' (mal i) = printed s (mal i)"
  shows "left mal fs as s' < left mal fs as s"
  unfolding left_def
proof (rule sum_strict_mono_ex1)
  let ?f = "\<lambda>s j. length (full_trace (fs ! j) (as ! j)) - length (printed s (mal j))"
  have j: "?f s' j < ?f s j" using assms(2,3) by simp
  then show "\<exists>i \<in> {..<length fs}. ?f s' i < ?f s i" using assms(1) by blast
  show "\<forall>i \<in> {..<length fs}. ?f s' i \<le> ?f s i"
  proof
    fix i assume "i \<in> {..<length fs}"
    then show "?f s' i \<le> ?f s i" using j assms(4) [of i] by (cases "i = j") simp_all
  qed
qed simp

lemma mal_eq:
  "registered mal fs as \<Longrightarrow> i < length fs \<Longrightarrow> j < length fs \<Longrightarrow> mal i = mal j \<longleftrightarrow> i = j"
  by (auto simp: registered_def dest: inj_onD)

lemma mal_head: "registered mal fs as \<Longrightarrow> i < length fs \<Longrightarrow> mal i \<noteq> tasklist"
  unfolding registered_def by (metis imageI lessThan_iff)

lemma body_ok:
  assumes "task_ok f a tk" "arg_ok f a" "ti tk < tn tk"
  shows "task_body tk = Some (line tk)"
  using assms fib_sequence_fib [of "ti tk"]
  by (auto simp: task_body_def task0_body_def task1_body_def line_def task_ok_def arg_ok_def split: task_fun.split)

lemma body_env [simp]: "task_body (tk\<lparr>env := e\<rparr>) = task_body tk"
  by (simp add: task_body_def task0_body_def task1_body_def split: task_fun.split)

lemma add_ok:
  assumes reg: "registered mal fs as" and ok: "sched_ok mal fs as s q" and t: "t \<in> mal ` {..<next_i s}" "t \<notin> set q"
    and w: "waits_ok (mem s t)"
  shows "sched_ok mal fs as (task_add t s) (q @ [t])"
proof -
  obtain x where "t = mal x" "x < length fs" using t(1) ok by (auto simp: sched_ok_def)
  then have "t \<noteq> tasklist" using mal_head [OF reg] by simp
  then have "is_list (list_add_tail t tasklist (links s)) tasklist (q @ [t])"
    using ok t(2) by (intro add_tail_list) (auto simp: sched_ok_def)
  then show ?thesis using ok t w by (auto simp: sched_ok_def task_add_def)
qed

lemma task_loop_ok:
  assumes reg: "registered mal fs as" and ok: "sched_ok mal fs as s q"
    and co: "count_ok s q" and j: "j < next_i s" "mal j \<notin> set q"
    and todo: "todo_ok mal fs as s ((ready q s)(mal j := trace (mem s (mal j))))"
  shows "\<exists>s'. task_loop True (mal j) s = Some s' \<and> coro_inv mal fs as s' \<and> left mal fs as s' < left mal fs as s"
proof -
  let ?t = "mal j" and ?tk = "mem s (mal j)"
  have jl: "j < length fs" using j(1) ok by (simp add: sched_ok_def)
  have full: "printed s ?t @ trace ?tk = full_trace (fs ! j) (as ! j)" and pos: "task_ok (fs ! j) (as ! j) ?tk"
    using todo j(1) jl by (auto simp: todo_ok_def)
  have arg: "arg_ok (fs ! j) (as ! j)" using reg jl by (simp add: registered_def)
  note other = mal_eq [OF reg _ jl] and at = todo [unfolded todo_ok_def, rule_format]
  have less: "left mal fs as s' < left mal fs as s"
    if "printed s' = (\<lambda>u. printed s u @ (if u = ?t then [e] else []))" "trace ?tk = e # es" for s' e es
    by (rule left_less [of j]) (use that full [symmetric] jl other in auto)
  show ?thesis
  proof (cases "ti ?tk < tn ?tk")
    case False
    define s' where "s' = (print ?t (Complete (task_name ?tk)) s)\<lparr>control := Sched\<rparr>"
    have tr: "trace ?tk = [Complete (task_name ?tk)]" using False by (subst trace.simps) simp
    have p: "printed s' = (\<lambda>u. printed s u @ (if u = ?t then [Complete (task_name ?tk)] else []))"
      by (auto simp: s'_def printed_def print_def)
    have "sched_ok mal fs as s' q" using ok by (simp add: s'_def sched_ok_def)
    moreover have "todo_ok mal fs as s' (ready q s')"
      unfolding todo_ok_def p
    proof (intro allI impI)
      fix i assume i: "i < length fs"
      show "if i < next_i s'
        then (printed s (mal i) @ (if mal i = ?t then [Complete (task_name ?tk)] else [])) @ ready q s' (mal i) =
            full_trace (fs ! i) (as ! i) \<and> task_ok (fs ! i) (as ! i) (mem s' (mal i))
        else printed s (mal i) @ (if mal i = ?t then [Complete (task_name ?tk)] else []) = []"
      proof (cases "i = j")
        case True
        then show ?thesis using full tr pos j by (simp add: ready_def s'_def)
      next
        case False
        then have "mal i \<noteq> ?t" using other i by simp
        then show ?thesis using at [OF i] by (auto simp: ready_def s'_def)
      qed
    qed
    moreover have "count_ok s' q" using co by (simp add: count_ok_def s'_def)
    ultimately have "coro_inv mal fs as s'" by (auto simp: coro_inv_def s'_def)
    then show ?thesis using False less [OF p tr] by (simp add: task_loop_def s'_def Let_def)
  next
    case True
    define e where "e = line ?tk"
    have be: "task_body ?tk = Some e" using body_ok [OF pos arg True] by (simp add: e_def)
    define s1 where "s1 = print ?t e (s\<lparr>mem := (mem s)(?t := ?tk\<lparr>env := In_loop\<rparr>)\<rparr>)"
    let ?next = "?tk\<lparr>ti := ti ?tk + task_stride (code ?tk)\<rparr>"
    have tr: "trace ?tk = e # Resumed (task_name ?tk) # trace ?next"
      using True by (subst trace.simps) (simp add: e_def)
    have m1: "mem s1 = (mem s)(?t := ?tk\<lparr>env := In_loop\<rparr>)" by (simp add: s1_def)
    have p: "printed s1 = (\<lambda>u. printed s u @ (if u = ?t then [e] else []))"
      by (auto simp: s1_def printed_def print_def)
    have rem: "remaining (?tk\<lparr>env := In_loop\<rparr>) = Resumed (task_name ?tk) # trace ?next"
      by (simp add: remaining_def env_ti)
    have f: "next_i s1 = next_i s" by (simp add: s1_def)
    have "sched_ok mal fs as s1 q" using ok j(2) by (auto simp: s1_def sched_ok_def)
    moreover have "waits_ok (mem s1 ?t)" using True by (simp add: waits_ok_def m1)
    ultimately have ok1: "sched_ok mal fs as (task_add ?t s1) (q @ [?t])" using add_ok [OF reg] j f by auto
    have "todo_ok mal fs as s1 (ready (q @ [?t]) s1)"
      unfolding todo_ok_def p f
    proof (intro allI impI)
      fix i assume i: "i < length fs"
      show "if i < next_i s
        then (printed s (mal i) @ (if mal i = ?t then [e] else [])) @ ready (q @ [?t]) s1 (mal i) = full_trace (fs ! i) (as ! i) \<and>
          task_ok (fs ! i) (as ! i) (mem s1 (mal i))
        else printed s (mal i) @ (if mal i = ?t then [e] else []) = []"
      proof (cases "i = j")
        case True
        then show ?thesis using full tr rem pos j(1) \<open>ti ?tk < tn ?tk\<close> by (simp add: ready_def m1 task_ok_def)
      next
        case False
        then have "mal i \<noteq> ?t" using other i by simp
        then show ?thesis using at [OF i] by (auto simp: ready_def m1)
      qed
    qed
    then have todo1: "todo_ok mal fs as (task_add ?t s1) (ready (q @ [?t]) (task_add ?t s1))"
    proof -
      have "printed (task_add ?t s1) = printed s1" "ready (q @ [?t]) (task_add ?t s1) = ready (q @ [?t]) s1"
        "next_i (task_add ?t s1) = next_i s1" "mem (task_add ?t s1) = mem s1"
        by (auto simp: printed_def ready_def task_add_def)
      then show ?thesis using \<open>todo_ok mal fs as s1 _\<close> unfolding todo_ok_def by simp
    qed
    obtain x q' where xq: "q @ [?t] = x # q'" by (cases q) auto
    define s2 where "s2 = (task_add ?t s1)\<lparr>links := list_del x (links (task_add ?t s1)), cur_task := x, control := Resume\<rparr>"
    have "task_switch True (task_add ?t s1) = Some (Some s2)"
      unfolding s2_def using ok1 xq by (subst task_switch_first [of _ x q']) (simp_all add: sched_ok_def)
    then have "task_loop True ?t s = Some s2"
      using True be by (simp add: task_loop_def s1_def Let_def)
    moreover have "coro_inv mal fs as s2"
    proof (rule switch_ok [OF ok1 [unfolded xq] todo1 [unfolded xq]])
      have "length q' = length q" using arg_cong [OF xq, of length] by simp
      then show "count_ok s2 q'" using co by (simp add: count_ok_def s2_def s1_def task_add_def)
    qed (simp_all add: s2_def)
    moreover have "printed s2 = (\<lambda>u. printed s u @ (if u = ?t then [e] else []))"
    proof -
      have "printed s2 = printed s1" by (simp add: s2_def printed_def task_add_def fun_eq_iff)
      then show ?thesis by (simp add: p)
    qed
    ultimately show ?thesis using less [OF _ tr] by blast
  qed
qed

lemma resume_ok:
  assumes reg: "registered mal fs as" and inv: "coro_inv mal fs as s" and c: "control s = Resume"
  shows "\<exists>s'. task_resume True s = Some s' \<and> coro_inv mal fs as s' \<and> left mal fs as s' < left mal fs as s"
proof -
  obtain q where ok: "sched_ok mal fs as s q" and co: "count_ok s q" and todo: "todo_ok mal fs as s (ready (cur_task s # q) s)"
    and cur: "cur_task s \<in> mal ` {..<next_i s}" "cur_task s \<notin> set q" "waits_ok (mem s (cur_task s))"
    using inv c by (auto simp: coro_inv_def)
  obtain j where j: "cur_task s = mal j" "j < next_i s" "mal j \<notin> set q" using cur by auto
  have jl: "j < length fs" using j(2) ok by (simp add: sched_ok_def)
  note at = todo [unfolded todo_ok_def, rule_format]
  show ?thesis
  proof (cases "env (mem s (mal j))")
    case Entry
    have "ready (cur_task s # q) s = (ready q s)(mal j := trace (mem s (mal j)))"
      using j Entry by (auto simp: ready_def remaining_def)
    then show ?thesis using task_loop_ok [OF reg ok co j(2,3)] todo Entry j(1) by (simp add: task_resume_def)
  next
    case In_loop
    let ?t = "mal j"
    let ?tk = "mem s ?t"
    define s1 where "s1 = (print ?t (Resumed (task_name ?tk)) s)\<lparr>mem := (mem s)(?t := ?tk\<lparr>ti := ti ?tk + task_stride (code ?tk)\<rparr>)\<rparr>"
    have p: "printed s1 = (\<lambda>u. printed s u @ (if u = ?t then [Resumed (task_name ?tk)] else []))"
      by (auto simp: s1_def printed_def print_def)
    have f: "next_i s1 = next_i s" "mem s1 = (mem s)(?t := ?tk\<lparr>ti := ti ?tk + task_stride (code ?tk)\<rparr>)"
      by (simp_all add: s1_def)
    have ok1: "sched_ok mal fs as s1 q" using ok j(3) by (auto simp: s1_def sched_ok_def)
    have co1: "count_ok s1 q" using co by (simp add: s1_def count_ok_def)
    have st: "0 \<le> task_stride c" for c by (simp add: task_stride_def split: task_fun.split)
    have arg: "arg_ok (fs ! j) (as ! j)" using reg jl by (simp add: registered_def)
    have full: "printed s ?t @ Resumed (task_name ?tk) # trace (?tk\<lparr>ti := ti ?tk + task_stride (code ?tk)\<rparr>) =
        full_trace (fs ! j) (as ! j)" and pos: "task_ok (fs ! j) (as ! j) ?tk"
      using at [OF jl] j In_loop by (auto simp: ready_def remaining_def)
    have fit: "fits_int (ti ?tk + task_stride (code ?tk))"
      using pos arg In_loop cur(3) j(1)
      by (auto simp: task_ok_def arg_ok_def waits_ok_def fits_int_def task_stride_def split: task_fun.split)
    have "todo_ok mal fs as s1 ((ready q s1)(?t := trace (mem s1 ?t)))"
      unfolding todo_ok_def p f(1)
    proof (intro allI impI)
      fix i assume i: "i < length fs"
      show "if i < next_i s
        then (printed s (mal i) @ (if mal i = ?t then [Resumed (task_name ?tk)] else [])) @
            ((ready q s1)(?t := trace (mem s1 ?t))) (mal i) = full_trace (fs ! i) (as ! i) \<and> task_ok (fs ! i) (as ! i) (mem s1 (mal i))
        else printed s (mal i) @ (if mal i = ?t then [Resumed (task_name ?tk)] else []) = []"
      proof (cases "i = j")
        case True
        then show ?thesis using full pos st j(2) by (simp add: f task_ok_def)
      next
        case False
        then have "mal i \<noteq> ?t" using mal_eq [OF reg i jl] by simp
        then show ?thesis using at [OF i] j(1) by (auto simp: ready_def f)
      qed
    qed
    from task_loop_ok [OF reg ok1 co1 _ j(3) this] obtain s' where s': "task_loop True ?t s1 = Some s'" "coro_inv mal fs as s'"
      "left mal fs as s' < left mal fs as s1" using j(2) f(1) by auto
    moreover have "left mal fs as s1 < left mal fs as s"
      by (rule left_less [OF jl]) (use full [symmetric] mal_eq [OF reg _ jl] in \<open>auto simp: p\<close>)
    moreover have "task_resume True s = task_loop True ?t s1"
      using In_loop j(1) fit by (simp add: task_resume_def s1_def Let_def)
    ultimately show ?thesis by auto
  qed
qed

lemma start_ok:
  assumes reg: "registered mal fs as" and inv: "coro_inv mal fs as s" and c: "control s = Sched" and n: "ntasks s > 0"
  shows "\<exists>s'. schedule_step keeps mal s = Some (Inl s') \<and> coro_inv mal fs as s' \<and> control s' = Sched \<and>
    ntasks s' = ntasks s - 1 \<and> \<not> list_empty tasklist (links s') \<and> left mal fs as s' < left mal fs as s"
proof -
  obtain q where ok: "sched_ok mal fs as s q" and co: "count_ok s q" and todo: "todo_ok mal fs as s (ready q s)"
    using inv c by (auto simp: coro_inv_def)
  let ?k = "next_i s"
  let ?t = "mal ?k" and ?f = "fs ! ?k" and ?a = "as ! ?k"
  have k: "?k < length fs" "?k < length as" using ok n reg by (auto simp: sched_ok_def registered_def)
  have a: "length (aname ?a) < 10" "0 \<le> ai ?a" using reg k(1) by (auto simp: registered_def arg_ok_def)
  have nn: "?t \<noteq> NULL" using reg k(1) unfolding registered_def by (metis imageI lessThan_iff)
  have fit: "fits_int (ntasks s - 1)" using ok n reg by (auto simp: sched_ok_def registered_def fits_int_def split: if_splits)
  define s1 where "s1 = print ?t (Started (aname ?a) (an ?a)) (s\<lparr>ntasks := ntasks s - 1, next_i := ?k + 1,
    mem := (mem s)(?t := new_task ?f ?a), links := INIT_LIST_HEAD ?t (links s)\<rparr>)"
  define s2 where "s2 = (task_add ?t s1)\<lparr>control := Sched\<rparr>"
  have run: "schedule_step keeps mal s = Some (Inl s2)"
    using n k a ok nn fit by (simp add: schedule_step_def sched_ok_def task_start_def s1_def s2_def new_task_def Let_def)
  have tq: "?t \<notin> set q"
  proof
    assume "?t \<in> set q"
    then obtain i where "i < ?k" "?t = mal i" using ok by (auto simp: sched_ok_def)
    then show False using mal_eq [OF reg, of i ?k] k by simp
  qed
  have "is_list (links s) tasklist q" using ok by (simp add: sched_ok_def)
  moreover have "?t \<noteq> tasklist" by (rule mal_head [OF reg k(1)])
  ultimately have "is_list (links s1) tasklist q"
    using tq unfolding is_list_def s1_def
    by (auto simp: INIT_LIST_HEAD_def Let_def)
  then have "sched_ok mal fs as s1 q" using ok n k tq by (auto simp: sched_ok_def s1_def)
  then have "sched_ok mal fs as (task_add ?t s1) (q @ [?t])"
    by (rule add_ok [OF reg]) (use tq in \<open>auto simp: s1_def waits_ok_def new_task_def\<close>)
  then have ok2: "sched_ok mal fs as s2 (q @ [?t])" by (simp add: sched_ok_def s2_def)
  have p: "printed s2 = (\<lambda>u. printed s u @ (if u = ?t then [Started (aname ?a) (an ?a)] else []))"
    by (auto simp: s1_def s2_def printed_def print_def task_add_def)
  have f: "next_i s2 = Suc ?k" "mem s2 = (mem s)(?t := new_task ?f ?a)" by (simp_all add: s1_def s2_def task_add_def)
  note at = todo [unfolded todo_ok_def, rule_format]
  have old: "printed s ?t = []" using at [OF k(1)] by simp
  have "todo_ok mal fs as s2 (ready (q @ [?t]) s2)"
    unfolding todo_ok_def p f(1)
  proof (intro allI impI)
    fix i assume i: "i < length fs"
    show "if i < Suc ?k
      then (printed s (mal i) @ (if mal i = ?t then [Started (aname ?a) (an ?a)] else [])) @
          ready (q @ [?t]) s2 (mal i) = full_trace (fs ! i) (as ! i) \<and> task_ok (fs ! i) (as ! i) (mem s2 (mal i))
      else printed s (mal i) @ (if mal i = ?t then [Started (aname ?a) (an ?a)] else []) = []"
    proof (cases "i = ?k")
      case True
      then show ?thesis using old a by (simp add: f ready_def remaining_def full_trace_def new_task_def task_ok_def)
    next
      case False
      then have "mal i \<noteq> ?t" using mal_eq [OF reg i k(1)] by simp
      then show ?thesis using at [OF i] False by (auto simp: ready_def f)
    qed
  qed
  moreover have "count_ok s2 (q @ [?t])"
    using queue_length [OF ok] n by (auto simp: count_ok_def s2_def s1_def task_add_def)
  ultimately have "coro_inv mal fs as s2" using ok2 by (auto simp: coro_inv_def s2_def)
  moreover have "\<not> list_empty tasklist (links s2)"
    using ok2 is_list_empty [of "links s2" tasklist "q @ [?t]"] by (simp add: sched_ok_def)
  moreover have "ntasks s2 = ntasks s - 1" by (simp add: s2_def s1_def task_add_def)
  moreover have "left mal fs as s2 < left mal fs as s"
    by (rule left_less [OF k(1)]) (use old mal_eq [OF reg _ k(1)] in \<open>auto simp: p full_trace_def\<close>)
  ultimately show ?thesis using run by (auto simp: s2_def)
qed

text \<open>One round of the whole program makes progress, or ends with every task complete.\<close>

lemma coro_step_ok:
  assumes reg: "registered mal fs as" and inv: "coro_inv mal fs as s"
  shows "(\<exists>s'. coro_step True mal s = Some (Inr s') \<and>
      (\<forall>j < length fs. printed s' (mal j) = full_trace (fs ! j) (as ! j))) \<or>
    (\<exists>s'. coro_step True mal s = Some (Inl s') \<and> coro_inv mal fs as s' \<and>
      2 * left mal fs as s' + (if control s' = Sched then 1 else 0) <
      2 * left mal fs as s + (if control s = Sched then 1 else 0))"
proof (cases "control s")
  case Resume
  then show ?thesis using resume_ok [OF reg inv Resume] by (auto simp: coro_step_def)
next
  case Sched
  show ?thesis
  proof (cases "ntasks s > 0")
    case True
    then show ?thesis using start_ok [OF reg inv Sched True] Sched by (auto simp: coro_step_def)
  next
    case False
    obtain q where ok: "sched_ok mal fs as s q" and co: "count_ok s q" and todo: "todo_ok mal fs as s (ready q s)"
      using inv Sched by (auto simp: coro_inv_def)
    have fit: "fits_int (ntasks s - 1)"
      using ok co False reg by (auto simp: sched_ok_def count_ok_def registered_def fits_int_def)
    let ?s = "s\<lparr>ntasks := ntasks s - 1\<rparr>"
    have all: "next_i s = length fs" using ok False by (simp add: sched_ok_def)
    show ?thesis
    proof (cases q)
      case Nil
      then have "list_empty tasklist (links s)" using ok is_list_empty by (auto simp: sched_ok_def)
      then have "coro_step True mal s = Some (Inr ?s)"
        using Sched False fit by (simp add: coro_step_def schedule_step_def task_switch_def Let_def)
      moreover have "printed ?s = printed s" by (simp add: printed_def fun_eq_iff)
      ultimately show ?thesis using todo Nil all by (simp add: todo_ok_def ready_def)
    next
      case (Cons t q')
      define s' where "s' = ?s\<lparr>links := list_del t (links ?s), cur_task := t, control := Resume\<rparr>"
      have "task_switch True ?s = Some (Some s')"
        unfolding s'_def using ok Cons by (subst task_switch_first [of _ t q']) (simp_all add: sched_ok_def)
      then have "coro_step True mal s = Some (Inl s')"
        using Sched False fit by (simp add: coro_step_def schedule_step_def Let_def)
      moreover have "coro_inv mal fs as s'"
        by (rule switch_ok [OF ok [unfolded Cons] todo [unfolded Cons]]) (use False co Cons in \<open>simp_all add: s'_def count_ok_def\<close>)
      moreover have "left mal fs as s' = left mal fs as s" by (simp add: left_def printed_def s'_def)
      moreover have "control s' = Resume" by (simp add: s'_def)
      ultimately show ?thesis using Sched by auto
    qed
  qed
qed

lemma coro_init_inv: "length fs = length as \<Longrightarrow> coro_inv mal fs as (coro_init fs as h m)"
  using init_list [of tasklist h]
  by (auto simp: coro_inv_def coro_init_def sched_ok_def todo_ok_def printed_def count_ok_def intro!: exI [of _ "[]"])

text \<open>Where an abandoned jump buffer is unusable, the first switch is undefined.\<close>

lemma schedule_undefined:
  assumes reg: "registered mal fs as"
  shows "coro_inv mal fs as s \<Longrightarrow> control s = Sched \<Longrightarrow> ntasks s > 0 \<or> \<not> list_empty tasklist (links s) \<Longrightarrow>
    loop (coro_step False mal) s = None"
proof (induction "nat (ntasks s)" arbitrary: s rule: less_induct)
  case less
  show ?case
  proof (cases "ntasks s > 0")
    case True
    from start_ok [OF reg less.prems(1,2) True, of False] obtain s' where s': "schedule_step False mal s = Some (Inl s')"
      "coro_inv mal fs as s'" "control s' = Sched" "ntasks s' = ntasks s - 1" "\<not> list_empty tasklist (links s')" by blast
    then have "loop (coro_step False mal) s' = None" using less.hyps [of s'] True by simp
    then show ?thesis using s'(1) less.prems(2) by (simp add: coro_step_def loop_next)
  next
    case False
    then show ?thesis using less.prems by (simp add: coro_step_def schedule_step_def task_switch_def Let_def)
  qed
qed

section \<open>Properties\<close>

text \<open>
  C29: Every task completes. Let the tasks be registered with start indices that are not negative, names
  that fit and, for \<open>task0\<close>, bounds up to 93 (its Fibonacci numbers fit 64 bits), all in the range of
  \<open>int\<close>, fewer than \<open>2 ^ 31\<close> of them, with distinct successful \<open>malloc\<close> results. On a platform that keeps
  the jump buffer of a function already left usable, the scheduler returns without
  an overflow, and what each task has printed is exactly its own run: its start, every index from its
  start index up to its bound in steps of its stride (each followed by a resumption), \<open>task0\<close> with the
  Fibonacci number of the index, and its completion, in this order. On any other platform the program
  is undefined as soon as there is a task.
\<close>

theorem schedule_completes:
  assumes "registered mal fs as"
  shows "(\<exists>s. schedule True mal (coro_init fs as h m) = Some s \<and>
      (\<forall>j < length fs. printed s (mal j) = full_trace (fs ! j) (as ! j))) \<and>
    (fs \<noteq> [] \<longrightarrow> schedule False mal (coro_init fs as h m) = None)"
proof
  have i: "coro_inv mal fs as (coro_init fs as h m)"
    using assms by (intro coro_init_inv) (simp add: registered_def)
  then show "\<exists>s. schedule True mal (coro_init fs as h m) = Some s \<and>
      (\<forall>j < length fs. printed s (mal j) = full_trace (fs ! j) (as ! j))"
    unfolding schedule_def by (rule loop_total) (rule coro_step_ok [OF assms])
  show "fs \<noteq> [] \<longrightarrow> schedule False mal (coro_init fs as h m) = None"
    using schedule_undefined [OF assms i] by (simp add: schedule_def coro_init_def)
qed

lemma main_registered: "registered (\<lambda>k. k + 2) [Task0, Task0, Task1] main_args"
  by (auto simp: registered_def main_args_def inj_on_def arg_ok_def fits_int_def nth_Cons' image_def)

theorem schedule_completes_witness:
  "(\<exists>s. main True (\<lambda>k. k + 2) \<lparr>prev = \<lambda>_. 0, nxt = \<lambda>_. 0\<rparr> (\<lambda>_. new_task Task0 (hd main_args)) = Some s \<and>
    printed s 4 = full_trace Task1 \<lparr>an = 70, ai = 0, aname = ''Task 2''\<rparr>) \<and>
   main False (\<lambda>k. k + 2) \<lparr>prev = \<lambda>_. 0, nxt = \<lambda>_. 0\<rparr> (\<lambda>_. new_task Task0 (hd main_args)) = None"
proof -
  note r = schedule_completes [OF main_registered, of "\<lparr>prev = \<lambda>_. 0, nxt = \<lambda>_. 0\<rparr>" "\<lambda>_. new_task Task0 (hd main_args)"]
  obtain s where s: "main True (\<lambda>k. k + 2) \<lparr>prev = \<lambda>_. 0, nxt = \<lambda>_. 0\<rparr> (\<lambda>_. new_task Task0 (hd main_args)) = Some s"
    and p: "\<And>j. j < 3 \<Longrightarrow> printed s (j + 2) = full_trace ([Task0, Task0, Task1] ! j) (main_args ! j)"
    using r unfolding main_def by auto
  have "printed s 4 = full_trace Task1 \<lparr>an = 70, ai = 0, aname = ''Task 2''\<rparr>"
    using p [of 2] by (simp add: main_args_def)
  then show ?thesis using s r by (simp add: main_def)
qed

end
