(* ===== verification/Redirect.thy ===== *)
theory Redirect
  imports Prelude
begin

text \<open>
  The event library and the copy-stdin program of \<^verbatim>\<open>redirect/main.c\<close>. Watchers and contexts live in
  heaps. The kernel is a parameter: \<open>sys h c\<close> is the answer to the call \<open>c\<close> after the calls \<open>h\<close>
  (latest first), so nothing is assumed about it except where a theorem says so. A callback is a
  number (0 is null) whose code is a parameter too; the program's own is \<open>process_stdin\<close>. The two
  timer functions that call each other carry fuel, and three levels are shown to be enough.

  The theorems: starting and stopping a watcher keep the list of watchers well linked and in step with
  the watchers' flags, except for the one that \<open>start\<close> itself marked with -1 for a redirected file, which
  stop leaves on the list and a second start links into a cycle; \<open>EV_FOREACH\<close> never visits the last watcher, and therefore the program
  never reads a redirected file; time conversion is exact.
\<close>

section \<open>State\<close>

datatype ev_type = EV_IO_TYPE | EV_TIMER_TYPE

record ev =
  nxt :: ptr
  prv :: ptr
  active :: int
  events :: u32
  cb :: nat
  arg :: ptr
  timeout :: int
  period :: int
  wtype :: ev_type
  wfd :: int
  wctx :: ptr

record ev_ctx =
  running :: bool
  cfd :: int
  watchers :: ptr
  workaround :: bool

record timespec =
  tv_sec :: int
  tv_nsec :: int

datatype syscall =
    Epoll_create
  | Epoll_add int int u32 ptr
  | Epoll_mod int int u32 ptr
  | Epoll_del int int
  | Epoll_wait int int
  | Timerfd_create
  | Timerfd_settime int timespec timespec
  | Select int
  | Fionread
  | Read int
  | Write int "u8 list"
  | Close int

record answer =
  ret :: int
  err :: int
  ready :: "(ptr \<times> u32) list"
  bytes :: "u8 list"
  nread :: int

record world =
  evs :: "ptr \<Rightarrow> ev"
  ctxs :: "ptr \<Rightarrow> ev_ctx"
  errno :: int
  calls :: "syscall list"

type_synonym kernel = "syscall list \<Rightarrow> syscall \<Rightarrow> answer"

definition EV_READ :: u32 where "EV_READ = 0x001"
definition EV_PRI :: u32 where "EV_PRI = 0x002"
definition EV_WRITE :: u32 where "EV_WRITE = 0x004"
definition EV_ERROR :: u32 where "EV_ERROR = 0x008"
definition EV_HUP :: u32 where "EV_HUP = 0x010"
definition EV_RDHUP :: u32 where "EV_RDHUP = 0x2000"
definition EV_ONESHOT :: u32 where "EV_ONESHOT = 0x40000000"
definition EV_EDGE :: u32 where "EV_EDGE = 0x80000000"
definition EV_EVENT_MASK :: u32 where
  "EV_EVENT_MASK = EV_ERROR OR EV_READ OR EV_WRITE OR EV_PRI OR EV_RDHUP OR EV_HUP OR EV_EDGE OR EV_ONESHOT"
definition EV_ONCE :: u32 where "EV_ONCE = 1"
definition EV_NONBLOCK :: u32 where "EV_NONBLOCK = 2"
definition EPERM :: int where "EPERM = 1"
definition EINTR :: int where "EINTR = 4"
definition EINVAL :: int where "EINVAL = 22"
definition ERANGE :: int where "ERANGE = 34"

definition upd_ev :: "ptr \<Rightarrow> (ev \<Rightarrow> ev) \<Rightarrow> world \<Rightarrow> world" where
  "upd_ev w f s = s\<lparr>evs := (evs s)(w := f (evs s w))\<rparr>"

definition upd_ctx :: "ptr \<Rightarrow> (ev_ctx \<Rightarrow> ev_ctx) \<Rightarrow> world \<Rightarrow> world" where
  "upd_ctx c f s = s\<lparr>ctxs := (ctxs s)(c := f (ctxs s c))\<rparr>"

definition fail :: "int \<Rightarrow> world \<Rightarrow> int \<times> world" where
  "fail e s = (-1, s\<lparr>errno := e\<rparr>)"

definition do_sys :: "kernel \<Rightarrow> syscall \<Rightarrow> world \<Rightarrow> answer \<times> world" where
  "do_sys sys c s =
     (let r = sys (calls s) c in
      (r, s\<lparr>calls := c # calls s, errno := (if ret r < 0 then err r else errno s)\<rparr>))"

section \<open>The list of watchers\<close>

definition EV_INSERT :: "ptr \<Rightarrow> ptr \<Rightarrow> world \<Rightarrow> world" where
  "EV_INSERT node c s =
     (let next = watchers (ctxs s c);
          s = upd_ctx c (\<lambda>x. x\<lparr>watchers := node\<rparr>) s;
          s = (if next \<noteq> NULL then upd_ev next (\<lambda>x. x\<lparr>prv := node\<rparr>) s else s) in
      upd_ev node (\<lambda>x. x\<lparr>nxt := next, prv := NULL\<rparr>) s)"

definition EV_REMOVE :: "ptr \<Rightarrow> ptr \<Rightarrow> world \<Rightarrow> world" where
  "EV_REMOVE node c s =
     (let pre = prv (evs s node);
          next = nxt (evs s node);
          s = (if pre \<noteq> NULL then upd_ev pre (\<lambda>x. x\<lparr>nxt := next\<rparr>) s else s);
          s = (if next \<noteq> NULL then upd_ev next (\<lambda>x. x\<lparr>prv := pre\<rparr>) s else s);
          s = upd_ev node (\<lambda>x. x\<lparr>prv := NULL, nxt := NULL\<rparr>) s in
      if watchers (ctxs s c) = node then upd_ctx c (\<lambda>x. x\<lparr>watchers := next\<rparr>) s else s)"

text \<open>The iteration macro; the loop body works on the world and a counter.\<close>

definition EV_FOREACH :: "(ptr \<Rightarrow> world \<times> nat \<Rightarrow> world \<times> nat) \<Rightarrow> ptr \<Rightarrow> world \<times> nat \<Rightarrow> (world \<times> nat) option" where
  "EV_FOREACH f lst s = loop (\<lambda>(node, s).
     if node = NULL then Some (Inr s)
     else
       let nx = nxt (evs (fst s) node) in
       if nx = NULL then Some (Inr s)
       else Some (Inl (nx, f node s))) (lst, s)"

section \<open>Watchers\<close>

definition ev_watcher_active :: "ptr \<Rightarrow> world \<Rightarrow> bool" where
  "ev_watcher_active w s = (if w \<noteq> NULL then active (evs s w) > 0 else False)"

definition ev_watcher_init :: "ptr \<Rightarrow> ptr \<Rightarrow> ev_type \<Rightarrow> nat \<Rightarrow> ptr \<Rightarrow> int \<Rightarrow> u32 \<Rightarrow> world \<Rightarrow> int \<times> world" where
  "ev_watcher_init c w ty f a fd es s =
     (if c = NULL \<or> w = NULL then fail EINVAL s
      else (0, upd_ev w (\<lambda>x. x\<lparr>wctx := c, wtype := ty, active := 0, wfd := fd, cb := f, arg := a, events := es\<rparr>) s))"

definition ev_watcher_start :: "kernel \<Rightarrow> ptr \<Rightarrow> world \<Rightarrow> int \<times> world" where
  "ev_watcher_start sys w s =
     (if w = NULL \<or> wfd (evs s w) < 0 \<or> wctx (evs s w) = NULL then fail EINVAL s
      else if ev_watcher_active w s then (0, s)
      else
        let c = wctx (evs s w) in
        case do_sys sys (Epoll_add (cfd (ctxs s c)) (wfd (evs s w)) (events (evs s w) OR EV_RDHUP) w) s of (r, s) \<Rightarrow>
        if ret r < 0 then
          if errno s \<noteq> EPERM then (-1, s)
          else if wtype (evs s w) \<noteq> EV_IO_TYPE \<or> events (evs s w) \<noteq> EV_READ then (-1, s)
          else if wfd (evs s w) \<noteq> 0 then (-1, s)
          else
            let s = upd_ctx c (\<lambda>x. x\<lparr>workaround := True\<rparr>) s;
                s = upd_ev w (\<lambda>x. x\<lparr>active := -1\<rparr>) s in
            (0, EV_INSERT w c s)
        else
          let s = upd_ev w (\<lambda>x. x\<lparr>active := 1\<rparr>) s in
          (0, EV_INSERT w c s))"

definition ev_watcher_stop :: "kernel \<Rightarrow> ptr \<Rightarrow> world \<Rightarrow> int \<times> world" where
  "ev_watcher_stop sys w s =
     (if w = NULL then fail EINVAL s
      else if \<not> ev_watcher_active w s then (0, s)
      else
        let s = upd_ev w (\<lambda>x. x\<lparr>active := 0\<rparr>) s;
            c = wctx (evs s w);
            s = EV_REMOVE w c s in
        case do_sys sys (Epoll_del (cfd (ctxs s c)) (wfd (evs s w))) s of (r, s) \<Rightarrow>
        if ret r < 0 then (-1, s) else (0, s))"

definition ev_watcher_rearm :: "kernel \<Rightarrow> ptr \<Rightarrow> world \<Rightarrow> int \<times> world" where
  "ev_watcher_rearm sys w s =
     (if w = NULL \<or> wfd (evs s w) < 0 then fail EINVAL s
      else
        case do_sys sys (Epoll_mod (cfd (ctxs s (wctx (evs s w)))) (wfd (evs s w)) (events (evs s w) OR EV_RDHUP) w) s of (r, s) \<Rightarrow>
        if ret r < 0 then (-1, s) else (0, s))"

section \<open>I/O watchers\<close>

definition ev_io_init :: "kernel \<Rightarrow> ptr \<Rightarrow> ptr \<Rightarrow> nat \<Rightarrow> ptr \<Rightarrow> int \<Rightarrow> u32 \<Rightarrow> world \<Rightarrow> int \<times> world" where
  "ev_io_init sys c w f a fd es s =
     (if fd < 0 then fail EINVAL s
      else case ev_watcher_init c w EV_IO_TYPE f a fd es s of (r, s) \<Rightarrow>
        if r \<noteq> 0 then (-1, s) else ev_watcher_start sys w s)"

definition ev_io_stop :: "kernel \<Rightarrow> ptr \<Rightarrow> world \<Rightarrow> int \<times> world" where
  "ev_io_stop sys w s = ev_watcher_stop sys w s"

definition ev_io_set :: "kernel \<Rightarrow> ptr \<Rightarrow> int \<Rightarrow> u32 \<Rightarrow> world \<Rightarrow> int \<times> world" where
  "ev_io_set sys w fd es s =
     (if es AND EV_ONESHOT \<noteq> 0 \<and> ev_watcher_active w s then ev_watcher_rearm sys w s
      else
        let s = snd (ev_io_stop sys w s) in
        ev_io_init sys (wctx (evs s w)) w (cb (evs s w)) (arg (evs s w)) fd es s)"

definition ev_io_start :: "kernel \<Rightarrow> ptr \<Rightarrow> world \<Rightarrow> int \<times> world" where
  "ev_io_start sys w s = ev_io_set sys w (wfd (evs s w)) (events (evs s w)) s"

section \<open>Timer watchers\<close>

text \<open>Division and remainder of C truncate towards zero.\<close>

definition ms2ts :: "int \<Rightarrow> timespec" where
  "ms2ts ms =
     (if ms \<noteq> 0 then \<lparr>tv_sec = sgn ms * (\<bar>ms\<bar> div 1000), tv_nsec = sgn ms * (\<bar>ms\<bar> mod 1000) * 1000000\<rparr>
      else \<lparr>tv_sec = 0, tv_nsec = 0\<rparr>)"

fun ev_timer_init :: "nat \<Rightarrow> kernel \<Rightarrow> ptr \<Rightarrow> ptr \<Rightarrow> nat \<Rightarrow> ptr \<Rightarrow> int \<Rightarrow> int \<Rightarrow> world \<Rightarrow> (int \<times> world) option"
  and ev_timer_set :: "nat \<Rightarrow> kernel \<Rightarrow> ptr \<Rightarrow> int \<Rightarrow> int \<Rightarrow> world \<Rightarrow> (int \<times> world) option" where
  "ev_timer_init 0 sys c w f a tmo per s = None"
| "ev_timer_init (Suc fuel) sys c w f a tmo per s =
     (if tmo < 0 \<or> per < 0 then Some (fail ERANGE s)
      else case do_sys sys Timerfd_create s of (r, s) \<Rightarrow>
      let fd = ret r in
      if fd < 0 then Some (-1, s)
      else case ev_watcher_init c w EV_TIMER_TYPE f a fd EV_READ s of (r, s) \<Rightarrow>
      if r \<noteq> 0 then
        let s = snd (do_sys sys (Close fd) s) in
        Some (-1, upd_ev w (\<lambda>x. x\<lparr>wfd := -1\<rparr>) s)
      else (case ev_timer_set fuel sys w tmo per s of
        None \<Rightarrow> None
      | Some (r, s) \<Rightarrow>
          if r \<noteq> 0 then
            let s = snd (ev_watcher_stop sys w s);
                s = snd (do_sys sys (Close fd) s) in
            Some (-1, upd_ev w (\<lambda>x. x\<lparr>wfd := -1\<rparr>) s)
          else Some (0, s)))"
| "ev_timer_set 0 sys w tmo per s = None"
| "ev_timer_set (Suc fuel) sys w tmo per s =
     (if w = NULL \<or> wctx (evs s w) = NULL then Some (fail EINVAL s)
      else if tmo < 0 \<or> per < 0 then Some (fail ERANGE s)
      else if wfd (evs s w) < 0 \<and> tmo = 0 \<and> per = 0 then Some (0, s)
      else case (if wfd (evs s w) < 0
                 then ev_timer_init fuel sys (wctx (evs s w)) w (cb (evs s w)) (arg (evs s w)) tmo per s
                 else Some (0, s)) of
        None \<Rightarrow> None
      | Some (r, s) \<Rightarrow>
          if r \<noteq> 0 then Some (-1, s)
          else
            let s = upd_ev w (\<lambda>x. x\<lparr>timeout := tmo, period := per\<rparr>) s in
            if running (ctxs s (wctx (evs s w))) then
              (case do_sys sys (Timerfd_settime (wfd (evs s w)) (ms2ts tmo) (ms2ts per)) s of (r, s) \<Rightarrow>
                 if ret r < 0 then Some (1, s) else Some (ev_watcher_start sys w s))
            else Some (ev_watcher_start sys w s))"

definition ev_timer_stop :: "kernel \<Rightarrow> ptr \<Rightarrow> world \<Rightarrow> int \<times> world" where
  "ev_timer_stop sys w s =
     (if \<not> ev_watcher_active w s then (0, s)
      else case ev_watcher_stop sys w s of (r, s) \<Rightarrow>
        if r \<noteq> 0 then (-1, s)
        else
          let s = snd (do_sys sys (Close (wfd (evs s w))) s) in
          (0, upd_ev w (\<lambda>x. x\<lparr>wfd := -1\<rparr>) s))"

section \<open>The event loop\<close>

definition ev_ctx_init :: "kernel \<Rightarrow> ptr \<Rightarrow> bool \<Rightarrow> world \<Rightarrow> int \<times> world" where
  "ev_ctx_init sys c close_old s =
     (case do_sys sys Epoll_create s of (r, s) \<Rightarrow>
      let fd = ret r in
      if fd < 0 then (-1, s)
      else
        let s = (if close_old then snd (do_sys sys (Close (cfd (ctxs s c))) s) else s) in
        (0, upd_ctx c (\<lambda>x. x\<lparr>cfd := fd\<rparr>) s))"

definition has_data :: "kernel \<Rightarrow> int \<Rightarrow> world \<Rightarrow> bool \<times> world" where
  "has_data sys fd s =
     (case do_sys sys (Select fd) s of (r, s) \<Rightarrow>
      if ret r > 0 then
        (case do_sys sys Fionread s of (r, s) \<Rightarrow> (ret r = 0 \<and> nread r > 0, s))
      else (False, s))"

definition ev_init :: "kernel \<Rightarrow> ptr \<Rightarrow> world \<Rightarrow> int \<times> world" where
  "ev_init sys c s =
     (if c = NULL then fail EINVAL s
      else
        let s = upd_ctx c (\<lambda>x. \<lparr>running = False, cfd = 0, watchers = NULL, workaround = False\<rparr>) s in
        ev_ctx_init sys c False s)"

definition exit_watcher :: "kernel \<Rightarrow> ptr \<Rightarrow> ptr \<Rightarrow> world \<Rightarrow> world" where
  "exit_watcher sys c w s =
     (let s = EV_REMOVE w c s in
      if \<not> ev_watcher_active w s then s
      else case wtype (evs s w) of
        EV_IO_TYPE \<Rightarrow> snd (ev_io_stop sys w s)
      | EV_TIMER_TYPE \<Rightarrow> snd (ev_timer_stop sys w s))"

definition ev_exit :: "kernel \<Rightarrow> ptr \<Rightarrow> world \<Rightarrow> (int \<times> world) option" where
  "ev_exit sys c s =
     (if c = NULL then Some (fail EINVAL s)
      else do {
        (s, n) \<leftarrow> EV_FOREACH (\<lambda>w (s, n). (exit_watcher sys c w s, n)) (watchers (ctxs s c)) (s, 0);
        let s = upd_ctx c (\<lambda>x. x\<lparr>watchers := NULL, running := False\<rparr>) s;
        let s = (if cfd (ctxs s c) > -1 then snd (do_sys sys (Close (cfd (ctxs s c))) s) else s);
        let s = upd_ctx c (\<lambda>x. x\<lparr>cfd := -1\<rparr>) s;
        Some (0, s)
      })"

type_synonym callback = "nat \<Rightarrow> ptr \<Rightarrow> ptr \<Rightarrow> u32 \<Rightarrow> world \<Rightarrow> world"

definition workaround_body :: "kernel \<Rightarrow> callback \<Rightarrow> ptr \<Rightarrow> ptr \<Rightarrow> world \<times> nat \<Rightarrow> world \<times> nat" where
  "workaround_body sys call c w sn = (case sn of (s, rerun) \<Rightarrow>
     if active (evs s w) \<noteq> -1 \<or> cb (evs s w) = 0 then (s, rerun)
     else
       case has_data sys (wfd (evs s w)) s of (d, s) \<Rightarrow>
       let s = (if \<not> d then EV_REMOVE w c (upd_ev w (\<lambda>x. x\<lparr>active := 0\<rparr>) s) else s) in
       (call (cb (evs s w)) w (arg (evs s w)) EV_READ s, rerun + 1))"

text \<open>The wait: \<open>Inr\<close> carries the events, or the failure exit.\<close>

definition wait_round :: "kernel \<Rightarrow> ptr \<Rightarrow> int \<Rightarrow> world \<Rightarrow> (world + (answer option \<times> world)) option" where
  "wait_round sys c tmo s =
     (case do_sys sys (Epoll_wait (cfd (ctxs s c)) tmo) s of (r, s) \<Rightarrow>
      if ret r \<ge> 0 then Some (Inr (Some r, s))
      else if \<not> running (ctxs s c) then Some (Inr (Some r, s))
      else if errno s = EINTR then Some (Inl s)
      else do {
        (x, s) \<leftarrow> ev_exit sys c s;
        Some (Inr (None, s))
      })"

definition serve :: "kernel \<Rightarrow> callback \<Rightarrow> ptr \<times> u32 \<Rightarrow> world \<Rightarrow> world" where
  "serve sys call e s =
     (case e of (w, evts) \<Rightarrow>
      case (case wtype (evs s w) of
        EV_IO_TYPE \<Rightarrow>
          (if evts AND (EV_HUP OR EV_ERROR) \<noteq> 0 then snd (ev_io_stop sys w s) else s, evts)
      | EV_TIMER_TYPE \<Rightarrow>
          (case do_sys sys (Read (wfd (evs s w))) s of (r, s) \<Rightarrow>
           case (if ret r \<noteq> 8 then (snd (ev_timer_stop sys w s), EV_ERROR) else (s, evts)) of (s, evts) \<Rightarrow>
           let s = (if period (evs s w) = 0 then upd_ev w (\<lambda>x. x\<lparr>timeout := 0\<rparr>) s else s);
               s = (if timeout (evs s w) = 0 then snd (ev_timer_stop sys w s) else s) in
           (s, evts))) of (s, evts) \<Rightarrow>
      if cb (evs s w) \<noteq> 0 then call (cb (evs s w)) w (arg (evs s w)) (evts AND EV_EVENT_MASK) s else s)"

fun serve_all :: "kernel \<Rightarrow> callback \<Rightarrow> ptr \<Rightarrow> (ptr \<times> u32) list \<Rightarrow> world \<Rightarrow> world" where
  "serve_all sys call c [] s = s"
| "serve_all sys call c (e # es) s = (if running (ctxs s c) then serve_all sys call c es (serve sys call e s) else s)"

definition run_round :: "kernel \<Rightarrow> callback \<Rightarrow> ptr \<Rightarrow> int \<Rightarrow> u32 \<Rightarrow> world \<Rightarrow> (world + (int \<times> world)) option" where
  "run_round sys call c tmo flags s =
     (if \<not> (running (ctxs s c) \<and> watchers (ctxs s c) \<noteq> NULL) then Some (Inr (0, s))
      else do {
        (s, rerun) \<leftarrow> (if workaround (ctxs s c)
          then EV_FOREACH (workaround_body sys call c) (watchers (ctxs s c)) (s, 0) else Some (s, 0));
        if rerun \<noteq> 0 then Some (Inl s)
        else do {
          let s = upd_ctx c (\<lambda>x. x\<lparr>workaround := False\<rparr>) s;
          (r, s) \<leftarrow> loop (wait_round sys c tmo) s;
          (case r of
             None \<Rightarrow> Some (Inr (-2, s))
           | Some r \<Rightarrow>
               let s = serve_all sys call c (take (nat (ret r)) (ready r)) s in
               if flags AND EV_ONCE \<noteq> 0 then Some (Inr (0, s)) else Some (Inl s))
        }
      })"

definition timers_body :: "kernel \<Rightarrow> ptr \<Rightarrow> world \<times> nat \<Rightarrow> world \<times> nat" where
  "timers_body sys w sn = (case sn of (s, n) \<Rightarrow>
     if wtype (evs s w) = EV_TIMER_TYPE
     then (case ev_timer_set 3 sys w (timeout (evs s w)) (period (evs s w)) s of
             Some (r, s') \<Rightarrow> (s', n) | None \<Rightarrow> (s, n))
     else (s, n))"

definition run_start :: "kernel \<Rightarrow> ptr \<Rightarrow> world \<Rightarrow> world option" where
  "run_start sys c s = do {
     let s = upd_ctx c (\<lambda>x. x\<lparr>running := True\<rparr>) s;
     (s, n) \<leftarrow> EV_FOREACH (timers_body sys) (watchers (ctxs s c)) (s, 0);
     Some s
   }"

definition ev_run :: "kernel \<Rightarrow> callback \<Rightarrow> ptr \<Rightarrow> u32 \<Rightarrow> world \<Rightarrow> (int \<times> world) option" where
  "ev_run sys call c flags s =
     (if c = NULL \<or> cfd (ctxs s c) < 0 then Some (fail EINVAL s)
      else
        let tmo = (if flags AND EV_NONBLOCK \<noteq> 0 then 0 else -1) in do {
        s \<leftarrow> run_start sys c s;
        loop (run_round sys call c tmo flags) s
      })"

section \<open>The program\<close>

definition process_stdin :: "kernel \<Rightarrow> ptr \<Rightarrow> u32 \<Rightarrow> world \<Rightarrow> world" where
  "process_stdin sys w es s =
     (let s = (if es = EV_ERROR then snd (ev_io_start sys w s) else s) in
      case do_sys sys (Read (wfd (evs s w))) s of (r, s) \<Rightarrow>
      if ret r = -1 then s
      else if ret r = 0 \<or> EV_HUP = es then s
      else snd (do_sys sys (Write 1 (bytes r)) s))"

definition program_cb :: "kernel \<Rightarrow> callback" where
  "program_cb sys f w a es s = (if f = 1 then process_stdin sys w es s else s)"

definition main_setup :: "kernel \<Rightarrow> ptr \<Rightarrow> ptr \<Rightarrow> world \<Rightarrow> int \<times> world" where
  "main_setup sys c w s =
     (let s = snd (ev_init sys c s) in
      ev_io_init sys c w 1 NULL 0 EV_READ s)"

definition main :: "kernel \<Rightarrow> ptr \<Rightarrow> ptr \<Rightarrow> world \<Rightarrow> (int \<times> world) option" where
  "main sys c w s =
     (case main_setup sys c w s of (r, s) \<Rightarrow>
      if r \<noteq> 0 then Some (errno s, s)
      else ev_run sys (program_cb sys) c 0 s)"

section \<open>The list invariant\<close>

fun dl :: "(ptr \<Rightarrow> ev) \<Rightarrow> ptr \<Rightarrow> ptr \<Rightarrow> ptr list \<Rightarrow> bool" where
  "dl h p b [] \<longleftrightarrow> p = NULL"
| "dl h p b (x # xs) \<longleftrightarrow> p = x \<and> x \<noteq> NULL \<and> prv (h x) = b \<and> dl h (nxt (h x)) x xs"

definition ev_list :: "world \<Rightarrow> ptr \<Rightarrow> ptr list \<Rightarrow> bool" where
  "ev_list s c ps \<longleftrightarrow> distinct ps \<and> dl (evs s) (watchers (ctxs s c)) NULL ps"

text \<open>The watchers of the context that are on the list are those with their flag set.\<close>

definition watch_ok :: "world \<Rightarrow> ptr \<Rightarrow> ptr list \<Rightarrow> bool" where
  "watch_ok s c ps \<longleftrightarrow> ev_list s c ps \<and>
     (\<forall>w. w \<noteq> NULL \<longrightarrow> wctx (evs s w) = c \<longrightarrow> (w \<in> set ps \<longleftrightarrow> active (evs s w) \<noteq> 0)) \<and>
     (\<forall>w \<in> set ps. wctx (evs s w) = c)"

lemma heap_simps [simp]:
  "evs (upd_ev w f s) x = (if x = w then f (evs s w) else evs s x)" "ctxs (upd_ev w f s) = ctxs s"
  "calls (upd_ev w f s) = calls s" "errno (upd_ev w f s) = errno s"
  "ctxs (upd_ctx c g s) d = (if d = c then g (ctxs s c) else ctxs s d)" "evs (upd_ctx c g s) = evs s"
  "calls (upd_ctx c g s) = calls s" "errno (upd_ctx c g s) = errno s"
  by (simp_all add: upd_ev_def upd_ctx_def)

lemma do_sys_simps [simp]:
  "evs (snd (do_sys sys c s)) = evs s" "ctxs (snd (do_sys sys c s)) = ctxs s"
  "calls (snd (do_sys sys c s)) = c # calls s" "fst (do_sys sys c s) = sys (calls s) c"
  by (simp_all add: do_sys_def Let_def)

lemma dl_cong:
  "dl h p b ps \<Longrightarrow> (\<And>a. a \<in> set ps \<Longrightarrow> nxt (h' a) = nxt (h a) \<and> prv (h' a) = prv (h a)) \<Longrightarrow> dl h' p b ps"
  by (induction ps arbitrary: p b) auto

lemma dl_no_null: "dl h p b ps \<Longrightarrow> NULL \<notin> set ps"
  by (induction ps arbitrary: p b) auto

lemma dl_remove:
  assumes "dl h p b (xs @ w # ys)" "distinct (xs @ w # ys)"
    "\<And>a. a \<in> set xs \<Longrightarrow> nxt (h' a) = (if a = last xs then nxt (h w) else nxt (h a)) \<and> prv (h' a) = prv (h a)"
    "\<And>a. a \<in> set ys \<Longrightarrow> nxt (h' a) = nxt (h a) \<and> prv (h' a) = (if a = nxt (h w) then prv (h w) else prv (h a))"
  shows "dl h' (if xs = [] then nxt (h w) else p) b (xs @ ys)"
  using assms
proof (induction xs arbitrary: p b)
  case Nil
  then show ?case
  proof (cases ys)
    case (Cons y zs)
    then have y: "nxt (h w) = y" "y \<noteq> NULL" "prv (h w) = b" "dl h (nxt (h y)) y zs" using Nil.prems(1) by auto
    have "dl h' (nxt (h y)) y zs"
      by (rule dl_cong [OF y(4)]) (use Nil.prems(2,4) Cons y in auto)
    then show ?thesis using y Cons Nil.prems(4) [of y] by simp
  qed simp
next
  case (Cons x xs)
  have IH: "dl h' (if xs = [] then nxt (h w) else nxt (h x)) x (xs @ ys)"
    by (rule Cons.IH) (use Cons.prems in \<open>auto split: if_splits\<close>)
  have "nxt (h' x) = (if xs = [] then nxt (h w) else nxt (h x))"
    using Cons.prems(2) Cons.prems(3) [of x] last_in_set [of xs] by (cases "xs = []") auto
  then show ?case using IH Cons.prems(1) Cons.prems(3) [of x] by simp
qed

lemma dl_prev: "dl h p b (xs @ w # ys) \<Longrightarrow> prv (h w) = last (b # xs) \<and> nxt (h w) = hd (ys @ [NULL])"
proof (induction xs arbitrary: p b)
  case Nil
  then show ?case by (cases ys) simp_all
next
  case (Cons x xs)
  then have "dl h (nxt (h x)) x (xs @ w # ys)" by simp
  from Cons.IH [OF this] show ?case by simp
qed

lemma insert_list:
  assumes "ev_list s c ps" "w \<noteq> NULL" "w \<notin> set ps"
  shows "ev_list (EV_INSERT w c s) c (w # ps)"
proof (cases ps)
  case Nil
  then show ?thesis using assms by (simp add: ev_list_def EV_INSERT_def Let_def)
next
  case (Cons y zs)
  then have y: "watchers (ctxs s c) = y" "y \<noteq> NULL" "dl (evs s) (nxt (evs s y)) y zs" "w \<noteq> y" "y \<notin> set zs" "w \<notin> set zs" "distinct zs"
    using assms by (auto simp: ev_list_def)
  define s' where "s' = EV_INSERT w c s"
  have "dl (evs s') (nxt (evs s y)) y zs"
    by (rule dl_cong [OF y(3)]) (use y in \<open>auto simp: s'_def EV_INSERT_def Let_def\<close>)
  then have "dl (evs s') (watchers (ctxs s' c)) NULL (w # y # zs)"
    using y assms(2) by (simp add: s'_def EV_INSERT_def Let_def)
  then show ?thesis using y Cons by (simp add: ev_list_def s'_def)
qed

lemma remove_fields:
  assumes "a \<noteq> w"
  shows "nxt (evs (EV_REMOVE w c s) a) = (if prv (evs s w) \<noteq> NULL \<and> a = prv (evs s w) then nxt (evs s w) else nxt (evs s a))"
    "prv (evs (EV_REMOVE w c s) a) = (if nxt (evs s w) \<noteq> NULL \<and> a = nxt (evs s w) then prv (evs s w) else prv (evs s a))"
    "active (evs (EV_REMOVE w c s) a) = active (evs s a)" "wctx (evs (EV_REMOVE w c s) a) = wctx (evs s a)"
  using assms by (simp_all add: EV_REMOVE_def Let_def)

lemma remove_self [simp]:
  "active (evs (EV_REMOVE w c s) w) = active (evs s w)" "wctx (evs (EV_REMOVE w c s) w) = wctx (evs s w)"
  "wfd (evs (EV_REMOVE w c s) x) = wfd (evs s x)" "wtype (evs (EV_REMOVE w c s) x) = wtype (evs s x)"
  "calls (EV_REMOVE w c s) = calls s"
  by (simp_all add: EV_REMOVE_def Let_def)

lemma remove_list:
  assumes "ev_list s c (xs @ w # ys)"
  shows "ev_list (EV_REMOVE w c s) c (xs @ ys)"
proof -
  let ?h = "evs s"
  have d: "dl ?h (watchers (ctxs s c)) NULL (xs @ w # ys)" "distinct (xs @ w # ys)" using assms by (simp_all add: ev_list_def)
  have n: "NULL \<notin> set (xs @ w # ys)" by (rule dl_no_null [OF d(1)])
  note pn = dl_prev [OF d(1)]
  define s' where "s' = EV_REMOVE w c s"
  have next_in: "nxt (?h w) \<noteq> NULL \<Longrightarrow> nxt (?h w) \<in> set ys" using pn by (cases ys) auto
  have pre_in: "prv (?h w) \<noteq> NULL \<Longrightarrow> prv (?h w) \<in> set xs" using pn by (cases xs rule: rev_cases) auto
  have "dl (evs s') (if xs = [] then nxt (?h w) else watchers (ctxs s c)) NULL (xs @ ys)"
  proof (rule dl_remove [OF d])
    fix a assume a: "a \<in> set xs"
    then have "xs \<noteq> []" by auto
    then have p: "prv (?h w) = last xs" "last xs \<noteq> NULL" using pn n last_in_set [of xs] by (simp, metis Un_iff set_append)
    have "a \<noteq> w" "a \<notin> set ys" using a d(2) by auto
    with p next_in show "nxt (evs s' a) = (if a = last xs then nxt (?h w) else nxt (?h a)) \<and> prv (evs s' a) = prv (?h a)"
      unfolding s'_def by (auto simp: remove_fields)
  next
    fix a assume a: "a \<in> set ys"
    have "a \<noteq> w" "a \<notin> set xs" "a \<noteq> NULL" using a d(2) n by auto
    with pre_in show "nxt (evs s' a) = nxt (?h a) \<and> prv (evs s' a) = (if a = nxt (?h w) then prv (?h w) else prv (?h a))"
      unfolding s'_def by (auto simp: remove_fields)
  qed
  moreover have "watchers (ctxs s' c) = (if xs = [] then nxt (?h w) else watchers (ctxs s c))"
    using d by (cases xs) (auto simp: s'_def EV_REMOVE_def Let_def)
  ultimately show ?thesis using d(2) by (simp add: ev_list_def s'_def)
qed

lemma ev_list_cong:
  assumes "ev_list s c ps" "watchers (ctxs s' c) = watchers (ctxs s c)"
    "\<And>a. nxt (evs s' a) = nxt (evs s a) \<and> prv (evs s' a) = prv (evs s a)"
  shows "ev_list s' c ps"
  using assms dl_cong [of "evs s" _ NULL ps "evs s'"] by (simp add: ev_list_def)

lemma insert_fields [simp]:
  "active (evs (EV_INSERT w c s) x) = active (evs s x)" "wctx (evs (EV_INSERT w c s) x) = wctx (evs s x)"
  "calls (EV_INSERT w c s) = calls s"
  by (simp_all add: EV_INSERT_def Let_def)

lemma watch_insert:
  assumes ok: "watch_ok s c ps" and w: "w \<noteq> NULL" "w \<notin> set ps" "wctx (evs s w) = c" "a \<noteq> 0"
    and s': "watchers (ctxs s' c) = watchers (ctxs s c)" "evs s' = (evs s)(w := (evs s w)\<lparr>active := a\<rparr>)"
  shows "watch_ok (EV_INSERT w c s') c (w # ps)"
proof -
  have "ev_list s' c ps" by (rule ev_list_cong [of s]) (use ok s' in \<open>auto simp: watch_ok_def\<close>)
  then have "ev_list (EV_INSERT w c s') c (w # ps)" using w by (intro insert_list)
  then show ?thesis using ok w s' by (auto simp: watch_ok_def)
qed

lemma start_watch:
  assumes ok: "watch_ok s c ps" and w: "w \<noteq> NULL" "wctx (evs s w) = c" "0 \<le> active (evs s w)" "c \<noteq> NULL"
    and run: "ev_watcher_start sys w s = (r, s')"
  shows "watch_ok s' c (if r = 0 \<and> w \<notin> set ps then w # ps else ps)"
proof -
  consider (bad) "wfd (evs s w) < 0" | (on) "wfd (evs s w) \<ge> 0" "active (evs s w) > 0" | (off) "wfd (evs s w) \<ge> 0" "active (evs s w) = 0"
    using w(3) by linarith
  moreover have mem: "w \<in> set ps \<longleftrightarrow> active (evs s w) \<noteq> 0" using ok w unfolding watch_ok_def by blast
  ultimately show ?thesis
  proof cases
    case bad
    then have "r \<noteq> 0" "s' = s\<lparr>errno := EINVAL\<rparr>" using run by (simp_all add: ev_watcher_start_def fail_def)
    then show ?thesis using ok by (simp add: watch_ok_def ev_list_def)
  next
    case on
    then have "s' = s" using run w by (simp add: ev_watcher_start_def ev_watcher_active_def)
    then show ?thesis using ok mem on by simp
  next
    case off
    define x where "x = do_sys sys (Epoll_add (cfd (ctxs s c)) (wfd (evs s w)) (events (evs s w) OR EV_RDHUP) w) s"
    have e: "evs (snd x) = evs s" "ctxs (snd x) = ctxs s" by (simp_all add: x_def)
    have wp: "w \<notin> set ps" using mem off(2) by simp
    have fails: "watch_ok (snd x) c ps" using ok e by (simp add: watch_ok_def ev_list_def)
    have ins: "watch_ok (EV_INSERT w c s1) c (w # ps)"
      if "watchers (ctxs s1 c) = watchers (ctxs s c)" "evs s1 = (evs s)(w := (evs s w)\<lparr>active := a\<rparr>)" "a \<noteq> 0" for s1 a
      by (rule watch_insert [OF ok w(1) wp w(2)]) (use that in auto)
    define s1 where "s1 = upd_ev w (\<lambda>x. x\<lparr>active := -1\<rparr>) (upd_ctx c (\<lambda>x. x\<lparr>workaround := True\<rparr>) (snd x))"
    define s2 where "s2 = upd_ev w (\<lambda>x. x\<lparr>active := 1\<rparr>) (snd x)"
    have i1: "watch_ok (EV_INSERT w c s1) c (w # ps)" by (rule ins [of s1 "-1"]) (simp_all add: s1_def e upd_ev_def)
    have i2: "watch_ok (EV_INSERT w c s2) c (w # ps)" by (rule ins [of s2 1]) (simp_all add: s2_def e upd_ev_def)
    have "ev_watcher_start sys w s = (-1, snd x) \<or> ev_watcher_start sys w s = (0, EV_INSERT w c s1) \<or>
        ev_watcher_start sys w s = (0, EV_INSERT w c s2)"
      using off w by (cases x) (auto simp: ev_watcher_start_def ev_watcher_active_def x_def [symmetric] s1_def s2_def Let_def)
    then show ?thesis using run fails i1 i2 wp by auto
  qed
qed

lemma stop_watch:
  assumes ok: "watch_ok s c ps" and w: "w \<noteq> NULL" "wctx (evs s w) = c" "0 \<le> active (evs s w)"
    and run: "ev_watcher_stop sys w s = (r, s')"
  shows "watch_ok s' c (removeAll w ps)"
proof -
  have mem: "w \<in> set ps \<longleftrightarrow> active (evs s w) \<noteq> 0" using ok w unfolding watch_ok_def by blast
  show ?thesis
proof (cases "active (evs s w) = 0")
  case True
  then have "s' = s" using run w by (simp add: ev_watcher_stop_def ev_watcher_active_def)
  then show ?thesis using ok mem True by simp
next
  case False
  then have "w \<in> set ps" using mem by simp
  then obtain xs ys where ps: "ps = xs @ w # ys" by (auto simp: in_set_conv_decomp)
  have d: "distinct ps" using ok by (simp add: watch_ok_def ev_list_def)
  define s1 where "s1 = EV_REMOVE w c (upd_ev w (\<lambda>x. x\<lparr>active := 0\<rparr>) s)"
  have "ev_list (upd_ev w (\<lambda>x. x\<lparr>active := 0\<rparr>) s) c (xs @ w # ys)"
    by (rule ev_list_cong [of s]) (use ok ps in \<open>auto simp: watch_ok_def\<close>)
  then have l: "ev_list s1 c (xs @ ys)" unfolding s1_def by (rule remove_list)
  have other: "active (evs s1 a) = active (evs s a)" "wctx (evs s1 a) = wctx (evs s a)" if "a \<noteq> w" for a
    using that by (simp_all add: s1_def remove_fields)
  have self: "active (evs s1 w) = 0" "wctx (evs s1 w) = c" using w by (simp_all add: s1_def)
  have "watch_ok s1 c (xs @ ys)"
    unfolding watch_ok_def
  proof (intro conjI allI impI ballI)
    fix a assume a: "a \<noteq> NULL" "wctx (evs s1 a) = c"
    show "a \<in> set (xs @ ys) \<longleftrightarrow> active (evs s1 a) \<noteq> 0"
    proof (cases "a = w")
      case True
      then show ?thesis using self d ps by auto
    next
      case False
      have "a \<in> set ps \<longleftrightarrow> active (evs s a) \<noteq> 0" using ok a other [OF False] unfolding watch_ok_def by simp
      then show ?thesis using other [OF False] False ps by auto
    qed
  next
    fix a assume a: "a \<in> set (xs @ ys)"
    then have "a \<noteq> w" "a \<in> set ps" using d ps by auto
    then show "wctx (evs s1 a) = c" using other [of a] ok unfolding watch_ok_def by simp
  qed (rule l)
  moreover have "evs s' = evs s1" "ctxs s' = ctxs s1"
    using run False w by (auto simp: ev_watcher_stop_def ev_watcher_active_def s1_def Let_def do_sys_def split: if_splits)
  moreover have "removeAll w ps = xs @ ys" using d ps by (auto simp: removeAll_append)
  ultimately show ?thesis by (simp add: watch_ok_def ev_list_def)
qed
qed

text \<open>
  The flag -1 that \<open>start\<close> leaves for a redirected file does not count as active: another start inserts a
  watcher that is on the list already, and the list runs into itself.
\<close>

lemma dl_reaches:
  assumes "dl h p b (xs @ w # ys)" "\<And>x. x \<in> set xs \<Longrightarrow> nxt (h' x) = nxt (h x)" "dl h' p b' zs"
  shows "w \<in> set zs"
  using assms
proof (induction xs arbitrary: p b b' zs)
  case Nil
  then show ?case by (cases zs) auto
next
  case (Cons x xs)
  then show ?case by (cases zs) auto
qed

lemma insert_again:
  assumes l: "ev_list s c ps" and w: "w \<in> set ps"
    and s': "watchers (ctxs s' c) = watchers (ctxs s c)" "\<And>x. nxt (evs s' x) = nxt (evs s x)"
  shows "\<not> ev_list (EV_INSERT w c s') c qs"
proof
  let ?s = "EV_INSERT w c s'"
  assume q: "ev_list ?s c qs"
  obtain xs ys where ps: "ps = xs @ w # ys" using w by (auto simp: in_set_conv_decomp)
  have d: "w \<notin> set xs" using l ps by (simp add: ev_list_def)
  have hd: "watchers (ctxs ?s c) = w" "nxt (evs ?s w) = watchers (ctxs s c)"
    using s'(1) by (simp_all add: EV_INSERT_def Let_def)
  have n: "nxt (evs ?s x) = nxt (evs s x)" if "x \<noteq> w" for x using that s'(2) by (simp add: EV_INSERT_def Let_def)
  have "w \<noteq> NULL" using l ps dl_no_null by (fastforce simp: ev_list_def)
  then obtain zs where zs: "qs = w # zs" "dl (evs ?s) (watchers (ctxs s c)) w zs"
    using q hd by (cases qs) (auto simp: ev_list_def)
  have "w \<in> set zs"
  proof (rule dl_reaches [of "evs s" "watchers (ctxs s c)" NULL xs w ys "evs ?s" w zs])
    show "nxt (evs ?s x) = nxt (evs s x)" if "x \<in> set xs" for x using n d that by metis
  qed (use l ps zs in \<open>simp_all add: ev_list_def\<close>)
  then show False using q zs(1) by (simp add: ev_list_def)
qed

lemma start_marked:
  assumes ok: "watch_ok s c ps" and w: "w \<noteq> NULL" "wctx (evs s w) = c" "active (evs s w) < 0" "c \<noteq> NULL"
    and run: "ev_watcher_start sys w s = (r, s')"
  shows "if r = 0 then \<not> ev_list s' c qs else watch_ok s' c ps"
proof (cases "wfd (evs s w) < 0")
  case True
  then have "r \<noteq> 0" "s' = s\<lparr>errno := EINVAL\<rparr>" using run by (simp_all add: ev_watcher_start_def fail_def)
  then show ?thesis using ok by (simp add: watch_ok_def ev_list_def)
next
  case False
  define x where "x = do_sys sys (Epoll_add (cfd (ctxs s c)) (wfd (evs s w)) (events (evs s w) OR EV_RDHUP) w) s"
  have e: "evs (snd x) = evs s" "ctxs (snd x) = ctxs s" by (simp_all add: x_def)
  have "w \<in> set ps" using ok w unfolding watch_ok_def by simp
  then have again: "\<not> ev_list (EV_INSERT w c s1) c qs"
    if "watchers (ctxs s1 c) = watchers (ctxs s c)" "\<And>x. nxt (evs s1 x) = nxt (evs s x)" for s1
    using ok that by (intro insert_again) (auto simp: watch_ok_def)
  define s1 where "s1 = upd_ev w (\<lambda>x. x\<lparr>active := -1\<rparr>) (upd_ctx c (\<lambda>x. x\<lparr>workaround := True\<rparr>) (snd x))"
  define s2 where "s2 = upd_ev w (\<lambda>x. x\<lparr>active := 1\<rparr>) (snd x)"
  have i: "\<not> ev_list (EV_INSERT w c s1) c qs" "\<not> ev_list (EV_INSERT w c s2) c qs"
    by (rule again; simp add: s1_def s2_def e)+
  have "ev_watcher_start sys w s = (-1, snd x) \<or> ev_watcher_start sys w s = (0, EV_INSERT w c s1) \<or>
      ev_watcher_start sys w s = (0, EV_INSERT w c s2)"
    using False w by (cases x) (auto simp: ev_watcher_start_def ev_watcher_active_def x_def [symmetric] s1_def s2_def Let_def)
  moreover have "watch_ok (snd x) c ps" using ok e by (simp add: watch_ok_def ev_list_def)
  ultimately show ?thesis using run i by auto
qed

section \<open>Iteration\<close>

lemma foreach_butlast:
  assumes f: "\<And>w x p. nxt (evs (fst (f w x)) p) = nxt (evs (fst x) p)"
    and l: "chain (\<lambda>q. nxt (evs (fst x) q)) p ps NULL"
  shows "EV_FOREACH f p x = Some (fold f (butlast ps) x)"
  using l
proof (induction ps arbitrary: p x)
  case Nil
  then show ?case unfolding EV_FOREACH_def by (intro loop_stop) simp
next
  case (Cons a as)
  then have a: "p = a" "a \<noteq> NULL" "chain (\<lambda>q. nxt (evs (fst x) q)) (nxt (evs (fst x) a)) as NULL" by auto
  show ?case
  proof (cases as)
    case Nil
    then show ?thesis using a unfolding EV_FOREACH_def by (intro loop_stop) simp
  next
    case (Cons b bs)
    then have "nxt (evs (fst x) a) \<noteq> NULL" using a(3) by auto
    then have "EV_FOREACH f p x = EV_FOREACH f (nxt (evs (fst x) a)) (f a x)"
      using a unfolding EV_FOREACH_def by (subst loop_next) (simp_all add: Let_def)
    also have "\<dots> = Some (fold f (butlast as) (f a x))" by (rule Cons.IH) (use a(3) f in simp)
    finally show ?thesis using Cons by simp
  qed
qed

lemma dl_chain: "dl h p b ps \<Longrightarrow> chain (\<lambda>q. nxt (h q)) p ps NULL"
  by (induction ps arbitrary: p b) auto

section \<open>The program on a redirected file\<close>

text \<open>
  What the kernel is known to do: a regular file cannot be added to an epoll set (\<open>EPERM\<close>), and
  waiting on a set with no descriptors delivers no event.
\<close>

definition regular_stdin :: "kernel \<Rightarrow> bool" where
  "regular_stdin sys \<longleftrightarrow> (\<forall>h e fd es w. ret (sys h (Epoll_add e fd es w)) = -1 \<and> err (sys h (Epoll_add e fd es w)) = EPERM) \<and>
     (\<forall>h e t. ret (sys h (Epoll_wait e t)) \<le> 0) \<and> (\<forall>h. 0 \<le> ret (sys h Epoll_create))"

definition no_read :: "world \<Rightarrow> bool" where
  "no_read s \<longleftrightarrow> (\<forall>fd. Read fd \<notin> set (calls s))"

text \<open>The only watcher is on the list, and it is the last one.\<close>

definition alone :: "ptr \<Rightarrow> ptr \<Rightarrow> world \<Rightarrow> bool" where
  "alone c w s \<longleftrightarrow> watchers (ctxs s c) = w \<and> w \<noteq> NULL \<and> nxt (evs s w) = NULL \<and> no_read s"

lemma foreach_alone: "alone c w s \<Longrightarrow> EV_FOREACH f (watchers (ctxs s c)) (s, n) = Some (s, n)"
  unfolding EV_FOREACH_def alone_def by (intro loop_stop) simp

lemma exit_alone:
  assumes "alone c w s" "ev_exit sys c s = Some (r, s')"
  shows "no_read s'"
  using assms foreach_alone [OF assms(1), of "\<lambda>w (s, n). (exit_watcher sys c w s, n)" 0]
  by (auto simp: ev_exit_def fail_def no_read_def alone_def Let_def split: if_splits)

lemma wait_alone:
  assumes k: "regular_stdin sys" and run: "loop (wait_round sys c t) s = Some (r, s')" and a: "alone c w s"
  shows "no_read s' \<and> (\<forall>x. r = Some x \<longrightarrow> alone c w s' \<and> ret x \<le> 0)"
proof -
  have same: "alone c w (snd (do_sys sys (Epoll_wait e t) s)) = alone c w s" for s e
    by (simp add: alone_def no_read_def)
  have "case (r, s') of (r, s') \<Rightarrow> no_read s' \<and> (\<forall>x. r = Some x \<longrightarrow> alone c w s' \<and> ret x \<le> 0)"
  proof (rule loop_partial [OF run, of "alone c w"])
    show "alone c w s" by (rule a)
  next
    fix s s' assume "alone c w s" "wait_round sys c t s = Some (Inl s')"
    then show "alone c w s'" using same [of "cfd (ctxs s c)" s]
      by (auto simp: wait_round_def split: prod.splits if_splits bind_splits)
  next
    fix s x assume al: "alone c w s" and x: "wait_round sys c t s = Some (Inr x)"
    obtain ans s1 where d: "do_sys sys (Epoll_wait (cfd (ctxs s c)) t) s = (ans, s1)" by fastforce
    have a1: "alone c w s1" using same [of "cfd (ctxs s c)" s] al d by simp
    have "ret ans \<le> 0" using k d by (auto simp: regular_stdin_def do_sys_def Let_def)
    then show "case x of (r, s') \<Rightarrow> no_read s' \<and> (\<forall>x. r = Some x \<longrightarrow> alone c w s' \<and> ret x \<le> 0)"
      using x d a1 exit_alone [OF a1, of sys]
      by (auto simp: wait_round_def alone_def split: if_splits bind_splits)
  qed
  then show ?thesis by simp
qed

lemma round_alone:
  assumes k: "regular_stdin sys" and a: "alone c w s" and run: "run_round sys call c t flags s = Some x"
  shows "case x of Inl s' \<Rightarrow> alone c w s' | Inr (r, s') \<Rightarrow> no_read s'"
proof (cases "running (ctxs s c)")
  case False
  then show ?thesis using run a by (auto simp: run_round_def alone_def)
next
  case True
  define s1 where "s1 = upd_ctx c (\<lambda>x. x\<lparr>workaround := False\<rparr>) s"
  have a1: "alone c w s1" using a by (simp add: s1_def alone_def no_read_def)
  have "(if workaround (ctxs s c) then EV_FOREACH (workaround_body sys call c) (watchers (ctxs s c)) (s, 0) else Some (s, 0)) = Some (s, 0)"
    using foreach_alone [OF a] by simp
  then obtain r s2 where w: "loop (wait_round sys c t) s1 = Some (r, s2)"
    and x: "Some x = (case r of None \<Rightarrow> Some (Inr (-2, s2))
      | Some r \<Rightarrow> (let s = serve_all sys call c (take (nat (ret r)) (ready r)) s2 in
          if flags AND EV_ONCE \<noteq> 0 then Some (Inr (0, s)) else Some (Inl s)))"
    using run True a by (auto simp: run_round_def alone_def s1_def Let_def split: bind_splits)
  note wa = wait_alone [OF k w a1]
  show ?thesis
  proof (cases r)
    case None
    then show ?thesis using x wa by simp
  next
    case (Some ans)
    then have "nat (ret ans) = 0" using wa by simp
    then show ?thesis using x wa Some by (auto simp: Let_def alone_def split: if_splits)
  qed
qed

text \<open>A number of rounds of the event loop; a loop that has returned stays where it is.\<close>

definition loop_step :: "kernel \<Rightarrow> ptr \<Rightarrow> unit \<Rightarrow> world \<Rightarrow> world option" where
  "loop_step sys c u s = (case run_round sys (program_cb sys) c (-1) 0 s of
     Some (Inl s') \<Rightarrow> Some s' | _ \<Rightarrow> None)"

lemma exec_alone:
  assumes "regular_stdin sys" "alone c w s" "exec (loop_step sys c) us s = Some s'"
  shows "alone c w s'"
  using assms(2,3)
proof (induction us arbitrary: s)
  case (Cons u us)
  obtain s1 where s1: "loop_step sys c u s = Some s1" "exec (loop_step sys c) us s1 = Some s'"
    using Cons.prems(2) by (auto split: option.splits)
  then have "run_round sys (program_cb sys) c (-1) 0 s = Some (Inl s1)"
    by (auto simp: loop_step_def split: option.splits sum.splits)
  with s1 show ?case using round_alone [OF assms(1) Cons.prems(1)] Cons.IH [of s1] by fastforce
qed simp

lemma setup_alone:
  assumes "regular_stdin sys" "c \<noteq> NULL" "w \<noteq> NULL" "calls s = []"
  shows "fst (main_setup sys c w s) = 0" "alone c w (snd (main_setup sys c w s))"
    "cfd (ctxs (snd (main_setup sys c w s)) c) \<ge> 0"
  using assms
  by (simp_all add: main_setup_def ev_init_def ev_ctx_init_def ev_io_init_def ev_watcher_init_def
      ev_watcher_start_def ev_watcher_active_def EV_INSERT_def alone_def no_read_def regular_stdin_def
      do_sys_def Let_def split: prod.splits)

lemma start_alone:
  assumes "alone c w s"
  shows "run_start sys c s = Some (upd_ctx c (\<lambda>x. x\<lparr>running := True\<rparr>) s)" "alone c w (upd_ctx c (\<lambda>x. x\<lparr>running := True\<rparr>) s)"
proof -
  show a: "alone c w (upd_ctx c (\<lambda>x. x\<lparr>running := True\<rparr>) s)" using assms by (simp add: alone_def no_read_def)
  show "run_start sys c s = Some (upd_ctx c (\<lambda>x. x\<lparr>running := True\<rparr>) s)"
    using foreach_alone [OF a, of "timers_body sys" 0] by (simp add: run_start_def Let_def)
qed

section \<open>Fuel of the timer functions\<close>

lemma timer_set_open:
  assumes "0 \<le> wfd (evs s w)"
  shows "ev_timer_set (Suc n) sys w t p s = ev_timer_set (Suc 0) sys w t p s"
    "ev_timer_set (Suc 0) sys w t p s \<noteq> None"
  using assms by (simp_all add: Let_def split: prod.splits)

lemma timer_init_fuel:
  "ev_timer_init (Suc (Suc n)) sys c w f a t p s = ev_timer_init (Suc (Suc 0)) sys c w f a t p s \<and>
    ev_timer_init (Suc (Suc 0)) sys c w f a t p s \<noteq> None"
proof -
  obtain r s1 where d: "do_sys sys Timerfd_create s = (r, s1)" by fastforce
  obtain r2 s2 where i: "ev_watcher_init c w EV_TIMER_TYPE f a (ret r) EV_READ s1 = (r2, s2)" by fastforce
  show ?thesis
  proof (cases "t < 0 \<or> p < 0 \<or> ret r < 0 \<or> r2 \<noteq> 0")
    case True
    then show ?thesis using d i by (subst (1 2 3) ev_timer_init.simps) (auto simp: Let_def simp del: ev_timer_set.simps)
  next
    case False
    then have "wfd (evs s2 w) = ret r" using i by (auto simp: ev_watcher_init_def fail_def split: if_splits)
    then have o: "0 \<le> wfd (evs s2 w)" using False by simp
    obtain x where "ev_timer_set (Suc 0) sys w t p s2 = Some x" using timer_set_open(2) [OF o] by blast
    then show ?thesis using d i False timer_set_open(1) [OF o, of n sys t p]
      by (subst (1 2 3) ev_timer_init.simps) (auto simp: Let_def simp del: ev_timer_set.simps split: prod.splits)
  qed
qed

lemma timer_set_fuel:
  "ev_timer_set (Suc (Suc (Suc n))) sys w t p s = ev_timer_set (Suc (Suc (Suc 0))) sys w t p s \<and>
    ev_timer_set (Suc (Suc (Suc 0))) sys w t p s \<noteq> None"
proof (cases "wfd (evs s w) < 0")
  case False
  then have "0 \<le> wfd (evs s w)" by simp
  note o = timer_set_open [OF this]
  show ?thesis using o(1) [of "Suc (Suc n)"] o(1) [of "Suc (Suc 0)"] o(2) by metis
next
  case True
  note i = timer_init_fuel [of n sys "wctx (evs s w)" w "cb (evs s w)" "arg (evs s w)" t p s]
  then obtain r s1 where "ev_timer_init (Suc (Suc 0)) sys (wctx (evs s w)) w (cb (evs s w)) (arg (evs s w)) t p s = Some (r, s1)"
    by auto
  with i show ?thesis
    by (subst (1 2 3) ev_timer_set.simps) (simp add: Let_def del: ev_timer_init.simps ev_timer_set.simps split: prod.splits)
qed

section \<open>Properties\<close>

text \<open>
  C34: A file redirected to the program's standard input is never read. The kernel refuses to watch a
  regular file, the program falls back to its workaround, but \<open>EV_FOREACH\<close> does not visit the only
  watcher: however many rounds the event loop makes, and if it returns at all, no read has happened.
\<close>

theorem redirected_file_never_read:
  assumes k: "regular_stdin sys" and nn: "c \<noteq> NULL" "w \<noteq> NULL" and fresh: "calls s = []"
  shows "(main sys c w s = Some (r, s1) \<longrightarrow> no_read s1) \<and>
    (run_start sys c (snd (main_setup sys c w s)) = Some s2 \<longrightarrow> exec (loop_step sys c) us s2 = Some s3 \<longrightarrow> no_read s3)"
proof (intro conjI impI)
  note su = setup_alone [OF k nn fresh]
  note st = start_alone [OF su(2)]
  show "no_read s1" if "main sys c w s = Some (r, s1)"
  proof -
    have "loop (run_round sys (program_cb sys) c (-1) 0) (upd_ctx c (\<lambda>x. x\<lparr>running := True\<rparr>) (snd (main_setup sys c w s))) = Some (r, s1)"
      using that su(1,3) nn st(1) by (auto simp: main_def ev_run_def split: prod.splits)
    then have "case (r, s1) of (r, s) \<Rightarrow> no_read s"
      by (rule loop_partial [where P = "alone c w"]) (use st(2) round_alone [OF k] in \<open>fastforce split: sum.splits\<close>)+
    then show ?thesis by simp
  qed
  show "no_read s3" if "run_start sys c (snd (main_setup sys c w s)) = Some s2" "exec (loop_step sys c) us s2 = Some s3"
  proof -
    have "s2 = upd_ctx c (\<lambda>x. x\<lparr>running := True\<rparr>) (snd (main_setup sys c w s))" using st(1) [of sys] that(1) by simp
    then have "alone c w s2" using st(2) by simp
    from exec_alone [OF k this that(2)] show ?thesis by (simp add: alone_def)
  qed
qed

definition file_kernel :: kernel where
  "file_kernel h c = (case c of
     Epoll_add e fd es w \<Rightarrow> \<lparr>ret = -1, err = EPERM, ready = [], bytes = [], nread = 0\<rparr>
   | Epoll_wait e t \<Rightarrow> \<lparr>ret = 0, err = 0, ready = [], bytes = [], nread = 0\<rparr>
   | _ \<Rightarrow> \<lparr>ret = 3, err = 0, ready = [], bytes = [], nread = 0\<rparr>)"

definition blank_world :: world where
  "blank_world = \<lparr>evs = \<lambda>_. \<lparr>nxt = 0, prv = 0, active = 0, events = 0, cb = 0, arg = 0, timeout = 0, period = 0,
     wtype = EV_IO_TYPE, wfd = 0, wctx = 0\<rparr>, ctxs = \<lambda>_. \<lparr>running = False, cfd = 0, watchers = 0, workaround = False\<rparr>,
     errno = 0, calls = []\<rparr>"

lemma file_kernel_regular: "regular_stdin file_kernel"
  by (simp add: regular_stdin_def file_kernel_def)

lemma file_kernel_round:
  assumes "alone c w s" "running (ctxs s c)"
  shows "\<exists>s'. loop_step file_kernel c () s = Some s'"
proof -
  define s1 where "s1 = upd_ctx c (\<lambda>x. x\<lparr>workaround := False\<rparr>) s"
  obtain ans s2 where d: "do_sys file_kernel (Epoll_wait (cfd (ctxs s1 c)) (-1)) s1 = (ans, s2)" by fastforce
  then have "ret ans = 0" by (auto simp: do_sys_def file_kernel_def Let_def)
  then have "loop (wait_round file_kernel c (-1)) s1 = Some (Some ans, s2)"
    using d by (intro loop_stop) (simp add: wait_round_def)
  moreover have "(if workaround (ctxs s c) then EV_FOREACH (workaround_body file_kernel (program_cb file_kernel) c) (watchers (ctxs s c)) (s, 0) else Some (s, 0)) = Some (s, 0)"
    using foreach_alone [OF assms(1)] by simp
  ultimately show ?thesis using assms by (simp add: loop_step_def run_round_def alone_def s1_def Let_def)
qed

theorem redirected_file_never_read_witness:
  "\<exists>s2 s3. run_start file_kernel 1 (snd (main_setup file_kernel 1 2 blank_world)) = Some s2 \<and>
    exec (loop_step file_kernel 1) [()] s2 = Some s3 \<and> no_read s3"
proof -
  have su: "alone 1 2 (snd (main_setup file_kernel 1 2 blank_world))"
    by (rule setup_alone [OF file_kernel_regular]) (simp_all add: blank_world_def)
  note st = start_alone [OF su]
  obtain s3 where "loop_step file_kernel 1 () (upd_ctx 1 (\<lambda>x. x\<lparr>running := True\<rparr>) (snd (main_setup file_kernel 1 2 blank_world))) = Some s3"
    using file_kernel_round [OF st(2)] by auto
  then have "exec (loop_step file_kernel 1) [()] (upd_ctx 1 (\<lambda>x. x\<lparr>running := True\<rparr>) (snd (main_setup file_kernel 1 2 blank_world))) = Some s3"
    by simp
  moreover have "calls blank_world = []" "(1::ptr) \<noteq> NULL" "(2::ptr) \<noteq> NULL" by (simp_all add: blank_world_def)
  ultimately show ?thesis using redirected_file_never_read [OF file_kernel_regular] st(1) by blast
qed

text \<open>
  \<open>EV_FOREACH\<close> skips the last watcher. On a well-formed list of watchers, with a body that does not
  relink it, the macro runs its body on all watchers except the last, and on none of a
  single-element list.
\<close>

theorem ev_foreach_skips_last:
  assumes "ev_list s c ps" "\<And>w x p. nxt (evs (fst (f w x)) p) = nxt (evs (fst x) p)"
  shows "EV_FOREACH f (watchers (ctxs s c)) (s, n) = Some (fold f (butlast ps) (s, n))"
  by (rule foreach_butlast [OF assms(2)]) (use assms(1) dl_chain in \<open>auto simp: ev_list_def\<close>)

theorem ev_foreach_skips_last_witness:
  "EV_FOREACH (\<lambda>w (s, n). (s, n + w)) 5 (EV_INSERT 5 1 (EV_INSERT 7 1 blank_world), 0) =
    Some (EV_INSERT 5 1 (EV_INSERT 7 1 blank_world), 5)"
proof -
  have "ev_list (EV_INSERT 5 1 (EV_INSERT 7 1 blank_world)) 1 [5, 7]"
    by (intro insert_list) (simp_all add: ev_list_def blank_world_def)
  moreover have "watchers (ctxs (EV_INSERT 5 1 (EV_INSERT 7 1 blank_world)) 1) = 5"
    by (simp add: EV_INSERT_def Let_def)
  ultimately show ?thesis
    using ev_foreach_skips_last [of "EV_INSERT 5 1 (EV_INSERT 7 1 blank_world)" 1 "[5, 7]" "\<lambda>w (s, n). (s, n + w)" 0]
    by (auto split: prod.splits)
qed

text \<open>
  C30: Starting and stopping keep the bookkeeping of a watcher whose flag is not -1, whatever the kernel
  answers: one that starts successfully is at the front of the list, once; one whose start fails is not
  added; one that is stopped is removed; the doubly linked list stays well-formed, and a watcher is on it
  exactly when its flag is not 0. For the flag -1, which \<open>start\<close> sets when \<open>epoll\<close> refuses a redirected
  standard input, this is not so: stopping reports success and changes nothing, so the watcher stays
  listed, and starting it again, when that succeeds, leaves no well-formed list (the chain of next
  pointers runs into a cycle); when it fails, nothing is changed.
\<close>

theorem watcher_list_kept:
  assumes "watch_ok s c ps" "w \<noteq> NULL" "wctx (evs s w) = c" "c \<noteq> NULL"
  shows "if 0 \<le> active (evs s w)
    then watch_ok (snd (ev_watcher_start sys w s)) c
        (if fst (ev_watcher_start sys w s) = 0 \<and> w \<notin> set ps then w # ps else ps) \<and>
      watch_ok (snd (ev_watcher_stop sys w s)) c (removeAll w ps)
    else w \<in> set ps \<and> ev_watcher_stop sys w s = (0, s) \<and>
      (if fst (ev_watcher_start sys w s) = 0
       then (\<nexists>qs. ev_list (snd (ev_watcher_start sys w s)) c qs)
       else watch_ok (snd (ev_watcher_start sys w s)) c ps)"
proof (cases "0 \<le> active (evs s w)")
  case True
  then show ?thesis
    using start_watch [OF assms(1-3) True assms(4), of sys] stop_watch [OF assms(1-3) True, of sys]
    by (metis prod.collapse)
next
  case False
  then have "w \<in> set ps" using assms unfolding watch_ok_def by simp
  moreover have "ev_watcher_stop sys w s = (0, s)" using False assms(2) by (simp add: ev_watcher_stop_def ev_watcher_active_def)
  moreover have "if r = 0 then \<not> ev_list s' c qs else watch_ok s' c ps" if "ev_watcher_start sys w s = (r, s')" for r s' qs
    using start_marked [OF assms(1-3) _ assms(4) that] False by simp
  ultimately show ?thesis using False by (cases "ev_watcher_start sys w s") auto
qed

text \<open>The watcher of standard input, redirected from a file, is started, stopped in vain and started again.\<close>

definition stdin_world :: world where
  "stdin_world = blank_world\<lparr>evs := (evs blank_world)(2 := (evs blank_world 2)\<lparr>wctx := 1, events := EV_READ\<rparr>)\<rparr>"

definition started_world :: world where
  "started_world = snd (ev_watcher_start file_kernel 2 stdin_world)"

theorem watcher_list_kept_witness:
  "watch_ok started_world 1 [2] \<and> ev_watcher_stop file_kernel 2 started_world = (0, started_world) \<and>
   (\<nexists>qs. ev_list (snd (ev_watcher_start file_kernel 2 started_world)) 1 qs)"
proof -
  have "watch_ok stdin_world 1 []" by (auto simp: watch_ok_def ev_list_def stdin_world_def blank_world_def)
  moreover have "wctx (evs stdin_world 2) = 1" "active (evs stdin_world 2) = 0"
    "fst (ev_watcher_start file_kernel 2 stdin_world) = 0"
    by (simp_all add: stdin_world_def blank_world_def ev_watcher_start_def ev_watcher_active_def do_sys_def file_kernel_def EPERM_def Let_def)
  ultimately have first: "watch_ok started_world 1 [2]"
    using watcher_list_kept [of stdin_world 1 "[]" 2 file_kernel] by (simp add: started_world_def)
  have "wctx (evs started_world 2) = 1" "active (evs started_world 2) = -1"
    "fst (ev_watcher_start file_kernel 2 started_world) = 0"
    by (simp_all add: started_world_def stdin_world_def blank_world_def ev_watcher_start_def ev_watcher_active_def do_sys_def
        file_kernel_def EV_INSERT_def upd_ev_def upd_ctx_def EPERM_def Let_def)
  then show ?thesis using first watcher_list_kept [OF first, of 2 file_kernel] by simp
qed

text \<open>
  The conversion of milliseconds is exact, and the nanoseconds stay in the range the kernel accepts.
\<close>

theorem ms2ts_exact:
  assumes "0 \<le> ms"
  shows "tv_sec (ms2ts ms) * 1000000000 + tv_nsec (ms2ts ms) = ms * 1000000 \<and>
    0 \<le> tv_nsec (ms2ts ms) \<and> tv_nsec (ms2ts ms) < 1000000000"
proof (cases "ms = 0")
  case False
  then have "sgn ms = 1" "\<bar>ms\<bar> = ms" using assms by auto
  then show ?thesis using False by (simp add: ms2ts_def) presburger
qed (simp add: ms2ts_def)

theorem ms2ts_exact_witness: "tv_sec (ms2ts 1500) = 1 \<and> tv_nsec (ms2ts 1500) = 500000000"
  using ms2ts_exact [of 1500] by (simp add: ms2ts_def)

text \<open>
  The mutual recursion of the timer functions ends: three levels are enough for
  \<open>ev_timer_set\<close>, whatever the kernel answers, and more fuel does not change the result.
\<close>

theorem ev_timer_set_terminates:
  "\<exists>x. \<forall>n. ev_timer_set (n + 3) sys w t p s = Some x"
proof -
  obtain x where x: "ev_timer_set (Suc (Suc (Suc 0))) sys w t p s = Some x"
    using timer_set_fuel [of 0 sys w t p s] by blast
  have "ev_timer_set (n + 3) sys w t p s = Some x" for n
  proof -
    have "n + 3 = Suc (Suc (Suc n))" by simp
    then show ?thesis using timer_set_fuel [of n sys w t p s] x by (simp only:)
  qed
  then show ?thesis by blast
qed

end
