(* ===== verification/Cmap.thy ===== *)
theory Cmap
  imports Prelude
begin

text \<open>
  The concurrent map of \<^verbatim>\<open>cmap/\<close>: the locks of \<^verbatim>\<open>locks.h\<close>, the reference-counted pointers of
  \<^verbatim>\<open>rcu.c\<close> with their postponed callbacks, and the resizable hash table of \<^verbatim>\<open>cmap.c\<close> with its
  iteration cursors. Tables, reference-counted pointers and nodes live in heaps; an address that is
  not allocated (or freed) maps to \<open>None\<close>, so that using it is a failure, and so are a violated
  \<open>ASSERT\<close> and waiting for something nobody will do. Each operation is one atomic step. The
  addresses \<open>xmalloc\<close> returns are parameters.

  The theorems: insertion, expansion included, and removal refine a finite set of nodes; iteration over an
  acquired state, with any number of other readers, visits every node exactly once and ends.
\<close>

section \<open>Locks\<close>

text \<open>The \<open>where\<close> members only serve diagnostics and are left out.\<close>

record spinlock =
  svalue :: u32

definition spinlock_init :: spinlock where
  "spinlock_init = \<lparr>svalue = 0\<rparr>"

definition spinlock_destroy :: "spinlock \<Rightarrow> unit option" where
  "spinlock_destroy l = (if svalue l = 0 then Some () else None)"

definition spinlock_lock_at :: "spinlock \<Rightarrow> spinlock option" where
  "spinlock_lock_at = loop (\<lambda>l. if svalue l = 0 then Some (Inr (l\<lparr>svalue := 1\<rparr>)) else Some (Inl l))"

definition spinlock_unlock :: "spinlock \<Rightarrow> spinlock option" where
  "spinlock_unlock l = (if svalue l = 1 then Some (l\<lparr>svalue := 0\<rparr>) else None)"

record cond =
  cvalue :: u32

definition cond_init :: cond where
  "cond_init = \<lparr>cvalue = 0\<rparr>"

definition cond_destroy :: "cond \<Rightarrow> unit option" where
  "cond_destroy c = (if cvalue c = 0 then Some () else None)"

text \<open>With nobody else running, a wait on a set value never returns.\<close>

definition cond_wait_at :: "cond \<Rightarrow> cond option" where
  "cond_wait_at = loop (\<lambda>c. if cvalue c = 0 then Some (Inr c) else Some (Inl c))"

definition cond_lock_at :: "cond \<Rightarrow> cond" where
  "cond_lock_at c = c\<lparr>cvalue := 1\<rparr>"

definition cond_is_locked :: "cond \<Rightarrow> bool" where
  "cond_is_locked c \<longleftrightarrow> cvalue c = 1"

definition cond_unlock :: "cond \<Rightarrow> cond" where
  "cond_unlock c = c\<lparr>cvalue := 0\<rparr>"

section \<open>State\<close>

record cmap_node =
  nnext :: ptr
  hash :: u32

record cmap_impl =
  arr :: "ptr list"
  ccount :: u64
  cmax :: u64
  utilization :: u64
  fence :: cond

text \<open>The two callbacks the map postpones, with their arguments.\<close>

datatype rcu_cb = Expand_cb ptr ptr | Destroy_cb ptr

record rcu =
  cb_list :: "rcu_cb list"
  rlock :: spinlock
  rptr :: ptr
  counter :: u32

record world =
  nodes :: "ptr \<Rightarrow> cmap_node"
  impls :: "ptr \<Rightarrow> cmap_impl option"
  rcus :: "ptr \<Rightarrow> rcu option"
  cur :: ptr

definition set_impl :: "ptr \<Rightarrow> cmap_impl \<Rightarrow> world \<Rightarrow> world" where
  "set_impl i m s = s\<lparr>impls := (impls s)(i \<mapsto> m)\<rparr>"

definition set_rcu :: "ptr \<Rightarrow> rcu \<Rightarrow> world \<Rightarrow> world" where
  "set_rcu r x s = s\<lparr>rcus := (rcus s)(r \<mapsto> x)\<rparr>"

section \<open>The table\<close>

definition slot :: "cmap_impl \<Rightarrow> u32 \<Rightarrow> nat" where
  "slot m h = unat (ucast h AND cmax m)"

definition cmap_insert_impl :: "ptr \<Rightarrow> ptr \<Rightarrow> world \<Rightarrow> world option" where
  "cmap_insert_impl i node s = do {
     m \<leftarrow> impls s i;
     let k = slot m (hash (nodes s node));
     f \<leftarrow> load_at (arr m) k;
     let s = s\<lparr>nodes := (nodes s)(node := (nodes s node)\<lparr>nnext := f\<rparr>)\<rparr>;
     let m = (if f = NULL then m\<lparr>utilization := utilization m + 1\<rparr> else m);
     Some (set_impl i (m\<lparr>arr := (arr m)[k := node]\<rparr>) s)
   }"

text \<open>The indices of the two loops over entries are of type \<open>int\<close>, so tables of \<open>2 ^ 31\<close> entries overflow it.\<close>

definition cmap_impl_init :: "ptr \<Rightarrow> nat \<Rightarrow> world \<Rightarrow> world option" where
  "cmap_impl_init i entry_num s = (if 2 ^ 31 \<le> entry_num then None else
     Some (set_impl i \<lparr>arr = replicate entry_num NULL, ccount = 0, cmax = of_nat entry_num - 1, utilization = 0,
       fence = cond_init\<rparr> s))"

text \<open>The inner loop of the rehash moves one chain.\<close>

definition rehash_chain :: "ptr \<Rightarrow> ptr \<Rightarrow> world \<Rightarrow> world option" where
  "rehash_chain new c s = loop (\<lambda>(c, s).
     if c = NULL then Some (Inr s)
     else do {
       let n = nnext (nodes s c);
       s \<leftarrow> cmap_insert_impl new c s;
       Some (Inl (n, s))
     }) (c, s)"

fun rehash :: "ptr \<Rightarrow> ptr \<Rightarrow> nat list \<Rightarrow> world \<Rightarrow> world option" where
  "rehash old new [] s = Some s"
| "rehash old new (i # is) s = do {
     m \<leftarrow> impls s old;
     f \<leftarrow> load_at (arr m) i;
     s \<leftarrow> rehash_chain new f s;
     rehash old new is s
   }"

definition cmap_expand_callback :: "ptr \<Rightarrow> ptr \<Rightarrow> world \<Rightarrow> world option" where
  "cmap_expand_callback old new s = do {
     mo \<leftarrow> impls s old;
     s \<leftarrow> (if 2 ^ 31 - 1 \<le> cmax mo then None else rehash old new [0..<Suc (unat (cmax mo))] s);
     mn \<leftarrow> impls s new;
     let s = set_impl new (mn\<lparr>fence := cond_unlock (fence mn)\<rparr>) s;
     Some (s\<lparr>impls := (impls s)(old := None)\<rparr>)
   }"

definition cmap_destroy_callback :: "ptr \<Rightarrow> world \<Rightarrow> world option" where
  "cmap_destroy_callback i s = do {
     m \<leftarrow> impls s i;
     u \<leftarrow> cond_destroy (fence m);
     Some (s\<lparr>impls := (impls s)(i := None)\<rparr>)
   }"

section \<open>Reference-counted pointers\<close>

definition rcu_allocate_new :: "ptr \<Rightarrow> ptr \<Rightarrow> world \<Rightarrow> world" where
  "rcu_allocate_new r val s = set_rcu r \<lparr>cb_list = [], rlock = spinlock_init, rptr = val, counter = 1\<rparr> s"

fun run_cb :: "rcu_cb \<Rightarrow> world \<Rightarrow> world option" where
  "run_cb (Expand_cb old new) s = cmap_expand_callback old new s"
| "run_cb (Destroy_cb i) s = cmap_destroy_callback i s"

fun run_cbs :: "rcu_cb list \<Rightarrow> world \<Rightarrow> world option" where
  "run_cbs [] s = Some s"
| "run_cbs (c # cs) s = do { s \<leftarrow> run_cb c s; run_cbs cs s }"

definition rcu_free :: "ptr \<Rightarrow> world \<Rightarrow> world option" where
  "rcu_free r s = do {
     x \<leftarrow> rcus s r;
     s \<leftarrow> run_cbs (cb_list x) s;
     u \<leftarrow> spinlock_destroy (rlock x);
     Some (s\<lparr>rcus := (rcus s)(r := None)\<rparr>)
   }"

definition rcu_init :: "ptr \<Rightarrow> ptr \<Rightarrow> world \<Rightarrow> world" where
  "rcu_init r val s = (rcu_allocate_new r val s)\<lparr>cur := r\<rparr>"

definition rcu_destroy :: "ptr \<Rightarrow> world \<Rightarrow> world option" where
  "rcu_destroy r s = do {
     x \<leftarrow> rcus s r;
     let s = set_rcu r (x\<lparr>counter := counter x - 1\<rparr>) s;
     if counter x = 1 then rcu_free r s else None
   }"

definition rcu_acquire :: "world \<Rightarrow> (ptr \<times> world) option" where
  "rcu_acquire s = do {
     x \<leftarrow> rcus s (cur s);
     Some (cur s, set_rcu (cur s) (x\<lparr>counter := counter x + 1\<rparr>) s)
   }"

definition rcu_release :: "ptr \<Rightarrow> world \<Rightarrow> world option" where
  "rcu_release r s = do {
     x \<leftarrow> rcus s r;
     let s = set_rcu r (x\<lparr>counter := counter x - 1\<rparr>) s;
     if counter x = 1 then rcu_free r s else Some s
   }"

definition rcu_get :: "ptr \<Rightarrow> world \<Rightarrow> ptr option" where
  "rcu_get r s = map_option rptr (rcus s r)"

definition rcu_set :: "ptr \<Rightarrow> ptr \<Rightarrow> world \<Rightarrow> world option" where
  "rcu_set pr val s = (let old = cur s in rcu_release old ((rcu_allocate_new pr val s)\<lparr>cur := pr\<rparr>))"

definition rcu_postpone :: "ptr \<Rightarrow> rcu_cb \<Rightarrow> world \<Rightarrow> world option" where
  "rcu_postpone r cb s = do {
     x \<leftarrow> rcus s r;
     l \<leftarrow> spinlock_lock_at (rlock x);
     let x = x\<lparr>rlock := l, cb_list := cb_list x @ [cb]\<rparr>;
     l \<leftarrow> spinlock_unlock (rlock x);
     Some (set_rcu r (x\<lparr>rlock := l\<rparr>) s)
   }"

section \<open>Operations\<close>

text \<open>
  Expansion; \<open>pi\<close> and \<open>pr\<close> are the addresses of the new table and of the new counted pointer. The wait
  for a pending expansion cannot end here, so it is a failure.
\<close>

definition cmap_expand :: "ptr \<Rightarrow> ptr \<Rightarrow> world \<Rightarrow> world option" where
  "cmap_expand pi pr s = do {
     (r, s) \<leftarrow> rcu_acquire s;
     old \<leftarrow> rcu_get r s;
     mo \<leftarrow> impls s old;
     if cond_is_locked (fence mo) then do {
       s \<leftarrow> rcu_release r s;
       c \<leftarrow> cond_wait_at (fence mo);
       None
     } else do {
       s \<leftarrow> cmap_impl_init pi ((unat (cmax mo) + 1) * 2) s;
       mn \<leftarrow> impls s pi;
       let s = set_impl pi (mn\<lparr>ccount := ccount mo, fence := cond_lock_at (fence mn)\<rparr>) s;
       s \<leftarrow> rcu_postpone r (Expand_cb old pi) s;
       s \<leftarrow> rcu_release r s;
       rcu_set pr pi s
     }
   }"

definition MAP_INITIAL_SIZE :: nat where "MAP_INITIAL_SIZE = 512"

definition cmap_init :: "ptr \<Rightarrow> ptr \<Rightarrow> world \<Rightarrow> world option" where
  "cmap_init pi pr s = do { s \<leftarrow> cmap_impl_init pi MAP_INITIAL_SIZE s; Some (rcu_init pr pi s) }"

definition cmap_destroy :: "world \<Rightarrow> world option" where
  "cmap_destroy s = do {
     (r, s) \<leftarrow> rcu_acquire s;
     i \<leftarrow> rcu_get r s;
     s \<leftarrow> rcu_postpone r (Destroy_cb i) s;
     s \<leftarrow> rcu_release r s;
     rcu_destroy r s
   }"

definition cmap_size :: "world \<Rightarrow> (u64 \<times> world) option" where
  "cmap_size s = do {
     (r, s) \<leftarrow> rcu_acquire s;
     i \<leftarrow> rcu_get r s;
     m \<leftarrow> impls s i;
     let count = ccount m;
     s \<leftarrow> rcu_release r s;
     Some (count, s)
   }"

definition cmap_insert :: "ptr \<Rightarrow> ptr \<Rightarrow> ptr \<Rightarrow> u32 \<Rightarrow> world \<Rightarrow> (u64 \<times> world) option" where
  "cmap_insert pi pr node h s = do {
     let s = s\<lparr>nodes := (nodes s)(node := (nodes s node)\<lparr>hash := h\<rparr>)\<rparr>;
     (r, s) \<leftarrow> rcu_acquire s;
     i \<leftarrow> rcu_get r s;
     s \<leftarrow> cmap_insert_impl i node s;
     m \<leftarrow> impls s i;
     let m = m\<lparr>ccount := ccount m + 1\<rparr>;
     let s = set_impl i m s;
     let count = ccount m;
     let expand = (ccount m > cmax m * 2);
     s \<leftarrow> rcu_release r s;
     s \<leftarrow> (if expand then cmap_expand pi pr s else Some s);
     Some (count, s)
   }"





section \<open>Reading\<close>

record cmap_cursor =
  cnode :: ptr
  cnext :: ptr
  entry_idx :: u64
  accross_entries :: bool

definition cmap_state_acquire :: "world \<Rightarrow> (ptr \<times> world) option" where
  "cmap_state_acquire s = rcu_acquire s"

definition cmap_state_release :: "ptr \<Rightarrow> world \<Rightarrow> world option" where
  "cmap_state_release r s = rcu_release r s"

definition cmap_find :: "ptr \<Rightarrow> u32 \<Rightarrow> world \<Rightarrow> cmap_cursor option" where
  "cmap_find r h s = do {
     i \<leftarrow> rcu_get r s;
     m \<leftarrow> impls s i;
     c \<leftarrow> cond_wait_at (fence m);
     f \<leftarrow> load_at (arr m) (slot m h);
     Some \<lparr>cnode = f, cnext = (if f \<noteq> NULL then nnext (nodes s f) else NULL),
       entry_idx = ucast h AND cmax m, accross_entries = False\<rparr>
   }"

definition next_entry :: "cmap_impl \<Rightarrow> world \<Rightarrow> cmap_cursor \<Rightarrow> (cmap_cursor + cmap_cursor) option" where
  "next_entry m s cursor = (
       if accross_entries cursor then
         let cursor = cursor\<lparr>entry_idx := entry_idx cursor + 1\<rparr> in
         if entry_idx cursor > cmax m then Some (Inr (cursor\<lparr>cnode := NULL, cnext := NULL\<rparr>))
         else do {
           f \<leftarrow> load_at (arr m) (unat (entry_idx cursor));
           let cursor = cursor\<lparr>cnode := f\<rparr>;
           if f \<noteq> NULL then Some (Inr (cursor\<lparr>cnext := nnext (nodes s f)\<rparr>)) else Some (Inl cursor)
         }
       else Some (Inr (cursor\<lparr>cnode := NULL, cnext := NULL\<rparr>)))"

definition cmap_next :: "ptr \<Rightarrow> world \<Rightarrow> cmap_cursor \<Rightarrow> cmap_cursor option" where
  "cmap_next r s cursor = do {
     i \<leftarrow> rcu_get r s;
     m \<leftarrow> impls s i;
     let cursor = cursor\<lparr>cnode := cnext cursor\<rparr>;
     if cnode cursor \<noteq> NULL then Some (cursor\<lparr>cnext := nnext (nodes s (cnode cursor))\<rparr>)
     else loop (next_entry m s) cursor
   }"

definition cmap_start :: "ptr \<Rightarrow> world \<Rightarrow> cmap_cursor option" where
  "cmap_start r s = do {
     cursor \<leftarrow> cmap_find r 0 s;
     let cursor = cursor\<lparr>accross_entries := True\<rparr>;
     if cnode cursor = NULL then cmap_next r s cursor else Some cursor
   }"

text \<open>The iteration macro, collecting the nodes it visits.\<close>

definition MAP_FOREACH_from :: "ptr \<Rightarrow> world \<Rightarrow> cmap_cursor \<Rightarrow> ptr list option" where
  "MAP_FOREACH_from r s start = loop (\<lambda>(cursor, seen).
     if cnode cursor = NULL then Some (Inr seen)
     else do {
       let seen = seen @ [cnode cursor];
       cursor \<leftarrow> cmap_next r s cursor;
       Some (Inl (cursor, seen))
     }) (start, [])"

definition MAP_FOREACH :: "ptr \<Rightarrow> world \<Rightarrow> ptr list option" where
  "MAP_FOREACH r s = do { start \<leftarrow> cmap_start r s; MAP_FOREACH_from r s start }"

definition MAP_FOREACH_WITH_HASH :: "ptr \<Rightarrow> u32 \<Rightarrow> world \<Rightarrow> ptr list option" where
  "MAP_FOREACH_WITH_HASH r h s = do { start \<leftarrow> cmap_find r h s; MAP_FOREACH_from r s start }"

section \<open>Well-formed tables\<close>

definition table_ok :: "cmap_impl \<Rightarrow> (ptr \<Rightarrow> cmap_node) \<Rightarrow> ptr list list \<Rightarrow> nat \<Rightarrow> bool" where
  "table_ok m ns L k \<longleftrightarrow> k \<le> 30 \<and> cmax m = 2 ^ k - 1 \<and> length (arr m) = 2 ^ k \<and> length L = 2 ^ k \<and>
     distinct (concat L) \<and>
     (\<forall>j < 2 ^ k. chain (\<lambda>p. nnext (ns p)) (arr m ! j) (L ! j) NULL \<and>
       (\<forall>p \<in> set (L ! j). slot m (hash (ns p)) = j))"

lemma slot_less: "table_ok m ns L k \<Longrightarrow> slot m h < 2 ^ k"
  by (simp add: table_ok_def slot_def unat_and_mask_eq)

lemma slot_cong: "cmax m' = cmax m \<Longrightarrow> slot m' = slot m"
  by (simp add: slot_def fun_eq_iff)

lemma table_ok_cong: "arr m' = arr m \<Longrightarrow> cmax m' = cmax m \<Longrightarrow> table_ok m' ns L k = table_ok m ns L k"
  by (simp add: table_ok_def slot_cong [of m' m])

lemma in_concat_nth: "j < length L \<Longrightarrow> p \<in> set (L ! j) \<Longrightarrow> p \<in> set (concat L)"
  by auto

lemma concat_update:
  "j < length L \<Longrightarrow> set (concat (L[j := x # L ! j])) = insert x (set (concat L)) \<and>
    (x \<notin> set (concat L) \<longrightarrow> distinct (concat L) \<longrightarrow> distinct (concat (L[j := x # L ! j])))"
proof (induction L arbitrary: j)
  case (Cons ys L)
  then show ?case by (cases j) auto
qed simp

lemma table_okD:
  assumes "table_ok m ns L k"
  shows "k \<le> 30" "cmax m = 2 ^ k - 1" "length (arr m) = 2 ^ k" "length L = 2 ^ k" "distinct (concat L)"
    "\<And>j. j < 2 ^ k \<Longrightarrow> chain (\<lambda>p. nnext (ns p)) (arr m ! j) (L ! j) NULL"
    "\<And>j p. j < 2 ^ k \<Longrightarrow> p \<in> set (L ! j) \<Longrightarrow> slot m (hash (ns p)) = j"
  using assms by (simp_all add: table_ok_def)

lemma insert_table:
  assumes t: "table_ok m ns L k" and n: "node \<noteq> NULL" "node \<notin> set (concat L)" and j: "j = slot m (hash (ns node))"
    and m': "cmax m' = cmax m" "arr m' = (arr m)[j := node]"
    and ns': "ns' = ns(node := (ns node)\<lparr>nnext := arr m ! j\<rparr>)"
  shows "table_ok m' ns' (L[j := node # L ! j]) k"
proof -
  have jk: "j < 2 ^ k" using slot_less [OF t] j by simp
  note tt = table_okD [OF t]
  have h: "hash (ns' p) = hash (ns p)" for p using ns' by simp
  have sl: "slot m' = slot m" by (rule slot_cong [OF m'(1)])
  have "chain (\<lambda>p. nnext (ns' p)) (arr m' ! i) (L[j := node # L ! j] ! i) NULL \<and>
      (\<forall>p \<in> set (L[j := node # L ! j] ! i). slot m' (hash (ns' p)) = i)" if i: "i < 2 ^ k" for i
  proof -
    have out: "node \<notin> set (L ! i)" using n(2) in_concat_nth [of i L node] i tt(4) by metis
    have c: "chain (\<lambda>p. nnext (ns' p)) (arr m ! i) (L ! i) NULL"
      by (rule chain_cong [OF tt(6) [OF i]]) (use out ns' in auto)
    show ?thesis
    proof (cases "i = j")
      case True
      have "arr m' ! i = node" "L[j := node # L ! j] ! i = node # L ! i" "nnext (ns' node) = arr m ! i"
        using True m'(2) jk tt(3,4) ns' by simp_all
      then show ?thesis using c n(1) tt(7) [OF i] h sl True j by simp
    next
      case False
      have "arr m' ! i = arr m ! i" "L[j := node # L ! j] ! i = L ! i" using False m'(2) by simp_all
      then show ?thesis using c tt(7) [OF i] h sl by simp
    qed
  qed
  then show ?thesis using tt(1-5) m' jk concat_update [of j L node] n(2) by (simp add: table_ok_def)
qed

text \<open>What a step keeps besides the table it changes.\<close>

definition same_world :: "world \<Rightarrow> world \<Rightarrow> ptr \<Rightarrow> bool" where
  "same_world s' s i \<longleftrightarrow> rcus s' = rcus s \<and> cur s' = cur s \<and> (\<forall>x. x \<noteq> i \<longrightarrow> impls s' x = impls s x) \<and>
     (\<forall>p. hash (nodes s' p) = hash (nodes s p))"

definition same_meta :: "cmap_impl \<Rightarrow> cmap_impl \<Rightarrow> bool" where
  "same_meta m' m \<longleftrightarrow> cmax m' = cmax m \<and> ccount m' = ccount m \<and> fence m' = fence m"

lemma insert_step:
  assumes i: "impls s i = Some m" and t: "table_ok m (nodes s) L k" and n: "node \<noteq> NULL" "node \<notin> set (concat L)"
  shows "\<exists>s' m' j. cmap_insert_impl i node s = Some s' \<and> impls s' i = Some m' \<and> same_meta m' m \<and> same_world s' s i \<and>
    j < length L \<and> table_ok m' (nodes s') (L[j := node # L ! j]) k \<and> (\<forall>p. p \<noteq> node \<longrightarrow> nodes s' p = nodes s p)"
proof -
  define j where "j = slot m (hash (nodes s node))"
  have jk: "j < 2 ^ k" using slot_less [OF t] by (simp add: j_def)
  then have jl: "j < length (arr m)" "j < length L" using t by (simp_all add: table_ok_def)
  define m1 where "m1 = (if arr m ! j = NULL then m\<lparr>utilization := utilization m + 1\<rparr> else m)"
  define m' where "m' = m1\<lparr>arr := (arr m)[j := node]\<rparr>"
  define s' where "s' = set_impl i m' (s\<lparr>nodes := (nodes s)(node := (nodes s node)\<lparr>nnext := arr m ! j\<rparr>)\<rparr>)"
  have "cmap_insert_impl i node s = Some s'"
    using i jl by (simp add: cmap_insert_impl_def j_def [symmetric] s'_def m'_def m1_def Let_def)
  moreover have "impls s' i = Some m'" by (simp add: s'_def set_impl_def)
  moreover have "same_meta m' m" by (simp add: same_meta_def m'_def m1_def)
  moreover have "same_world s' s i" by (simp add: same_world_def s'_def set_impl_def)
  moreover have "table_ok m' (nodes s') (L[j := node # L ! j]) k"
    by (rule insert_table [OF t n j_def]) (simp_all add: m'_def m1_def s'_def set_impl_def)
  moreover have "\<forall>p. p \<noteq> node \<longrightarrow> nodes s' p = nodes s p" by (simp add: s'_def set_impl_def)
  ultimately show ?thesis using jl(2) by blast
qed

section \<open>Rehashing\<close>

lemma same_world_trans: "same_world s2 s1 i \<Longrightarrow> same_world s1 s i \<Longrightarrow> same_world s2 s i"
  by (simp add: same_world_def)

lemma same_meta_trans: "same_meta m2 m1 \<Longrightarrow> same_meta m1 m \<Longrightarrow> same_meta m2 m"
  by (simp add: same_meta_def)

lemma rehash_chain_step:
  assumes i: "impls s new = Some m" and t: "table_ok m (nodes s) L k"
    and c: "chain (\<lambda>p. nnext (nodes s p)) c ps NULL" and d: "set ps \<inter> set (concat L) = {}"
  shows "\<exists>s' m' L'. rehash_chain new c s = Some s' \<and> impls s' new = Some m' \<and> same_meta m' m \<and> same_world s' s new \<and>
    table_ok m' (nodes s') L' k \<and> set (concat L') = set ps \<union> set (concat L) \<and> (\<forall>p. p \<notin> set ps \<longrightarrow> nodes s' p = nodes s p)"
  using assms
proof (induction ps arbitrary: c s m L)
  case Nil
  then have "rehash_chain new c s = Some s" unfolding rehash_chain_def by (intro loop_stop) simp
  then show ?case using Nil by (auto simp: same_meta_def same_world_def)
next
  case (Cons p ps)
  have p: "c = p" "p \<noteq> NULL" "chain (\<lambda>q. nnext (nodes s q)) (nnext (nodes s p)) ps NULL" using Cons.prems(3) by auto
  have dp: "p \<notin> set ps" using chain_distinct [OF Cons.prems(3)] by simp
  obtain s1 m1 j where s1: "cmap_insert_impl new p s = Some s1" "impls s1 new = Some m1" "same_meta m1 m"
    "same_world s1 s new" "j < length L" "table_ok m1 (nodes s1) (L[j := p # L ! j]) k" "\<forall>q. q \<noteq> p \<longrightarrow> nodes s1 q = nodes s q"
    using insert_step [OF Cons.prems(1,2) p(2)] Cons.prems(4) by auto
  have cc: "set (concat (L[j := p # L ! j])) = insert p (set (concat L))" using concat_update [OF s1(5), of p] by blast
  have "chain (\<lambda>q. nnext (nodes s1 q)) (nnext (nodes s p)) ps NULL"
    by (rule chain_cong [OF p(3)]) (use s1(7) dp in auto)
  moreover have "set ps \<inter> set (concat (L[j := p # L ! j])) = {}" unfolding cc using Cons.prems(4) dp by auto
  ultimately obtain s2 m2 L2 where s2: "rehash_chain new (nnext (nodes s p)) s1 = Some s2" "impls s2 new = Some m2"
    "same_meta m2 m1" "same_world s2 s1 new" "table_ok m2 (nodes s2) L2 k"
    "set (concat L2) = set ps \<union> set (concat (L[j := p # L ! j]))" "\<forall>q. q \<notin> set ps \<longrightarrow> nodes s2 q = nodes s1 q"
    using Cons.IH [OF s1(2,6)] by blast
  have "rehash_chain new c s = rehash_chain new (nnext (nodes s p)) s1"
    using p s1(1) unfolding rehash_chain_def by (subst loop_next) (simp_all add: Let_def)
  then have "rehash_chain new c s = Some s2" using s2(1) by simp
  moreover have "set (concat L2) = set (p # ps) \<union> set (concat L)" unfolding s2(6) cc by auto
  moreover have "\<forall>q. q \<notin> set (p # ps) \<longrightarrow> nodes s2 q = nodes s q" using s1(7) s2(7) by auto
  ultimately show ?case
    using s2(2,5) same_meta_trans [OF s2(3) s1(3)] same_world_trans [OF s2(4) s1(4)] by blast
qed

lemma rehash_all:
  assumes "impls s old = Some mo" "old \<noteq> new" "impls s new = Some m" "table_ok m (nodes s) L k"
    and "\<And>j. j \<in> set js \<Longrightarrow> j < length (arr mo) \<and> chain (\<lambda>p. nnext (nodes s p)) (arr mo ! j) (Lo j) NULL"
    and "distinct (concat (map Lo js))" "set (concat (map Lo js)) \<inter> set (concat L) = {}"
  shows "\<exists>s' m' L'. rehash old new js s = Some s' \<and> impls s' new = Some m' \<and> same_meta m' m \<and> same_world s' s new \<and>
    table_ok m' (nodes s') L' k \<and> set (concat L') = set (concat (map Lo js)) \<union> set (concat L)"
  using assms
proof (induction js arbitrary: s m L)
  case Nil
  then show ?case by (auto simp: same_meta_def same_world_def)
next
  case (Cons j js)
  have j: "j < length (arr mo)" "chain (\<lambda>p. nnext (nodes s p)) (arr mo ! j) (Lo j) NULL" using Cons.prems(5) by auto
  have "set (Lo j) \<inter> set (concat L) = {}" using Cons.prems(7) by auto
  then obtain s1 m1 L1 where s1: "rehash_chain new (arr mo ! j) s = Some s1" "impls s1 new = Some m1" "same_meta m1 m"
    "same_world s1 s new" "table_ok m1 (nodes s1) L1 k" "set (concat L1) = set (Lo j) \<union> set (concat L)"
    "\<forall>p. p \<notin> set (Lo j) \<longrightarrow> nodes s1 p = nodes s p"
    using rehash_chain_step [OF Cons.prems(3,4) j(2)] by blast
  have o1: "impls s1 old = Some mo" using s1(4) Cons.prems(1,2) by (simp add: same_world_def)
  have ch: "i < length (arr mo) \<and> chain (\<lambda>p. nnext (nodes s1 p)) (arr mo ! i) (Lo i) NULL" if i: "i \<in> set js" for i
  proof
    show "i < length (arr mo)" using Cons.prems(5) [of i] i by simp
    have "chain (\<lambda>p. nnext (nodes s p)) (arr mo ! i) (Lo i) NULL" using Cons.prems(5) [of i] i by simp
    then show "chain (\<lambda>p. nnext (nodes s1 p)) (arr mo ! i) (Lo i) NULL"
    proof (rule chain_cong)
      fix a assume "a \<in> set (Lo i)"
      then have "a \<in> set (concat (map Lo js))" using i by auto
      then have "a \<notin> set (Lo j)" using Cons.prems(6) by auto
      then show "nnext (nodes s1 a) = nnext (nodes s a)" using s1(7) by simp
    qed
  qed
  have d1: "distinct (concat (map Lo js))" using Cons.prems(6) by simp
  have i1: "set (concat (map Lo js)) \<inter> set (concat L1) = {}" unfolding s1(6) using Cons.prems(6,7) by auto
  obtain s2 m2 L2 where s2: "rehash old new js s1 = Some s2" "impls s2 new = Some m2" "same_meta m2 m1"
    "same_world s2 s1 new" "table_ok m2 (nodes s2) L2 k" "set (concat L2) = set (concat (map Lo js)) \<union> set (concat L1)"
    using Cons.IH [OF o1 Cons.prems(2) s1(2,5) ch d1 i1] by blast
  have "rehash old new (j # js) s = Some s2" using Cons.prems(1) j(1) s1(1) s2(1) by simp
  moreover have "set (concat L2) = set (concat (map Lo (j # js))) \<union> set (concat L)" unfolding s2(6) s1(6) by auto
  ultimately show ?case
    using s2(2,5) same_meta_trans [OF s2(3) s1(3)] same_world_trans [OF s2(4) s1(4)] by blast
qed

lemma map_nth_self: "map (\<lambda>j. xs ! j) [0..<length xs] = xs"
  by (rule nth_equalityI) simp_all

lemma unat_cmax: "table_ok m ns L k \<Longrightarrow> unat (cmax m) = 2 ^ k - 1"
  using table_okD(1,2) [of m ns L k] unat_pow2_minus_1 [where 'a = 64, of k] by simp

lemma empty_table:
  assumes "k \<le> 30"
  shows "table_ok \<lparr>arr = replicate (2 ^ k) NULL, ccount = c, cmax = of_nat (2 ^ k) - 1, utilization = u, fence = f\<rparr> ns
    (replicate (2 ^ k) []) k"
  using assms by (simp add: table_ok_def)

lemma expand_callback_step:
  assumes o: "impls s old = Some mo" "table_ok mo (nodes s) Lo k" and ne: "old \<noteq> new"
    and n: "impls s new = Some m" "table_ok m (nodes s) (replicate (2 ^ k') []) k'"
  shows "\<exists>s' m' L. cmap_expand_callback old new s = Some s' \<and> rcus s' = rcus s \<and> cur s' = cur s \<and>
    impls s' old = None \<and> impls s' new = Some m' \<and> table_ok m' (nodes s') L k' \<and> fence m' = cond_unlock (fence m) \<and>
    ccount m' = ccount m \<and> set (concat L) = set (concat Lo) \<and> (\<forall>p. hash (nodes s' p) = hash (nodes s p))"
proof -
  note t = table_okD [OF o(2)]
  have js: "[0..<Suc (unat (cmax mo))] = [0..<length Lo]" using unat_cmax [OF o(2)] t(4) by simp
  have c: "concat (map ((!) Lo) [0..<length Lo]) = concat Lo" by (simp add: map_nth_self)
  obtain s1 m1 L where s1: "rehash old new [0..<length Lo] s = Some s1" "impls s1 new = Some m1" "same_meta m1 m"
    "same_world s1 s new" "table_ok m1 (nodes s1) L k'" "set (concat L) = set (concat (map ((!) Lo) [0..<length Lo])) \<union> set (concat (replicate (2 ^ k') []))"
    using rehash_all [OF o(1) ne n, of "[0..<length Lo]" "(!) Lo"] t c by auto
  define m2 where "m2 = m1\<lparr>fence := cond_unlock (fence m1)\<rparr>"
  define s2 where "s2 = (set_impl new m2 s1)\<lparr>impls := (impls (set_impl new m2 s1))(old := None)\<rparr>"
  have "(2::nat) ^ k \<le> 2 ^ 30" using t(1) by (intro power_increasing) simp_all
  then have "\<not> 2 ^ 31 - 1 \<le> cmax mo" using unat_cmax [OF o(2)] by (simp add: word_le_nat_alt)
  then have "cmap_expand_callback old new s = Some s2"
    using o(1) s1(1,2) js by (simp add: cmap_expand_callback_def s2_def m2_def Let_def)
  moreover have "table_ok m2 (nodes s2) L k'"
    using s1(5) table_ok_cong [of m2 m1] by (simp add: m2_def s2_def set_impl_def)
  moreover have "set (concat L) = set (concat Lo)" using s1(6) c by simp
  ultimately show ?thesis
    using s1(3,4) ne by (auto simp: s2_def m2_def set_impl_def same_world_def same_meta_def)
qed

section \<open>The map as a set of nodes\<close>

text \<open>Nobody reads, no expansion is pending, and the current table holds exactly the nodes \<open>N\<close>.\<close>

definition idle_rcu :: "ptr \<Rightarrow> rcu" where
  "idle_rcu i = \<lparr>cb_list = [], rlock = spinlock_init, rptr = i, counter = 1\<rparr>"

definition cmap_at :: "world \<Rightarrow> ptr \<Rightarrow> cmap_impl \<Rightarrow> ptr list list \<Rightarrow> nat \<Rightarrow> bool" where
  "cmap_at s i m L k \<longleftrightarrow> rcus s (cur s) = Some (idle_rcu i) \<and> impls s i = Some m \<and> table_ok m (nodes s) L k \<and>
     fence m = cond_init \<and> ccount m = of_nat (card (set (concat L)))"

definition cmap_ok :: "world \<Rightarrow> ptr set \<Rightarrow> bool" where
  "cmap_ok s N \<longleftrightarrow> (\<exists>i m L k. cmap_at s i m L k \<and> N = set (concat L))"

lemma lock_init [simp]: "spinlock_lock_at spinlock_init = Some \<lparr>svalue = 1\<rparr>"
  unfolding spinlock_lock_at_def by (intro loop_stop) (simp add: spinlock_init_def)

lemma unlock_one [simp]: "spinlock_unlock \<lparr>svalue = 1\<rparr> = Some spinlock_init"
  by (simp add: spinlock_unlock_def spinlock_init_def)

lemma destroy_init [simp]: "spinlock_destroy spinlock_init = Some ()"
  by (simp add: spinlock_destroy_def spinlock_init_def)

lemma acquire_release:
  assumes "rcus s r = Some x" "counter x = 1"
  shows "rcu_release r (set_rcu r (x\<lparr>counter := counter x + 1\<rparr>) s) = Some s"
  using assms by (simp add: rcu_release_def set_rcu_def Let_def fun_upd_idem)

lemma expand_step:
  assumes at: "cmap_at s i m L k" and k: "k \<le> 29" and fresh: "impls s pi = None" "rcus s pr = None"
  shows "\<exists>s' m' L'. cmap_expand pi pr s = Some s' \<and> cmap_at s' pi m' L' (Suc k) \<and> set (concat L') = set (concat L) \<and>
    impls s' i = None \<and> rcus s' (cur s) = None \<and> (\<forall>p. hash (nodes s' p) = hash (nodes s p))"
proof -
  note a = at [unfolded cmap_at_def]
  have ne: "i \<noteq> pi" "cur s \<noteq> pr" using a fresh by auto
  define x1 where "x1 = (idle_rcu i)\<lparr>counter := 2\<rparr>"
  define mn where "mn = \<lparr>arr = replicate (2 ^ Suc k) NULL, ccount = ccount m, cmax = of_nat (2 ^ Suc k) - 1, utilization = 0,
    fence = \<lparr>cvalue = 1\<rparr>\<rparr>"
  define x2 where "x2 = (idle_rcu i)\<lparr>cb_list := [Expand_cb i pi]\<rparr>"
  define s1 where "s1 = set_impl pi mn (set_rcu (cur s) x2 s)"
  define s2 where "s2 = set_rcu (cur s) (x2\<lparr>counter := 0\<rparr>) ((rcu_allocate_new pr pi s1)\<lparr>cur := pr\<rparr>)"
  have size: "(unat (cmax m) + 1) * 2 = 2 ^ Suc k" using unat_cmax [of m "nodes s" L k] a by simp
  have "(2::nat) ^ k \<le> 2 ^ 29" using k by (intro power_increasing) simp_all
  then have small: "\<not> (1073741824::nat) \<le> 2 ^ k" by simp
  have run: "cmap_expand pi pr s = rcu_free (cur s) s2"
    using a fresh ne size small
    by (simp add: cmap_expand_def rcu_acquire_def rcu_get_def cond_is_locked_def cond_init_def cmap_impl_init_def
        rcu_postpone_def rcu_release_def rcu_set_def cond_lock_at_def rcu_allocate_new_def set_impl_def set_rcu_def
        s2_def s1_def x2_def mn_def idle_rcu_def Let_def)
  have o: "impls s2 i = Some m" "table_ok m (nodes s2) L k"
    using a ne by (simp_all add: s2_def s1_def set_impl_def set_rcu_def rcu_allocate_new_def)
  have n: "impls s2 pi = Some mn" by (simp add: s2_def s1_def set_impl_def set_rcu_def rcu_allocate_new_def)
  have tn: "table_ok mn (nodes s2) (replicate (2 ^ Suc k) []) (Suc k)"
    unfolding mn_def using k by (intro empty_table) simp
  obtain s3 m' L' where s3: "cmap_expand_callback i pi s2 = Some s3" "rcus s3 = rcus s2" "cur s3 = cur s2"
    "impls s3 i = None" "impls s3 pi = Some m'" "table_ok m' (nodes s3) L' (Suc k)" "fence m' = cond_unlock (fence mn)"
    "ccount m' = ccount mn" "set (concat L') = set (concat L)" "\<forall>p. hash (nodes s3 p) = hash (nodes s2 p)"
    using expand_callback_step [OF o ne(1) n tn] by blast
  define s4 where "s4 = s3\<lparr>rcus := (rcus s3)(cur s := None)\<rparr>"
  have "rcu_free (cur s) s2 = Some s4"
    using s3(1) by (simp add: rcu_free_def s2_def set_rcu_def x2_def idle_rcu_def s4_def)
  moreover have "cmap_at s4 pi m' L' (Suc k)"
    using s3 a ne by (simp add: cmap_at_def s4_def s2_def set_rcu_def rcu_allocate_new_def idle_rcu_def mn_def
        cond_unlock_def cond_init_def)
  moreover have "impls s4 i = None" "rcus s4 (cur s) = None" using s3(4) by (simp_all add: s4_def)
  moreover have "\<forall>p. hash (nodes s4 p) = hash (nodes s p)"
    using s3(10) by (simp add: s4_def s2_def s1_def set_impl_def set_rcu_def rcu_allocate_new_def)
  ultimately show ?thesis using run s3(9) by auto
qed

lemma expand_guard:
  assumes "table_ok m ns L k" "n \<le> 2 ^ 29" "(of_nat n :: u64) > cmax m * 2"
  shows "k \<le> 29"
proof (rule ccontr)
  assume "\<not> k \<le> 29"
  then have k: "k = 30" using table_okD(1) [OF assms(1)] by simp
  have "unat (cmax m * 2) = 2 * (2 ^ 30 - 1)" using unat_cmax [OF assms(1)] k by (simp add: unat_word_ariths)
  moreover have "unat (of_nat n :: u64) = n" using assms(2) by (simp add: unat_of_nat)
  ultimately show False using assms(2,3) by (simp add: word_less_nat_alt)
qed

lemma insert_refines:
  assumes ok: "cmap_ok s N" and n: "node \<noteq> NULL" "node \<notin> N" and fresh: "impls s pi = None" "rcus s pr = None"
    and small: "card N < 2 ^ 29"
  shows "\<exists>s'. cmap_insert pi pr node h s = Some (of_nat (card N + 1), s') \<and> cmap_ok s' (insert node N) \<and>
    hash (nodes s' node) = h"
proof -
  obtain i m L k where at: "cmap_at s i m L k" and N: "N = set (concat L)" using ok by (auto simp: cmap_ok_def)
  note a = at [unfolded cmap_at_def]
  define s0 where "s0 = s\<lparr>nodes := (nodes s)(node := (nodes s node)\<lparr>hash := h\<rparr>)\<rparr>"
  define s1 where "s1 = set_rcu (cur s) ((idle_rcu i)\<lparr>counter := 2\<rparr>) s0"
  have m1: "impls s1 i = Some m" using a by (simp add: s1_def s0_def set_rcu_def)
  have t1: "table_ok m (nodes s1) L k"
  proof -
    have "chain (\<lambda>p. nnext (nodes s1 p)) b ps q = chain (\<lambda>p. nnext (nodes s p)) b ps q" for b ps q
      by (rule arg_cong [where f = "\<lambda>f. chain f b ps q"]) (simp add: s1_def s0_def set_rcu_def fun_eq_iff)
    moreover have "nodes s1 p = nodes s p" if "p \<in> set (L ! j)" "j < length L" for p j
      using that n(2) N in_concat_nth [of j L p] by (auto simp: s1_def s0_def set_rcu_def)
    ultimately show ?thesis using a by (simp add: table_ok_def)
  qed
  obtain s2 m2 j where s2: "cmap_insert_impl i node s1 = Some s2" "impls s2 i = Some m2" "same_meta m2 m" "same_world s2 s1 i"
    "j < length L" "table_ok m2 (nodes s2) (L[j := node # L ! j]) k"
    using insert_step [OF m1 t1 n(1)] n(2) N by blast
  let ?L = "L[j := node # L ! j]"
  have cc: "set (concat ?L) = insert node N" using concat_update [OF s2(5), of node] N by blast
  have card: "card (insert node N) = card N + 1" using n(2) N by simp
  define m3 where "m3 = m2\<lparr>ccount := ccount m2 + 1\<rparr>"
  define s3 where "s3 = set_rcu (cur s) (idle_rcu i) (set_impl i m3 s2)"
  have cnt: "ccount m3 = of_nat (card N + 1)" using a s2(3) N by (simp add: m3_def same_meta_def)
  have t3: "table_ok m3 (nodes s3) ?L k"
    using s2(6) table_ok_cong [of m3 m2] by (simp add: m3_def s3_def set_impl_def set_rcu_def)
  have at3: "cmap_at s3 i m3 ?L k"
    using a s2(3,4) t3 cnt cc card
    by (simp add: cmap_at_def s3_def set_rcu_def set_impl_def same_meta_def m3_def same_world_def s1_def s0_def)
  have hash3: "hash (nodes s3 node) = h" using s2(4) by (simp add: s3_def set_rcu_def set_impl_def same_world_def s1_def s0_def)
  have rel: "rcu_release (cur s) (set_impl i m3 s2) = Some s3"
    using s2(4) by (simp add: rcu_release_def same_world_def s1_def s0_def set_rcu_def set_impl_def s3_def idle_rcu_def Let_def)
  have run: "cmap_insert pi pr node h s = (if ccount m3 > cmax m3 * 2
      then Option.bind (cmap_expand pi pr s3) (\<lambda>s. Some (ccount m3, s)) else Some (ccount m3, s3))"
  proof -
    have "rcu_acquire s0 = Some (cur s, s1)"
      using a by (simp add: rcu_acquire_def s1_def s0_def idle_rcu_def)
    moreover have "rcu_get (cur s) s1 = Some i" by (simp add: rcu_get_def s1_def set_rcu_def idle_rcu_def)
    ultimately show ?thesis using s2(1,2) rel unfolding m3_def
      by (simp add: cmap_insert_def s0_def [symmetric] Let_def)
  qed
  show ?thesis
  proof (cases "ccount m3 > cmax m3 * 2")
    case False
    have "cmap_ok s3 (insert node N)" unfolding cmap_ok_def using at3 cc by blast
    then show ?thesis using run cnt hash3 False by simp
  next
    case True
    have "card N + 1 \<le> 2 ^ 29" using small by simp
    moreover have "(of_nat (card N + 1) :: u64) > cmax m3 * 2" using True cnt by simp
    ultimately have k: "k \<le> 29" using expand_guard [OF t3] by blast
    have f: "impls s3 pi = None" "rcus s3 pr = None"
    proof -
      have "pi \<noteq> i" "pr \<noteq> cur s" using a fresh by auto
      then show "impls s3 pi = None" "rcus s3 pr = None"
        using s2(4) fresh by (simp_all add: s3_def set_rcu_def set_impl_def same_world_def s1_def s0_def)
    qed
    obtain s4 m4 L4 where s4: "cmap_expand pi pr s3 = Some s4" "cmap_at s4 pi m4 L4 (Suc k)" "set (concat L4) = set (concat ?L)"
      "\<forall>p. hash (nodes s4 p) = hash (nodes s3 p)"
      using expand_step [OF at3 k f] by blast
    then have "cmap_ok s4 (insert node N)" unfolding cmap_ok_def using cc by blast
    then show ?thesis using run True cnt s4 hash3 by simp
  qed
qed

section \<open>Removal\<close>






lemma in_table_slot:
  assumes t: "table_ok m ns L k" and p: "p \<in> set (concat L)"
  shows "p \<in> set (L ! slot m (hash (ns p)))"
proof -
  obtain ys where "ys \<in> set L" "p \<in> set ys" using p by auto
  then obtain j where j: "j < length L" "p \<in> set (L ! j)" by (auto simp: in_set_conv_nth [of ys])
  then have "slot m (hash (ns p)) = j" using table_okD(4) [OF t] table_okD(7) [OF t, of j p] by simp
  then show ?thesis using j(2) by simp
qed


section \<open>Iteration\<close>

lemma wait_open [simp]: "cond_wait_at cond_init = Some cond_init"
  unfolding cond_wait_at_def by (intro loop_stop) (simp add: cond_init_def)

text \<open>Through \<open>r\<close>, held by any number of readers, a table without a pending expansion is reached.\<close>

definition read_at :: "world \<Rightarrow> ptr \<Rightarrow> ptr \<Rightarrow> cmap_impl \<Rightarrow> ptr list list \<Rightarrow> nat \<Rightarrow> bool" where
  "read_at s r i m L k \<longleftrightarrow> rcu_get r s = Some i \<and> impls s i = Some m \<and> table_ok m (nodes s) L k \<and> fence m = cond_init"

text \<open>A cursor that stands on the first of the nodes \<open>ps\<close> in bucket \<open>e\<close>.\<close>

definition cursor_at :: "world \<Rightarrow> ptr list \<Rightarrow> nat \<Rightarrow> bool \<Rightarrow> cmap_cursor \<Rightarrow> bool" where
  "cursor_at s ps e across c \<longleftrightarrow> chain (\<lambda>p. nnext (nodes s p)) (cnode c) ps NULL \<and>
     cnext c = (if cnode c = NULL then NULL else nnext (nodes s (cnode c))) \<and>
     entry_idx c = of_nat e \<and> accross_entries c = across"

lemma unat_of_nat_small: "n < 2 ^ 64 \<Longrightarrow> unat (of_nat n :: u64) = n"
  by (simp add: unat_of_nat)

lemma scan_next:
  assumes t: "table_ok m (nodes s) L k" and c: "entry_idx c = of_nat e" "accross_entries c" "e < 2 ^ k"
  shows "\<exists>c' e' ps. loop (next_entry m s) c = Some c' \<and>
    concat (drop (Suc e) L) = ps @ concat (drop (Suc e') L) \<and> cursor_at s ps e' True c' \<and>
    (ps = [] \<longrightarrow> e' = 2 ^ k) \<and> (ps \<noteq> [] \<longrightarrow> e' < 2 ^ k)"
  using c
proof (induction "2 ^ k - e" arbitrary: c e rule: less_induct)
  case less
  note tt = table_okD [OF t]
  have k64: "(2::nat) ^ k \<le> 2 ^ 30" using tt(1) by (intro power_increasing) simp_all
  have u1: "unat (of_nat e + 1 :: u64) = Suc e"
  proof -
    have "unat (of_nat e + 1 :: u64) = unat (of_nat (Suc e) :: u64)" by (simp add: add.commute)
    also have "\<dots> = Suc e" using less.prems(3) k64 by (intro unat_of_nat_small) simp
    finally show ?thesis .
  qed
  have idx: "of_nat (Suc e) = (of_nat e + 1 :: u64)" by simp
  have gt: "(of_nat e + 1 :: u64) > cmax m \<longleftrightarrow> Suc e = 2 ^ k"
    using u1 unat_cmax [OF t] less.prems(3) by (auto simp: word_less_nat_alt)
  show ?case
  proof (cases "Suc e = 2 ^ k")
    case True
    then have "loop (next_entry m s) c = Some (c\<lparr>entry_idx := of_nat e + 1, cnode := NULL, cnext := NULL\<rparr>)"
      using less.prems gt by (intro loop_stop) (simp add: Let_def next_entry_def)
    moreover have "cursor_at s [] (2 ^ k) True (c\<lparr>entry_idx := of_nat e + 1, cnode := NULL, cnext := NULL\<rparr>)"
      using True idx less.prems by (simp add: cursor_at_def)
    moreover have "concat (drop (Suc e) L) = [] @ concat (drop (Suc (2 ^ k)) L)" using True tt(4) by simp
    ultimately show ?thesis using True by blast
  next
    case False
    then have e1: "Suc e < 2 ^ k" using less.prems(3) by simp
    note ch = tt(6) [OF e1]
    have ld: "load_at (arr m) (unat (of_nat e + 1 :: u64)) = Some (arr m ! Suc e)" using u1 e1 tt(3) by simp
    have dr: "drop (Suc e) L = L ! Suc e # drop (Suc (Suc e)) L" using e1 tt(4) by (simp add: Cons_nth_drop_Suc)
    show ?thesis
    proof (cases "L ! Suc e = []")
      case True
      then have z: "arr m ! Suc e = NULL" using ch by simp
      define c1 where "c1 = c\<lparr>entry_idx := of_nat e + 1, cnode := NULL\<rparr>"
      have "next_entry m s c = Some (Inl c1)" using less.prems gt False ld z by (simp add: Let_def c1_def next_entry_def)
      then have l: "loop (next_entry m s) c = loop (next_entry m s) c1" by (rule loop_next)
      have "2 ^ k - Suc e < 2 ^ k - e" using less.prems(3) by simp
      moreover have "entry_idx c1 = of_nat (Suc e)" "accross_entries c1" using less.prems idx by (simp_all add: c1_def)
      ultimately obtain c' e' ps where r: "loop (next_entry m s) c1 = Some c'" "concat (drop (Suc (Suc e)) L) = ps @ concat (drop (Suc e') L)"
        "cursor_at s ps e' True c'" "ps = [] \<longrightarrow> e' = 2 ^ k" "ps \<noteq> [] \<longrightarrow> e' < 2 ^ k"
        using less.hyps [OF _ _ _ e1] by blast
      have "concat (drop (Suc e) L) = concat (drop (Suc (Suc e)) L)" unfolding dr using True by simp
      then show ?thesis unfolding l using r by (intro exI [of _ c'] exI [of _ e'] exI [of _ ps]) simp
    next
      case False
      then have nz: "arr m ! Suc e \<noteq> NULL" using ch by (cases "L ! Suc e") auto
      define c1 where "c1 = c\<lparr>entry_idx := of_nat e + 1, cnode := arr m ! Suc e, cnext := nnext (nodes s (arr m ! Suc e))\<rparr>"
      have "loop (next_entry m s) c = Some c1"
        using less.prems gt \<open>Suc e \<noteq> 2 ^ k\<close> ld nz by (intro loop_stop) (simp add: Let_def c1_def next_entry_def)
      moreover have "cursor_at s (L ! Suc e) (Suc e) True c1"
        using ch nz less.prems idx by (simp add: cursor_at_def c1_def)
      moreover have "concat (drop (Suc e) L) = L ! Suc e @ concat (drop (Suc (Suc e)) L)" unfolding dr by simp
      ultimately show ?thesis using False e1 by (intro exI [of _ c1] exI [of _ "Suc e"] exI [of _ "L ! Suc e"]) simp
    qed
  qed
qed

lemma next_step:
  assumes at: "read_at s r i m L k" and c: "cursor_at s (p # ps) e across c" "e < 2 ^ k"
  shows "\<exists>c' e' ps'. cmap_next r s c = Some c' \<and> cursor_at s ps' e' across c' \<and> (ps' \<noteq> [] \<longrightarrow> e' < 2 ^ k) \<and>
    ps @ (if across then concat (drop (Suc e) L) else []) =
      ps' @ (if ps' \<noteq> [] \<and> across then concat (drop (Suc e') L) else [])"
proof -
  note a = at [unfolded read_at_def] and cc = c(1) [unfolded cursor_at_def]
  define c0 where "c0 = c\<lparr>cnode := cnext c\<rparr>"
  have n: "cmap_next r s c = (if cnode c0 \<noteq> NULL then Some (c0\<lparr>cnext := nnext (nodes s (cnode c0))\<rparr>)
      else loop (next_entry m s) c0)"
    using a by (simp add: cmap_next_def Let_def c0_def)
  have ch: "chain (\<lambda>p. nnext (nodes s p)) (cnode c0) ps NULL" using cc by (auto simp: c0_def)
  show ?thesis
  proof (cases "ps = []")
    case False
    then have "cnode c0 \<noteq> NULL" using ch by (cases ps) auto
    then have "cursor_at s ps e across (c0\<lparr>cnext := nnext (nodes s (cnode c0))\<rparr>)" "cmap_next r s c = Some (c0\<lparr>cnext := nnext (nodes s (cnode c0))\<rparr>)"
      using ch cc n by (simp_all add: cursor_at_def) (simp_all add: c0_def)
    then show ?thesis using False c(2)
      by (intro exI [of _ "c0\<lparr>cnext := nnext (nodes s (cnode c0))\<rparr>"] exI [of _ e] exI [of _ ps]) simp
  next
    case True
    then have z: "cnode c0 = NULL" using ch by simp
    show ?thesis
    proof (cases across)
      case False
      have "loop (next_entry m s) c0 = Some (c0\<lparr>cnode := NULL, cnext := NULL\<rparr>)"
        using cc False by (intro loop_stop) (simp add: next_entry_def c0_def)
      moreover have "cursor_at s [] e across (c0\<lparr>cnode := NULL, cnext := NULL\<rparr>)" using cc by (simp add: cursor_at_def c0_def)
      ultimately show ?thesis using n z False True
        by (intro exI [of _ "c0\<lparr>cnode := NULL, cnext := NULL\<rparr>"] exI [of _ e] exI [of _ "[]"]) simp
    next
      case across: True
      have "entry_idx c0 = of_nat e" "accross_entries c0" using cc across by (simp_all add: c0_def)
      then obtain c' e' ps' where r: "loop (next_entry m s) c0 = Some c'" "cursor_at s ps' e' True c'"
        "concat (drop (Suc e) L) = ps' @ concat (drop (Suc e') L)"
        "ps' = [] \<longrightarrow> e' = 2 ^ k" "ps' \<noteq> [] \<longrightarrow> e' < 2 ^ k"
        using scan_next [of m s L k c0 e] a c(2) by blast
      have "ps' = [] \<Longrightarrow> concat (drop (Suc e') L) = []" using r(4) a by (simp add: table_ok_def)
      then show ?thesis using n z r across True by (intro exI [of _ c'] exI [of _ e'] exI [of _ ps']) auto
    qed
  qed
qed

lemma foreach_from:
  assumes at: "read_at s r i m L k" and c: "cursor_at s ps e across c" "ps \<noteq> [] \<Longrightarrow> e < 2 ^ k"
  shows "MAP_FOREACH_from r s c = Some (ps @ (if ps \<noteq> [] \<and> across then concat (drop (Suc e) L) else []))"
proof -
  define body where "body = (\<lambda>(cursor, seen).
     if cnode cursor = NULL then Some (Inr seen)
     else do {
       let seen = seen @ [cnode cursor];
       cursor \<leftarrow> cmap_next r s cursor;
       Some (Inl (cursor, seen))
     })"
  have "loop body (c, seen) = Some (seen @ ps @ (if ps \<noteq> [] \<and> across then concat (drop (Suc e) L) else []))" for seen
    using c
  proof (induction "length (ps @ (if ps \<noteq> [] \<and> across then concat (drop (Suc e) L) else []))" arbitrary: seen c ps e rule: less_induct)
    case less
    show ?case
    proof (cases ps)
      case Nil
      then have "cnode c = NULL" using less.prems by (simp add: cursor_at_def)
      then show ?thesis using Nil by (intro loop_stop) (simp add: body_def)
    next
      case (Cons p ps1)
      then obtain c' e' ps' where r: "cmap_next r s c = Some c'" "cursor_at s ps' e' across c'" "ps' \<noteq> [] \<longrightarrow> e' < 2 ^ k"
        "ps1 @ (if across then concat (drop (Suc e) L) else []) = ps' @ (if ps' \<noteq> [] \<and> across then concat (drop (Suc e') L) else [])"
        using next_step [OF at, of p ps1 e across c] less.prems by auto
      have "cnode c = p" "p \<noteq> NULL" using Cons less.prems by (auto simp: cursor_at_def)
      then have "body (c, seen) = Some (Inl (c', seen @ [p]))" using r by (simp add: body_def)
      then have "loop body (c, seen) = loop body (c', seen @ [p])" by (rule loop_next)
      moreover have "length (ps' @ (if ps' \<noteq> [] \<and> across then concat (drop (Suc e') L) else [])) <
          length (ps @ (if ps \<noteq> [] \<and> across then concat (drop (Suc e) L) else []))"
        unfolding r(4) [symmetric] using Cons by simp
      note less.hyps [OF this r(2), of "seen @ [p]"]
      ultimately show ?thesis using r(3,4) Cons by simp
    qed
  qed
  from this [of "[]"] show ?thesis by (simp add: MAP_FOREACH_from_def body_def)
qed

lemma slot_idx: "ucast h AND cmax m = of_nat (slot m h)"
  by (simp add: slot_def)

lemma find_step:
  assumes at: "read_at s r i m L k"
  shows "\<exists>c. cmap_find r h s = Some c \<and> cursor_at s (L ! slot m h) (slot m h) False c"
proof -
  note a = at [unfolded read_at_def]
  note t = table_okD [of m "nodes s" L k]
  have j: "slot m h < 2 ^ k" using a by (auto intro: slot_less)
  have "load_at (arr m) (slot m h) = Some (arr m ! slot m h)" using a j t(3) by simp
  moreover have "chain (\<lambda>p. nnext (nodes s p)) (arr m ! slot m h) (L ! slot m h) NULL" using t(6) a j by blast
  ultimately show ?thesis using a
    by (simp add: cmap_find_def cursor_at_def slot_idx)
qed

lemma foreach_with_hash:
  assumes at: "read_at s r i m L k"
  shows "MAP_FOREACH_WITH_HASH r h s = Some (L ! slot m h)"
proof -
  obtain c where c: "cmap_find r h s = Some c" "cursor_at s (L ! slot m h) (slot m h) False c"
    using find_step [OF at] by blast
  have "slot m h < 2 ^ k" using at by (auto simp: read_at_def intro: slot_less)
  then show ?thesis using foreach_from [OF at c(2)] c(1) by (simp add: MAP_FOREACH_WITH_HASH_def)
qed

lemma foreach_all:
  assumes at: "read_at s r i m L k"
  shows "MAP_FOREACH r s = Some (concat L)"
proof -
  obtain c where c: "cmap_find r 0 s = Some c" "cursor_at s (L ! slot m 0) (slot m 0) False c"
    using find_step [OF at] by blast
  have s0: "slot m 0 = 0" by (simp add: slot_def)
  define c1 where "c1 = c\<lparr>accross_entries := True\<rparr>"
  have c1: "cursor_at s (L ! 0) 0 True c1" using c(2) s0 by (simp add: cursor_at_def c1_def)
  have len: "length L = 2 ^ k" using at by (simp add: read_at_def table_ok_def)
  then have all: "concat L = L ! 0 @ concat (drop (Suc 0) L)" by (cases L) auto
  show ?thesis
  proof (cases "L ! 0 = []")
    case False
    then have "cnode c1 \<noteq> NULL" using c1 by (cases "L ! 0") (auto simp: cursor_at_def)
    then have "cmap_start r s = Some c1" using c(1) by (simp add: cmap_start_def c1_def)
    then show ?thesis using foreach_from [OF at c1] False all by (simp add: MAP_FOREACH_def)
  next
    case True
    then have z: "cnode c1 = NULL" "cnext c1 = NULL" using c1 by (auto simp: cursor_at_def)
    have a: "entry_idx c1 = of_nat 0" "accross_entries c1" using c1 by (simp_all add: cursor_at_def)
    obtain c' e' ps' where r: "loop (next_entry m s) c1 = Some c'" "cursor_at s ps' e' True c'"
        "concat (drop (Suc 0) L) = ps' @ concat (drop (Suc e') L)"
        "ps' = [] \<longrightarrow> e' = 2 ^ k" "ps' \<noteq> [] \<longrightarrow> e' < 2 ^ k"
      using scan_next [of m s L k c1 0] at a by (auto simp: read_at_def)
    have eq: "c1\<lparr>cnode := cnext c1\<rparr> = c1" using z by (cases c1) simp
    have "cmap_next r s c1 = Some c'"
      unfolding cmap_next_def eq using z r(1) at by (simp add: eq read_at_def)
    then have "cmap_start r s = Some c'" using c(1) z by (simp add: cmap_start_def c1_def)
    moreover have "ps' = [] \<Longrightarrow> concat (drop (Suc 0) L) = []" using r(3,4) len by simp
    ultimately show ?thesis using foreach_from [OF at r(2)] r(3,5) True all by (auto simp: MAP_FOREACH_def)
  qed
qed

section \<open>Correctness\<close>

lemma init_refines:
  "\<exists>s'. cmap_init pi pr s = Some s' \<and> cmap_ok s' {} \<and> impls s' = (impls s)(pi := impls s' pi) \<and> rcus s' = (rcus s)(pr := rcus s' pr)"
proof -
  define m where "m = \<lparr>arr = replicate 512 NULL, ccount = 0, cmax = of_nat 512 - 1, utilization = 0, fence = cond_init\<rparr>"
  define s' where "s' = rcu_init pr pi (set_impl pi m s)"
  have run: "cmap_init pi pr s = Some s'"
    by (simp add: cmap_init_def cmap_impl_init_def MAP_INITIAL_SIZE_def s'_def m_def)
  have "table_ok m (nodes s) (replicate 512 []) 9" by (simp add: table_ok_def m_def)
  then have "cmap_at s' pi m (replicate 512 []) 9"
    by (simp add: cmap_at_def s'_def m_def rcu_init_def rcu_allocate_new_def set_rcu_def set_impl_def idle_rcu_def)
  then have "cmap_ok s' {}" unfolding cmap_ok_def by (intro exI conjI) (assumption, simp)
  then show ?thesis using run by (simp add: s'_def rcu_init_def rcu_allocate_new_def set_rcu_def set_impl_def)
qed

definition blank :: world where
  "blank = \<lparr>nodes = \<lambda>_. \<lparr>nnext = NULL, hash = 0\<rparr>, impls = Map.empty, rcus = Map.empty, cur = NULL\<rparr>"

lemma blank_init:
  obtains s where "cmap_init 1 2 blank = Some s" "cmap_ok s {}" "impls s 3 = None" "rcus s 4 = None"
proof -
  obtain s where s: "cmap_init 1 2 blank = Some s" "cmap_ok s {}" "impls s = (impls blank)(1 := impls s 1)"
    "rcus s = (rcus blank)(2 := rcus s 2)"
    using init_refines [of 1 2 blank] by blast
  have "impls s 3 = ((impls blank)(1 := impls s 1)) 3" "rcus s 4 = ((rcus blank)(2 := rcus s 2)) 4"
    using s(3,4) by metis+
  then have "impls s 3 = None" "rcus s 4 = None" by (simp_all add: blank_def)
  then show ?thesis using that s(1,2) by blast
qed

text \<open>C19: Inserting a node that is not in the map adds it to the represented set and returns the new
  number of nodes, also when the insertion doubles the table and rehashes every chain through the
  postponed callback. The node carries the hash it was inserted with.\<close>

theorem cmap_insert_refines:
  assumes "cmap_ok s N" "node \<noteq> NULL" "node \<notin> N" "impls s pi = None" "rcus s pr = None" "card N < 2 ^ 29"
  shows "\<exists>s'. cmap_insert pi pr node h s = Some (of_nat (card N + 1), s') \<and> cmap_ok s' (insert node N) \<and>
    hash (nodes s' node) = h"
  using assms by (rule insert_refines)

theorem cmap_insert_refines_witness:
  "\<exists>s s'. cmap_init 1 2 blank = Some s \<and> cmap_insert 3 4 5 9 s = Some (1, s') \<and> cmap_ok s' {5} \<and> hash (nodes s' 5) = 9"
proof -
  obtain s where "cmap_init 1 2 blank = Some s" "cmap_ok s {}" "impls s 3 = None" "rcus s 4 = None" by (rule blank_init)
  then show ?thesis using cmap_insert_refines [of s "{}" 5 3 4 9] by simp
qed



text \<open>
  The map while \<open>n\<close> states are acquired: it holds the nodes \<open>N\<close>, and its counted pointer counts the
  map itself and the \<open>n\<close> states.
\<close>

definition cmap_held :: "world \<Rightarrow> nat \<Rightarrow> ptr set \<Rightarrow> bool" where
  "cmap_held s n N \<longleftrightarrow> (\<exists>i m L k. rcus s (cur s) = Some ((idle_rcu i)\<lparr>counter := of_nat (Suc n)\<rparr>) \<and>
     read_at s (cur s) i m L k \<and> ccount m = of_nat (card N) \<and> N = set (concat L))"

lemma cmap_held_ok: "cmap_held s 0 N \<longleftrightarrow> cmap_ok s N"
proof -
  have "(idle_rcu i)\<lparr>counter := of_nat (Suc 0)\<rparr> = idle_rcu i" for i by (simp add: idle_rcu_def)
  then have "rcus s (cur s) = Some ((idle_rcu i)\<lparr>counter := of_nat (Suc 0)\<rparr>) \<and> read_at s (cur s) i m L k \<and>
      ccount m = of_nat (card N) \<and> N = set (concat L) \<longleftrightarrow> cmap_at s i m L k \<and> N = set (concat L)" for i m L k
    by (auto simp: read_at_def cmap_at_def rcu_get_def idle_rcu_def)
  then show ?thesis by (simp add: cmap_held_def cmap_ok_def)
qed

lemma acquire_held:
  assumes "cmap_held s n N" "Suc n < 2 ^ 32"
  obtains s1 where "cmap_state_acquire s = Some (cur s, s1)" "cmap_held s1 (Suc n) N" "cur s1 = cur s" "nodes s1 = nodes s"
    "cmap_state_release (cur s) s1 = Some s"
proof -
  obtain i m L k where x: "rcus s (cur s) = Some ((idle_rcu i)\<lparr>counter := of_nat (Suc n)\<rparr>)"
    and r: "read_at s (cur s) i m L k" "ccount m = of_nat (card N)" "N = set (concat L)"
    using assms(1) by (auto simp: cmap_held_def)
  define s1 where "s1 = set_rcu (cur s) ((idle_rcu i)\<lparr>counter := of_nat (Suc (Suc n))\<rparr>) s"
  have one: "(of_nat (Suc (Suc n)) :: u32) \<noteq> 1"
  proof
    assume "(of_nat (Suc (Suc n)) :: u32) = 1"
    then have "(of_nat (Suc n) :: u32) = 0" by simp
    then have "unat (of_nat (Suc n) :: u32) = 0" by (simp only: unat_0)
    then show False using assms(2) by (simp only: unat_of_nat) simp
  qed
  have "read_at s1 (cur s) i m L k" using r(1) x by (simp add: s1_def read_at_def rcu_get_def set_rcu_def idle_rcu_def)
  then have "cmap_held s1 (Suc n) N" unfolding cmap_held_def using r(2,3) by (auto simp: s1_def set_rcu_def)
  moreover have "cmap_state_acquire s = Some (cur s, s1)"
    using x by (simp add: cmap_state_acquire_def rcu_acquire_def s1_def ac_simps)
  moreover have "cmap_state_release (cur s) s1 = Some s"
    using x one by (simp add: cmap_state_release_def rcu_release_def s1_def set_rcu_def Let_def fun_upd_idem)
  ultimately show ?thesis using that by (simp add: s1_def set_rcu_def)
qed

text \<open>C32: Let \<open>n\<close> states of the map be acquired and no expansion be pending. Acquiring another state, iterating
  over it and releasing it succeeds and leaves the map as it was. The iteration over the whole map ends
  and visits every node of the represented set exactly once; the iteration over one hash visits only
  nodes of the map, none twice, and every node that has this hash.\<close>

theorem cmap_iteration_complete:
  assumes "cmap_held s n N" "Suc n < 2 ^ 32"
  shows "\<exists>r s1 ps qs. cmap_state_acquire s = Some (r, s1) \<and> cmap_held s1 (Suc n) N \<and> nodes s1 = nodes s \<and>
    MAP_FOREACH r s1 = Some ps \<and> distinct ps \<and> set ps = N \<and>
    MAP_FOREACH_WITH_HASH r h s1 = Some qs \<and> distinct qs \<and> set qs \<subseteq> N \<and> {p \<in> N. hash (nodes s p) = h} \<subseteq> set qs \<and>
    cmap_state_release r s1 = Some s"
proof -
  obtain s1 where s1: "cmap_state_acquire s = Some (cur s, s1)" "cmap_held s1 (Suc n) N" "cur s1 = cur s" "nodes s1 = nodes s"
    "cmap_state_release (cur s) s1 = Some s"
    using acquire_held [OF assms] by blast
  obtain i m L k where at: "read_at s1 (cur s) i m L k" and N: "N = set (concat L)"
    using s1(2,3) by (auto simp: cmap_held_def)
  then have t: "table_ok m (nodes s1) L k" by (simp add: read_at_def)
  note d = table_okD [OF t]
  have j: "slot m h < length L" using slot_less [OF t] d(4) by simp
  then have "set (L ! slot m h) \<subseteq> N" "distinct (L ! slot m h)" using N d(5) by (auto simp: distinct_concat_iff)
  moreover have "{p \<in> N. hash (nodes s p) = h} \<subseteq> set (L ! slot m h)" using in_table_slot [OF t] N s1(4) by auto
  ultimately show ?thesis using s1 foreach_all [OF at] foreach_with_hash [OF at] N d(5) by simp
qed

text \<open>A second reader iterates over a map with one node while a first one holds a state.\<close>

theorem cmap_iteration_complete_witness:
  "\<exists>t s r s1 r' s2. cmap_init 1 2 blank = Some t \<and> cmap_insert 3 4 5 9 t = Some (1, s) \<and>
    cmap_state_acquire s = Some (r, s1) \<and> cmap_state_acquire s1 = Some (r', s2) \<and>
    MAP_FOREACH r' s2 = Some [5] \<and> MAP_FOREACH_WITH_HASH r' 9 s2 = Some [5] \<and> cmap_state_release r' s2 = Some s1"
proof -
  obtain t where t: "cmap_init 1 2 blank = Some t" "cmap_ok t {}" "impls t 3 = None" "rcus t 4 = None" by (rule blank_init)
  obtain s where s: "cmap_insert 3 4 5 9 t = Some (1, s)" "cmap_ok s {5}" "hash (nodes s 5) = 9"
    using insert_refines [of t "{}" 5 3 4 9] t by auto
  have one: "xs = [x]" if "distinct xs" "set xs = {x}" for xs :: "ptr list" and x
    using that by (cases xs; cases "tl xs") auto
  obtain r s1 where a: "cmap_state_acquire s = Some (r, s1)" "cmap_held s1 (Suc 0) {5}" "nodes s1 = nodes s"
    using cmap_iteration_complete [of s 0 "{5}" 9] s(2) by (auto simp: cmap_held_ok)
  obtain r' s2 ps qs where r: "cmap_state_acquire s1 = Some (r', s2)" "MAP_FOREACH r' s2 = Some ps" "distinct ps" "set ps = {5}"
    "MAP_FOREACH_WITH_HASH r' 9 s2 = Some qs" "distinct qs" "set qs \<subseteq> {5}" "{p \<in> {5}. hash (nodes s1 p) = 9} \<subseteq> set qs"
    "cmap_state_release r' s2 = Some s1"
    using cmap_iteration_complete [OF a(2), of 9] by auto
  have "set qs = {5}" using r(7,8) s(3) a(3) by auto
  then have "ps = [5]" "qs = [5]" using r one by blast+
  then show ?thesis using t(1) s(1) a(1) r(1,2,5,9) by auto
qed

end
