(* ===== verification/Cmap_List.thy ===== *)
theory Cmap_List
  imports Prelude Coro_List
begin

text \<open>
  The circular lists of \<^verbatim>\<open>cmap/list.h\<close> that hold the postponed callbacks, on the heap of links of
  \<^verbatim>\<open>Coro_List\<close>; they are first-in first-out queues, and the popping iterator empties them in order.
\<close>

section \<open>Lists\<close>

definition list_init :: "ptr \<Rightarrow> list_head \<Rightarrow> list_head" where
  "list_init list h = set_nxt list list (set_prev list list h)"

definition list_insert :: "ptr \<Rightarrow> ptr \<Rightarrow> list_head \<Rightarrow> list_head" where
  "list_insert before elem h =
     (let h = set_prev elem (prev h before) h;
          h = set_nxt elem before h;
          h = set_nxt (prev h before) elem h in
      set_prev before elem h)"

definition list_push_back :: "ptr \<Rightarrow> ptr \<Rightarrow> list_head \<Rightarrow> list_head" where
  "list_push_back list elem h = list_insert list elem h"

definition list_remove :: "ptr \<Rightarrow> list_head \<Rightarrow> ptr \<times> list_head" where
  "list_remove elem h =
     (let h = set_nxt (prev h elem) (nxt h elem) h;
          h = set_prev (nxt h elem) (prev h elem) h in
      (nxt h elem, h))"

definition list_pop_front :: "ptr \<Rightarrow> list_head \<Rightarrow> ptr \<times> list_head" where
  "list_pop_front list h = (let front = nxt h list in (front, snd (list_remove front h)))"

definition list_is_empty :: "ptr \<Rightarrow> list_head \<Rightarrow> bool" where
  "list_is_empty list h \<longleftrightarrow> nxt h list = list"

definition LIST_FOREACH :: "(ptr \<Rightarrow> list_head \<times> 'a \<Rightarrow> list_head \<times> 'a) \<Rightarrow> ptr \<Rightarrow> list_head \<times> 'a
    \<Rightarrow> (list_head \<times> 'a) option" where
  "LIST_FOREACH f list s = loop (\<lambda>(iter, s).
     if iter = list then Some (Inr s)
     else let s = f iter s in Some (Inl (nxt (fst s) iter, s))) (nxt (fst s) list, s)"

text \<open>The condition of the popping iterator, and the loop it guards.\<close>

definition foreach_pop :: "ptr \<Rightarrow> list_head \<Rightarrow> (ptr option \<times> list_head) option" where
  "foreach_pop list h =
     (if list_is_empty list h then Some (None, h)
      else let (front, h) = list_pop_front list h in Some (Some front, h))"

definition LIST_FOREACH_POP :: "(ptr \<Rightarrow> list_head \<times> 'a \<Rightarrow> list_head \<times> 'a) \<Rightarrow> ptr \<Rightarrow> list_head \<times> 'a
    \<Rightarrow> (list_head \<times> 'a) option" where
  "LIST_FOREACH_POP f list s = loop (\<lambda>(h, a). do {
     (front, h) \<leftarrow> foreach_pop list h;
     case front of
       None \<Rightarrow> Some (Inr (h, a))
     | Some iter \<Rightarrow> Some (Inl (f iter (h, a)))
   }) s"

section \<open>Lists are queues\<close>

lemma init_empty: "is_list (list_init q h) q []"
  by (simp add: is_list_def list_init_def)

lemma push_back_add_tail: "prev h q \<noteq> e \<Longrightarrow> q \<noteq> e \<Longrightarrow> list_push_back q e h = list_add_tail e q h"
  by (cases h) (auto simp: list_push_back_def list_insert_def list_add_tail_def Let_def set_nxt_def set_prev_def fun_eq_iff)

lemma push_back_list: "is_list h q ps \<Longrightarrow> e \<notin> set (q # ps) \<Longrightarrow> is_list (list_push_back q e h) q (ps @ [e])"
proof -
  assume l: "is_list h q ps" and e: "e \<notin> set (q # ps)"
  then have "prev h q = last (q # ps)" by (auto simp: is_list_def dest: seg_last)
  then have "prev h q \<in> set (q # ps)" by (metis last_in_set list.discI)
  then have "list_push_back q e h = list_add_tail e q h" using e by (intro push_back_add_tail) auto
  then show ?thesis using add_tail_list [OF l e] by simp
qed

lemma pop_front_list: "is_list h q (p # ps) \<Longrightarrow> \<exists>h'. list_pop_front q h = (p, h') \<and> is_list h' q ps"
  by (cases ps) (auto simp: is_list_def list_pop_front_def list_remove_def Let_def)

lemma is_empty_list: "is_list h q ps \<Longrightarrow> list_is_empty q h \<longleftrightarrow> ps = []"
  by (cases ps) (auto simp: is_list_def list_is_empty_def)

interpretation cb_queue: fifo_queue "\<lambda>h ps. is_list h q ps" "\<lambda>e h ps. e \<notin> set (q # ps)" id
    "\<lambda>e h. Some (list_push_back q e h)" "foreach_pop q" for q
proof
  fix h ps e
  assume "is_list h q ps" "e \<notin> set (q # ps)"
  then show "\<exists>q'. Some (list_push_back q e h) = Some q' \<and> is_list q' q (ps @ [id e])"
    by (simp add: push_back_list)
next
  fix h
  assume "is_list h q []"
  then show "\<exists>q'. foreach_pop q h = Some (None, q') \<and> is_list q' q []" by (simp add: foreach_pop_def is_empty_list)
next
  fix h p ps
  assume "is_list h q (p # ps)"
  then show "\<exists>q'. foreach_pop q h = Some (Some p, q') \<and> is_list q' q ps"
    using pop_front_list [of h q p ps] is_empty_list [of h q "p # ps"] by (auto simp: foreach_pop_def)
qed

lemma foreach_pop_all:
  assumes "is_list h q ps"
  shows "\<exists>h'. LIST_FOREACH_POP (\<lambda>p (h, acc). (h, acc @ [p])) q (h, acc) = Some (h', acc @ ps) \<and> is_list h' q []"
  using assms
proof (induction ps arbitrary: h acc)
  case Nil
  then obtain h1 where h1: "foreach_pop q h = Some (None, h1)" "is_list h1 q []" using cb_queue.deq_empty by blast
  then have "LIST_FOREACH_POP (\<lambda>p (h, acc). (h, acc @ [p])) q (h, acc) = Some (h1, acc)"
    unfolding LIST_FOREACH_POP_def by (intro loop_stop) simp
  then show ?case using h1(2) by simp
next
  case (Cons p ps)
  obtain h1 where h1: "foreach_pop q h = Some (Some p, h1)" "is_list h1 q ps" using cb_queue.deq_item [OF Cons.prems] by blast
  have "LIST_FOREACH_POP (\<lambda>p (h, acc). (h, acc @ [p])) q (h, acc) = LIST_FOREACH_POP (\<lambda>p (h, acc). (h, acc @ [p])) q (h1, acc @ [p])"
    unfolding LIST_FOREACH_POP_def by (rule loop_next) (simp add: h1)
  then show ?case using Cons.IH [OF h1(2), of "acc @ [p]"] by simp
qed

end
