(* ===== verification/Cmap_Hash.thy ===== *)
theory Cmap_Hash
  imports Prelude
begin

text \<open>
  The Murmur hash of \<^verbatim>\<open>cmap/hash.h\<close> and the xorshift generator of \<^verbatim>\<open>cmap/random.c\<close>. Hashing an integer is
  shown to be free of collisions for a fixed basis, and the generator never to reach zero.
\<close>

unbundle bit_operations_syntax

section \<open>Hashing\<close>

definition hash_rot :: "u32 \<Rightarrow> nat \<Rightarrow> u32" where
  "hash_rot x k = push_bit k x OR drop_bit (32 - k) x"

definition mhash_add_data :: "u32 \<Rightarrow> u32 \<Rightarrow> u32" where
  "mhash_add_data hash data =
     (if data = 0 then hash
      else let data = data * 0xcc9e2d51;
               data = hash_rot data 15;
               data = data * 0x1b873593 in
           hash XOR data)"

definition mhash_add :: "u32 \<Rightarrow> u32 \<Rightarrow> u32" where
  "mhash_add hash data =
     (let hash = mhash_add_data hash data;
          hash = hash_rot hash 13 in
      hash * 5 + 0xe6546b64)"

definition mhash_finish :: "u32 \<Rightarrow> u32" where
  "mhash_finish hash =
     (let hash = hash XOR drop_bit 16 hash;
          hash = hash * 0x85ebca6b;
          hash = hash XOR drop_bit 13 hash;
          hash = hash * 0xc2b2ae35 in
      hash XOR drop_bit 16 hash)"

definition hash_add :: "u32 \<Rightarrow> u32 \<Rightarrow> u32" where
  "hash_add hash data = mhash_add hash data"

definition hash_finish :: "u32 \<Rightarrow> u32 \<Rightarrow> u32" where
  "hash_finish hash final = mhash_finish (hash XOR final)"

definition hash_2words :: "u32 \<Rightarrow> u32 \<Rightarrow> u32" where
  "hash_2words x y = hash_finish (hash_add (hash_add x 0) y) 8"

definition hash_int :: "u32 \<Rightarrow> u32 \<Rightarrow> u32" where
  "hash_int x basis = hash_2words x basis"

section \<open>Random numbers\<close>

text \<open>The seed of the thread is the state. \<open>now i\<close> is the time the \<open>i\<close>-th reading of the clock returns.\<close>

definition random_next :: "u32 \<Rightarrow> u32 \<times> u32" where
  "random_next seed =
     (let seed = seed XOR push_bit 13 seed;
          seed = seed XOR drop_bit 17 seed;
          seed = seed XOR push_bit 5 seed in
      (seed, seed))"

definition random_init :: "(nat \<Rightarrow> u32) \<Rightarrow> u32 \<Rightarrow> u32 option" where
  "random_init now seed = loop (\<lambda>(i, seed).
     if seed \<noteq> 0 then Some (Inr seed) else Some (Inl (Suc i, now i))) (0, seed)"

definition random_set_seed :: "(nat \<Rightarrow> u32) \<Rightarrow> u32 \<Rightarrow> u32 option" where
  "random_set_seed now seed' = loop (\<lambda>(i, seed').
     if seed' \<noteq> 0 then Some (Inr seed') else Some (Inl (Suc i, now i))) (0, seed')"

definition random_uint32 :: "(nat \<Rightarrow> u32) \<Rightarrow> u32 \<Rightarrow> (u32 \<times> u32) option" where
  "random_uint32 now seed = do {
     seed \<leftarrow> random_init now seed;
     Some (random_next seed)
   }"

section \<open>Hashing loses nothing\<close>

lemma xor_shift_right:
  fixes x :: u32
  shows "x XOR drop_bit 16 x = y \<Longrightarrow> x = y XOR drop_bit 16 y"
    and "x XOR drop_bit 13 x = y \<Longrightarrow> x = y XOR drop_bit 13 y XOR drop_bit 26 y"
    and "x XOR drop_bit 17 x = y \<Longrightarrow> x = y XOR drop_bit 17 y"
  by (auto simp: xor.assoc xor.left_commute)

lemma xor_shift_left:
  fixes x :: u32
  shows "x XOR push_bit 13 x = y \<Longrightarrow> x = y XOR push_bit 13 y XOR push_bit 26 y"
    and "x XOR push_bit 5 x = y \<Longrightarrow> x = y XOR push_bit 5 y XOR push_bit 10 y XOR push_bit 15 y XOR push_bit 20 y XOR push_bit 25 y XOR push_bit 30 y"
  by (auto simp: xor.assoc xor.left_commute)

lemma odd_times_inj:
  fixes x :: u32
  shows "x * 0x85ebca6b = x' * 0x85ebca6b \<Longrightarrow> x = x'" and "x * 0xc2b2ae35 = x' * 0xc2b2ae35 \<Longrightarrow> x = x'" and "x * 5 = x' * 5 \<Longrightarrow> x = x'"
proof -
  have c: "z * 0x85ebca6b * 0xa5cb9243 = z" "z * 0xc2b2ae35 * 0x7ed1b41d = z" "z * 5 * 0xcccccccd = z" for z :: u32
  proof -
    have "(0x85ebca6b::u32) * 0xa5cb9243 = 1" "(0xc2b2ae35::u32) * 0x7ed1b41d = 1" "(5::u32) * 0xcccccccd = 1" by code_simp+
    then show "z * 0x85ebca6b * 0xa5cb9243 = z" "z * 0xc2b2ae35 * 0x7ed1b41d = z" "z * 5 * 0xcccccccd = z" by (simp_all only: mult.assoc mult_1_right)
  qed
  show "x * 0x85ebca6b = x' * 0x85ebca6b \<Longrightarrow> x = x'" using c(1) [of x] c(1) [of x'] by metis
  show "x * 0xc2b2ae35 = x' * 0xc2b2ae35 \<Longrightarrow> x = x'" using c(2) [of x] c(2) [of x'] by metis
  show "x * 5 = x' * 5 \<Longrightarrow> x = x'" using c(3) [of x] c(3) [of x'] by metis
qed

lemma rot13_inj: "hash_rot x 13 = hash_rot x' 13 \<Longrightarrow> x = x'"
proof -
  have r: "hash_rot (hash_rot z 13) 19 = z" for z
  proof -
    have "hash_rot (hash_rot z 13) 19 = push_bit 19 (drop_bit 19 z) OR drop_bit 13 (push_bit 13 z)"
      by (simp add: hash_rot_def)
    also have "\<dots> = z"
    proof (rule bit_word_eqI)
      fix n
      assume "n < LENGTH(32)"
      then show "bit (push_bit 19 (drop_bit 19 z) OR drop_bit 13 (push_bit 13 z)) n = bit z n"
        by (cases "n < 19") (simp_all add: bit_or_iff bit_push_bit_iff bit_drop_bit_eq)
    qed
    finally show ?thesis .
  qed
  show "hash_rot x 13 = hash_rot x' 13 \<Longrightarrow> x = x'" by (metis r)
qed

lemma xor_cancel: "(a::u32) XOR c = b XOR c \<Longrightarrow> a = b"
proof -
  assume "a XOR c = b XOR c"
  then have "(a XOR c) XOR c = (b XOR c) XOR c" by (rule arg_cong)
  then show "a = b" by (simp add: xor.assoc)
qed

lemma mhash_add_inj: "mhash_add h d = mhash_add h' d \<Longrightarrow> h = h'"
proof -
  assume "mhash_add h d = mhash_add h' d"
  then have "hash_rot (mhash_add_data h d) 13 * 5 = hash_rot (mhash_add_data h' d) 13 * 5" by (simp add: mhash_add_def Let_def)
  then have "mhash_add_data h d = mhash_add_data h' d" by (rule rot13_inj [OF odd_times_inj(3)])
  then show "h = h'" by (auto simp: mhash_add_data_def Let_def dest: xor_cancel split: if_splits)
qed

lemma mhash_finish_inj: "mhash_finish h = mhash_finish h' \<Longrightarrow> h = h'"
proof -
  assume e: "mhash_finish h = mhash_finish h'"
  have i16: "a = b" if "a XOR drop_bit 16 a = b XOR drop_bit 16 b" for a b :: u32
    by (rule trans [OF xor_shift_right(1) [OF that] sym [OF xor_shift_right(1) [OF refl]]])
  have i13: "a = b" if "a XOR drop_bit 13 a = b XOR drop_bit 13 b" for a b :: u32
    by (rule trans [OF xor_shift_right(2) [OF that] sym [OF xor_shift_right(2) [OF refl]]])
  show "h = h'"
    using e unfolding mhash_finish_def Let_def
    by (rule i16 [OF odd_times_inj(1) [OF i13 [OF odd_times_inj(2) [OF i16]]]])
qed

section \<open>The generator stays off zero\<close>

lemma random_next_zero: "fst (random_next seed) = 0 \<Longrightarrow> seed = 0"
proof -
  assume z: "fst (random_next seed) = 0"
  define a b where "a = seed XOR push_bit 13 seed" and "b = a XOR drop_bit 17 a"
  have "b XOR push_bit 5 b = 0" using z by (simp add: random_next_def Let_def a_def b_def)
  then have "b = 0" using xor_shift_left(2) [of b 0] by simp
  then have "a = 0" using xor_shift_right(3) [of a 0] by (simp add: b_def)
  then show "seed = 0" using xor_shift_left(1) [of seed 0] by (simp add: a_def)
qed

lemma random_init_nonzero: "seed \<noteq> 0 \<or> now 0 \<noteq> 0 \<Longrightarrow> \<exists>s. random_init now seed = Some s \<and> s \<noteq> 0 \<and> (seed \<noteq> 0 \<longrightarrow> s = seed)"
proof (cases "seed = 0")
  case True
  assume "seed \<noteq> 0 \<or> now 0 \<noteq> 0"
  then have n: "now 0 \<noteq> 0" using True by simp
  have "random_init now seed = loop (\<lambda>(i, seed). if seed \<noteq> 0 then Some (Inr seed) else Some (Inl (Suc i, now i))) (Suc 0, now 0)"
    unfolding random_init_def by (rule loop_next) (simp add: True)
  also have "\<dots> = Some (now 0)" by (rule loop_stop) (simp add: n)
  finally show ?thesis using n True by simp
next
  case False
  then have "random_init now seed = Some seed" unfolding random_init_def by (intro loop_stop) simp
  then show ?thesis using False by simp
qed

section \<open>Correctness\<close>

text \<open>C33: For a fixed basis two integers hash to the same value only if they are equal, so the nodes of
  the map with the hash of a value are the nodes with this value.\<close>

theorem hash_int_injective: "hash_int x basis = hash_int x' basis \<longleftrightarrow> x = x'"
proof
  assume "hash_int x basis = hash_int x' basis"
  then have "hash_add (hash_add x 0) basis XOR 8 = hash_add (hash_add x' 0) basis XOR 8"
    unfolding hash_int_def hash_2words_def hash_finish_def by (rule mhash_finish_inj)
  then show "x = x'" unfolding hash_add_def by (rule mhash_add_inj [OF mhash_add_inj [OF xor_cancel]])
qed simp

text \<open>Once the clock has given a nonzero seed, every number the generator returns is nonzero and is
  the seed of the next one, so the generator never falls back to the clock.\<close>

theorem random_never_zero:
  assumes "seed \<noteq> 0 \<or> now 0 \<noteq> 0"
  shows "\<exists>r. random_uint32 now seed = Some (r, r) \<and> r \<noteq> 0 \<and> random_uint32 now' r = Some (random_next r)"
proof -
  obtain s where s: "random_init now seed = Some s" "s \<noteq> 0" using random_init_nonzero [of seed now] assms by blast
  define r where "r = fst (random_next s)"
  have r: "random_next s = (r, r)" by (simp add: r_def random_next_def Let_def)
  have "r \<noteq> 0" using random_next_zero [of s] s(2) by (auto simp: r_def)
  moreover have "random_init now' r = Some r" using random_init_nonzero [of r now'] calculation by auto
  ultimately show ?thesis using s r by (simp add: random_uint32_def)
qed

theorem random_never_zero_witness:
  "\<exists>r. random_uint32 (\<lambda>i. 7) 0 = Some (r, r) \<and> r \<noteq> 0 \<and> random_uint32 (\<lambda>i. 8) r = Some (random_next r)"
  using random_never_zero [of 0 "\<lambda>i. 7" "\<lambda>i. 8"] by simp

end
