(* ===== verification/Wc_Cache.thy ===== *)
theory Wc_Cache
  imports Prelude "HOL-Library.List_Lexorder"
begin

text \<open>
  The word cache of \<^verbatim>\<open>map-reduce/word-count.c\<close>: C strings, the order-preserving hash of a word, the hash
  tables of the worker threads and of the main thread, the insertion of a word and the merge of
  the workers' tables.

  A string is the array that holds it. Word objects are numbered in the order of their allocation;
  an object is linked into the table of its thread by \<open>node\<close> and into the main table by \<open>node_main\<close>, so
  both tables share its counter. A freed object is \<open>None\<close>. The circular list of a bucket is the
  sequence of the objects in it. \<open>oom\<close> says which allocations fail: \<open>2 * n\<close> is the one of object
  \<open>n\<close>, \<open>2 * n + 1\<close> the one of its long text, which the code does not check. The value \<open>None\<close> of an
  operation stands for an access outside an array or to a freed object.

  The quotient of \<open>scale_range\<close> is computed in floating point; its operands are integers below
  \<open>2 ^ 43\<close> and the divisor is below \<open>2 ^ 30\<close>, so rounding does not reach the next integer and the
  truncated result is the integer quotient.
\<close>

unbundle bit_operations_syntax

section \<open>Strings\<close>

definition cstr :: "u8 list \<Rightarrow> u8 list" where
  "cstr a = takeWhile (\<lambda>c. c \<noteq> 0) a"

definition to_lower :: "u8 \<Rightarrow> u8" where
  "to_lower c = (if 65 \<le> c \<and> c \<le> 90 then c + 32 else c)"

fun strcasecmp_str :: "u8 list \<Rightarrow> u8 list \<Rightarrow> int" where
  "strcasecmp_str [] [] = 0"
| "strcasecmp_str [] (y # ys) = - uint (to_lower y)"
| "strcasecmp_str (x # xs) [] = uint (to_lower x)"
| "strcasecmp_str (x # xs) (y # ys) =
     (if to_lower x = to_lower y then strcasecmp_str xs ys else uint (to_lower x) - uint (to_lower y))"

definition strcasecmp :: "u8 list \<Rightarrow> u8 list \<Rightarrow> int" where
  "strcasecmp a b = strcasecmp_str (cstr a) (cstr b)"

section \<open>Hash of a word\<close>

definition N_LETTERS :: nat where "N_LETTERS = 26"

definition MIN_N_BUCKETS :: nat where "MIN_N_BUCKETS = N_LETTERS"

definition MAX_WORD_SIZE :: nat where "MAX_WORD_SIZE = 32"

definition MAX_N_WORDS :: nat where "MAX_N_WORDS = 8192"

text \<open>The width of an \<open>unsigned int\<close> less its leading zeros.\<close>

fun bit_length :: "nat \<Rightarrow> nat" where
  "bit_length n = (if n = 0 then 0 else Suc (bit_length (n div 2)))"

declare bit_length.simps [simp del]

definition code_shift :: nat where
  "code_shift = bit_length N_LETTERS"

fun get_code_at :: "nat \<Rightarrow> u8 list \<Rightarrow> u32 \<Rightarrow> u32" where
  "get_code_at (Suc i) (ch # word) code =
     (let c = to_lower ch - 97 in
      get_code_at i word (code OR push_bit (i * code_shift) (scast c)))"
| "get_code_at _ _ code = code"

definition get_code :: "u8 list \<Rightarrow> u32" where
  "get_code word = get_code_at (32 div code_shift) (cstr word) 0"

definition code_min :: u32 where
  "code_min = get_code [97, 0]"

definition code_max :: u32 where
  "code_max = get_code (replicate 10 122 @ [0])"

definition code_range :: u32 where
  "code_range = code_max - code_min"

definition scale_range :: "nat \<Rightarrow> u32 \<Rightarrow> nat" where
  "scale_range n_buckets code = nat ((uint code - uint code_min) * int n_buckets div uint code_range)"

definition hash_bucket :: "nat \<Rightarrow> u8 list \<Rightarrow> u32 \<times> nat" where
  "hash_bucket n_buckets key = (let code = get_code key in (code, scale_range n_buckets code))"

section \<open>Words and tables\<close>

record wc_word =
  arr :: "u8 list"
  full_word :: "u8 list option"
  counter :: u32
  node :: u32
  node_main :: u32

type_synonym htable = "nat list list"

record wc_state =
  n_buckets :: nat
  objs :: "wc_word option list"
  thread_caches :: "htable list"
  main_cache :: htable

definition GET_WORD :: "wc_word \<Rightarrow> u8 list" where
  "GET_WORD w = (case full_word w of Some f \<Rightarrow> f | None \<Rightarrow> arr w)"

definition obj :: "wc_word option list \<Rightarrow> nat \<Rightarrow> wc_word option" where
  "obj ws p = do { w \<leftarrow> load_at ws p; w }"

text \<open>\<open>m\<close> selects the node of the main table, as the last argument of \<open>__wc_cmp\<close>.\<close>

definition node_hash :: "bool \<Rightarrow> wc_word \<Rightarrow> u32" where
  "node_hash m w = (if m then node_main w else node w)"

definition set_node_hash :: "bool \<Rightarrow> u32 \<Rightarrow> wc_word \<Rightarrow> wc_word" where
  "set_node_hash m h w = (if m then w\<lparr>node_main := h\<rparr> else w\<lparr>node := h\<rparr>)"

definition wc_cmp :: "wc_word \<Rightarrow> u8 list \<Rightarrow> int" where
  "wc_cmp w key = strcasecmp (GET_WORD w) key"

definition ht_init :: "nat \<Rightarrow> htable" where
  "ht_init n = replicate n []"

fun ht_find_loop :: "bool \<Rightarrow> wc_word option list \<Rightarrow> u32 \<Rightarrow> u8 list \<Rightarrow> nat list \<Rightarrow> nat option option" where
  "ht_find_loop m ws hval key [] = Some None"
| "ht_find_loop m ws hval key (n # ns) = do {
     w \<leftarrow> obj ws n;
     if node_hash m w = hval then
       let res = wc_cmp w key in
       if res = 0 then Some (Some n)
       else if res > 0 then Some None
       else ht_find_loop m ws hval key ns
     else ht_find_loop m ws hval key ns
   }"

definition ht_find :: "bool \<Rightarrow> nat \<Rightarrow> wc_word option list \<Rightarrow> htable \<Rightarrow> u8 list \<Rightarrow> nat option option" where
  "ht_find m nb ws h key = (let (hval, bkt) = hash_bucket nb key in do {
     ns \<leftarrow> load_at h bkt;
     ht_find_loop m ws hval key ns
   })"

fun ht_insert_loop :: "bool \<Rightarrow> wc_word option list \<Rightarrow> u32 \<Rightarrow> u8 list \<Rightarrow> nat \<Rightarrow> nat list \<Rightarrow> (int \<times> nat list) option" where
  "ht_insert_loop m ws hval key n [] = Some (0, [n])"
| "ht_insert_loop m ws hval key n (tmp # ns) = do {
     w \<leftarrow> obj ws tmp;
     let continue = do { (r, ns') \<leftarrow> ht_insert_loop m ws hval key n ns; Some (r, tmp # ns') };
     if node_hash m w \<ge> hval then
       let cmp = wc_cmp w key in
       if cmp = 0 then Some (-1, tmp # ns)
       else if cmp > 0 then Some (0, n # tmp # ns)
       else continue
     else continue
   }"

definition ht_insert :: "bool \<Rightarrow> nat \<Rightarrow> nat \<Rightarrow> u8 list \<Rightarrow> wc_word option list \<Rightarrow> htable
    \<Rightarrow> (int \<times> wc_word option list \<times> htable) option" where
  "ht_insert m nb n key ws h = (let (hval, bkt) = hash_bucket nb key in do {
     w \<leftarrow> obj ws n;
     let ws = ws[n := Some (set_node_hash m hval w)];
     ns \<leftarrow> load_at h bkt;
     (r, ns') \<leftarrow> ht_insert_loop m ws hval key n ns;
     Some (r, ws, h[bkt := ns'])
   })"

definition ht_get_first :: "htable \<Rightarrow> nat \<Rightarrow> nat option option" where
  "ht_get_first h bucket = do {
     ns \<leftarrow> load_at h bucket;
     Some (case ns of [] \<Rightarrow> None | n # _ \<Rightarrow> Some n)
   }"

text \<open>Reading the successor of an object reads the object, which must still be there.\<close>

definition ht_get_next :: "wc_word option list \<Rightarrow> htable \<Rightarrow> nat \<Rightarrow> nat \<Rightarrow> nat option option" where
  "ht_get_next ws h bucket n = do {
     ns \<leftarrow> load_at h bucket;
     w \<leftarrow> obj ws n;
     Some (case tl (dropWhile (\<lambda>p. p \<noteq> n) ns) of [] \<Rightarrow> None | n' # _ \<Rightarrow> Some n')
   }"

section \<open>Cache operations\<close>

definition wc_init :: "nat \<Rightarrow> nat \<Rightarrow> wc_state" where
  "wc_init n_threads n_words =
     (let nb = max (min n_words MAX_N_WORDS) MIN_N_BUCKETS in
      \<lparr>n_buckets = nb, objs = [], thread_caches = replicate n_threads (ht_init nb), main_cache = ht_init nb\<rparr>)"

fun wc_strncpy_at :: "nat \<Rightarrow> nat \<Rightarrow> u8 list \<Rightarrow> u8 list \<Rightarrow> u8 list option" where
  "wc_strncpy_at i 0 dest src = Some dest"
| "wc_strncpy_at i (Suc k) dest src = do {
     c \<leftarrow> load_at src i;
     if c = 0 then Some dest
     else do {
       dest \<leftarrow> store_at dest i (to_lower c);
       wc_strncpy_at (Suc i) k dest src
     }
   }"

definition wc_strncpy :: "u8 list \<Rightarrow> u8 list \<Rightarrow> nat \<Rightarrow> u8 list option" where
  "wc_strncpy dest src n = wc_strncpy_at 0 n dest src"

definition wc_add_word :: "(nat \<Rightarrow> bool) \<Rightarrow> nat \<Rightarrow> u8 list \<Rightarrow> nat \<Rightarrow> wc_state \<Rightarrow> (int \<times> wc_state) option" where
  "wc_add_word oom tid word count s = do {
     cache \<leftarrow> load_at (thread_caches s) tid;
     f \<leftarrow> ht_find False (n_buckets s) (objs s) cache word;
     case f of
       None \<Rightarrow>
         if oom (2 * length (objs s)) then Some (-1, s)
         else do {
           let n = length (objs s);
           let w = \<lparr>arr = replicate MAX_WORD_SIZE 0,
                    full_word = (if count > MAX_WORD_SIZE - 1 \<and> \<not> oom (2 * n + 1) then Some (replicate (count + 1) 0) else None),
                    counter = 0, node = 0, node_main = 0\<rparr>;
           text \<leftarrow> wc_strncpy (GET_WORD w) word count;
           let w = (case full_word w of Some _ \<Rightarrow> w\<lparr>full_word := Some text\<rparr> | None \<Rightarrow> w\<lparr>arr := text\<rparr>);
           (r, ws, cache) \<leftarrow> ht_insert False (n_buckets s) n word (objs s @ [Some w]) cache;
           w \<leftarrow> obj ws n;
           Some (0, s\<lparr>objs := ws[n := Some (w\<lparr>counter := counter w + 1\<rparr>)], thread_caches := (thread_caches s)[tid := cache]\<rparr>)
         }
     | Some n \<Rightarrow> do {
         w \<leftarrow> obj (objs s) n;
         Some (0, s\<lparr>objs := (objs s)[n := Some (w\<lparr>counter := counter w + 1\<rparr>)]\<rparr>)
       }
   }"

text \<open>One iteration of the merge of a bucket.\<close>

definition merge_word :: "nat \<Rightarrow> wc_state \<Rightarrow> wc_state option" where
  "merge_word n s = do {
     iw \<leftarrow> obj (objs s) n;
     let wd = GET_WORD iw;
     f \<leftarrow> ht_find True (n_buckets s) (objs s) (main_cache s) wd;
     case f of
       Some p \<Rightarrow> do {
         w \<leftarrow> obj (objs s) p;
         Some (s\<lparr>objs := (objs s)[p := Some (w\<lparr>counter := counter w + counter iw\<rparr>)]\<rparr>)
       }
     | None \<Rightarrow> do {
         (r, ws, h) \<leftarrow> ht_insert True (n_buckets s) n wd (objs s) (main_cache s);
         Some (s\<lparr>objs := ws, main_cache := h\<rparr>)
       }
   }"

definition merge_iter :: "htable \<Rightarrow> nat \<Rightarrow> nat option \<times> wc_state \<Rightarrow> ((nat option \<times> wc_state) + wc_state) option" where
  "merge_iter wcc j = (\<lambda>(iter, s).
     case iter of
       None \<Rightarrow> Some (Inr s)
     | Some n \<Rightarrow> do {
         s \<leftarrow> merge_word n s;
         iter \<leftarrow> ht_get_next (objs s) wcc j n;
         Some (Inl (iter, s))
       })"

definition merge_results :: "nat \<Rightarrow> nat \<Rightarrow> wc_state \<Rightarrow> wc_state option" where
  "merge_results i j s = do {
     wcc \<leftarrow> load_at (thread_caches s) i;
     iter \<leftarrow> ht_get_first wcc j;
     loop (merge_iter wcc j) (iter, s)
   }"

definition worker_range :: "nat \<Rightarrow> nat \<Rightarrow> nat \<Rightarrow> nat \<times> nat" where
  "worker_range nb n_threads tid =
     (let n_workers = (if n_threads > nb then nb else n_threads);
          wk_buckets = nb div n_workers;
          wk_bstart = wk_buckets * tid;
          wk_bend = wk_bstart + wk_buckets;
          wk_bend = (if tid = n_workers - 1 then wk_bend + nb mod n_workers else wk_bend) in
      if n_threads > nb \<and> tid > nb - 1 then (0, 0) else (wk_bstart, wk_bend))"

fun merge_all :: "(nat \<times> nat) list \<Rightarrow> wc_state \<Rightarrow> wc_state option" where
  "merge_all [] s = Some s"
| "merge_all ((i, j) # ijs) s = do { s \<leftarrow> merge_results i j s; merge_all ijs s }"

definition wc_merge_results :: "nat \<Rightarrow> nat \<Rightarrow> wc_state \<Rightarrow> wc_state option" where
  "wc_merge_results tid n_threads s =
     (let (wk_bstart, wk_bend) = worker_range (n_buckets s) n_threads tid in
      merge_all [(i, j). i \<leftarrow> [0..<n_threads], j \<leftarrow> [wk_bstart..<wk_bend]] s)"

section \<open>The order of words and their codes\<close>

abbreviation lower :: "u8 list \<Rightarrow> u8 list" where
  "lower w \<equiv> map to_lower w"

lemma to_lower_zero [simp]: "to_lower c = 0 \<longleftrightarrow> c = 0"
proof (cases "65 \<le> c \<and> c \<le> 90")
  case True
  then have "unat (c + 32) = unat c + 32" by (simp add: word_le_nat_alt unat_word_ariths)
  then have "c + 32 \<noteq> 0" by (metis add_is_0 unsigned_0 zero_neq_numeral)
  then show ?thesis using True by (auto simp: to_lower_def)
qed (auto simp: to_lower_def)

lemma cstr_no_zero [simp]: "0 \<notin> set (cstr a)"
  unfolding cstr_def by (auto dest: set_takeWhileD)

lemma cmp_lower:
  assumes "0 \<notin> set a" "0 \<notin> set b"
  shows "strcasecmp_str a b = 0 \<longleftrightarrow> lower a = lower b" and "strcasecmp_str a b < 0 \<longleftrightarrow> lower a < lower b"
proof -
  have "(strcasecmp_str a b = 0 \<longleftrightarrow> lower a = lower b) \<and> (strcasecmp_str a b < 0 \<longleftrightarrow> lower a < lower b)"
    using assms
  proof (induction a b rule: strcasecmp_str.induct)
    case (2 y ys)
    then have "0 < uint (to_lower y)" using uint_ge_0 [of "to_lower y"] by (simp add: less_le unsigned_eq_0_iff)
    then show ?case by simp
  next
    case (3 x xs)
    then have "0 < uint (to_lower x)" using uint_ge_0 [of "to_lower x"] by (simp add: less_le unsigned_eq_0_iff)
    then show ?case by simp
  next
    case (4 x xs y ys)
    then show ?case by (auto simp: word_less_def word_uint_eq_iff)
  qed simp
  then show "strcasecmp_str a b = 0 \<longleftrightarrow> lower a = lower b" "strcasecmp_str a b < 0 \<longleftrightarrow> lower a < lower b" by auto
qed

definition letters :: "u8 list \<Rightarrow> bool" where
  "letters w \<longleftrightarrow> (\<forall>c \<in> set w. 97 \<le> to_lower c \<and> to_lower c \<le> 122)"

fun code_ref :: "nat \<Rightarrow> u8 list \<Rightarrow> nat" where
  "code_ref (Suc i) (c # cs) = (unat (to_lower c) - 97) * 32 ^ i + code_ref i cs"
| "code_ref _ _ = 0"

lemma letter_value: "97 \<le> (c::u8) \<Longrightarrow> c \<le> 122 \<Longrightarrow> unat c - 97 \<le> 25"
  by (simp add: word_le_nat_alt)

lemma code_ref_less: "letters w \<Longrightarrow> code_ref i w < 32 ^ i"
proof (induction i w rule: code_ref.induct)
  case (1 i c cs)
  then have "code_ref i cs < 32 ^ i" "unat (to_lower c) - 97 \<le> 25" by (auto simp: letters_def intro: letter_value)
  then have "(unat (to_lower c) - 97) * 32 ^ i + code_ref i cs < 25 * 32 ^ i + 32 ^ i"
    by (meson add_le_less_mono mult_le_mono1)
  then show ?case by simp
qed simp_all

lemma code_shift_5 [simp]: "code_shift = 5"
  by (simp add: code_shift_def N_LETTERS_def bit_length.simps)

lemma or_disjoint_nat: "(2::nat) ^ k dvd x \<Longrightarrow> y < 2 ^ k \<Longrightarrow> x OR y = x + y"
proof -
  assume x: "2 ^ k dvd x" and y: "y < 2 ^ k"
  obtain q where q: "x = 2 ^ k * q" using x by (elim dvdE)
  then have px: "x = push_bit k q" by (simp add: push_bit_eq_mult mult.commute)
  have ty: "take_bit k y = y" using y by (simp add: take_bit_nat_eq_self)
  have "push_bit k q AND take_bit k y = 0" by (rule bit_eqI) (auto simp: bit_and_iff bit_push_bit_iff bit_take_bit_iff)
  then have "x AND y = 0" unfolding px ty .
  then show "x OR y = x + y" by (simp add: disjunctive_add_eq_or)
qed

lemma scast_letter: "97 \<le> (c::u8) \<Longrightarrow> c \<le> 122 \<Longrightarrow> unat (scast (c - 97) :: u32) = unat c - 97"
proof -
  assume c: "97 \<le> c" "c \<le> 122"
  then have u: "unat (c - 97) = unat c - 97" by (simp add: unat_sub)
  then have "uint (c - 97) < 2 ^ 7" using letter_value [OF c] by (simp add: uint_nat)
  then have "sint (c - 97) = uint (c - 97)"
    unfolding sint_uint by (intro signed_take_bit_int_eq_self) (rule order_trans [OF _ uint_ge_0], simp, simp)
  then have "(scast (c - 97) :: u32) = word_of_int (uint (c - 97))" by (simp add: scast_eq)
  then have "uint (scast (c - 97) :: u32) = uint (c - 97)"
    using \<open>uint (c - 97) < 2 ^ 7\<close> uint_ge_0 [of "c - 97"] by (simp only: uint_word_of_int) simp
  then have "unat (scast (c - 97) :: u32) = unat (c - 97)" by (simp only: unat_eq_nat_uint)
  then show ?thesis using u by simp
qed

lemma pow32: "(2::nat) ^ (i * 5) = 32 ^ i"
  by (subst mult.commute, subst power_mult) simp

lemma get_code_at_ref:
  "letters w \<Longrightarrow> 32 ^ i dvd unat code \<Longrightarrow> unat code + 32 ^ i \<le> 2 ^ 32 \<Longrightarrow> i \<le> 6 \<Longrightarrow>
    unat (get_code_at i w code) = unat code + code_ref i w"
proof (induction i w code rule: get_code_at.induct)
  case (1 i ch word code)
  define v where "v = unat (to_lower ch) - 97"
  have c: "97 \<le> to_lower ch" "to_lower ch \<le> 122" using 1 by (auto simp: letters_def)
  have v: "v \<le> 25" unfolding v_def by (rule letter_value [OF c])
  note i5 = pow32 [of i]
  have vl: "v * 32 ^ i < 32 ^ Suc i" using v by simp
  have le: "(32::nat) ^ Suc i \<le> 32 ^ 6" using 1(5) by (intro power_increasing) simp_all
  have p: "unat (push_bit (i * 5) (scast (to_lower ch - 97) :: u32)) = v * 32 ^ i"
  proof -
    have "unat (push_bit (i * 5) (scast (to_lower ch - 97) :: u32)) = take_bit 32 (push_bit (i * 5) v)"
      using scast_letter [OF c] v_def by (simp only: unsigned_push_bit_eq) simp
    also have "\<dots> = take_bit 32 (v * 32 ^ i)" by (simp only: push_bit_eq_mult i5)
    also have "\<dots> = v * 32 ^ i" by (rule take_bit_nat_eq_self, rule less_trans [OF order.strict_trans2 [OF vl le]]) simp
    finally show ?thesis .
  qed
  define code' where "code' = code OR push_bit (i * 5) (scast (to_lower ch - 97))"
  note i5' = pow32 [of "Suc i"]
  have "unat code OR v * 32 ^ i = unat code + v * 32 ^ i"
    by (rule or_disjoint_nat [of "Suc i * 5"]) (use 1(3) vl in \<open>simp_all only: i5'\<close>)
  then have u: "unat code' = unat code + v * 32 ^ i" by (simp only: code'_def unsigned_or_eq p)
  have "32 ^ i dvd unat code" using 1(3) by (simp add: dvd_mult_right)
  then have d: "32 ^ i dvd unat code'" unfolding u by simp
  have "Suc v * 32 ^ i \<le> 32 * 32 ^ i" using v by (intro mult_le_mono1) simp
  then have "unat code' + 32 ^ i \<le> 2 ^ 32" using 1(4) unfolding u mult_Suc power_Suc by linarith
  moreover have "letters word" "i \<le> 6" using 1(2,5) by (simp_all add: letters_def)
  ultimately have "unat (get_code_at i word code') = unat code' + code_ref i word"
    using 1(1) [OF refl, unfolded code_shift_5, folded code'_def] d by blast
  then show ?case using u by (simp add: code'_def v_def Let_def)
qed simp_all

lemma get_code_ref: "letters (cstr w) \<Longrightarrow> unat (get_code w) = code_ref 6 (cstr w)"
proof -
  assume l: "letters (cstr w)"
  have "(32::nat) ^ 6 dvd unat (0::u32)" "unat (0::u32) + 32 ^ 6 \<le> 2 ^ 32" by simp_all
  from get_code_at_ref [OF l this] have "unat (get_code_at 6 (cstr w) 0) = code_ref 6 (cstr w)" by simp
  moreover have "get_code w = get_code_at 6 (cstr w) 0" by (simp add: get_code_def)
  ultimately show ?thesis by (simp only:)
qed

lemma code_ref_lower: "lower a = lower b \<Longrightarrow> code_ref i a = code_ref i b"
proof (induction i a arbitrary: b rule: code_ref.induct)
  case (1 i c cs)
  then obtain d ds where b: "b = d # ds" "to_lower c = to_lower d" "lower cs = lower ds" by (cases b) auto
  show ?case unfolding b(1) code_ref.simps b(2) 1(1) [OF b(3)] ..
qed simp_all

lemma code_ref_mono: "letters a \<Longrightarrow> letters b \<Longrightarrow> lower a < lower b \<Longrightarrow> code_ref i a \<le> code_ref i b"
proof (induction i a arbitrary: b rule: code_ref.induct)
  case (1 i c cs)
  then obtain d ds where b: "b = d # ds" by (cases b) auto
  show ?case
  proof (cases "to_lower c = to_lower d")
    case True
    have "letters cs" "letters ds" "lower cs < lower ds" using 1(2,3,4) b True by (simp_all add: letters_def)
    then show ?thesis using 1(1) [of ds] b True by simp
  next
    case False
    then have "to_lower c < to_lower d" using 1(4) b by simp
    moreover have "97 \<le> to_lower c" using 1(2) by (simp add: letters_def)
    ultimately have "Suc (unat (to_lower c) - 97) \<le> unat (to_lower d) - 97" by (simp add: word_less_nat_alt word_le_nat_alt)
    then have "Suc (unat (to_lower c) - 97) * 32 ^ i \<le> (unat (to_lower d) - 97) * 32 ^ i" by (rule mult_le_mono1)
    moreover have "code_ref i cs < 32 ^ i" using 1(2) by (intro code_ref_less) (simp add: letters_def)
    ultimately show ?thesis using b by simp
  qed
qed simp_all

section \<open>Buckets\<close>

definition key_ok :: "u8 list \<Rightarrow> bool" where
  "key_ok w \<longleftrightarrow> letters w \<and> take 6 (lower w) \<noteq> replicate 6 122"

definition bkt :: "nat \<Rightarrow> u8 list \<Rightarrow> nat" where
  "bkt nb w = code_ref 6 w * nb div code_ref 6 (replicate 6 122)"

lemma lower_z [simp]: "to_lower 122 = 122"
  by (simp add: to_lower_def)

lemma code_ref_nil: "code_ref i [] = 0"
  by (cases i) simp_all

lemma code_ref_z_pos: "i \<noteq> 0 \<Longrightarrow> 0 < code_ref i (replicate i 122)"
  by (cases i) simp_all

lemma code_ref_below: "letters w \<Longrightarrow> take i (lower w) \<noteq> replicate i 122 \<Longrightarrow> code_ref i w < code_ref i (replicate i 122)"
proof (induction i w rule: code_ref.induct)
  case (1 i c cs)
  have z: "code_ref (Suc i) (replicate (Suc i) 122) = 25 * 32 ^ i + code_ref i (replicate i 122)" by simp
  have c: "97 \<le> to_lower c" "to_lower c \<le> 122" and cs: "letters cs" using 1(2) by (auto simp: letters_def)
  show ?case
  proof (cases "to_lower c = 122")
    case True
    then have "code_ref i cs < code_ref i (replicate i 122)" using 1(1,3) cs by simp
    then show ?thesis unfolding z using True by simp
  next
    case False
    then have "unat (to_lower c) - 97 < 25" using c by (simp add: word_le_nat_alt word_unat_eq_iff)
    then have "Suc (unat (to_lower c) - 97) * 32 ^ i \<le> 25 * 32 ^ i" by (intro mult_le_mono1) simp
    then show ?thesis unfolding z code_ref.simps using code_ref_less [OF cs, of i] unfolding mult_Suc by linarith
  qed
qed (auto simp: code_ref_z_pos code_ref_nil)

lemma bkt_less: "key_ok w \<Longrightarrow> 0 < nb \<Longrightarrow> bkt nb w < nb"
proof -
  assume k: "key_ok w" and nb: "0 < nb"
  have "code_ref 6 w < code_ref 6 (replicate 6 122)" using k by (intro code_ref_below) (simp_all add: key_ok_def)
  then have "code_ref 6 w * nb < nb * code_ref 6 (replicate 6 122)" using nb by (simp add: mult.commute)
  then show ?thesis unfolding bkt_def by (rule less_mult_imp_div_less)
qed

lemma cstr_snoc: "0 \<notin> set w \<Longrightarrow> cstr (w @ 0 # r) = w"
  unfolding cstr_def by (induction w) auto

lemma code_ref_take: "code_ref i w = code_ref i (take i w)"
  by (induction i w rule: code_ref.induct) simp_all

lemma code_max_ref: "unat code_max = code_ref 6 (replicate 6 122)"
proof -
  have c: "cstr (replicate 10 122 @ [0]) = replicate 10 122" by (rule cstr_snoc) simp
  have "unat code_max = code_ref 6 (cstr (replicate 10 122 @ [0]))"
    unfolding code_max_def by (rule get_code_ref) (simp only: c, simp add: letters_def)
  also have "\<dots> = code_ref 6 (replicate 6 122)" unfolding c by (subst code_ref_take) simp
  finally show ?thesis .
qed

lemma code_min_ref: "code_min = 0"
proof -
  have c: "cstr ([97] @ [0]) = [97]" by (rule cstr_snoc) simp
  have six: "(6::nat) = Suc 5" by simp
  have "unat (get_code ([97] @ [0])) = code_ref 6 (cstr ([97] @ [0]))"
    by (rule get_code_ref) (simp only: c, simp add: letters_def to_lower_def)
  also have "\<dots> = 0" unfolding c six code_ref.simps by (simp add: to_lower_def)
  finally show ?thesis by (simp add: unat_eq_zero code_min_def)
qed

lemma hash_bucket_ref: "letters (cstr key) \<Longrightarrow> hash_bucket nb key = (get_code key, bkt nb (cstr key))"
proof -
  assume l: "letters (cstr key)"
  have "scale_range nb (get_code key) = nat (int (unat (get_code key)) * int nb div int (unat code_max))"
    by (simp add: scale_range_def code_min_ref code_range_def)
  also have "\<dots> = unat (get_code key) * nb div unat code_max" by (simp only: of_nat_mult [symmetric] zdiv_int [symmetric] nat_int)
  finally show ?thesis by (simp add: hash_bucket_def bkt_def get_code_ref [OF l] code_max_ref)
qed

definition wtxt :: "wc_word option list \<Rightarrow> nat \<Rightarrow> u8 list" where
  "wtxt ws p = (case obj ws p of Some w \<Rightarrow> cstr (GET_WORD w) | None \<Rightarrow> [])"

definition entry_ok :: "bool \<Rightarrow> nat \<Rightarrow> wc_word option list \<Rightarrow> nat \<Rightarrow> nat \<Rightarrow> bool" where
  "entry_ok m nb ws j p \<longleftrightarrow> (\<exists>w. obj ws p = Some w \<and> node_hash m w = get_code (GET_WORD w)) \<and>
     key_ok (wtxt ws p) \<and> lower (wtxt ws p) = wtxt ws p \<and> bkt nb (wtxt ws p) = j"

definition bucket_ok :: "bool \<Rightarrow> nat \<Rightarrow> wc_word option list \<Rightarrow> nat \<Rightarrow> nat list \<Rightarrow> bool" where
  "bucket_ok m nb ws j ns \<longleftrightarrow> (\<forall>p \<in> set ns. entry_ok m nb ws j p) \<and> sorted_wrt (<) (map (wtxt ws) ns)"

lemma bucket_ok_Cons:
  "bucket_ok m nb ws j (p # ns) \<longleftrightarrow> entry_ok m nb ws j p \<and> (\<forall>q \<in> set ns. wtxt ws p < wtxt ws q) \<and> bucket_ok m nb ws j ns"
  by (auto simp: bucket_ok_def)

text \<open>What comparing an entry with a key tells.\<close>

lemma entry_cmp:
  assumes e: "entry_ok m nb ws j p" and w: "obj ws p = Some w" and k: "letters (cstr key)"
  shows "wc_cmp w key = 0 \<longleftrightarrow> wtxt ws p = lower (cstr key)" and "wc_cmp w key < 0 \<longleftrightarrow> wtxt ws p < lower (cstr key)"
    and "wtxt ws p = lower (cstr key) \<Longrightarrow> node_hash m w = get_code key"
    and "lower (cstr key) < wtxt ws p \<Longrightarrow> get_code key \<le> node_hash m w"
proof -
  have t: "wtxt ws p = cstr (GET_WORD w)" using w by (simp add: wtxt_def)
  have l: "lower (wtxt ws p) = wtxt ws p" "letters (wtxt ws p)" using e by (simp_all add: entry_ok_def key_ok_def)
  have h: "unat (node_hash m w) = code_ref 6 (wtxt ws p)"
    using e w l(2) by (simp add: entry_ok_def t get_code_ref)
  have g: "unat (get_code key) = code_ref 6 (cstr key)" by (rule get_code_ref [OF k])
  show "wc_cmp w key = 0 \<longleftrightarrow> wtxt ws p = lower (cstr key)"
    using cmp_lower(1) [of "wtxt ws p" "cstr key"] l(1) by (simp add: wc_cmp_def strcasecmp_def t)
  show "wc_cmp w key < 0 \<longleftrightarrow> wtxt ws p < lower (cstr key)"
    using cmp_lower(2) [of "wtxt ws p" "cstr key"] l(1) by (simp add: wc_cmp_def strcasecmp_def t)
  show "wtxt ws p = lower (cstr key) \<Longrightarrow> node_hash m w = get_code key"
    using code_ref_lower [of "wtxt ws p" "cstr key" 6] l(1) h g by (simp add: word_unat_eq_iff)
  show "lower (cstr key) < wtxt ws p \<Longrightarrow> get_code key \<le> node_hash m w"
    using code_ref_mono [OF k l(2), of 6] l(1) h g by (simp add: word_le_nat_alt)
qed

lemma find_loop:
  assumes "bucket_ok m nb ws j ns" "letters (cstr key)"
  shows "ht_find_loop m ws (get_code key) key ns = Some (List.find (\<lambda>p. wtxt ws p = lower (cstr key)) ns)"
  using assms(1)
proof (induction ns)
  case (Cons p ns)
  then have e: "entry_ok m nb ws j p" and lt: "\<forall>q \<in> set ns. wtxt ws p < wtxt ws q" and
    IH: "ht_find_loop m ws (get_code key) key ns = Some (List.find (\<lambda>p. wtxt ws p = lower (cstr key)) ns)"
    by (auto simp: bucket_ok_Cons)
  obtain w where w: "obj ws p = Some w" using e by (auto simp: entry_ok_def)
  note c = entry_cmp [OF e w assms(2)]
  consider (eq) "wtxt ws p = lower (cstr key)" | (lt) "wtxt ws p < lower (cstr key)" | (gt) "lower (cstr key) < wtxt ws p"
    using less_linear by blast
  then show ?case
  proof cases
    case eq
    then show ?thesis using c(1,3) w by simp
  next
    case lt
    then have "wc_cmp w key \<noteq> 0" "\<not> wc_cmp w key > 0" "wtxt ws p \<noteq> lower (cstr key)" using c(1,2) by auto
    then show ?thesis using w IH by simp
  next
    case gt
    then have n: "wc_cmp w key > 0" "wtxt ws p \<noteq> lower (cstr key)" using c(1,2) by auto
    have "List.find (\<lambda>p. wtxt ws p = lower (cstr key)) ns = None"
      unfolding find_None_iff using lt gt by (metis less_asym')
    then show ?thesis using w IH n by simp
  qed
qed simp

lemma insert_loop:
  assumes "bucket_ok m nb ws j ns" "letters (cstr key)" and n: "wtxt ws n = lower (cstr key)" "\<forall>q \<in> set ns. wtxt ws q \<noteq> lower (cstr key)"
  shows "\<exists>ns'. ht_insert_loop m ws (get_code key) key n ns = Some (0, ns') \<and> set ns' = insert n (set ns) \<and>
    sorted_wrt (<) (map (wtxt ws) ns')"
  using assms(1) n(2)
proof (induction ns)
  case (Cons p ns)
  then have e: "entry_ok m nb ws j p" and lt: "\<forall>q \<in> set ns. wtxt ws p < wtxt ws q" and b: "bucket_ok m nb ws j ns"
    by (auto simp: bucket_ok_Cons)
  then obtain ns' where IH: "ht_insert_loop m ws (get_code key) key n ns = Some (0, ns')" "set ns' = insert n (set ns)"
      "sorted_wrt (<) (map (wtxt ws) ns')"
    using Cons by auto
  obtain w where w: "obj ws p = Some w" using e by (auto simp: entry_ok_def)
  note c = entry_cmp [OF e w assms(2)]
  show ?case
  proof (cases "wtxt ws p < lower (cstr key)")
    case True
    then have "wc_cmp w key \<noteq> 0" "\<not> wc_cmp w key > 0" using c(1,2) by auto
    then have "ht_insert_loop m ws (get_code key) key n (p # ns) = Some (0, p # ns')" using w IH by (simp add: Let_def)
    then show ?thesis using IH lt True n(1) by auto
  next
    case False
    then have gt: "lower (cstr key) < wtxt ws p" using Cons.prems(2) by auto
    then have "wc_cmp w key > 0" "get_code key \<le> node_hash m w" using c(1,2,4) by auto
    then have "ht_insert_loop m ws (get_code key) key n (p # ns) = Some (0, n # p # ns)" using w by (simp add: Let_def)
    moreover have "sorted_wrt (<) (map (wtxt ws) (n # p # ns))"
      using Cons.prems(1) gt n(1) lt by (auto simp: bucket_ok_def)
    ultimately show ?thesis by auto
  qed
qed simp

section \<open>Tables\<close>

definition ids :: "htable \<Rightarrow> nat set" where
  "ids T = set (concat T)"

definition table_ok :: "bool \<Rightarrow> nat \<Rightarrow> wc_word option list \<Rightarrow> htable \<Rightarrow> bool" where
  "table_ok m nb ws T \<longleftrightarrow> length T = nb \<and> 0 < nb \<and> (\<forall>j < nb. bucket_ok m nb ws j (T ! j))"

definition cnt :: "wc_word option list \<Rightarrow> nat \<Rightarrow> u32" where
  "cnt ws p = (case obj ws p of Some w \<Rightarrow> counter w | None \<Rightarrow> 0)"

lemma lower_idem [simp]: "to_lower (to_lower c) = to_lower c"
proof -
  have "\<not> c + 32 \<le> 90" if "65 \<le> c" "c \<le> 90"
  proof -
    have "unat (c + 32) = unat c + 32" using that by (simp add: word_le_nat_alt unat_word_ariths)
    then show ?thesis using that by (simp add: word_le_nat_alt)
  qed
  then show ?thesis by (auto simp: to_lower_def)
qed

lemma lower_comp [simp]: "to_lower \<circ> to_lower = to_lower"
  by (simp add: fun_eq_iff)

lemma bkt_lower: "bkt nb (lower w) = bkt nb w"
  using code_ref_lower [of "lower w" w 6] by (simp add: bkt_def)

lemma key_ok_lower: "key_ok (lower w) = key_ok w"
  by (simp add: key_ok_def letters_def)

lemma in_ids: "p \<in> ids T \<longleftrightarrow> (\<exists>j < length T. p \<in> set (T ! j))"
  unfolding ids_def by (auto simp: in_set_conv_nth Bex_def)

lemma table_entry:
  assumes "table_ok m nb ws T" "p \<in> ids T"
  shows "\<exists>w. obj ws p = Some w \<and> node_hash m w = get_code (GET_WORD w)" and "key_ok (wtxt ws p)"
    and "lower (wtxt ws p) = wtxt ws p" and "p \<in> set (T ! bkt nb (wtxt ws p))" and "bkt nb (wtxt ws p) < nb"
proof -
  obtain j where j: "j < nb" "p \<in> set (T ! j)" using assms by (auto simp: in_ids table_ok_def)
  then have "bucket_ok m nb ws j (T ! j)" using assms(1) by (simp add: table_ok_def)
  then have "entry_ok m nb ws j p" using j(2) by (simp add: bucket_ok_def)
  note e = this [unfolded entry_ok_def]
  then have bj: "bkt nb (wtxt ws p) = j" by blast
  show "\<exists>w. obj ws p = Some w \<and> node_hash m w = get_code (GET_WORD w)" "key_ok (wtxt ws p)"
    "lower (wtxt ws p) = wtxt ws p" using e by blast+
  show "p \<in> set (T ! bkt nb (wtxt ws p))" "bkt nb (wtxt ws p) < nb" unfolding bj using j by blast+
qed

lemma sorted_text_inj:
  "sorted_wrt (<) (map (wtxt ws) ns) \<Longrightarrow> p \<in> set ns \<Longrightarrow> q \<in> set ns \<Longrightarrow> wtxt ws p = wtxt ws q \<Longrightarrow> p = q"
proof -
  assume s: "sorted_wrt (<) (map (wtxt ws) ns)" and pq: "p \<in> set ns" "q \<in> set ns" "wtxt ws p = wtxt ws q"
  have "inj_on (wtxt ws) (set ns)" using s by (simp add: strict_sorted_iff distinct_map)
  then show "p = q" using pq(3,1,2) by (rule inj_onD)
qed

lemma table_text_inj:
  assumes "table_ok m nb ws T" "p \<in> ids T" "q \<in> ids T" "wtxt ws p = wtxt ws q"
  shows "p = q"
proof -
  note p = table_entry [OF assms(1,2)] and q = table_entry [OF assms(1,3)]
  have "bucket_ok m nb ws (bkt nb (wtxt ws p)) (T ! bkt nb (wtxt ws p))" using assms(1) p(5) by (simp add: table_ok_def)
  then show ?thesis
    using p(4) q(4) assms(4) by (intro sorted_text_inj [of ws "T ! bkt nb (wtxt ws p)" p q]) (simp_all add: bucket_ok_def)
qed

lemma table_bucket_distinct: "table_ok m nb ws T \<Longrightarrow> j < nb \<Longrightarrow> distinct (T ! j)"
proof -
  assume "table_ok m nb ws T" "j < nb"
  then have "sorted_wrt (<) (map (wtxt ws) (T ! j))" by (auto simp: table_ok_def bucket_ok_def)
  then have "distinct (map (wtxt ws) (T ! j))" by (simp add: strict_sorted_iff)
  then show ?thesis by (simp add: distinct_map)
qed

lemma table_bucket_disjoint:
  assumes "table_ok m nb ws T" "j < nb" "j' < nb" "j \<noteq> j'"
  shows "set (T ! j) \<inter> set (T ! j') = {}"
proof -
  have "bkt nb (wtxt ws p) = i" if "i < nb" "p \<in> set (T ! i)" for i p
    using that assms(1) by (simp add: table_ok_def bucket_ok_def entry_ok_def)
  then show ?thesis using assms by blast
qed

lemma find_table:
  assumes t: "table_ok m nb ws T" and k: "key_ok (cstr key)"
  shows "(\<exists>p \<in> ids T. wtxt ws p = lower (cstr key) \<and> ht_find m nb ws T key = Some (Some p)) \<or>
    (\<forall>p \<in> ids T. wtxt ws p \<noteq> lower (cstr key)) \<and> ht_find m nb ws T key = Some None"
proof -
  define b where "b = bkt nb (cstr key)"
  have l: "letters (cstr key)" using k by (simp add: key_ok_def)
  have b: "b < nb" using k t by (simp add: b_def bkt_less table_ok_def)
  then have "bucket_ok m nb ws b (T ! b)" using t by (simp add: table_ok_def)
  then have f: "ht_find m nb ws T key = Some (List.find (\<lambda>p. wtxt ws p = lower (cstr key)) (T ! b))"
    using find_loop [of m nb ws b "T ! b" key] b t l by (simp add: ht_find_def hash_bucket_ref b_def table_ok_def)
  show ?thesis
  proof (cases "List.find (\<lambda>p. wtxt ws p = lower (cstr key)) (T ! b)")
    case None
    have "wtxt ws p \<noteq> lower (cstr key)" if p: "p \<in> ids T" for p
    proof
      assume e: "wtxt ws p = lower (cstr key)"
      have "p \<in> set (T ! bkt nb (wtxt ws p))" by (rule table_entry(4) [OF t p])
      then have "p \<in> set (T ! b)" by (simp add: e bkt_lower b_def)
      then show False using None e by (auto simp: find_None_iff)
    qed
    then show ?thesis using f None by auto
  next
    case (Some p)
    then have "p \<in> set (T ! b)" "wtxt ws p = lower (cstr key)" by (auto simp: find_Some_iff)
    then show ?thesis using f Some b t by (auto simp: in_ids table_ok_def)
  qed
qed

text \<open>Only the text and the hash of the entries matter to a table.\<close>

lemma table_cong:
  assumes t: "table_ok m nb ws T"
    and eq: "\<And>p w. p \<in> ids T \<Longrightarrow> obj ws p = Some w \<Longrightarrow>
      \<exists>w'. obj ws' p = Some w' \<and> GET_WORD w' = GET_WORD w \<and> node_hash m w' = node_hash m w"
  shows "table_ok m nb ws' T" and "\<And>p. p \<in> ids T \<Longrightarrow> wtxt ws' p = wtxt ws p"
proof -
  show x: "wtxt ws' p = wtxt ws p" if i: "p \<in> ids T" for p
  proof -
    obtain w where w: "obj ws p = Some w" using table_entry(1) [OF t i] by blast
    then obtain w' where "obj ws' p = Some w'" "GET_WORD w' = GET_WORD w" using eq [OF i w] by blast
    then show ?thesis using w by (simp add: wtxt_def)
  qed
  have "bucket_ok m nb ws' j (T ! j)" if j: "j < nb" for j
  proof -
    have b: "bucket_ok m nb ws j (T ! j)" using t j by (simp add: table_ok_def)
    have i: "p \<in> ids T" if "p \<in> set (T ! j)" for p using that j t by (auto simp: in_ids table_ok_def)
    have mx: "map (wtxt ws') (T ! j) = map (wtxt ws) (T ! j)" using x i by simp
    have "entry_ok m nb ws' j p" if p: "p \<in> set (T ! j)" for p
    proof -
      have e: "entry_ok m nb ws j p" using b p by (simp add: bucket_ok_def)
      then obtain w where w: "obj ws p = Some w" "node_hash m w = get_code (GET_WORD w)" by (auto simp: entry_ok_def)
      then obtain w' where "obj ws' p = Some w'" "GET_WORD w' = GET_WORD w" "node_hash m w' = node_hash m w"
        using eq [OF i [OF p] w(1)] by blast
      then show ?thesis using e w x [OF i [OF p]] by (simp add: entry_ok_def)
    qed
    then show ?thesis using b unfolding bucket_ok_def mx by simp
  qed
  then show "table_ok m nb ws' T" using t by (simp add: table_ok_def)
qed

lemma obj_update: "obj (ws[n := v]) p = (if p = n \<and> n < length ws then v else obj ws p)"
  by (auto simp: obj_def load_at_def)

lemma obj_bound: "obj ws p = Some w \<Longrightarrow> p < length ws"
  by (auto simp: obj_def load_at_def split: if_splits)

lemma get_word_node [simp]: "GET_WORD (set_node_hash m h w) = GET_WORD w" "counter (set_node_hash m h w) = counter w"
  "node_hash m (set_node_hash m h w) = h" "node_hash (\<not> m) (set_node_hash m h w) = node_hash (\<not> m) w"
  by (auto simp: set_node_hash_def GET_WORD_def node_hash_def split: option.splits)

lemma get_code_cong: "letters (cstr a) \<Longrightarrow> letters (cstr b) \<Longrightarrow> lower (cstr a) = lower (cstr b) \<Longrightarrow> get_code a = get_code b"
  using code_ref_lower [of "cstr a" "cstr b" 6] by (simp add: word_unat_eq_iff get_code_ref)

lemma wc_insert_table:
  assumes t: "table_ok m nb ws T" and w: "obj ws n = Some w" "wtxt ws n = lower (cstr key)" and k: "key_ok (cstr key)"
    and new: "\<forall>p \<in> ids T. wtxt ws p \<noteq> lower (cstr key)"
  defines "ws' \<equiv> ws[n := Some (set_node_hash m (get_code key) w)]"
  shows "\<exists>T'. ht_insert m nb n key ws T = Some (0, ws', T') \<and> table_ok m nb ws' T' \<and> ids T' = insert n (ids T)"
proof -
  define b where "b = bkt nb (cstr key)"
  have l: "letters (cstr key)" using k by (simp add: key_ok_def)
  have b: "b < nb" using k t by (simp add: b_def bkt_less table_ok_def)
  have nn: "n \<notin> ids T" using new w(2) by blast
  have len: "n < length ws" using w(1) by (rule obj_bound)
  have eq: "\<exists>w'. obj ws' p = Some w' \<and> GET_WORD w' = GET_WORD v \<and> node_hash m w' = node_hash m v"
    if "p \<in> ids T" "obj ws p = Some v" for p v
    using that nn by (auto simp: ws'_def obj_update)
  note ot = table_cong(1) [OF t eq] and tx = table_cong(2) [OF t eq]
  have tn: "wtxt ws' n = lower (cstr key)" using w len by (simp add: ws'_def wtxt_def obj_update)
  have bo: "bucket_ok m nb ws' b (T ! b)" using ot b by (simp add: table_ok_def)
  have "\<forall>q \<in> set (T ! b). wtxt ws' q \<noteq> lower (cstr key)"
  proof
    fix q
    assume q: "q \<in> set (T ! b)"
    have "q \<in> ids T" using q b t unfolding in_ids table_ok_def by blast
    then show "wtxt ws' q \<noteq> lower (cstr key)" using new tx by metis
  qed
  then obtain ns' where ns: "ht_insert_loop m ws' (get_code key) key n (T ! b) = Some (0, ns')" "set ns' = insert n (set (T ! b))"
      "sorted_wrt (<) (map (wtxt ws') ns')"
    using insert_loop [OF bo l tn] by blast
  have g: "lower (cstr (GET_WORD w)) = lower (cstr key)" "cstr (GET_WORD w) = lower (cstr key)"
    using w by (simp_all add: wtxt_def)
  have lg: "letters (cstr (GET_WORD w))" unfolding g(2) using l by (simp add: letters_def)
  have "entry_ok m nb ws' b n"
    using w len k g lg l get_code_cong [OF lg l g(1)]
    by (auto simp: entry_ok_def ws'_def obj_update wtxt_def key_ok_lower bkt_lower b_def)
  then have "bucket_ok m nb ws' b ns'" using ns bo by (auto simp: bucket_ok_def)
  then have t': "table_ok m nb ws' (T[b := ns'])"
    using ot b unfolding table_ok_def by (metis length_list_update nth_list_update_eq nth_list_update_neq)
  have bl: "b < length T" using b t by (simp add: table_ok_def)
  have "ids (T[b := ns']) = insert n (ids T)"
  proof -
    have "p \<in> ids (T[b := ns']) \<longleftrightarrow> p \<in> insert n (ids T)" for p
    proof (cases "p \<in> set ns'")
      case True
      then have "p \<in> ids (T[b := ns'])" unfolding in_ids using bl by (intro exI [of _ b]) simp
      moreover have "p = n \<or> p \<in> ids T" using True ns(2) bl unfolding in_ids by auto
      ultimately show ?thesis by blast
    next
      case False
      then have "p \<noteq> n" "p \<notin> set (T ! b)" using ns(2) by auto
      have "(\<exists>j < length T. p \<in> set (T[b := ns'] ! j)) \<longleftrightarrow> (\<exists>j < length T. p \<in> set (T ! j))"
        using False \<open>p \<notin> set (T ! b)\<close> by (metis nth_list_update_eq nth_list_update_neq)
      then show ?thesis using \<open>p \<noteq> n\<close> by (simp add: in_ids)
    qed
    then show ?thesis by blast
  qed
  moreover have "ht_insert m nb n key ws T = Some (0, ws', T[b := ns'])"
    using w ns(1) bl by (simp add: ht_insert_def hash_bucket_ref [OF l] b_def [symmetric] ws'_def)
  ultimately show ?thesis using t' by blast
qed

section \<open>Adding a word\<close>

lemma strncpy_step:
  "0 \<notin> set w \<Longrightarrow> length pre = i \<Longrightarrow> length spre = i \<Longrightarrow>
    wc_strncpy_at i (length w) (pre @ replicate (length w + x) 0) (spre @ w @ r) = Some (pre @ lower w @ replicate x 0)"
proof (induction w arbitrary: i pre spre)
  case (Cons c w)
  have "(pre @ replicate (length (c # w) + x) 0)[i := to_lower c] = (pre @ [to_lower c]) @ replicate (length w + x) 0"
    using Cons.prems(2) by (simp add: list_update_append)
  moreover have "(spre @ (c # w) @ r) ! i = c" using Cons.prems(3) by (metis append_Cons nth_append_length)
  moreover have "wc_strncpy_at (Suc i) (length w) ((pre @ [to_lower c]) @ replicate (length w + x) 0) ((spre @ [c]) @ w @ r) =
      Some ((pre @ [to_lower c]) @ lower w @ replicate x 0)"
    using Cons.prems by (intro Cons.IH) simp_all
  ultimately show ?case using Cons.prems by simp
qed simp

lemma strncpy_all: "0 \<notin> set w \<Longrightarrow> wc_strncpy (replicate (length w + x) 0) (w @ r) (length w) = Some (lower w @ replicate x 0)"
  using strncpy_step [of w "[]" 0 "[]" x r] by (simp add: wc_strncpy_def)

definition threads_ok :: "wc_state \<Rightarrow> bool" where
  "threads_ok s \<longleftrightarrow> (\<forall>i < length (thread_caches s). table_ok False (n_buckets s) (objs s) (thread_caches s ! i)) \<and>
     (\<forall>i < length (thread_caches s). \<forall>i' < length (thread_caches s). i \<noteq> i' \<longrightarrow>
       ids (thread_caches s ! i) \<inter> ids (thread_caches s ! i') = {})"

text \<open>\<open>crel ws T M\<close>: the table holds the words that \<open>M\<close> counts, with these counts.\<close>

definition crel :: "wc_word option list \<Rightarrow> htable \<Rightarrow> (u8 list \<Rightarrow> nat) \<Rightarrow> bool" where
  "crel ws T M \<longleftrightarrow> (\<forall>t. M t \<noteq> 0 \<longleftrightarrow> t \<in> wtxt ws ` ids T) \<and> (\<forall>p \<in> ids T. cnt ws p = of_nat (M (wtxt ws p)))"

lemma crel_cong:
  assumes "crel ws T M" "\<And>p. p \<in> ids T \<Longrightarrow> obj ws' p = obj ws p"
  shows "crel ws' T M"
proof -
  have x: "wtxt ws' p = wtxt ws p" "cnt ws' p = cnt ws p" if "p \<in> ids T" for p
    using assms(2) [OF that] by (simp_all add: wtxt_def cnt_def)
  have "wtxt ws' ` ids T = wtxt ws ` ids T" using x(1) by (intro image_cong) simp_all
  then show ?thesis using assms(1) x unfolding crel_def by simp
qed

text \<open>Changing one table and objects of no other table.\<close>

lemma threads_frame:
  assumes ok: "threads_ok s" and i: "i < length (thread_caches s)" and nb: "n_buckets s' = n_buckets s"
    and tc: "thread_caches s' = (thread_caches s)[i := T]" and T: "table_ok False (n_buckets s) (objs s') T"
    and new: "\<forall>k < length (thread_caches s). k \<noteq> i \<longrightarrow> ids T \<inter> ids (thread_caches s ! k) = {}"
    and obj: "\<forall>k < length (thread_caches s). k \<noteq> i \<longrightarrow> (\<forall>p \<in> ids (thread_caches s ! k). obj (objs s') p = obj (objs s) p)"
  shows "threads_ok s'" and "\<And>k M. k < length (thread_caches s) \<Longrightarrow> k \<noteq> i \<Longrightarrow> crel (objs s) (thread_caches s ! k) M \<Longrightarrow>
    crel (objs s') (thread_caches s' ! k) M"
proof -
  have "table_ok False (n_buckets s') (objs s') (thread_caches s' ! k)" if k: "k < length (thread_caches s')" for k
  proof (cases "k = i")
    case False
    have t: "table_ok False (n_buckets s) (objs s) (thread_caches s ! k)" using ok k tc by (simp add: threads_ok_def)
    have "table_ok False (n_buckets s) (objs s') (thread_caches s ! k)"
      by (rule table_cong(1) [OF t]) (use obj k tc False in auto)
    then show ?thesis using False nb tc by simp
  qed (use T nb tc i in simp)
  moreover have "ids (thread_caches s' ! k) \<inter> ids (thread_caches s' ! k') = {}"
    if k: "k < length (thread_caches s')" "k' < length (thread_caches s')" "k \<noteq> k'" for k k'
  proof -
    have d: "ids (thread_caches s ! k) \<inter> ids (thread_caches s ! k') = {}" using ok k tc unfolding threads_ok_def by simp
    consider "k = i" | "k' = i" | "k \<noteq> i" "k' \<noteq> i" by blast
    then show ?thesis
    proof cases
      case 1
      then show ?thesis using new k tc i by simp
    next
      case 2
      then show ?thesis using new k tc i by (simp add: Int_commute)
    next
      case 3
      then show ?thesis using d tc by simp
    qed
  qed
  ultimately show "threads_ok s'" unfolding threads_ok_def by blast
  show "crel (objs s') (thread_caches s' ! k) M" if "k < length (thread_caches s)" "k \<noteq> i" "crel (objs s) (thread_caches s ! k) M" for k M
    using crel_cong [OF that(3)] obj that(1,2) tc by simp
qed

text \<open>What adding \<open>w\<close> for thread \<open>i\<close> does to the state.\<close>

definition word_added :: "nat \<Rightarrow> u8 list \<Rightarrow> wc_state \<Rightarrow> wc_state \<Rightarrow> bool" where
  "word_added i w s s' \<longleftrightarrow> threads_ok s' \<and> n_buckets s' = n_buckets s \<and>
    length (thread_caches s') = length (thread_caches s) \<and> main_cache s' = main_cache s \<and>
    (\<forall>k M. k < length (thread_caches s) \<longrightarrow> k \<noteq> i \<longrightarrow> crel (objs s) (thread_caches s ! k) M \<longrightarrow>
      crel (objs s') (thread_caches s' ! k) M) \<and>
    (\<forall>M. crel (objs s) (thread_caches s ! i) M \<longrightarrow>
      crel (objs s') (thread_caches s' ! i) (M(lower w := Suc (M (lower w)))))"

lemma word_addedI:
  assumes ok: "threads_ok s" and i: "i < length (thread_caches s)"
    and s': "s' = s\<lparr>objs := ws', thread_caches := (thread_caches s)[i := T]\<rparr>"
    and T: "table_ok False (n_buckets s) ws' T"
    and new: "\<forall>k < length (thread_caches s). k \<noteq> i \<longrightarrow> ids T \<inter> ids (thread_caches s ! k) = {}"
    and obj: "\<forall>k < length (thread_caches s). k \<noteq> i \<longrightarrow> (\<forall>p \<in> ids (thread_caches s ! k). obj ws' p = obj (objs s) p)"
    and me: "\<And>M. crel (objs s) (thread_caches s ! i) M \<Longrightarrow> crel ws' T (M(lower w := Suc (M (lower w))))"
  shows "word_added i w s s'"
proof -
  have e: "n_buckets s' = n_buckets s" "thread_caches s' = (thread_caches s)[i := T]" "objs s' = ws'" "main_cache s' = main_cache s"
    using s' by simp_all
  note fr = threads_frame [OF ok i e(1,2), unfolded e(3), OF T new obj]
  show ?thesis unfolding word_added_def using fr me i by (simp add: e)
qed

lemma others_disjoint:
  assumes "threads_ok s" "i < length (thread_caches s)"
  shows "\<forall>k < length (thread_caches s). k \<noteq> i \<longrightarrow> ids (thread_caches s ! i) \<inter> ids (thread_caches s ! k) = {}"
  using assms unfolding threads_ok_def by blast

lemma id_bound:
  assumes "threads_ok s" "k < length (thread_caches s)" "p \<in> ids (thread_caches s ! k)"
  shows "p < length (objs s)"
proof -
  have "table_ok False (n_buckets s) (objs s) (thread_caches s ! k)" using assms by (simp add: threads_ok_def)
  from table_entry(1) [OF this assms(3)] show ?thesis by (auto dest: obj_bound)
qed

lemma add_known_word:
  assumes ok: "threads_ok s" and i: "i < length (thread_caches s)" and c: "cstr word = w"
    and p: "p \<in> ids (thread_caches s ! i)" "wtxt (objs s) p = lower w"
      "ht_find False (n_buckets s) (objs s) (thread_caches s ! i) word = Some (Some p)"
  shows "\<exists>s'. wc_add_word oom i word n s = Some (0, s') \<and> word_added i w s s'"
proof -
  define T ws where "T = thread_caches s ! i" and "ws = objs s"
  have t: "table_ok False (n_buckets s) ws T" using ok i by (simp add: threads_ok_def T_def ws_def)
  have pT: "p \<in> ids T" using p(1) by (simp add: T_def)
  obtain x where x: "obj ws p = Some x" using table_entry(1) [OF t pT] by blast
  define ws' where "ws' = ws[p := Some (x\<lparr>counter := counter x + 1\<rparr>)]"
  define s' where "s' = s\<lparr>objs := ws', thread_caches := (thread_caches s)[i := T]\<rparr>"
  have pl: "p < length ws" using x by (rule obj_bound)
  have run: "wc_add_word oom i word n s = Some (0, s')"
    using p(3) x i by (simp add: wc_add_word_def ws_def s'_def ws'_def T_def)
  have ob: "obj ws' q = (if q = p then Some (x\<lparr>counter := counter x + 1\<rparr>) else obj ws q)" for q
    using pl by (simp add: ws'_def obj_update)
  have tx: "wtxt ws' q = wtxt ws q" for q using x by (simp add: wtxt_def ob GET_WORD_def split: option.splits)
  have t': "table_ok False (n_buckets s) ws' T"
    by (rule table_cong(1) [OF t]) (auto simp: ob x GET_WORD_def node_hash_def split: option.splits)
  have me: "crel ws' T (M(lower w := Suc (M (lower w))))" if M: "crel ws T M" for M
  proof -
    have "cnt ws' q = of_nat ((M(lower w := Suc (M (lower w)))) (wtxt ws' q))" if q: "q \<in> ids T" for q
    proof (cases "q = p")
      case True
      have "cnt ws p = of_nat (M (lower w))" using M pT p(2) by (simp add: crel_def ws_def)
      then show ?thesis using True x p(2) by (simp add: cnt_def ob tx ws_def)
    next
      case False
      then have "wtxt ws q \<noteq> lower w" using table_text_inj [OF t q pT] p(2) by (auto simp: ws_def)
      then show ?thesis using False M q by (simp add: cnt_def ob tx crel_def)
    qed
    moreover have "M (lower w) \<noteq> 0" using M pT p(2) unfolding crel_def ws_def by force
    ultimately show ?thesis using M unfolding crel_def by (auto simp: tx)
  qed
  have "\<forall>k < length (thread_caches s). k \<noteq> i \<longrightarrow> (\<forall>q \<in> ids (thread_caches s ! k). obj ws' q = obj (objs s) q)"
    using others_disjoint [OF ok i] p(1) by (auto simp: ob ws_def)
  then have "word_added i w s s'"
    using word_addedI [OF ok i s'_def t'] others_disjoint [OF ok i] me by (simp add: T_def ws_def)
  then show ?thesis using run by blast
qed

lemma add_new_word:
  assumes ok: "threads_ok s" and i: "i < length (thread_caches s)" and w: "key_ok w" "0 \<notin> set w" and mem: "\<forall>n. \<not> oom n"
    and new: "\<forall>p \<in> ids (thread_caches s ! i). wtxt (objs s) p \<noteq> lower w"
      "ht_find False (n_buckets s) (objs s) (thread_caches s ! i) (w @ 0 # r) = Some None"
  shows "\<exists>s'. wc_add_word oom i (w @ 0 # r) (length w) s = Some (0, s') \<and> word_added i w s s'"
proof -
  define T ws where "T = thread_caches s ! i" and "ws = objs s"
  define n where "n = length ws"
  have t: "table_ok False (n_buckets s) ws T" using ok i by (simp add: threads_ok_def T_def ws_def)
  have c: "cstr (w @ 0 # r) = w" using w(2) by (rule cstr_snoc)
  define x where "x = (if length w > 31 then
      \<lparr>arr = replicate 32 0, full_word = Some (lower w @ [0]), counter = 0, node = 0, node_main = 0\<rparr>
    else \<lparr>arr = lower w @ replicate (32 - length w) 0, full_word = None, counter = 0, node = 0, node_main = (0::u32)\<rparr>)"
  define ws0 where "ws0 = ws @ [Some x]"
  have gx: "cstr (GET_WORD x) = lower w"
  proof -
    have z: "0 \<notin> set (lower w)" using w(2) by auto
    show ?thesis
    proof (cases "length w > 31")
      case False
      then have "replicate (32 - length w) (0::u8) = 0 # replicate (31 - length w) 0" by (simp add: Suc_diff_le flip: replicate_Suc)
      then show ?thesis using False cstr_snoc [OF z] by (simp add: x_def GET_WORD_def)
    qed (use cstr_snoc [OF z, of "[]"] in \<open>simp add: x_def GET_WORD_def\<close>)
  qed
  have ob0: "obj ws0 q = (if q = n then Some x else obj ws q)" for q
    by (auto simp: ws0_def n_def obj_def load_at_def nth_append)
  have nT: "n \<notin> ids (thread_caches s ! k)" if "k < length (thread_caches s)" for k
    using id_bound [OF ok that] by (auto simp: n_def ws_def)
  have eq: "\<exists>v'. obj ws0 q = Some v' \<and> GET_WORD v' = GET_WORD v \<and> node_hash False v' = node_hash False v"
    if "q \<in> ids T" "obj ws q = Some v" for q v
    using that nT [OF i] by (auto simp: ob0 T_def)
  note t0 = table_cong(1) [OF t eq] and tx0 = table_cong(2) [OF t eq]
  have n0: "obj ws0 n = Some x" "wtxt ws0 n = lower (cstr (w @ 0 # r))" using gx c by (simp_all add: ob0 wtxt_def)
  have "\<forall>p \<in> ids T. wtxt ws0 p \<noteq> lower (cstr (w @ 0 # r))" using new(1) tx0 c by (simp add: T_def ws_def)
  then obtain T' where T': "ht_insert False (n_buckets s) n (w @ 0 # r) ws0 T =
      Some (0, ws0[n := Some (set_node_hash False (get_code (w @ 0 # r)) x)], T')"
      "table_ok False (n_buckets s) (ws0[n := Some (set_node_hash False (get_code (w @ 0 # r)) x)]) T'" "ids T' = insert n (ids T)"
    using wc_insert_table [OF t0 n0, unfolded c] w(1) c by auto
  define y where "y = (set_node_hash False (get_code (w @ 0 # r)) x)\<lparr>counter := 1\<rparr>"
  define ws' where "ws' = ws0[n := Some y]"
  define s' where "s' = s\<lparr>objs := ws', thread_caches := (thread_caches s)[i := T']\<rparr>"
  have nl: "n < length ws0" by (simp add: ws0_def n_def)
  have cx: "counter x = 0" by (simp add: x_def)
  define x0 where "x0 = \<lparr>arr = replicate 32 0, full_word = (if 31 < length w then Some (replicate (length w + 1) 0) else None),
      counter = 0, node = 0, node_main = (0::u32)\<rparr>"
  have copy: "wc_strncpy (GET_WORD x0) (w @ 0 # r) (length w) = Some (GET_WORD x)"
    using strncpy_all [OF w(2), of 1 "0 # r"] strncpy_all [OF w(2), of "32 - length w" "0 # r"]
    by (auto simp: GET_WORD_def x_def x0_def)
  have bx: "(case full_word x0 of Some _ \<Rightarrow> x0\<lparr>full_word := Some (GET_WORD x)\<rparr> | None \<Rightarrow> x0\<lparr>arr := GET_WORD x\<rparr>) = x"
    by (simp add: x0_def x_def GET_WORD_def)
  have "wc_add_word oom i (w @ 0 # r) (length w) s = do {
      txt' \<leftarrow> wc_strncpy (GET_WORD x0) (w @ 0 # r) (length w);
      (r, ws, cache) \<leftarrow> ht_insert False (n_buckets s) n (w @ 0 # r)
        (ws @ [Some (case full_word x0 of Some _ \<Rightarrow> x0\<lparr>full_word := Some txt'\<rparr> | None \<Rightarrow> x0\<lparr>arr := txt'\<rparr>)]) T;
      w \<leftarrow> obj ws n;
      Some (0, s\<lparr>objs := ws[n := Some (w\<lparr>counter := counter w + 1\<rparr>)], thread_caches := (thread_caches s)[i := cache]\<rparr>)
    }"
    using new(2) i mem by (simp add: wc_add_word_def x0_def MAX_WORD_SIZE_def n_def ws_def T_def Let_def)
  then have run: "wc_add_word oom i (w @ 0 # r) (length w) s = Some (0, s')"
    using T'(1) nl cx
    by (simp add: copy bx ws0_def [symmetric] obj_update s'_def ws'_def y_def)
  have ob: "obj ws' q = (if q = n then Some y else obj ws q)" for q
    using nl by (simp add: ws'_def obj_update ob0)
  have gy: "GET_WORD y = GET_WORD x" "node_hash False y = get_code (w @ 0 # r)" "counter y = 1"
    by (simp_all add: y_def set_node_hash_def GET_WORD_def node_hash_def split: option.splits)
  have t': "table_ok False (n_buckets s) ws' T'"
  proof (rule table_cong(1) [OF T'(2)])
    fix q v
    assume "obj (ws0[n := Some (set_node_hash False (get_code (w @ 0 # r)) x)]) q = Some v"
    then show "\<exists>v'. obj ws' q = Some v' \<and> GET_WORD v' = GET_WORD v \<and> node_hash False v' = node_hash False v"
      using nl gy by (auto simp: obj_update ob ob0 split: if_splits)
  qed
  have tx: "wtxt ws' q = (if q = n then lower w else wtxt ws q)" for q using gx gy by (simp add: wtxt_def ob)
  have me: "crel ws' T' (M(lower w := Suc (M (lower w))))" if M: "crel ws T M" for M
  proof -
    have "lower w \<notin> wtxt ws ` ids T" using new(1) by (auto simp: T_def ws_def)
    then have z: "M (lower w) = 0" using M unfolding crel_def by blast
    have nn: "n \<notin> ids T" using nT [OF i] by (simp add: T_def)
    have "cnt ws' q = of_nat ((M(lower w := Suc (M (lower w)))) (wtxt ws' q))" if q: "q \<in> ids T'" for q
    proof (cases "q = n")
      case True
      then show ?thesis using z gy(3) by (simp add: cnt_def ob tx)
    next
      case False
      then have "q \<in> ids T" "wtxt ws q \<noteq> lower w" using q T'(3) new(1) by (auto simp: T_def ws_def)
      then show ?thesis using False M by (simp add: cnt_def ob tx crel_def)
    qed
    moreover have "wtxt ws' ` ids T' = insert (lower w) (wtxt ws ` ids T)"
      using nn T'(3) by (auto simp: tx image_iff)
    ultimately show ?thesis using M unfolding crel_def by auto
  qed
  have "\<forall>k < length (thread_caches s). k \<noteq> i \<longrightarrow> (\<forall>q \<in> ids (thread_caches s ! k). obj ws' q = obj (objs s) q)"
    using nT by (auto simp: ob ws_def)
  moreover have "\<forall>k < length (thread_caches s). k \<noteq> i \<longrightarrow> ids T' \<inter> ids (thread_caches s ! k) = {}"
    using others_disjoint [OF ok i] nT T'(3) by (auto simp: T_def)
  ultimately have "word_added i w s s'"
    using word_addedI [OF ok i s'_def t'] me by (simp add: T_def ws_def)
  then show ?thesis using run by blast
qed

lemma add_word_step:
  assumes ok: "threads_ok s" and i: "i < length (thread_caches s)" and w: "key_ok w" "0 \<notin> set w" and mem: "\<forall>n. \<not> oom n"
  shows "\<exists>s'. wc_add_word oom i (w @ 0 # r) (length w) s = Some (0, s') \<and> word_added i w s s'"
proof -
  have c: "cstr (w @ 0 # r) = w" using w(2) by (rule cstr_snoc)
  have "table_ok False (n_buckets s) (objs s) (thread_caches s ! i)" using ok i by (simp add: threads_ok_def)
  from find_table [OF this, of "w @ 0 # r", unfolded c, OF w(1)] show ?thesis
    using add_known_word [OF ok i c] add_new_word [OF ok i w mem] by blast
qed

end
