(* ===== verification/Wc_Merge.thy ===== *)
theory Wc_Merge
  imports Wc_Cache
begin

text \<open>
  The merge phase of \<^verbatim>\<open>map-reduce/word-count.c\<close>: the bucket ranges of the workers partition the table, and
  merging all tables, in whatever order the workers run, leaves in the main table every word with
  the sum of its counts.
\<close>

section \<open>Merging\<close>

definition all_ids :: "wc_state \<Rightarrow> nat set" where
  "all_ids s = (\<Union>i < length (thread_caches s). ids (thread_caches s ! i))"

text \<open>
  After merging the objects \<open>P\<close> of the state \<open>s0\<close>: the main table has one object for every text in
  \<open>P\<close>, whose counter is the sum over \<open>P\<close>; the objects not merged yet have their old counters.
\<close>

definition text_sum :: "wc_state \<Rightarrow> nat set \<Rightarrow> u8 list \<Rightarrow> u32" where
  "text_sum s0 P u = (\<Sum>q \<in> {q \<in> P. wtxt (objs s0) q = u}. cnt (objs s0) q)"

definition merged :: "wc_state \<Rightarrow> nat set \<Rightarrow> wc_state \<Rightarrow> bool" where
  "merged s0 P s \<longleftrightarrow> P \<subseteq> all_ids s0 \<and> n_buckets s = n_buckets s0 \<and> thread_caches s = thread_caches s0 \<and> threads_ok s \<and>
     (\<forall>p \<in> all_ids s0. wtxt (objs s) p = wtxt (objs s0) p) \<and>
     table_ok True (n_buckets s) (objs s) (main_cache s) \<and> ids (main_cache s) \<subseteq> P \<and>
     (\<forall>p \<in> all_ids s0 - P. cnt (objs s) p = cnt (objs s0) p) \<and>
     wtxt (objs s) ` ids (main_cache s) = wtxt (objs s) ` P \<and>
     (\<forall>p \<in> ids (main_cache s). cnt (objs s) p = text_sum s0 P (wtxt (objs s) p))"

lemma finite_ids: "finite (ids T)"
  by (simp add: ids_def)

lemma all_ids_entry:
  assumes "threads_ok s" "p \<in> all_ids s"
  shows "\<exists>w. obj (objs s) p = Some w" and "key_ok (wtxt (objs s) p)" and "lower (wtxt (objs s) p) = wtxt (objs s) p"
proof -
  obtain i where "i < length (thread_caches s)" "p \<in> ids (thread_caches s ! i)" using assms(2) by (auto simp: all_ids_def)
  moreover have "table_ok False (n_buckets s) (objs s) (thread_caches s ! i)" using assms(1) calculation by (simp add: threads_ok_def)
  ultimately show "\<exists>w. obj (objs s) p = Some w" and "key_ok (wtxt (objs s) p)" and "lower (wtxt (objs s) p) = wtxt (objs s) p"
    using table_entry(1,2,3) by blast+
qed

text \<open>The threads' tables do not see changes of counters and of the main hash.\<close>

lemma threads_ok_cong:
  assumes ok: "threads_ok s" and e: "n_buckets s' = n_buckets s" "thread_caches s' = thread_caches s"
    and obj: "\<And>p w. obj (objs s) p = Some w \<Longrightarrow> \<exists>w'. obj (objs s') p = Some w' \<and> GET_WORD w' = GET_WORD w \<and> node w' = node w"
  shows "threads_ok s'" and "\<And>p. p \<in> all_ids s \<Longrightarrow> wtxt (objs s') p = wtxt (objs s) p"
proof -
  have "table_ok False (n_buckets s') (objs s') (thread_caches s' ! i)" if i: "i < length (thread_caches s')" for i
  proof -
    have t: "table_ok False (n_buckets s) (objs s) (thread_caches s ! i)" using ok i e(2) by (simp add: threads_ok_def)
    show ?thesis unfolding e by (rule table_cong(1) [OF t]) (use obj in \<open>auto simp: node_hash_def\<close>)
  qed
  then show "threads_ok s'" using ok e by (simp add: threads_ok_def)
  show "wtxt (objs s') p = wtxt (objs s) p" if p: "p \<in> all_ids s" for p
  proof -
    obtain w where w: "obj (objs s) p = Some w" using all_ids_entry(1) [OF ok p] by blast
    then obtain w' where "obj (objs s') p = Some w'" "GET_WORD w' = GET_WORD w" using obj [OF w] by blast
    then show ?thesis using w by (simp add: wtxt_def)
  qed
qed

lemma mergedD:
  assumes "merged s0 P s"
  shows "P \<subseteq> all_ids s0" "n_buckets s = n_buckets s0" "thread_caches s = thread_caches s0" "threads_ok s"
    "\<And>p. p \<in> all_ids s0 \<Longrightarrow> wtxt (objs s) p = wtxt (objs s0) p"
    "table_ok True (n_buckets s) (objs s) (main_cache s)" "ids (main_cache s) \<subseteq> P"
    "\<And>p. p \<in> all_ids s0 - P \<Longrightarrow> cnt (objs s) p = cnt (objs s0) p"
    "wtxt (objs s) ` ids (main_cache s) = wtxt (objs s) ` P"
    "\<And>p. p \<in> ids (main_cache s) \<Longrightarrow>
      cnt (objs s) p = text_sum s0 P (wtxt (objs s) p)"
  using assms unfolding merged_def by blast+

lemma merged_ids: "merged s0 P s \<Longrightarrow> all_ids s = all_ids s0"
  by (simp add: merged_def all_ids_def)

lemma text_sum_insert:
  assumes "finite P" "p \<notin> P"
  shows "text_sum s0 (insert p P) u = (if u = wtxt (objs s0) p then cnt (objs s0) p else 0) + text_sum s0 P u"
proof (cases "u = wtxt (objs s0) p")
  case True
  then have "{q \<in> insert p P. wtxt (objs s0) q = u} = insert p {q \<in> P. wtxt (objs s0) q = u}" by auto
  then show ?thesis using True assms by (simp add: text_sum_def)
next
  case False
  then have "{q \<in> insert p P. wtxt (objs s0) q = u} = {q \<in> P. wtxt (objs s0) q = u}" by auto
  then show ?thesis using False by (simp add: text_sum_def)
qed

lemma merge_known_word:
  assumes m: "merged s0 P s" and p: "p \<in> all_ids s0 - P" and fin: "finite P" and iw: "obj (objs s) p = Some iw"
    and q: "q \<in> ids (main_cache s)" "wtxt (objs s) q = wtxt (objs s) p"
      "ht_find True (n_buckets s) (objs s) (main_cache s) (GET_WORD iw) = Some (Some q)"
  shows "\<exists>s'. merge_word p s = Some s' \<and> merged s0 (insert p P) s'"
proof -
  note mm = mergedD [OF m]
  define ws where "ws = objs s"
  obtain x where x: "obj ws q = Some x" using table_entry(1) [OF mm(6) q(1)] by (auto simp: ws_def)
  define ws' where "ws' = ws[q := Some (x\<lparr>counter := counter x + counter iw\<rparr>)]"
  define s' where "s' = s\<lparr>objs := ws'\<rparr>"
  have cp: "counter iw = cnt (objs s0) p" using mm(8) [OF p] iw by (simp add: cnt_def)
  have run: "merge_word p s = Some s'" using iw q(3) x by (simp add: merge_word_def ws_def s'_def ws'_def)
  have ob: "obj ws' r = (if r = q then Some (x\<lparr>counter := counter x + counter iw\<rparr>) else obj ws r)" for r
    using obj_bound [OF x] by (simp add: ws'_def obj_update)
  have tx: "wtxt ws' r = wtxt ws r" for r using x by (simp add: wtxt_def ob GET_WORD_def split: option.splits)
  have cn: "cnt ws' r = (if r = q then cnt ws q + cnt (objs s0) p else cnt ws r)" for r
    using x cp by (simp add: cnt_def ob)
  have ok': "threads_ok s'"
    by (rule threads_ok_cong(1) [OF mm(4)]) (auto simp: s'_def ob ws_def [symmetric] x GET_WORD_def split: option.splits)
  have tm': "table_ok True (n_buckets s) ws' (main_cache s)"
    by (rule table_cong(1) [OF mm(6)]) (auto simp: ob x GET_WORD_def node_hash_def ws_def [symmetric] split: option.splits)
  have qP: "q \<in> P" using mm(7) q(1) by blast
  have img: "wtxt ws ` insert p P = wtxt ws ` P" using qP q(2) unfolding ws_def by (metis image_insert insert_absorb image_eqI)
  have sums: "cnt ws' r = text_sum s0 (insert p P) (wtxt ws' r)"
    if r: "r \<in> ids (main_cache s)" for r
  proof -
    have "wtxt ws r = wtxt (objs s0) p \<longleftrightarrow> r = q"
      using table_text_inj [OF mm(6) r q(1)] q(2) mm(5) [of p] p by (auto simp: ws_def)
    then show ?thesis using p text_sum_insert [OF fin, of p s0 "wtxt ws r"] mm(10) [OF r] by (auto simp: tx cn ws_def)
  qed
  have "\<forall>r \<in> all_ids s0 - insert p P. cnt ws' r = cnt (objs s0) r" using mm(8) qP by (auto simp: cn ws_def)
  moreover have "\<forall>r \<in> all_ids s0. wtxt ws' r = wtxt (objs s0) r" using mm(5) by (simp add: tx ws_def)
  moreover have "wtxt ws' ` ids (main_cache s) = wtxt ws' ` insert p P" using mm(9) img by (simp add: tx ws_def)
  ultimately have "merged s0 (insert p P) s'"
    unfolding merged_def using mm(1-3,7) p ok' tm' sums by (auto simp: s'_def)
  then show ?thesis using run by blast
qed

lemma merge_new_word:
  assumes m: "merged s0 P s" and p: "p \<in> all_ids s0 - P" and fin: "finite P" and iw: "obj (objs s) p = Some iw"
    and new: "\<forall>q \<in> ids (main_cache s). wtxt (objs s) q \<noteq> wtxt (objs s) p"
      "ht_find True (n_buckets s) (objs s) (main_cache s) (GET_WORD iw) = Some None"
  shows "\<exists>s'. merge_word p s = Some s' \<and> merged s0 (insert p P) s'"
proof -
  note mm = mergedD [OF m]
  define ws where "ws = objs s"
  have t: "wtxt ws p = cstr (GET_WORD iw)" using iw by (simp add: wtxt_def ws_def)
  have k: "key_ok (cstr (GET_WORD iw))" "lower (cstr (GET_WORD iw)) = cstr (GET_WORD iw)"
    using all_ids_entry(2,3) [OF mm(4), of p] p merged_ids [OF m] t by (simp_all add: ws_def)
  define ws' where "ws' = ws[p := Some (set_node_hash True (get_code (GET_WORD iw)) iw)]"
  obtain T' where T': "ht_insert True (n_buckets s) p (GET_WORD iw) ws (main_cache s) = Some (0, ws', T')"
      "table_ok True (n_buckets s) ws' T'" "ids T' = insert p (ids (main_cache s))"
    using wc_insert_table [OF mm(6) iw, of "GET_WORD iw"] t k new(1) by (auto simp: ws'_def ws_def)
  define s' where "s' = s\<lparr>objs := ws', main_cache := T'\<rparr>"
  have run: "merge_word p s = Some s'" using iw new(2) T'(1) by (simp add: merge_word_def ws_def s'_def)
  have ob: "obj ws' r = (if r = p then Some (set_node_hash True (get_code (GET_WORD iw)) iw) else obj ws r)" for r
    using obj_bound [OF iw] by (simp add: ws'_def obj_update ws_def)
  have tx: "wtxt ws' r = wtxt ws r" for r using iw by (simp add: wtxt_def ob ws_def)
  have cn: "cnt ws' r = cnt ws r" for r using iw by (simp add: cnt_def ob ws_def)
  have ok': "threads_ok s'"
    by (rule threads_ok_cong(1) [OF mm(4)])
      (use iw in \<open>auto simp: s'_def ob ws_def set_node_hash_def GET_WORD_def split: option.splits\<close>)
  have tp: "wtxt (objs s0) p = wtxt ws p" using mm(5) [of p] p by (simp add: ws_def)
  have none: "{q \<in> P. wtxt (objs s0) q = wtxt (objs s0) p} = {}"
  proof -
    have "wtxt ws p \<notin> wtxt ws ` P" unfolding mm(9) [folded ws_def, symmetric] using new(1) by (auto simp: ws_def)
    moreover have "wtxt (objs s0) q = wtxt ws q" if "q \<in> P" for q using mm(1,5) that by (auto simp: ws_def)
    ultimately have "wtxt (objs s0) q \<noteq> wtxt (objs s0) p" if "q \<in> P" for q using tp that by (metis imageI)
    then show ?thesis by blast
  qed
  have sums: "cnt ws' r = text_sum s0 (insert p P) (wtxt ws' r)" if r: "r \<in> ids T'" for r
  proof (cases "r = p")
    case True
    have "cnt ws p = cnt (objs s0) p" using mm(8) [OF p] by (simp add: ws_def)
    moreover have "text_sum s0 P (wtxt ws p) = 0" by (simp only: text_sum_def none [unfolded tp] sum.empty)
    ultimately show ?thesis using True tp p text_sum_insert [OF fin, of p s0 "wtxt ws p"] by (simp add: tx cn)
  next
    case False
    then have "r \<in> ids (main_cache s)" "wtxt ws r \<noteq> wtxt (objs s0) p" using r T'(3) new(1) tp by (auto simp: ws_def)
    then show ?thesis
      using p text_sum_insert [OF fin, of p s0 "wtxt ws r"] mm(10) [of r] by (simp add: tx cn ws_def)
  qed
  have "\<forall>r \<in> all_ids s0 - insert p P. cnt ws' r = cnt (objs s0) r" using mm(8) by (auto simp: cn ws_def)
  moreover have "\<forall>r \<in> all_ids s0. wtxt ws' r = wtxt (objs s0) r" using mm(5) by (simp add: tx ws_def)
  moreover have "wtxt ws' ` ids T' = wtxt ws' ` insert p P" using mm(9) T'(3) by (simp add: tx ws_def)
  ultimately have "merged s0 (insert p P) s'"
    unfolding merged_def using mm(1-3,7) p ok' T'(2,3) sums by (auto simp: s'_def)
  then show ?thesis using run by blast
qed

lemma merge_word_step:
  assumes m: "merged s0 P s" and p: "p \<in> all_ids s0 - P" and fin: "finite P"
  shows "\<exists>s'. merge_word p s = Some s' \<and> merged s0 (insert p P) s'"
proof -
  note mm = mergedD [OF m]
  have pa: "p \<in> all_ids s" using p merged_ids [OF m] by simp
  obtain iw where iw: "obj (objs s) p = Some iw" using all_ids_entry(1) [OF mm(4) pa] by blast
  then have t: "cstr (GET_WORD iw) = wtxt (objs s) p" by (simp add: wtxt_def)
  note k = all_ids_entry(2,3) [OF mm(4) pa]
  from find_table [OF mm(6), of "GET_WORD iw", unfolded t, OF k(1), unfolded k(2)] show ?thesis
    using merge_known_word [OF m p fin iw] merge_new_word [OF m p fin iw] by blast
qed

text \<open>A bucket is merged object by object.\<close>

lemma next_in_bucket:
  assumes "load_at T j = Some (pre @ n # post)" "distinct (pre @ n # post)" "obj ws n = Some w"
  shows "ht_get_next ws T j n = Some (case post of [] \<Rightarrow> None | n' # _ \<Rightarrow> Some n')"
proof -
  have "dropWhile (\<lambda>p. p \<noteq> n) (pre @ n # post) = n # post" using assms(2) by (subst dropWhile_append2) auto
  then show ?thesis using assms(1,3) by (simp add: ht_get_next_def)
qed

lemma merge_bucket_loop:
  assumes "merged s0 P s" "finite P" "i < length (thread_caches s0)" "load_at (thread_caches s0 ! i) j = Some (pre @ ns)"
    "distinct (pre @ ns)" "set ns \<subseteq> all_ids s0 - P"
  shows "\<exists>s'. loop (merge_iter (thread_caches s0 ! i) j) (case ns of [] \<Rightarrow> None | n # _ \<Rightarrow> Some n, s) = Some s' \<and> merged s0 (P \<union> set ns) s'"
  using assms
proof (induction ns arbitrary: pre P s)
  case Nil
  then show ?case by (intro exI [of _ s] conjI loop_stop) (simp_all add: merge_iter_def)
next
  case (Cons n ns)
  obtain s1 where s1: "merge_word n s = Some s1" "merged s0 (insert n P) s1"
    using merge_word_step [OF Cons.prems(1), of n] Cons.prems(2,6) by auto
  have "n \<in> all_ids s1" using Cons.prems(6) merged_ids [OF s1(2)] by simp
  then obtain w where w: "obj (objs s1) n = Some w" using all_ids_entry(1) mergedD(4) [OF s1(2)] by blast
  note nx = next_in_bucket [OF Cons.prems(4,5) w]
  have "\<exists>s'. loop (merge_iter (thread_caches s0 ! i) j) (case ns of [] \<Rightarrow> None | n # _ \<Rightarrow> Some n, s1) = Some s' \<and> merged s0 (insert n P \<union> set ns) s'"
    by (rule Cons.IH [OF s1(2), of "pre @ [n]"]) (use Cons.prems in auto)
  then show ?case by (subst loop_next) (simp_all add: merge_iter_def s1(1) nx)
qed

lemma merge_results_step:
  assumes m: "merged s0 P s" and fin: "finite P" and ok: "threads_ok s0" and i: "i < length (thread_caches s0)" and j: "j < n_buckets s0"
    and new: "set (thread_caches s0 ! i ! j) \<inter> P = {}"
  shows "\<exists>s'. merge_results i j s = Some s' \<and> merged s0 (P \<union> set (thread_caches s0 ! i ! j)) s'"
proof -
  define T where "T = thread_caches s0 ! i"
  have t: "table_ok False (n_buckets s0) (objs s0) T" using ok i by (simp add: threads_ok_def T_def)
  have len: "j < length T" using t j by (simp add: table_ok_def)
  then have ld: "load_at T j = Some ([] @ T ! j)" by simp
  have "set (T ! j) \<subseteq> ids T" using len by (auto simp: in_ids)
  then have sub: "set (T ! j) \<subseteq> all_ids s0 - P" using new i by (auto simp: all_ids_def T_def)
  have d: "distinct ([] @ T ! j)" using table_bucket_distinct [OF t j] by simp
  have "merge_results i j s = loop (merge_iter T j) (case T ! j of [] \<Rightarrow> None | n # _ \<Rightarrow> Some n, s)"
    using mergedD(3) [OF m] i len by (simp add: merge_results_def ht_get_first_def flip: T_def)
  then show ?thesis using merge_bucket_loop [OF m fin i, folded T_def, OF ld d sub] by (simp only: T_def)
qed

definition bucket_ids :: "wc_state \<Rightarrow> nat \<times> nat \<Rightarrow> nat set" where
  "bucket_ids s ij = set (thread_caches s ! fst ij ! snd ij)"

lemma bucket_ids_disjoint:
  assumes ok: "threads_ok s" and b: "fst ij < length (thread_caches s)" "snd ij < n_buckets s"
    "fst ij' < length (thread_caches s)" "snd ij' < n_buckets s" and ne: "ij \<noteq> ij'"
  shows "bucket_ids s ij \<inter> bucket_ids s ij' = {}"
proof (cases "fst ij = fst ij'")
  case True
  then have "snd ij \<noteq> snd ij'" using ne by (simp add: prod_eq_iff)
  moreover have "table_ok False (n_buckets s) (objs s) (thread_caches s ! fst ij)" using ok b by (simp add: threads_ok_def)
  ultimately show ?thesis using table_bucket_disjoint b True by (simp add: bucket_ids_def)
next
  case False
  have "bucket_ids s x \<subseteq> ids (thread_caches s ! fst x)" if "fst x < length (thread_caches s)" "snd x < n_buckets s" for x
  proof -
    have "length (thread_caches s ! fst x) = n_buckets s" using ok that by (simp add: threads_ok_def table_ok_def)
    then show ?thesis using that by (auto simp: bucket_ids_def in_ids)
  qed
  moreover have "ids (thread_caches s ! fst ij) \<inter> ids (thread_caches s ! fst ij') = {}" using ok b False by (simp add: threads_ok_def)
  ultimately show ?thesis using b by blast
qed

lemma merge_all_step:
  assumes "threads_ok s0" "merged s0 (\<Union>ij \<in> D. bucket_ids s0 ij) s" "finite D"
    "distinct ijs" "set ijs \<inter> D = {}" "set ijs \<union> D \<subseteq> {..<length (thread_caches s0)} \<times> {..<n_buckets s0}"
  shows "\<exists>s'. merge_all ijs s = Some s' \<and> merged s0 (\<Union>ij \<in> D \<union> set ijs. bucket_ids s0 ij) s'"
  using assms(2-)
proof (induction ijs arbitrary: D s)
  case (Cons ij ijs)
  obtain i j where ij: "ij = (i, j)" by (cases ij)
  have b: "i < length (thread_caches s0)" "j < n_buckets s0" using Cons.prems(5) ij by auto
  have "bucket_ids s0 ij \<inter> bucket_ids s0 x = {}" if "x \<in> D" for x
    using that Cons.prems(4,5) ij b by (intro bucket_ids_disjoint [OF assms(1)]) auto
  then have dj: "set (thread_caches s0 ! i ! j) \<inter> (\<Union>ij \<in> D. bucket_ids s0 ij) = {}" by (auto simp: ij bucket_ids_def)
  have fin: "finite (\<Union>ij \<in> D. bucket_ids s0 ij)" using Cons.prems(2) by (simp add: bucket_ids_def)
  obtain s1 where s1: "merge_results i j s = Some s1" "merged s0 ((\<Union>ij \<in> D. bucket_ids s0 ij) \<union> set (thread_caches s0 ! i ! j)) s1"
    using merge_results_step [OF Cons.prems(1) fin assms(1) b dj] by blast
  have "(\<Union>ij \<in> D. bucket_ids s0 ij) \<union> set (thread_caches s0 ! i ! j) = (\<Union>ij \<in> insert ij D. bucket_ids s0 ij)"
    by (auto simp: ij bucket_ids_def)
  then have "\<exists>s'. merge_all ijs s1 = Some s' \<and> merged s0 (\<Union>ij \<in> insert ij D \<union> set ijs. bucket_ids s0 ij) s'"
    using s1(2) Cons.prems by (intro Cons.IH) auto
  then show ?case using s1(1) by (simp add: ij)
qed simp

section \<open>The workers share the buckets\<close>

definition range_of :: "nat \<Rightarrow> nat \<Rightarrow> nat \<Rightarrow> nat set" where
  "range_of nb n tid = {fst (worker_range nb n tid)..<snd (worker_range nb n tid)}"

lemma range_of_worker:
  assumes "0 < nb" "tid < n" "w = min n nb" "q = nb div w"
  shows "range_of nb n tid = (if tid < w then {q * tid..<q * tid + q + (if tid = w - 1 then nb mod w else 0)} else {})"
proof -
  have "nb - 1 < tid \<longleftrightarrow> nb \<le> tid" using assms(1) by auto
  then show ?thesis using assms(2-4) by (auto simp: range_of_def worker_range_def Let_def min_def)
qed

lemma div_in_range:
  fixes nb w j :: nat
  assumes "0 < w" "w \<le> nb" "j < nb"
  defines "q \<equiv> nb div w" and "t \<equiv> min (j div (nb div w)) (w - 1)"
  shows "j \<in> {q * t..<q * t + q + (if t = w - 1 then nb mod w else 0)}"
proof -
  have q: "0 < q" using assms by (simp add: q_def div_greater_zero_iff)
  have nb: "nb = q * w + nb mod w" by (simp add: q_def mult.commute)
  show ?thesis
  proof (cases "j div q < w - 1")
    case True
    then have t: "t = j div q" by (simp add: t_def q_def)
    have "q * (j div q) \<le> j" "j < q * (j div q) + q" using dividend_less_times_div [OF q, of j] by (simp_all add: add.commute)
    then show ?thesis using t by simp
  next
    case False
    then have t: "t = w - 1" by (simp add: t_def q_def)
    have "q * (w - 1) \<le> q * (j div q)" using False by (intro mult_le_mono2) simp
    also have "\<dots> \<le> j" by simp
    finally have "q * (w - 1) \<le> j" .
    moreover have "q * (w - 1) + q = q * w" using assms(1) by (cases w) simp_all
    then have "j < q * (w - 1) + q + nb mod w" using nb assms(3) by simp
    ultimately show ?thesis using t by simp
  qed
qed

lemma range_unique_aux:
  fixes q w t t' j m :: nat
  assumes "t < w" "t' < w" "t < t'" "j \<in> {q * t..<q * t + q + (if t = w - 1 then m else 0)}" "q * t' \<le> j"
  shows False
proof -
  have "t \<noteq> w - 1" using assms(1-3) by simp
  then have "j < q * t + q" using assms(4) by simp
  also have "\<dots> = q * Suc t" by simp
  also have "\<dots> \<le> q * t'" using assms(3) by (intro mult_le_mono2) simp
  finally show False using assms(5) by simp
qed

lemma ranges_partition:
  assumes "0 < nb" "0 < n" "j < nb"
  shows "\<exists>!tid. tid < n \<and> j \<in> range_of nb n tid"
proof -
  define w q where "w = min n nb" and "q = nb div w"
  have w: "0 < w" "w \<le> nb" "w \<le> n" using assms by (simp_all add: w_def)
  have r: "range_of nb n t = (if t < w then {q * t..<q * t + q + (if t = w - 1 then nb mod w else 0)} else {})" if "t < n" for t
    by (rule range_of_worker [OF assms(1) that w_def q_def])
  define t where "t = min (j div q) (w - 1)"
  have t: "t < w" using w by (simp add: t_def)
  then have "t < n" using w by simp
  moreover have "j \<in> range_of nb n t" using r [OF calculation] t div_in_range [OF w(1,2) assms(3)] by (simp add: q_def t_def)
  moreover have "t1 = t2" if "t1 < n" "j \<in> range_of nb n t1" "t2 < n" "j \<in> range_of nb n t2" for t1 t2
  proof (rule ccontr)
    assume "t1 \<noteq> t2"
    then consider "t1 < t2" | "t2 < t1" by linarith
    then show False
    proof cases
      case 1
      then show False using range_unique_aux [of t1 w t2 j q "nb mod w"] that r by (simp split: if_splits)
    next
      case 2
      then show False using range_unique_aux [of t2 w t1 j q "nb mod w"] that r by (simp split: if_splits)
    qed
  qed
  ultimately show ?thesis by blast
qed

lemma range_bounded:
  assumes "0 < nb" "0 < n" "tid < n"
  shows "range_of nb n tid \<subseteq> {..<nb}"
proof -
  define w q where "w = min n nb" and "q = nb div w"
  have w: "0 < w" "w \<le> nb" using assms by (simp_all add: w_def)
  have nb: "nb = q * w + nb mod w" by (simp add: q_def mult.commute)
  have r: "range_of nb n tid = (if tid < w then {q * tid..<q * tid + q + (if tid = w - 1 then nb mod w else 0)} else {})"
    by (rule range_of_worker [OF assms(1,3) w_def q_def])
  show ?thesis
  proof (cases "tid < w")
    case True
    have "q * tid + q = q * Suc tid" by simp
    also have "\<dots> \<le> q * w" using True by (intro mult_le_mono2) simp
    finally have "q * tid + q \<le> q * w" .
    moreover have "(if tid = w - 1 then nb mod w else 0) \<le> nb mod w" by simp
    ultimately have "q * tid + q + (if tid = w - 1 then nb mod w else 0) \<le> nb" using nb by linarith
    then show ?thesis using r True by auto
  qed (simp add: r)
qed

fun merge_threads :: "nat list \<Rightarrow> nat \<Rightarrow> wc_state \<Rightarrow> wc_state option" where
  "merge_threads [] n s = Some s"
| "merge_threads (tid # tids) n s = do { s \<leftarrow> wc_merge_results tid n s; merge_threads tids n s }"

lemma merge_threads_step:
  assumes ok: "threads_ok s0" and n: "n = length (thread_caches s0)" "0 < n"
    and m: "merged s0 (\<Union>ij \<in> {..<n} \<times> (\<Union>t \<in> D. range_of (n_buckets s0) n t). bucket_ids s0 ij) s"
    and d: "distinct tids" "set tids \<inter> D = {}" "set tids \<union> D \<subseteq> {..<n}"
  shows "\<exists>s'. merge_threads tids n s = Some s' \<and>
    merged s0 (\<Union>ij \<in> {..<n} \<times> (\<Union>t \<in> D \<union> set tids. range_of (n_buckets s0) n t). bucket_ids s0 ij) s'"
  using m d
proof (induction tids arbitrary: D s)
  case (Cons t ts)
  define nb where "nb = n_buckets s0"
  have "table_ok False nb (objs s0) (thread_caches s0 ! 0)" using ok n by (simp add: threads_ok_def nb_def)
  then have nb: "0 < nb" by (simp add: table_ok_def)
  define ijs where "ijs = [(i, j). i \<leftarrow> [0..<n], j \<leftarrow> [fst (worker_range nb n t)..<snd (worker_range nb n t)]]"
  have sij: "set ijs = {..<n} \<times> range_of nb n t" by (auto simp: ijs_def range_of_def)
  have dij: "distinct ijs" unfolding ijs_def product_concat_map [symmetric] by (intro distinct_product) simp_all
  define E where "E = {..<n} \<times> (\<Union>t \<in> D. range_of nb n t)"
  have D: "t' < n" if "t' \<in> D" for t' using that Cons.prems(4) by auto
  have t: "t < n" "t \<notin> D" using Cons.prems by auto
  have sub: "E \<subseteq> {..<length (thread_caches s0)} \<times> {..<n_buckets s0}"
    using range_bounded [OF nb n(2)] D n(1) by (fastforce simp: E_def nb_def)
  have "set ijs \<union> E \<subseteq> {..<length (thread_caches s0)} \<times> {..<n_buckets s0}"
    using sub range_bounded [OF nb n(2) t(1)] n(1) by (auto simp: sij nb_def)
  moreover have "set ijs \<inter> E = {}"
  proof -
    have "t = t'" if "t' \<in> D" "j \<in> range_of nb n t" "j \<in> range_of nb n t'" for t' j
      using ranges_partition [OF nb n(2), of j] range_bounded [OF nb n(2) t(1)] that D t(1) by blast
    then show ?thesis using t(2) by (auto simp: sij E_def)
  qed
  moreover have "finite E" using sub by (rule finite_subset) simp
  ultimately obtain s1 where s1: "merge_all ijs s = Some s1" "merged s0 (\<Union>ij \<in> E \<union> set ijs. bucket_ids s0 ij) s1"
    using merge_all_step [OF ok, of E s ijs] Cons.prems(1) dij by (auto simp: E_def nb_def)
  have "E \<union> set ijs = {..<n} \<times> (\<Union>t \<in> insert t D. range_of nb n t)" by (auto simp: E_def sij)
  then have "\<exists>s'. merge_threads ts n s1 = Some s' \<and>
      merged s0 (\<Union>ij \<in> {..<n} \<times> (\<Union>t \<in> insert t D \<union> set ts. range_of (n_buckets s0) n t). bucket_ids s0 ij) s'"
    using s1(2) Cons.prems by (intro Cons.IH) (auto simp: nb_def)
  moreover have "wc_merge_results t n s = Some s1"
    using s1(1) mergedD(2) [OF Cons.prems(1)] by (simp add: wc_merge_results_def ijs_def nb_def case_prod_unfold)
  ultimately show ?case by simp
qed simp

lemma merged_none:
  assumes "threads_ok s" "table_ok True (n_buckets s) (objs s) (main_cache s)" "ids (main_cache s) = {}"
  shows "merged s {} s"
  using assms by (simp add: merged_def)

lemma merge_threads_all:
  assumes ok: "threads_ok s" "table_ok True (n_buckets s) (objs s) (main_cache s)" "ids (main_cache s) = {}"
    and n: "n = length (thread_caches s)" "0 < n" and t: "distinct tids" "set tids = {..<n}"
  shows "\<exists>s'. merge_threads tids n s = Some s' \<and> merged s (all_ids s) s'"
proof -
  have nb: "0 < n_buckets s" using ok(2) by (simp add: table_ok_def)
  have "(\<Union>t < n. range_of (n_buckets s) n t) = {..<n_buckets s}"
  proof
    show "(\<Union>t < n. range_of (n_buckets s) n t) \<subseteq> {..<n_buckets s}" using range_bounded [OF nb n(2)] by (intro UN_least) simp
    show "{..<n_buckets s} \<subseteq> (\<Union>t < n. range_of (n_buckets s) n t)"
    proof
      fix j
      assume "j \<in> {..<n_buckets s}"
      then obtain t where "t < n" "j \<in> range_of (n_buckets s) n t" using ranges_partition [OF nb n(2), of j] by auto
      then show "j \<in> (\<Union>t < n. range_of (n_buckets s) n t)" by (intro UN_I) simp_all
    qed
  qed
  moreover have "(\<Union>ij \<in> {..<n} \<times> {..<n_buckets s}. bucket_ids s ij) = all_ids s"
  proof -
    have "ids (thread_caches s ! i) = (\<Union>j < n_buckets s. set (thread_caches s ! i ! j))" if "i < n" for i
      using ok(1) that n(1) by (auto simp: in_ids threads_ok_def table_ok_def)
    then have "all_ids s = (\<Union>i < n. \<Union>j < n_buckets s. set (thread_caches s ! i ! j))" unfolding all_ids_def n(1) [symmetric] by simp
    moreover have "(\<Union>ij \<in> A \<times> B. F ij) = (\<Union>i \<in> A. \<Union>j \<in> B. F (i, j))" for A B and F :: "nat \<times> nat \<Rightarrow> nat set" by blast
    ultimately show ?thesis by (simp add: bucket_ids_def)
  qed
  ultimately show ?thesis
    using merge_threads_step [OF ok(1) n, of "{}" s tids] merged_none [OF ok] t by simp
qed

lemma image_sum_text:
  assumes t: "table_ok m nb ws T" and c: "crel ws T M"
  shows "(\<Sum>q \<in> {q \<in> ids T. wtxt ws q = u}. cnt ws q) = of_nat (M u)"
proof (cases "u \<in> wtxt ws ` ids T")
  case True
  then obtain q where q: "q \<in> ids T" "wtxt ws q = u" by blast
  then have "{q \<in> ids T. wtxt ws q = u} = {q}" using table_text_inj [OF t] by blast
  then show ?thesis using c q by (auto simp: crel_def)
next
  case False
  then have e: "{q \<in> ids T. wtxt ws q = u} = {}" and z: "M u = 0" using c unfolding crel_def by blast+
  show ?thesis unfolding e by (simp add: z)
qed

lemma merged_counts:
  assumes ok: "threads_ok s" and m: "merged s (all_ids s) s'"
    and c: "\<forall>i < length (thread_caches s). crel (objs s) (thread_caches s ! i) (M i)"
  shows "crel (objs s') (main_cache s') (\<lambda>t. \<Sum>i < length (thread_caches s). M i t)"
proof -
  define n where "n = length (thread_caches s)"
  note mm = mergedD [OF m]
  have tx: "wtxt (objs s') ` ids (main_cache s') = (\<Union>i < n. wtxt (objs s) ` ids (thread_caches s ! i))"
  proof -
    have "wtxt (objs s') ` all_ids s = wtxt (objs s) ` all_ids s" using mm(5) by (intro image_cong) simp_all
    then show ?thesis using mm(9) by (auto simp: all_ids_def n_def)
  qed
  have "(\<Sum>i < n. M i t) \<noteq> 0 \<longleftrightarrow> t \<in> wtxt (objs s') ` ids (main_cache s')" for t
    using c unfolding tx crel_def n_def by auto
  moreover have "cnt (objs s') p = of_nat (\<Sum>i < n. M i (wtxt (objs s') p))" if p: "p \<in> ids (main_cache s')" for p
  proof -
    define u where "u = wtxt (objs s') p"
    have "{q \<in> all_ids s. wtxt (objs s) q = u} = (\<Union>i < n. {q \<in> ids (thread_caches s ! i). wtxt (objs s) q = u})"
      by (auto simp: all_ids_def n_def)
    then have "text_sum s (all_ids s) u = (\<Sum>q \<in> (\<Union>i < n. {q \<in> ids (thread_caches s ! i). wtxt (objs s) q = u}). cnt (objs s) q)"
      by (simp add: text_sum_def)
    also have "\<dots> = (\<Sum>i < n. \<Sum>q \<in> {q \<in> ids (thread_caches s ! i). wtxt (objs s) q = u}. cnt (objs s) q)"
    proof (rule sum.UNION_disjoint)
      show "\<forall>i \<in> {..<n}. \<forall>j \<in> {..<n}. i \<noteq> j \<longrightarrow>
          {q \<in> ids (thread_caches s ! i). wtxt (objs s) q = u} \<inter> {q \<in> ids (thread_caches s ! j). wtxt (objs s) q = u} = {}"
        using ok unfolding threads_ok_def n_def by blast
    qed (simp_all add: finite_ids)
    also have "\<dots> = (\<Sum>i < n. of_nat (M i u))"
      using image_sum_text ok c by (intro sum.cong) (auto simp: n_def threads_ok_def)
    finally show ?thesis using mm(10) [OF p] by (simp add: u_def)
  qed
  ultimately show ?thesis by (simp add: crel_def n_def)
qed

end
