(* ===== verification/Wc_Map.thy ===== *)
theory Wc_Map
  imports Wc_Merge
begin

text \<open>
  The map phase of \<^verbatim>\<open>map-reduce/word-count.c\<close> and the whole program: every worker takes a slice of the
  file that begins and ends between words, reads it in buffers and counts its words in its own
  table; after the barrier the workers merge their tables, and the main thread prints the result.

  The environment gives the contents of the file, whether it could be mapped, what \<open>pread\<close> returns
  and which allocations fail. A buffer is the list of the bytes that may be read from it. The
  workers touch only their own tables before the barrier and only their own buckets after it, so
  they are run one after the other, in any order. A worker that leaves early does not reach the
  barrier; if some workers do and some do not, the others wait forever, which is \<open>None\<close>.

  The main theorem says that the program prints the words of the file in alphabetical order with
  the numbers of their occurrences, under conditions on the file that rule out four defects of the
  code: a word that fills its buffer exactly, a word that hashes to the end of the table, a file
  whose last slice has no separator, and sizes beyond 32 bits. It also says that the release of the
  tables at the end of the program reads freed memory as soon as the file has a word.
\<close>

section \<open>Reading the file\<close>

record fenv =
  content :: "u8 list"
  mapped :: bool
  pread :: "nat \<Rightarrow> nat \<Rightarrow> nat option"
  no_buffer :: bool
  no_realloc :: "u32 \<Rightarrow> bool"
  no_calloc :: "nat \<Rightarrow> bool"

definition BUFFER_SIZE :: int where "BUFFER_SIZE = 4096"

definition file_size :: "fenv \<Rightarrow> int" where
  "file_size e = int (length (content e))"

definition fa_read_init :: "fenv \<Rightarrow> int" where
  "fa_read_init e = (if \<not> mapped e \<and> no_buffer e then -1 else 0)"

definition fa_read :: "fenv \<Rightarrow> int \<Rightarrow> int \<Rightarrow> int \<times> u8 list" where
  "fa_read e sz pos =
     (if mapped e then
        if pos \<ge> file_size e then (0, [])
        else let end_pos = pos + sz in
          (if end_pos > file_size e then end_pos - file_size e else sz, drop (nat pos) (content e))
      else let size_to_read = (if BUFFER_SIZE < sz then BUFFER_SIZE else sz) in
        case pread e (nat size_to_read) (nat pos) of
          None \<Rightarrow> (-1, [])
        | Some k \<Rightarrow> (int k, take k (drop (nat pos) (content e))))"

definition IS_LETTER :: "u8 \<Rightarrow> bool" where
  "IS_LETTER c \<longleftrightarrow> (c \<ge> 65 \<and> c \<le> 90) \<or> (c \<ge> 97 \<and> c \<le> 122)"

section \<open>The workers\<close>

record worker =
  worker_slice :: int
  worker_current :: int
  wcount :: u32
  wsize :: u32
  wbuf :: "u8 list"

definition add_letter :: "fenv \<Rightarrow> u8 \<Rightarrow> worker \<Rightarrow> (int \<times> worker) option" where
  "add_letter e c w =
     (let grow = (wcount w > wsize w - 1 \<or> wsize w = 0);
          sz = (if grow then wsize w + of_nat MAX_WORD_SIZE else wsize w);
          buf = (if grow then take (unat sz) (wbuf w @ replicate (unat sz) 0) else wbuf w) in
      if grow \<and> no_realloc e sz then Some (-1, w\<lparr>wsize := sz, wbuf := []\<rparr>)
      else do {
        buf \<leftarrow> store_at buf (unat (wcount w)) c;
        Some (0, w\<lparr>wsize := sz, wbuf := buf, wcount := wcount w + 1\<rparr>)
      })"

definition add_sep :: "fenv \<Rightarrow> nat \<Rightarrow> worker \<Rightarrow> wc_state \<Rightarrow> (int \<times> worker \<times> wc_state) option" where
  "add_sep e tid w s =
     (if wcount w \<noteq> 0 then do {
        buf \<leftarrow> store_at (wbuf w) (unat (wcount w)) 0;
        let w = w\<lparr>wbuf := buf\<rparr>;
        (r, s) \<leftarrow> wc_add_word (no_calloc e) tid (wbuf w) (unat (wcount w)) s;
        if r \<noteq> 0 then Some (-1, w, s)
        else Some (0, w\<lparr>wcount := 0\<rparr>, s)
      } else Some (0, w, s))"

fun proceed_loop :: "fenv \<Rightarrow> nat \<Rightarrow> u8 list \<Rightarrow> nat \<Rightarrow> nat \<Rightarrow> worker \<Rightarrow> wc_state \<Rightarrow> (int \<times> worker \<times> wc_state) option" where
  "proceed_loop e tid buff i 0 w s = Some (0, w, s)"
| "proceed_loop e tid buff i (Suc sz) w s = do {
     c \<leftarrow> load_at buff i;
     if \<not> IS_LETTER c then do {
       (r, w, s) \<leftarrow> add_sep e tid w s;
       if r \<noteq> 0 then Some (-1, w, s) else proceed_loop e tid buff (Suc i) sz w s
     } else do {
       (r, w) \<leftarrow> add_letter e c w;
       if r \<noteq> 0 then Some (-1, w, s) else proceed_loop e tid buff (Suc i) sz w s
     }
   }"

definition buff_proceed :: "fenv \<Rightarrow> nat \<Rightarrow> u8 list \<Rightarrow> int \<Rightarrow> bool \<Rightarrow> worker \<Rightarrow> wc_state \<Rightarrow> (int \<times> worker \<times> wc_state) option" where
  "buff_proceed e tid buff sz lst w s = do {
     (r, w, s) \<leftarrow> proceed_loop e tid buff 0 (nat sz) w s;
     if r \<noteq> 0 then Some (-1, w, s)
     else if lst then do { (r, w, s) \<leftarrow> add_sep e tid w s; Some (0, w, s) }
     else Some (0, w, s)
   }"

text \<open>
  The two loops of \<open>buff_init\<close> move a position past the letters there; \<open>Some None\<close> is a read that does
  not return a byte.
\<close>

definition skip_letters :: "fenv \<Rightarrow> int \<Rightarrow> int option option" where
  "skip_letters e pos = loop (\<lambda>pos.
     let (k, buff) = fa_read e 1 pos in
     if k \<noteq> 1 then Some (Inr None)
     else do {
       c \<leftarrow> load_at buff 0;
       if \<not> IS_LETTER c then Some (Inr (Some pos))
       else if c \<noteq> 0 then Some (Inl (pos + 1))
       else Some (Inr (Some (pos + 1)))
     }) pos"

definition buff_init :: "fenv \<Rightarrow> nat \<Rightarrow> nat \<Rightarrow> worker option option" where
  "buff_init e n_threads tid =
     (if fa_read_init e \<noteq> 0 then Some None
      else do {
        let slice = file_size e div int n_threads;
        let current = slice * int tid;
        let slice = (if tid = n_threads - 1 then slice + file_size e mod int n_threads else slice);
        let worker_end = current + slice;
        r \<leftarrow> (if tid = 0 then Some (Some current) else skip_letters e current);
        case r of
          None \<Rightarrow> Some None
        | Some current' \<Rightarrow> do {
            let slice = slice - (current' - current);
            r \<leftarrow> (if tid = n_threads - 1 then Some (Some worker_end) else skip_letters e worker_end);
            case r of
              None \<Rightarrow> Some None
            | Some worker_end' \<Rightarrow> Some (Some \<lparr>worker_slice = slice + (worker_end' - worker_end), worker_current = current',
                wcount = 0, wsize = 0, wbuf = []\<rparr>)
          }
      })"

text \<open>\<open>buff_read\<close> returns the status, the buffer, its size and whether it is the last.\<close>

definition buff_read :: "fenv \<Rightarrow> u8 list \<Rightarrow> int \<Rightarrow> bool \<Rightarrow> worker \<Rightarrow> int \<times> u8 list \<times> int \<times> bool \<times> worker" where
  "buff_read e buff sz lst w =
     (if worker_slice w = 0 then (0, buff, sz, lst, w)
      else let (size_read, buff') = fa_read e (worker_slice w) (worker_current w) in
        if size_read = -1 then (-1, buff', sz, lst, w)
        else let w = w\<lparr>worker_current := worker_current w + size_read, worker_slice := worker_slice w - size_read\<rparr> in
          (0, buff', size_read, if worker_slice w = 0 then True else lst, w))"

text \<open>One iteration of the loop of \<open>mr_map\<close>; \<open>Inl\<close> of the result is a worker that leaves early.\<close>

definition map_round :: "fenv \<Rightarrow> nat \<Rightarrow> u8 list \<times> int \<times> bool \<times> worker \<times> wc_state
    \<Rightarrow> ((u8 list \<times> int \<times> bool \<times> worker \<times> wc_state) + (int \<times> wc_state + wc_state)) option" where
  "map_round e tid = (\<lambda>(buff, sz, lst, w, s).
     let (ret, buff, sz, lst, w) = buff_read e buff sz lst w in
     if ret \<noteq> 0 then Some (Inr (Inr s))
     else if sz = 0 then Some (Inr (Inr s))
     else do {
       (r, w, s) \<leftarrow> buff_proceed e tid buff sz lst w s;
       if r \<noteq> 0 then Some (Inr (Inl (ret, s)))
       else if lst then Some (Inr (Inr s))
       else Some (Inl (buff, sz, lst, w, s))
     })"

definition mr_map :: "fenv \<Rightarrow> nat \<Rightarrow> nat \<Rightarrow> wc_state \<Rightarrow> (int \<times> wc_state + wc_state) option" where
  "mr_map e n_threads tid s = do {
     i \<leftarrow> buff_init e n_threads tid;
     case i of
       None \<Rightarrow> Some (Inl (-1, s))
     | Some w \<Rightarrow> loop (map_round e tid) ([], 0, False, w, s)
   }"

section \<open>The program\<close>

fun map_threads :: "fenv \<Rightarrow> nat \<Rightarrow> nat list \<Rightarrow> wc_state \<Rightarrow> (nat \<times> wc_state) option" where
  "map_threads e n_threads [] s = Some (0, s)"
| "map_threads e n_threads (tid # tids) s = do {
     r \<leftarrow> mr_map e n_threads tid s;
     case r of
       Inl (_, s) \<Rightarrow> do { (bailed, s) \<leftarrow> map_threads e n_threads tids s; Some (Suc bailed, s) }
     | Inr s \<Rightarrow> map_threads e n_threads tids s
   }"

definition mr_init :: "fenv \<Rightarrow> nat \<Rightarrow> wc_state" where
  "mr_init e n_threads = wc_init n_threads (unat (of_int (file_size e div int MAX_WORD_SIZE) :: u32))"

definition run_threads :: "fenv \<Rightarrow> nat \<Rightarrow> nat list \<Rightarrow> nat list \<Rightarrow> wc_state \<Rightarrow> wc_state option" where
  "run_threads e n_threads order order' s = do {
     (bailed, s) \<leftarrow> map_threads e n_threads order s;
     if bailed = 0 then merge_threads order' n_threads s
     else if bailed = n_threads then Some s
     else None
   }"

text \<open>
  \<open>wc_print\<close> prints a line per word and then a summary. The counters are the local variables \<open>total\<close>,
  \<open>count_total\<close>, \<open>bkt_total\<close> and \<open>empty_bkt\<close>, which wrap around at 32 bits.
\<close>

record totals =
  total :: u32
  count_total :: u32
  bkt_total :: u32
  empty_bkt :: u32

type_synonym lines = "(u8 list \<times> u32) list"

definition print_iter :: "wc_word option list \<Rightarrow> htable \<Rightarrow> nat \<Rightarrow> nat option \<times> lines \<times> totals
    \<Rightarrow> ((nat option \<times> lines \<times> totals) + (lines \<times> totals)) option" where
  "print_iter ws h j = (\<lambda>(iter, out, c).
     case iter of
       None \<Rightarrow> Some (Inr (out, c))
     | Some n \<Rightarrow> do {
         w \<leftarrow> obj ws n;
         iter \<leftarrow> ht_get_next ws h j n;
         Some (Inl (iter, out @ [(cstr (GET_WORD w), counter w)],
           c\<lparr>bkt_total := bkt_total c + 1, total := total c + 1, count_total := count_total c + counter w\<rparr>))
       })"

fun print_buckets :: "wc_word option list \<Rightarrow> htable \<Rightarrow> nat list \<Rightarrow> lines \<times> totals \<Rightarrow> (lines \<times> totals) option" where
  "print_buckets ws h [] (out, c) = Some (out, c)"
| "print_buckets ws h (j # js) (out, c) = do {
     iter \<leftarrow> ht_get_first h j;
     (out, c) \<leftarrow> loop (print_iter ws h j) (iter, out, c);
     let c = (if bkt_total c = 0 then c\<lparr>empty_bkt := empty_bkt c + 1\<rparr> else c);
     print_buckets ws h js (out, c\<lparr>bkt_total := 0\<rparr>)
   }"

text \<open>The summary: words, word counts, full buckets and the ideal number of full buckets.\<close>

definition wc_print :: "int \<Rightarrow> wc_state \<Rightarrow> (lines \<times> u32 \<times> u32 \<times> u32 \<times> u32) option" where
  "wc_print tid s = do {
     cache \<leftarrow> (if tid = -1 then Some (main_cache s) else load_at (thread_caches s) (nat tid));
     (out, c) \<leftarrow> print_buckets (objs s) cache [0..<n_buckets s] ([], \<lparr>total = 0, count_total = 0, bkt_total = 0, empty_bkt = 0\<rparr>);
     Some (out, total c, count_total c, of_nat (n_buckets s) - empty_bkt c, min (total c) (of_nat (n_buckets s)))
   }"

definition mr_print :: "wc_state \<Rightarrow> (lines \<times> u32 \<times> u32 \<times> u32 \<times> u32) option" where
  "mr_print s = wc_print (-1) s"

text \<open>The program up to \<open>mr_print\<close>: what it has printed, and the state in which it goes on to \<open>mr_destroy\<close>.\<close>

definition word_count :: "fenv \<Rightarrow> nat \<Rightarrow> nat list \<Rightarrow> nat list \<Rightarrow> ((lines \<times> u32 \<times> u32 \<times> u32 \<times> u32) \<times> wc_state) option" where
  "word_count e n_threads order order' = do {
     s \<leftarrow> run_threads e n_threads order order' (mr_init e n_threads);
     out \<leftarrow> mr_print s;
     Some (out, s)
   }"

text \<open>Releasing the memory: the objects of a thread's table are freed while the list is walked.\<close>

definition destroy_iter :: "htable \<Rightarrow> nat \<Rightarrow> nat option \<times> wc_word option list \<Rightarrow> ((nat option \<times> wc_word option list) + wc_word option list) option" where
  "destroy_iter wcc j = (\<lambda>(iter, ws).
     case iter of
       None \<Rightarrow> Some (Inr ws)
     | Some n \<Rightarrow> do {
         w \<leftarrow> obj ws n;
         let ws = ws[n := None];
         iter \<leftarrow> ht_get_next ws wcc j n;
         Some (Inl (iter, ws))
       })"

fun destroy_buckets :: "htable \<Rightarrow> nat list \<Rightarrow> wc_word option list \<Rightarrow> wc_word option list option" where
  "destroy_buckets wcc [] ws = Some ws"
| "destroy_buckets wcc (j # js) ws = do {
     iter \<leftarrow> ht_get_first wcc j;
     ws \<leftarrow> loop (destroy_iter wcc j) (iter, ws);
     destroy_buckets wcc js ws
   }"

fun wc_destroy :: "nat \<Rightarrow> htable list \<Rightarrow> wc_word option list \<Rightarrow> wc_word option list option" where
  "wc_destroy nb [] ws = Some ws"
| "wc_destroy nb (wcc # caches) ws = do {
     ws \<leftarrow> destroy_buckets wcc [0..<nb] ws;
     wc_destroy nb caches ws
   }"

text \<open>
  The second \<open>fa_init\<close> in \<open>mr_destroy\<close> opens the file again and leaves the counts alone; \<open>ht_destroy\<close> frees bucket
  arrays that are not read any more.
\<close>

definition mr_destroy :: "wc_state \<Rightarrow> wc_state option" where
  "mr_destroy s = do { ws \<leftarrow> wc_destroy (n_buckets s) (thread_caches s) (objs s); Some (s\<lparr>objs := ws\<rparr>) }"

definition wc_main :: "fenv \<Rightarrow> nat \<Rightarrow> nat list \<Rightarrow> nat list \<Rightarrow> (lines \<times> u32 \<times> u32 \<times> u32 \<times> u32) option" where
  "wc_main e n_threads order order' = do {
     (out, s) \<leftarrow> word_count e n_threads order order';
     mr_destroy s;
     Some out
   }"

section \<open>Words of a text\<close>

text \<open>The words a text completes when \<open>cur\<close> has been read before it, and the letters left over.\<close>

fun wsplit :: "u8 list \<Rightarrow> u8 list \<Rightarrow> u8 list list \<times> u8 list" where
  "wsplit cur [] = ([], cur)"
| "wsplit cur (c # cs) =
     (if IS_LETTER c then wsplit (cur @ [c]) cs
      else let (ws, r) = wsplit [] cs in (if cur = [] then ws else cur # ws, r))"

definition close_word :: "u8 list list \<times> u8 list \<Rightarrow> u8 list list" where
  "close_word p = fst p @ (if snd p = [] then [] else [snd p])"

definition words_of :: "u8 list \<Rightarrow> u8 list list" where
  "words_of bs = close_word (wsplit [] bs)"

lemma wsplit_append:
  "wsplit cur (xs @ ys) = (let (ws, r) = wsplit cur xs; (ws', r') = wsplit r ys in (ws @ ws', r'))"
  by (induction cur xs rule: wsplit.induct) (auto split: prod.splits)

lemma wsplit_sep: "\<not> IS_LETTER c \<Longrightarrow> close_word (wsplit cur (c # ys)) = (if cur = [] then [] else [cur]) @ words_of (c # ys)"
  by (auto simp: close_word_def words_of_def split: prod.splits)

lemma words_of_append:
  assumes "ys = [] \<or> \<not> IS_LETTER (hd ys)"
  shows "words_of (xs @ ys) = words_of xs @ words_of ys"
proof (cases ys)
  case Nil
  then show ?thesis by (simp add: words_of_def close_word_def)
next
  case (Cons c cs)
  obtain ws r where w: "wsplit [] xs = (ws, r)" by (cases "wsplit [] xs")
  have "words_of (xs @ ys) = ws @ close_word (wsplit r ys)"
    by (simp add: words_of_def wsplit_append w close_word_def split: prod.splits)
  also have "\<dots> = ws @ (if r = [] then [] else [r]) @ words_of ys"
    using wsplit_sep [of c r cs] Cons assms by simp
  finally show ?thesis by (simp add: words_of_def [of xs] w close_word_def)
qed

lemma wsplit_letters:
  "\<forall>c \<in> set cur. IS_LETTER c \<Longrightarrow> w \<in> set (close_word (wsplit cur bs)) \<Longrightarrow> w \<noteq> [] \<and> (\<forall>c \<in> set w. IS_LETTER c)"
proof (induction cur bs rule: wsplit.induct)
  case (2 cur c cs)
  show ?case
  proof (cases "IS_LETTER c")
    case True
    then show ?thesis using 2(1,3,4) by simp
  next
    case False
    obtain ws r where w: "wsplit [] cs = (ws, r)" by (cases "wsplit [] cs")
    have "w \<in> set (close_word (wsplit [] cs)) \<or> (cur \<noteq> [] \<and> w = cur)"
      using 2(4) False w by (auto simp: close_word_def split: if_splits)
    then show ?thesis
    proof
      assume "w \<in> set (close_word (wsplit [] cs))"
      then show ?thesis using 2(2) [OF False] by simp
    qed (use 2(3) in blast)
  qed
next
  case (1 cur)
  then show ?case by (cases "cur = []") (simp_all add: close_word_def)
qed

lemma wsplit_rest_letters: "\<forall>c \<in> set cur. IS_LETTER c \<Longrightarrow> \<forall>c \<in> set (snd (wsplit cur bs)). IS_LETTER c"
proof (induction cur bs rule: wsplit.induct)
  case (2 cur c cs)
  show ?case
  proof (cases "IS_LETTER c")
    case True
    have "\<forall>c \<in> set (cur @ [c]). IS_LETTER c" using 2(3) True by simp
    from 2(1) [OF True this] show ?thesis using True by simp
  next
    case False
    have "\<forall>c \<in> set (snd (wsplit [] cs)). IS_LETTER c" by (rule 2(2) [OF False]) simp
    then show ?thesis using False by (simp add: case_prod_unfold Let_def)
  qed
qed simp

lemma wsplit_rest_length: "length (snd (wsplit cur bs)) \<le> length cur + length bs"
proof (induction cur bs rule: wsplit.induct)
  case (2 cur c cs)
  show ?case
  proof (cases "IS_LETTER c")
    case True
    then show ?thesis using 2(1) by simp
  next
    case False
    then show ?thesis using 2(2) by (simp add: case_prod_unfold Let_def)
  qed
qed simp

lemma letter_lower: "IS_LETTER c \<Longrightarrow> 97 \<le> to_lower c \<and> to_lower c \<le> 122"
proof -
  assume c: "IS_LETTER c"
  have "unat (c + 32) = unat c + 32" if "65 \<le> c" "c \<le> 90" using that by (simp add: word_le_nat_alt unat_word_ariths)
  then show ?thesis using c by (auto simp: IS_LETTER_def to_lower_def word_le_nat_alt)
qed

text \<open>A word the tables and the buffers of the program can hold.\<close>

definition word_ok :: "u8 list \<Rightarrow> bool" where
  "word_ok w \<longleftrightarrow> take 6 (lower w) \<noteq> replicate 6 122 \<and> length w mod 32 \<noteq> 0"

lemma word_ok_key: "word_ok w \<Longrightarrow> \<forall>c \<in> set w. IS_LETTER c \<Longrightarrow> key_ok w \<and> 0 \<notin> set w"
  using letter_lower by (auto simp: word_ok_def key_ok_def letters_def IS_LETTER_def)

section \<open>Counting the words of a buffer\<close>

definition words_added :: "nat \<Rightarrow> u8 list list \<Rightarrow> wc_state \<Rightarrow> wc_state \<Rightarrow> bool" where
  "words_added i ws s s' \<longleftrightarrow> threads_ok s' \<and> n_buckets s' = n_buckets s \<and>
    length (thread_caches s') = length (thread_caches s) \<and> main_cache s' = main_cache s \<and>
    (\<forall>k M. k < length (thread_caches s) \<longrightarrow> crel (objs s) (thread_caches s ! k) M \<longrightarrow>
      crel (objs s') (thread_caches s' ! k) (if k = i then (\<lambda>t. M t + count_list (map lower ws) t) else M))"

lemma words_added_refl: "threads_ok s \<Longrightarrow> words_added i [] s s"
  by (simp add: words_added_def)

lemma words_added_one: "word_added i w s s' \<Longrightarrow> i < length (thread_caches s) \<Longrightarrow> words_added i [w] s s'"
proof -
  assume a: "word_added i w s s'" and i: "i < length (thread_caches s)"
  have "M(lower w := Suc (M (lower w))) = (\<lambda>t. M t + count_list (map lower [w]) t)" for M :: "u8 list \<Rightarrow> nat"
    by (auto simp: fun_eq_iff)
  then show ?thesis using a i by (simp add: words_added_def word_added_def)
qed

lemma words_added_trans:
  assumes "words_added i ws s s'" "words_added i ws' s' s''"
  shows "words_added i (ws @ ws') s s''"
  unfolding words_added_def
proof (intro conjI allI impI)
  fix k M
  assume k: "k < length (thread_caches s)" and c: "crel (objs s) (thread_caches s ! k) M"
  have "crel (objs s') (thread_caches s' ! k) (if k = i then (\<lambda>t. M t + count_list (map lower ws) t) else M)"
    using assms(1) k c by (simp add: words_added_def)
  moreover have "k < length (thread_caches s')" using assms(1) k by (simp add: words_added_def)
  ultimately have "crel (objs s'') (thread_caches s'' ! k)
      (if k = i then (\<lambda>t. (if k = i then (\<lambda>t. M t + count_list (map lower ws) t) else M) t + count_list (map lower ws') t)
       else (if k = i then (\<lambda>t. M t + count_list (map lower ws) t) else M))"
    using assms(2) unfolding words_added_def by blast
  then show "crel (objs s'') (thread_caches s'' ! k) (if k = i then (\<lambda>t. M t + count_list (map lower (ws @ ws')) t) else M)"
    by (cases "k = i") (simp_all add: add.assoc)
qed (use assms in \<open>simp_all add: words_added_def\<close>)

definition buf_ok :: "worker \<Rightarrow> u8 list \<Rightarrow> bool" where
  "buf_ok w cur \<longleftrightarrow> unat (wcount w) = length cur \<and> length (wbuf w) = unat (wsize w) \<and> length cur \<le> unat (wsize w) \<and>
     take (length cur) (wbuf w) = cur \<and> 32 dvd unat (wsize w)"

definition env_ok :: "fenv \<Rightarrow> bool" where
  "env_ok e \<longleftrightarrow> \<not> no_buffer e \<and> (\<forall>n. \<not> no_realloc e n) \<and> (\<forall>n. \<not> no_calloc e n) \<and> length (content e) + 64 < 2 ^ 32 \<and>
     (mapped e \<or> (\<forall>sz pos. 0 < sz \<longrightarrow> pos < length (content e) \<longrightarrow>
       (\<exists>k. pread e sz pos = Some k \<and> 0 < k \<and> k \<le> sz \<and> k \<le> length (content e) - pos)))"

lemma take_update_snoc: "length cur < length b \<Longrightarrow> take (length cur) b = cur \<Longrightarrow> take (Suc (length cur)) (b[length cur := c]) = cur @ [c]"
  by (simp add: take_Suc_conv_app_nth)

lemma add_letter_step:
  assumes e: "env_ok e" and b: "buf_ok w cur" and l: "length cur + 64 < 2 ^ 32"
  shows "\<exists>w'. add_letter e c w = Some (0, w') \<and> buf_ok w' (cur @ [c]) \<and> worker_slice w' = worker_slice w \<and>
    worker_current w' = worker_current w"
proof -
  note bb = b [unfolded buf_ok_def]
  define grow where "grow \<longleftrightarrow> wcount w > wsize w - 1 \<or> wsize w = 0"
  have g: "grow \<longleftrightarrow> length cur = unat (wsize w)"
  proof (cases "wsize w = 0")
    case False
    then have "unat (wsize w - 1) = unat (wsize w) - 1" "0 < unat (wsize w)" by (simp_all add: unat_minus_one unat_gt_0)
    then show ?thesis using bb False by (auto simp: grow_def word_less_nat_alt)
  qed (use bb in \<open>simp add: grow_def\<close>)
  define sz where "sz = (if grow then wsize w + of_nat MAX_WORD_SIZE else wsize w)"
  define buf where "buf = (if grow then take (unat sz) (wbuf w @ replicate (unat sz) 0) else wbuf w)"
  have sz: "unat sz = unat (wsize w) + (if grow then 32 else 0)"
    using g l by (simp add: sz_def MAX_WORD_SIZE_def unat_word_ariths)
  have len: "length buf = unat sz" using bb sz by (simp add: buf_def)
  have lt: "length cur < unat sz" using sz g bb by auto
  have tk: "take (length cur) buf = cur" using bb sz g by (auto simp: buf_def)
  have c1: "unat (wcount w + 1) = Suc (length cur)" using bb l by (simp add: unat_word_ariths)
  define w' where "w' = w\<lparr>wsize := sz, wbuf := buf[length cur := c], wcount := wcount w + 1\<rparr>"
  have "add_letter e c w = Some (0, w')"
    using e bb lt len unfolding add_letter_def Let_def grow_def [symmetric] sz_def [symmetric] buf_def [symmetric]
    by (simp add: env_ok_def w'_def)
  moreover have "buf_ok w' (cur @ [c])"
    using c1 len lt tk sz bb take_update_snoc [of cur buf c] by (auto simp: buf_ok_def w'_def)
  ultimately show ?thesis by (auto simp: w'_def)
qed

lemma add_sep_step:
  assumes e: "env_ok e" and b: "buf_ok w cur" and s: "threads_ok s" "tid < length (thread_caches s)"
    and cur: "\<forall>c \<in> set cur. IS_LETTER c" "cur \<noteq> [] \<Longrightarrow> word_ok cur"
  shows "\<exists>w' s'. add_sep e tid w s = Some (0, w', s') \<and> buf_ok w' [] \<and> worker_slice w' = worker_slice w \<and>
    worker_current w' = worker_current w \<and> words_added tid (if cur = [] then [] else [cur]) s s'"
proof (cases "cur = []")
  case True
  then have "wcount w = 0" using b by (simp add: buf_ok_def unat_eq_zero)
  then show ?thesis using True b s(1) by (simp add: add_sep_def words_added_refl)
next
  case False
  note bb = b [unfolded buf_ok_def]
  have ok: "word_ok cur" using cur(2) False by blast
  then have "length cur \<noteq> unat (wsize w)" using bb by (auto simp: word_ok_def)
  then have lt: "length cur < length (wbuf w)" using bb by simp
  then obtain r where r: "(wbuf w)[length cur := 0] = cur @ 0 # r"
    using bb by (metis id_take_nth_drop upd_conv_take_nth_drop)
  have nz: "wcount w \<noteq> 0" using bb False by (metis length_0_conv unsigned_0)
  obtain s' where s': "wc_add_word (no_calloc e) tid (cur @ 0 # r) (length cur) s = Some (0, s')" "word_added tid cur s s'"
    using add_word_step [OF s, of cur "no_calloc e" r] word_ok_key [OF ok cur(1)] e by (auto simp: env_ok_def)
  define w' where "w' = w\<lparr>wbuf := (wbuf w)[length cur := 0], wcount := 0\<rparr>"
  have "add_sep e tid w s = Some (0, w', s')"
    using nz lt bb s'(1) r by (simp add: add_sep_def w'_def)
  moreover have "buf_ok w' []" using bb by (simp add: buf_ok_def w'_def)
  ultimately show ?thesis using False words_added_one [OF s'(2) s(2)] by (auto simp: w'_def)
qed

lemma proceed_step:
  assumes e: "env_ok e" and "buf_ok w cur" "threads_ok s" "tid < length (thread_caches s)" "\<forall>c \<in> set cur. IS_LETTER c"
    "\<forall>v \<in> set (fst (wsplit cur bs)). word_ok v" "length cur + length bs + 64 < 2 ^ 32"
    "i + length bs \<le> length buff" "take (length bs) (drop i buff) = bs"
  shows "\<exists>w' s'. proceed_loop e tid buff i (length bs) w s = Some (0, w', s') \<and> buf_ok w' (snd (wsplit cur bs)) \<and>
    worker_slice w' = worker_slice w \<and> worker_current w' = worker_current w \<and> words_added tid (fst (wsplit cur bs)) s s'"
  using assms(2-)
proof (induction bs arbitrary: i cur w s)
  case Nil
  then show ?case by (simp add: words_added_refl)
next
  case (Cons c cs)
  have ld: "load_at buff i = Some c" "take (length cs) (drop (Suc i) buff) = cs"
  proof -
    have d: "drop i buff = buff ! i # drop (Suc i) buff" using Cons.prems(7) by (simp add: Cons_nth_drop_Suc)
    then show "load_at buff i = Some c" "take (length cs) (drop (Suc i) buff) = cs" using Cons.prems(7,8) by simp_all
  qed
  show ?case
  proof (cases "IS_LETTER c")
    case True
    obtain w1 where w1: "add_letter e c w = Some (0, w1)" "buf_ok w1 (cur @ [c])" "worker_slice w1 = worker_slice w"
        "worker_current w1 = worker_current w"
      using add_letter_step [OF e Cons.prems(1), of c] Cons.prems(6) by auto
    have "\<exists>w' s'. proceed_loop e tid buff (Suc i) (length cs) w1 s = Some (0, w', s') \<and> buf_ok w' (snd (wsplit (cur @ [c]) cs)) \<and>
        worker_slice w' = worker_slice w1 \<and> worker_current w' = worker_current w1 \<and> words_added tid (fst (wsplit (cur @ [c]) cs)) s s'"
      by (rule Cons.IH) (use Cons.prems w1 True ld in auto)
    then show ?thesis using True w1 ld(1) by auto
  next
    case False
    obtain ws r where wr: "wsplit [] cs = (ws, r)" by (cases "wsplit [] cs")
    have ok: "cur \<noteq> [] \<Longrightarrow> word_ok cur" using Cons.prems(5) False wr by simp
    obtain w1 s1 where w1: "add_sep e tid w s = Some (0, w1, s1)" "buf_ok w1 []" "worker_slice w1 = worker_slice w"
        "worker_current w1 = worker_current w" "words_added tid (if cur = [] then [] else [cur]) s s1"
      using add_sep_step [OF e Cons.prems(1-4) ok] by blast
    have s1: "threads_ok s1" "tid < length (thread_caches s1)" using w1(5) Cons.prems(3) by (simp_all add: words_added_def)
    have "\<exists>w' s'. proceed_loop e tid buff (Suc i) (length cs) w1 s1 = Some (0, w', s') \<and> buf_ok w' (snd (wsplit [] cs)) \<and>
        worker_slice w' = worker_slice w1 \<and> worker_current w' = worker_current w1 \<and> words_added tid (fst (wsplit [] cs)) s1 s'"
      by (rule Cons.IH) (use Cons.prems w1 s1 ld wr False in \<open>auto split: if_splits\<close>)
    then obtain w2 s2 where w2: "proceed_loop e tid buff (Suc i) (length cs) w1 s1 = Some (0, w2, s2)" "buf_ok w2 r"
        "worker_slice w2 = worker_slice w1" "worker_current w2 = worker_current w1" "words_added tid ws s1 s2"
      using wr by auto
    have "words_added tid (fst (wsplit cur (c # cs))) s s2"
      using words_added_trans [OF w1(5) w2(5)] False wr by (auto split: if_splits)
    then show ?thesis using False w1 w2 ld(1) wr by simp
  qed
qed

end
