(* ===== verification/Wc_Run.thy ===== *)
theory Wc_Run
  imports Wc_Map
begin

text \<open>
  Correctness of the word count: the slices of the workers cut the file between words, every worker
  counts the words of its slice, and the merged table is printed in alphabetical order.
\<close>

section \<open>Reading a slice\<close>

definition part :: "u8 list \<Rightarrow> nat \<Rightarrow> nat \<Rightarrow> u8 list" where
  "part bs a b = take (b - a) (drop a bs)"

lemma part_length [simp]: "a \<le> b \<Longrightarrow> b \<le> length bs \<Longrightarrow> length (part bs a b) = b - a"
  by (simp add: part_def)

lemma part_append: "a \<le> b \<Longrightarrow> b \<le> c \<Longrightarrow> part bs a b @ part bs b c = part bs a c"
  using take_add [of "b - a" "c - b" "drop a bs"] by (simp add: part_def add.commute)

lemma fa_read_step:
  assumes e: "env_ok e" and a: "a < b" "b \<le> length (content e)"
  shows "\<exists>k buff. fa_read e (int (b - a)) (int a) = (int k, buff) \<and> 0 < k \<and> k \<le> b - a \<and> k \<le> length buff \<and>
    take k buff = part (content e) a (a + k)"
proof (cases "mapped e")
  case True
  then have "fa_read e (int (b - a)) (int a) = (int (b - a), drop a (content e))"
    using a by (simp add: fa_read_def file_size_def Let_def)
  then show ?thesis using a by (intro exI [of _ "b - a"] exI [of _ "drop a (content e)"]) (simp add: part_def)
next
  case False
  define sz where "sz = (if BUFFER_SIZE < int (b - a) then BUFFER_SIZE else int (b - a))"
  have sz: "0 < nat sz" "nat sz \<le> b - a" using a by (auto simp: sz_def BUFFER_SIZE_def)
  have "a < length (content e)" using a by simp
  then obtain k where k: "pread e (nat sz) a = Some k" "0 < k" "k \<le> nat sz" "k \<le> length (content e) - a"
    using e sz(1) False unfolding env_ok_def by blast
  have "fa_read e (int (b - a)) (int a) = (int k, take k (drop a (content e)))"
    using False k(1) by (simp add: fa_read_def Let_def sz_def [symmetric])
  then show ?thesis using k sz by (auto simp: part_def)
qed

lemma close_append: "close_word (wsplit cur (xs @ ys)) = fst (wsplit cur xs) @ close_word (wsplit (snd (wsplit cur xs)) ys)"
  by (simp add: wsplit_append close_word_def case_prod_unfold Let_def)

lemma map_loop:
  assumes e: "env_ok e" and "a < b" "b \<le> length (content e)" "worker_slice w = int (b - a)" "worker_current w = int a"
    "buf_ok w cur" "\<forall>c \<in> set cur. IS_LETTER c" "length cur \<le> a" "threads_ok s" "tid < length (thread_caches s)"
    "\<forall>v \<in> set (close_word (wsplit cur (part (content e) a b))). word_ok v"
  shows "\<exists>s'. loop (map_round e tid) (buff0, sz0, False, w, s) = Some (Inr s') \<and>
    words_added tid (close_word (wsplit cur (part (content e) a b))) s s'"
  using assms(2-)
proof (induction "b - a" arbitrary: a w cur s buff0 sz0 rule: less_induct)
  case less
  note ab = less.prems(1,2)
  obtain k buff where k: "fa_read e (int (b - a)) (int a) = (int k, buff)" "0 < k" "k \<le> b - a" "k \<le> length buff"
      "take k buff = part (content e) a (a + k)"
    using fa_read_step [OF e ab] by blast
  define P where "P = part (content e) a (a + k)"
  have lP: "length P = k" using k(3) ab by (simp add: P_def)
  have split: "part (content e) a b = P @ part (content e) (a + k) b"
    unfolding P_def using k(3) ab by (intro part_append [symmetric]) linarith+
  define w1 where "w1 = w\<lparr>worker_current := int (a + k), worker_slice := int (b - (a + k))\<rparr>"
  define lst where "lst \<longleftrightarrow> b = a + k"
  have rd: "buff_read e buff0 sz0 False w = (0, buff, int k, lst, w1)"
    using less.prems(1,3,4) k(1-3) by (auto simp: buff_read_def w1_def lst_def Let_def)
  have w1: "buf_ok w1 cur" using less.prems(5) by (simp add: w1_def buf_ok_def)
  have words: "close_word (wsplit cur (part (content e) a b)) =
      fst (wsplit cur P) @ close_word (wsplit (snd (wsplit cur P)) (part (content e) (a + k) b))"
    unfolding split by (rule close_append)
  define r where "r = snd (wsplit cur P)"
  have okP: "\<forall>v \<in> set (fst (wsplit cur P)). word_ok v" using less.prems(10) unfolding words by simp
  have len: "length cur + length P + 64 < 2 ^ 32" proof -
    have "length (content e) + 64 < 2 ^ 32" using e by (simp add: env_ok_def)
    moreover have "length cur + length P \<le> length (content e)" using less.prems(7) lP k(3) ab by linarith
    ultimately show ?thesis by linarith
  qed
  obtain w2 s2 where w2: "proceed_loop e tid buff 0 k w1 s = Some (0, w2, s2)" "buf_ok w2 r" "worker_slice w2 = worker_slice w1"
      "worker_current w2 = worker_current w1" "words_added tid (fst (wsplit cur P)) s s2"
    using proceed_step [OF e w1 less.prems(8,9,6) okP len, of 0 buff] k(4,5) lP by (auto simp: P_def r_def)
  have s2: "threads_ok s2" "tid < length (thread_caches s2)" using w2(5) less.prems(9) by (simp_all add: words_added_def)
  have rl: "\<forall>c \<in> set r. IS_LETTER c" unfolding r_def by (rule wsplit_rest_letters [OF less.prems(6)])
  have rk: "length r \<le> a + k" using wsplit_rest_length [of cur P] less.prems(7) lP by (simp add: r_def)
  show ?case
  proof (cases lst)
    case True
    then have nil: "part (content e) (a + k) b = []" by (simp add: lst_def part_def)
    have cl: "close_word (wsplit r []) = (if r = [] then [] else [r])" by (simp add: close_word_def)
    have "word_ok r" if "r \<noteq> []" using less.prems(10) that unfolding words nil r_def [symmetric] by (simp add: close_word_def)
    then obtain w3 s3 where w3: "add_sep e tid w2 s2 = Some (0, w3, s3)" "words_added tid (if r = [] then [] else [r]) s2 s3"
      using add_sep_step [OF e w2(2) s2 rl] by blast
    have "loop (map_round e tid) (buff0, sz0, False, w, s) = Some (Inr s3)"
      using True k(2) w2(1) w3(1) by (intro loop_stop) (simp add: map_round_def rd buff_proceed_def)
    moreover have "words_added tid (close_word (wsplit cur (part (content e) a b))) s s3"
      unfolding words nil r_def [symmetric] cl by (rule words_added_trans [OF w2(5) w3(2)])
    ultimately show ?thesis by blast
  next
    case False
    then have lt: "a + k < b" using k(3) ab by (simp add: lst_def)
    have "loop (map_round e tid) (buff0, sz0, False, w, s) = loop (map_round e tid) (buff, int k, False, w2, s2)"
      using False k(2) w2(1) by (intro loop_next) (simp add: map_round_def rd buff_proceed_def)
    moreover have "\<exists>s'. loop (map_round e tid) (buff, int k, False, w2, s2) = Some (Inr s') \<and>
        words_added tid (close_word (wsplit r (part (content e) (a + k) b))) s2 s'"
    proof (rule less.hyps)
      show "\<forall>v \<in> set (close_word (wsplit r (part (content e) (a + k) b))). word_ok v"
        using less.prems(10) unfolding words r_def [symmetric] by simp
    qed (use lt ab k(2) w2 s2 rl rk in \<open>simp_all add: w1_def\<close>)
    ultimately show ?thesis unfolding words r_def [symmetric] using words_added_trans [OF w2(5)] by auto
  qed
qed

section \<open>Slices\<close>

definition next_sep :: "u8 list \<Rightarrow> nat \<Rightarrow> nat" where
  "next_sep bs p = p + length (takeWhile IS_LETTER (drop p bs))"

lemma next_sep_step: "p < length bs \<Longrightarrow> next_sep bs p = (if IS_LETTER (bs ! p) then next_sep bs (Suc p) else p)"
  unfolding next_sep_def by (subst Cons_nth_drop_Suc [symmetric]) simp_all

lemma next_sep_not_letter: "next_sep bs p < length bs \<Longrightarrow> \<not> IS_LETTER (bs ! next_sep bs p)"
proof -
  assume "next_sep bs p < length bs"
  then have "length (takeWhile IS_LETTER (drop p bs)) < length (drop p bs)" by (simp add: next_sep_def)
  from nth_length_takeWhile [OF this] this show ?thesis by (simp add: next_sep_def)
qed

lemma next_sep_le: "p \<le> q \<Longrightarrow> q < length bs \<Longrightarrow> \<not> IS_LETTER (bs ! q) \<Longrightarrow> next_sep bs p \<le> q"
proof (induction "q - p" arbitrary: p)
  case 0
  then show ?case by (simp add: next_sep_step)
next
  case (Suc d)
  then show ?case by (cases "IS_LETTER (bs ! p)") (auto simp: next_sep_step [of p])
qed

lemma next_sep_mono: "p \<le> q \<Longrightarrow> next_sep bs q < length bs \<Longrightarrow> next_sep bs p \<le> next_sep bs q"
proof -
  assume a: "p \<le> q" "next_sep bs q < length bs"
  have "p \<le> next_sep bs q" using a(1) by (simp add: next_sep_def)
  then show ?thesis using a(2) next_sep_not_letter [OF a(2)] by (rule next_sep_le)
qed

lemma skip_letters_step:
  assumes e: "env_ok e" and p: "next_sep (content e) p < length (content e)"
  shows "skip_letters e (int p) = Some (Some (int (next_sep (content e) p)))"
  using p
proof (induction "length (content e) - p" arbitrary: p rule: less_induct)
  case less
  have pl: "p < length (content e)" using less.prems by (simp add: next_sep_def)
  obtain k buff where "fa_read e (int (Suc p - p)) (int p) = (int k, buff)" "0 < k" "k \<le> Suc p - p" "k \<le> length buff"
      "take k buff = part (content e) p (p + k)"
    using fa_read_step [OF e, of p "Suc p"] pl by auto
  then have r: "fa_read e 1 (int p) = (1, buff)" "0 < length buff" "take 1 buff = part (content e) p (Suc p)"
    by (auto simp: le_Suc_eq)
  have "buff ! 0 = content e ! p"
    using r(2,3) pl by (cases buff) (auto simp: part_def take_Suc hd_drop_conv_nth)
  then have ld: "load_at buff 0 = Some (content e ! p)" using r(2) by simp
  show ?case
  proof (cases "IS_LETTER (content e ! p)")
    case True
    then have nz: "content e ! p \<noteq> 0" by (auto simp: IS_LETTER_def)
    have n: "next_sep (content e) p = next_sep (content e) (Suc p)" using next_sep_step [OF pl] True by simp
    have "skip_letters e (int p) = skip_letters e (int p + 1)"
      unfolding skip_letters_def using r(1) ld True nz by (intro loop_next) simp
    also have "\<dots> = skip_letters e (int (Suc p))" by (simp add: add.commute)
    also have "\<dots> = Some (Some (int (next_sep (content e) (Suc p))))"
      using less.prems pl n by (intro less.hyps) simp_all
    finally show ?thesis using n by simp
  next
    case False
    then show ?thesis unfolding skip_letters_def using r(1) ld next_sep_step [OF pl] by (intro loop_stop) simp
  qed
qed

definition cut :: "u8 list \<Rightarrow> nat \<Rightarrow> nat \<Rightarrow> nat" where
  "cut bs n t = (if t = 0 then 0 else if t = n then length bs else next_sep bs (length bs div n * t))"

definition slices_ok :: "u8 list \<Rightarrow> nat \<Rightarrow> bool" where
  "slices_ok bs n \<longleftrightarrow> 0 < n \<and> (n = 1 \<or> next_sep bs (length bs div n * (n - 1)) < length bs)"

lemma cut_sep:
  assumes "slices_ok bs n" "0 < t" "t < n"
  shows "cut bs n t = next_sep bs (length bs div n * t)" "next_sep bs (length bs div n * t) < length bs"
proof -
  show "cut bs n t = next_sep bs (length bs div n * t)" using assms by (simp add: cut_def)
  have l: "next_sep bs (length bs div n * (n - 1)) < length bs" using assms by (auto simp: slices_ok_def)
  have "length bs div n * t \<le> length bs div n * (n - 1)" using assms(3) by (intro mult_le_mono2) simp
  from next_sep_mono [OF this l] show "next_sep bs (length bs div n * t) < length bs" using l by simp
qed

lemma cut_mono:
  assumes ok: "slices_ok bs n" and t: "t < n"
  shows "cut bs n t \<le> cut bs n (Suc t)" and "cut bs n (Suc t) \<le> length bs"
proof -
  consider "t = 0" | "0 < t" "Suc t = n" | "0 < t" "Suc t < n" using t by linarith
  then show "cut bs n t \<le> cut bs n (Suc t)"
  proof cases
    case 2
    then show ?thesis using cut_sep [OF ok 2(1) t] by (simp add: cut_def)
  next
    case 3
    then show ?thesis
      using cut_sep [OF ok 3(1) t] cut_sep [OF ok _ 3(2)] next_sep_mono [of "length bs div n * t" "length bs div n * Suc t"] by simp
  qed (simp add: cut_def)
  show "cut bs n (Suc t) \<le> length bs"
    using cut_sep [OF ok, of "Suc t"] t by (cases "Suc t = n") (auto simp: cut_def)
qed

lemma buff_init_bounds:
  assumes e: "env_ok e"
    and c: "c = file_size e div int n * int t" "(if t = 0 then Some (Some c) else skip_letters e c) = Some (Some c')"
    and d: "d = c + (if t = n - 1 then file_size e div int n + file_size e mod int n else file_size e div int n)"
      "(if t = n - 1 then Some (Some d) else skip_letters e d) = Some (Some d')"
  shows "buff_init e n t = Some (Some \<lparr>worker_slice = d' - c', worker_current = c', wcount = 0, wsize = 0, wbuf = []\<rparr>)"
  using e c(2) d unfolding buff_init_def c(1) [symmetric] Let_def d(1) [symmetric] by (simp add: fa_read_init_def env_ok_def) (simp add: d(1))

lemma buff_init_step:
  assumes e: "env_ok e" and ok: "slices_ok (content e) n" and t: "t < n"
  shows "buff_init e n t = Some (Some \<lparr>worker_slice = int (cut (content e) n (Suc t) - cut (content e) n t),
    worker_current = int (cut (content e) n t), wcount = 0, wsize = 0, wbuf = []\<rparr>)"
proof -
  define L where "L = length (content e)"
  have n: "0 < n" using t by simp
  have fs: "file_size e div int n = int (L div n)" "file_size e mod int n = int (L mod n)"
    by (simp_all add: file_size_def L_def zdiv_int zmod_int)
  define c where "c = int (L div n * t)"
  have c: "c = file_size e div int n * int t" by (simp add: fs c_def)
  have c': "(if t = 0 then Some (Some c) else skip_letters e c) = Some (Some (int (cut (content e) n t)))"
  proof (cases "t = 0")
    case False
    then show ?thesis using cut_sep [OF ok _ t] skip_letters_step [OF e, of "L div n * t"] by (simp add: L_def c_def)
  qed (simp add: cut_def c_def)
  define d where "d = c + (if t = n - 1 then file_size e div int n + file_size e mod int n else file_size e div int n)"
  have d': "(if t = n - 1 then Some (Some d) else skip_letters e d) = Some (Some (int (cut (content e) n (Suc t))))"
  proof (cases "t = n - 1")
    case True
    have "L div n * t + L div n = L div n * n" using n True by (cases n) simp_all
    then have "L div n * t + (L div n + L mod n) = L" using div_mult_mod_eq [of L n] by linarith
    then have "int (L div n * t) + (int (L div n) + int (L mod n)) = int L" by (metis of_nat_add)
    then have "d = int L" using True by (simp add: d_def c_def fs)
    then show ?thesis using True n by (simp add: cut_def L_def)
  next
    case False
    then have t': "Suc t < n" using t by simp
    have "d = int (L div n * Suc t)" using False by (simp add: d_def c_def fs)
    then show ?thesis using False cut_sep [OF ok _ t'] skip_letters_step [OF e, of "L div n * Suc t"] by (simp add: L_def)
  qed
  show ?thesis
    unfolding buff_init_bounds [OF e c c' d_def d'] using cut_mono(1) [OF ok t] by simp
qed

section \<open>The map phase\<close>

lemma mr_map_step:
  assumes e: "env_ok e" and ok: "slices_ok (content e) n" and t: "t < n"
    and s: "threads_ok s" "t < length (thread_caches s)"
    and w: "\<forall>v \<in> set (words_of (part (content e) (cut (content e) n t) (cut (content e) n (Suc t)))). word_ok v"
  shows "\<exists>s'. mr_map e n t s = Some (Inr s') \<and>
    words_added t (words_of (part (content e) (cut (content e) n t) (cut (content e) n (Suc t)))) s s'"
proof -
  define a b where "a = cut (content e) n t" and "b = cut (content e) n (Suc t)"
  have ab: "a \<le> b" "b \<le> length (content e)" using cut_mono [OF ok t] by (simp_all add: a_def b_def)
  define w0 where "w0 = \<lparr>worker_slice = int (b - a), worker_current = int a, wcount = 0, wsize = 0, wbuf = []\<rparr>"
  have i: "buff_init e n t = Some (Some w0)" using buff_init_step [OF e ok t] by (simp add: w0_def a_def b_def)
  show ?thesis
  proof (cases "a = b")
    case True
    then have "loop (map_round e t) ([], 0, False, w0, s) = Some (Inr s)"
      by (intro loop_stop) (simp add: map_round_def buff_read_def w0_def)
    moreover have "words_of (part (content e) a b) = []" using True by (simp add: part_def words_of_def close_word_def)
    ultimately show ?thesis using i s(1) by (simp add: mr_map_def words_added_refl flip: a_def b_def)
  next
    case False
    then have "a < b" using ab by simp
    moreover have "buf_ok w0 []" by (simp add: w0_def buf_ok_def)
    ultimately show ?thesis
      using map_loop [OF e, of a b w0 "[]" s t "[]" 0] ab s w i
      by (simp add: mr_map_def w0_def words_of_def flip: a_def b_def)
  qed
qed

lemma slices_concat:
  assumes ok: "slices_ok bs n" and m: "m \<le> n"
  shows "concat (map (\<lambda>t. words_of (part bs (cut bs n t) (cut bs n (Suc t)))) [0..<m]) = words_of (part bs 0 (cut bs n m)) \<and>
    cut bs n m \<le> length bs"
  using m
proof (induction m)
  case 0
  then show ?case by (simp add: cut_def part_def words_of_def close_word_def)
next
  case (Suc m)
  define a b where "a = cut bs n m" and "b = cut bs n (Suc m)"
  have ab: "a \<le> b" "b \<le> length bs" using cut_mono [OF ok, of m] Suc.prems by (simp_all add: a_def b_def)
  have "words_of (part bs 0 a @ part bs a b) = words_of (part bs 0 a) @ words_of (part bs a b)"
  proof (cases "m = 0")
    case True
    then show ?thesis by (simp add: a_def cut_def part_def words_of_def close_word_def)
  next
    case False
    note c = cut_sep [OF ok, of m]
    have "\<not> IS_LETTER (bs ! a)" using c False Suc.prems next_sep_not_letter by (simp add: a_def)
    moreover have "hd (part bs a b) = bs ! a" if "part bs a b \<noteq> []"
      using that ab by (simp add: part_def hd_drop_conv_nth)
    ultimately show ?thesis by (intro words_of_append) metis
  qed
  then show ?case using Suc ab part_append [of 0 a b bs] by (simp add: a_def b_def)
qed

lemma cut_last: "0 < n \<Longrightarrow> cut bs n n = length bs"
  by (simp add: cut_def)

definition slice_words :: "u8 list \<Rightarrow> nat \<Rightarrow> nat \<Rightarrow> u8 list list" where
  "slice_words bs n t = words_of (part bs (cut bs n t) (cut bs n (Suc t)))"

lemma slice_words_concat: "slices_ok bs n \<Longrightarrow> concat (map (slice_words bs n) [0..<n]) = words_of bs"
  using slices_concat [of bs n n] by (simp add: slice_words_def [abs_def] cut_last slices_ok_def part_def)

lemma map_threads_step:
  assumes e: "env_ok e" and ok: "slices_ok (content e) n" and w: "\<forall>v \<in> set (words_of (content e)). word_ok v"
    and "threads_ok s" "length (thread_caches s) = n" "distinct ts" "set ts \<subseteq> {..<n}"
    "\<forall>k < n. crel (objs s) (thread_caches s ! k) (M k)"
  shows "\<exists>s'. map_threads e n ts s = Some (0, s') \<and> threads_ok s' \<and> length (thread_caches s') = n \<and> n_buckets s' = n_buckets s \<and>
    main_cache s' = main_cache s \<and>
    (\<forall>k < n. crel (objs s') (thread_caches s' ! k)
      (\<lambda>x. M k x + (if k \<in> set ts then count_list (map lower (slice_words (content e) n k)) x else 0)))"
  using assms(4-)
proof (induction ts arbitrary: s M)
  case (Cons t ts)
  have t: "t < n" using Cons.prems(4) by simp
  have "set (slice_words (content e) n t) \<subseteq> set (words_of (content e))"
    unfolding slice_words_concat [OF ok, symmetric] using t by auto
  then have wt: "\<forall>v \<in> set (slice_words (content e) n t). word_ok v" using w by blast
  obtain s1 where s1: "mr_map e n t s = Some (Inr s1)" "words_added t (slice_words (content e) n t) s s1"
    using mr_map_step [OF e ok t Cons.prems(1)] Cons.prems(2) t wt by (auto simp: slice_words_def)
  define M1 where "M1 = (\<lambda>k. if k = t then (\<lambda>x. M k x + count_list (map lower (slice_words (content e) n t)) x) else M k)"
  have c1: "\<forall>k < n. crel (objs s1) (thread_caches s1 ! k) (M1 k)"
    using s1(2) Cons.prems(2,5) by (simp add: words_added_def M1_def)
  have "\<exists>s'. map_threads e n ts s1 = Some (0, s') \<and> threads_ok s' \<and> length (thread_caches s') = n \<and> n_buckets s' = n_buckets s1 \<and>
      main_cache s' = main_cache s1 \<and>
      (\<forall>k < n. crel (objs s') (thread_caches s' ! k)
        (\<lambda>x. M1 k x + (if k \<in> set ts then count_list (map lower (slice_words (content e) n k)) x else 0)))"
    by (rule Cons.IH) (use s1(2) Cons.prems c1 in \<open>simp_all add: words_added_def\<close>)
  then obtain s2 where s2: "map_threads e n ts s1 = Some (0, s2)" "threads_ok s2" "length (thread_caches s2) = n"
      "n_buckets s2 = n_buckets s1" "main_cache s2 = main_cache s1"
      "\<forall>k < n. crel (objs s2) (thread_caches s2 ! k)
        (\<lambda>x. M1 k x + (if k \<in> set ts then count_list (map lower (slice_words (content e) n k)) x else 0))"
    by blast
  have "(\<lambda>x. M1 k x + (if k \<in> set ts then count_list (map lower (slice_words (content e) n k)) x else 0)) =
      (\<lambda>x. M k x + (if k \<in> set (t # ts) then count_list (map lower (slice_words (content e) n k)) x else 0))" for k
    using Cons.prems(3) by (auto simp: M1_def fun_eq_iff)
  then show ?case using s1 s2 by (simp add: words_added_def)
qed simp

lemma count_concat: "count_list (concat xss) x = (\<Sum>i < length xss. count_list (xss ! i) x)"
proof (induction xss)
  case (Cons xs xss)
  then show ?case by (simp add: sum.lessThan_Suc_shift del: sum.lessThan_Suc)
qed simp

lemma init_ok:
  "threads_ok (mr_init e n)" "length (thread_caches (mr_init e n)) = n" "ids (main_cache (mr_init e n)) = {}"
  "table_ok True (n_buckets (mr_init e n)) (objs (mr_init e n)) (main_cache (mr_init e n))"
  "\<forall>k < n. crel (objs (mr_init e n)) (thread_caches (mr_init e n) ! k) (\<lambda>x. 0)"
proof -
  define nb where "nb = n_buckets (mr_init e n)"
  have nb: "0 < nb" by (simp add: nb_def mr_init_def wc_init_def MIN_N_BUCKETS_def N_LETTERS_def Let_def)
  have t: "table_ok m nb ws (ht_init nb)" for m ws using nb by (simp add: table_ok_def ht_init_def bucket_ok_def)
  have i: "ids (ht_init nb) = {}" by (simp add: ids_def ht_init_def)
  have s: "thread_caches (mr_init e n) = replicate n (ht_init nb)" "main_cache (mr_init e n) = ht_init nb"
    by (simp_all add: nb_def mr_init_def wc_init_def Let_def)
  show "threads_ok (mr_init e n)" using t i by (simp add: threads_ok_def s flip: nb_def)
  show "length (thread_caches (mr_init e n)) = n" "ids (main_cache (mr_init e n)) = {}"
    "table_ok True (n_buckets (mr_init e n)) (objs (mr_init e n)) (main_cache (mr_init e n))"
    using t i by (simp_all add: s flip: nb_def)
  show "\<forall>k < n. crel (objs (mr_init e n)) (thread_caches (mr_init e n) ! k) (\<lambda>x. 0)" using i by (simp add: s crel_def)
qed

lemma run_threads_counts:
  assumes e: "env_ok e" and ok: "slices_ok (content e) n" and w: "\<forall>v \<in> set (words_of (content e)). word_ok v"
    and o: "distinct o1" "set o1 = {..<n}" "distinct o2" "set o2 = {..<n}"
  shows "\<exists>s. run_threads e n o1 o2 (mr_init e n) = Some s \<and> table_ok True (n_buckets s) (objs s) (main_cache s) \<and>
    crel (objs s) (main_cache s) (count_list (map lower (words_of (content e)))) \<and> threads_ok s \<and>
    wtxt (objs s) ` ids (main_cache s) = wtxt (objs s) ` all_ids s"
proof -
  note i = init_ok [where e = e and n = n]
  have n: "0 < n" using ok by (simp add: slices_ok_def)
  obtain s1 where s1: "map_threads e n o1 (mr_init e n) = Some (0, s1)" "threads_ok s1" "length (thread_caches s1) = n"
      "n_buckets s1 = n_buckets (mr_init e n)" "main_cache s1 = main_cache (mr_init e n)"
      "\<forall>k < n. crel (objs s1) (thread_caches s1 ! k) (\<lambda>x. 0 + (if k \<in> set o1 then count_list (map lower (slice_words (content e) n k)) x else 0))"
    using map_threads_step [OF e ok w i(1,2) o(1) _ i(5)] o(2) by auto
  have c: "\<forall>k < length (thread_caches s1). crel (objs s1) (thread_caches s1 ! k) (count_list (map lower (slice_words (content e) n k)))"
    using s1(3,6) o(2) by simp
  have mi: "ids (main_cache s1) = {}" using s1(5) i(3) by simp
  have "table_ok True (n_buckets s1) (objs s1) (main_cache s1)"
  proof -
    have "main_cache s1 ! j = []" if "j < length (main_cache s1)" for j using mi that by (auto simp: ids_def)
    then show ?thesis using i(4) unfolding s1(4,5) [symmetric] by (simp add: table_ok_def bucket_ok_def)
  qed
  then obtain s where s: "merge_threads o2 n s1 = Some s" "merged s1 (all_ids s1) s"
    using merge_threads_all [OF s1(2) _ mi _ n o(3,4)] s1(3) by auto
  have "count_list (map lower (words_of (content e))) = (\<lambda>x. \<Sum>k < n. count_list (map lower (slice_words (content e) n k)) x)"
  proof
    fix x
    have "map lower (words_of (content e)) = concat (map (\<lambda>k. map lower (slice_words (content e) n k)) [0..<n])"
      unfolding slice_words_concat [OF ok, symmetric] map_concat by (simp add: comp_def)
    then show "count_list (map lower (words_of (content e))) x = (\<Sum>k < n. count_list (map lower (slice_words (content e) n k)) x)"
      using count_concat [of "map (\<lambda>k. map lower (slice_words (content e) n k)) [0..<n]" x] by simp
  qed
  then have "crel (objs s) (main_cache s) (count_list (map lower (words_of (content e))))"
    using merged_counts [OF s1(2) s(2) c] s1(3) by simp
  moreover have "run_threads e n o1 o2 (mr_init e n) = Some s" using s1(1) s(1) by (simp add: run_threads_def)
  ultimately show ?thesis using mergedD(4,6,9) [OF s(2)] merged_ids [OF s(2)] by metis
qed

section \<open>The output\<close>

definition line :: "wc_word option list \<Rightarrow> nat \<Rightarrow> u8 list \<times> u32" where
  "line ws p = (wtxt ws p, cnt ws p)"

definition counted :: "wc_word option list \<Rightarrow> nat list \<Rightarrow> totals \<Rightarrow> totals" where
  "counted ws ns c = c\<lparr>bkt_total := bkt_total c + of_nat (length ns), total := total c + of_nat (length ns),
     count_total := count_total c + sum_list (map (cnt ws) ns)\<rparr>"

lemma counted_Nil [simp]: "counted ws [] c = c"
  by (simp add: counted_def)

lemma counted_Cons: "counted ws (n # ns) c =
    counted ws ns (c\<lparr>bkt_total := bkt_total c + 1, total := total c + 1, count_total := count_total c + cnt ws n\<rparr>)"
  by (simp add: counted_def)

lemma print_bucket:
  assumes "load_at T j = Some (pre @ ns)" "distinct (pre @ ns)" "\<forall>p \<in> set ns. \<exists>w. obj ws p = Some w"
  shows "loop (print_iter ws T j) (case ns of [] \<Rightarrow> None | n # _ \<Rightarrow> Some n, out, c) = Some (out @ map (line ws) ns, counted ws ns c)"
  using assms
proof (induction ns arbitrary: pre out c)
  case Nil
  then show ?case by (intro loop_stop) (simp add: print_iter_def)
next
  case (Cons n ns)
  obtain w where w: "obj ws n = Some w" using Cons.prems(3) by auto
  note nx = next_in_bucket [OF Cons.prems(1,2) w]
  have l: "line ws n = (cstr (GET_WORD w), counter w)" "cnt ws n = counter w" using w by (simp_all add: line_def wtxt_def cnt_def)
  define c' where "c' = c\<lparr>bkt_total := bkt_total c + 1, total := total c + 1, count_total := count_total c + counter w\<rparr>"
  have "loop (print_iter ws T j) (case ns of [] \<Rightarrow> None | n # _ \<Rightarrow> Some n, out @ [line ws n], c') =
      Some ((out @ [line ws n]) @ map (line ws) ns, counted ws ns c')"
    by (rule Cons.IH [of "pre @ [n]"]) (use Cons.prems in auto)
  then show ?case by (subst loop_next) (simp_all add: print_iter_def w nx l counted_Cons c'_def)
qed

text \<open>The totals after the buckets \<open>bs\<close>.\<close>

definition tallied :: "wc_word option list \<Rightarrow> nat list list \<Rightarrow> totals \<Rightarrow> totals" where
  "tallied ws bs c = c\<lparr>bkt_total := 0, total := total c + of_nat (length (concat bs)),
     count_total := count_total c + sum_list (map (cnt ws) (concat bs)),
     empty_bkt := empty_bkt c + of_nat (length (filter (\<lambda>b. of_nat (length b) = (0::u32)) bs))\<rparr>"

lemma print_all:
  assumes t: "table_ok m nb ws T" and js: "set js \<subseteq> {..<nb}" and c: "bkt_total c = 0"
  shows "print_buckets ws T js (out, c) = Some (out @ map (line ws) (concat (map ((!) T) js)), tallied ws (map ((!) T) js) c)"
  using js c
proof (induction js arbitrary: out c)
  case Nil
  then show ?case by (cases c) (simp add: tallied_def)
next
  case (Cons j js)
  have j: "j < length T" "j < nb" using Cons.prems t by (simp_all add: table_ok_def)
  have "\<forall>p \<in> set (T ! j). \<exists>w. obj ws p = Some w" using table_entry(1) [OF t] j by (fastforce simp: in_ids)
  then have l: "loop (print_iter ws T j) (case T ! j of [] \<Rightarrow> None | n # _ \<Rightarrow> Some n, out, c) =
      Some (out @ map (line ws) (T ! j), counted ws (T ! j) c)"
    using print_bucket [of T j "[]" "T ! j" ws out c] table_bucket_distinct [OF t j(2)] j by simp
  define c1 where "c1 = counted ws (T ! j) c"
  define c2 where "c2 = (if bkt_total c1 = 0 then c1\<lparr>empty_bkt := empty_bkt c1 + 1\<rparr> else c1)\<lparr>bkt_total := 0\<rparr>"
  have e: "tallied ws (map ((!) T) js) c2 = tallied ws (map ((!) T) (j # js)) c"
    using Cons.prems(2) by (simp add: tallied_def c2_def c1_def counted_def)
  have "print_buckets ws T (j # js) (out, c) = print_buckets ws T js (out @ map (line ws) (T ! j), c2)"
    using j l by (simp add: ht_get_first_def c1_def [symmetric] c2_def Let_def)
  also have "\<dots> = Some ((out @ map (line ws) (T ! j)) @ map (line ws) (concat (map ((!) T) js)), tallied ws (map ((!) T) js) c2)"
    using Cons.prems(1) by (intro Cons.IH) (simp_all add: c2_def)
  finally show ?case unfolding e by simp
qed

lemma sorted_wrt_concat:
  "\<forall>xs \<in> set T. sorted_wrt R xs \<Longrightarrow> sorted_wrt (\<lambda>xs ys. \<forall>x \<in> set xs. \<forall>y \<in> set ys. R x y) T \<Longrightarrow> sorted_wrt R (concat T)"
  by (induction T) (auto simp: sorted_wrt_append)

lemma bkt_mono: "key_ok a \<Longrightarrow> key_ok b \<Longrightarrow> lower a < lower b \<Longrightarrow> bkt nb a \<le> bkt nb b"
  unfolding bkt_def key_ok_def by (intro div_le_mono mult_le_mono1 code_ref_mono) simp_all

lemma table_sorted:
  assumes t: "table_ok m nb ws T"
  shows "sorted_wrt (<) (map (wtxt ws) (concat T))"
proof -
  have b: "sorted_wrt (\<lambda>p q. wtxt ws p < wtxt ws q) xs" if xs: "xs \<in> set T" for xs
  proof -
    obtain j where "j < length T" "xs = T ! j" using xs by (metis in_set_conv_nth)
    then show ?thesis using t by (simp add: table_ok_def bucket_ok_def sorted_wrt_map)
  qed
  have "wtxt ws p < wtxt ws q" if "j < j'" "j' < nb" "p \<in> set (T ! j)" "q \<in> set (T ! j')" for j j' p q
  proof -
    have "p \<in> ids T" "q \<in> ids T" using that t by (auto simp: in_ids table_ok_def intro: exI [of _ j])
    note p = table_entry [OF t this(1)] and q = table_entry [OF t this(2)]
    have "bkt nb (wtxt ws p) = j" "bkt nb (wtxt ws q) = j'"
      using that t by (simp_all add: table_ok_def bucket_ok_def entry_ok_def)
    then have "\<not> bkt nb (wtxt ws q) \<le> bkt nb (wtxt ws p)" using that(1) by simp
    then have "\<not> wtxt ws q < wtxt ws p" "wtxt ws q \<noteq> wtxt ws p" using bkt_mono [OF q(2) p(2)] p(3) q(3) by auto
    then show ?thesis by (simp add: not_less_iff_gr_or_eq)
  qed
  then have "sorted_wrt (\<lambda>xs ys. \<forall>p \<in> set xs. \<forall>q \<in> set ys. wtxt ws p < wtxt ws q) T"
    using t by (simp add: sorted_wrt_iff_nth_less table_ok_def)
  then have "sorted_wrt (\<lambda>p q. wtxt ws p < wtxt ws q) (concat T)" using b by (intro sorted_wrt_concat) blast+
  then show ?thesis by (simp add: sorted_wrt_map)
qed

text \<open>The buckets that hold a word are those the words hash to.\<close>

lemma full_buckets:
  assumes t: "table_ok m nb ws T"
  shows "{j. j < nb \<and> T ! j \<noteq> []} = bkt nb ` (wtxt ws ` ids T)"
proof (intro equalityI subsetI)
  fix j
  assume "j \<in> {j. j < nb \<and> T ! j \<noteq> []}"
  then have p: "j < nb" "hd (T ! j) \<in> set (T ! j)" by simp_all
  then have "bkt nb (wtxt ws (hd (T ! j))) = j" "hd (T ! j) \<in> ids T"
    using t by (auto simp: table_ok_def bucket_ok_def entry_ok_def in_ids intro!: exI [of _ j])
  then show "j \<in> bkt nb ` (wtxt ws ` ids T)" by (metis imageI)
next
  fix j
  assume "j \<in> bkt nb ` (wtxt ws ` ids T)"
  then obtain p k where p: "k < nb" "p \<in> set (T ! k)" "j = bkt nb (wtxt ws p)" using t by (auto simp: in_ids table_ok_def)
  then have "k = j" using t by (simp add: table_ok_def bucket_ok_def entry_ok_def)
  then show "j \<in> {j. j < nb \<and> T ! j \<noteq> []}" using p by auto
qed

lemma empty_buckets:
  assumes "length T = nb"
  shows "length (filter (\<lambda>b. b = []) T) + card {j. j < nb \<and> T ! j \<noteq> []} = nb"
proof -
  have "length (filter (\<lambda>b. b \<noteq> []) T) = card {j. j < nb \<and> T ! j \<noteq> []}" using assms by (simp add: length_filter_conv_card)
  then show ?thesis using sum_length_filter_compl [of "\<lambda>b. b = []" T] assms by simp
qed

definition word_table :: "u8 list list \<Rightarrow> lines" where
  "word_table W = map (\<lambda>t. (t, of_nat (count_list W t))) (sorted_list_of_set (set W))"

lemma print_counts:
  assumes t: "table_ok True (n_buckets s) (objs s) (main_cache s)" and c: "crel (objs s) (main_cache s) (count_list W)"
  shows "\<exists>full. mr_print s = Some (word_table W, of_nat (card (set W)), of_nat (length W), full,
      min (of_nat (card (set W))) (of_nat (n_buckets s))) \<and>
    (card (set W) < 2 ^ 32 \<longrightarrow> full = of_nat (card (bkt (n_buckets s) ` set W)))"
proof -
  define xs nb where "xs = concat (main_cache s)" and "nb = n_buckets s"
  have len: "length (main_cache s) = nb" using t by (simp add: table_ok_def nb_def)
  have bs: "map ((!) (main_cache s)) [0..<nb] = main_cache s" using len map_nth [of "main_cache s"] by simp
  define es where "es = length (filter (\<lambda>b. of_nat (length b) = (0::u32)) (main_cache s))"
  have p: "mr_print s = Some (map (line (objs s)) xs, of_nat (length xs), sum_list (map (cnt (objs s)) xs),
      of_nat nb - of_nat es, min (of_nat (length xs)) (of_nat nb))"
    using print_all [OF t, of "[0..<nb]" "\<lparr>total = 0, count_total = 0, bkt_total = 0, empty_bkt = 0\<rparr>" "[]"]
    unfolding bs by (simp add: mr_print_def wc_print_def lessThan_atLeast0 tallied_def xs_def es_def nb_def)
  have srt: "sorted_wrt (<) (map (wtxt (objs s)) xs)" unfolding xs_def by (rule table_sorted [OF t])
  have ix: "set xs = ids (main_cache s)" by (simp only: xs_def ids_def)
  have "t \<in> set W \<longleftrightarrow> t \<in> wtxt (objs s) ` ids (main_cache s)" for t using c by (simp add: crel_def count_list_0_iff)
  then have sw: "wtxt (objs s) ` ids (main_cache s) = set W" by blast
  then have w: "sorted_list_of_set (set W) = map (wtxt (objs s)) xs"
    using srt sorted_list_of_set.idem_if_sorted_distinct [of "map (wtxt (objs s)) xs"] ix by (simp add: strict_sorted_iff)
  have k: "cnt (objs s) q = of_nat (count_list W (wtxt (objs s) q))" if "q \<in> set xs" for q
    using c that unfolding ix by (simp add: crel_def)
  then have m: "map (cnt (objs s)) xs = map (\<lambda>t. of_nat (count_list W t)) (sorted_list_of_set (set W))" unfolding w by simp
  have "map (line (objs s)) xs = word_table W" unfolding word_table_def w using k by (simp add: line_def)
  moreover have lx: "length xs = card (set W)" using w by (metis length_map length_sorted_list_of_set)
  moreover have "sum_list (map (cnt (objs s)) xs) = of_nat (length W)"
  proof -
    have "sum_list (map (\<lambda>t. of_nat (count_list W t)) (sorted_list_of_set (set W))) = (of_nat (\<Sum>t \<in> set W. count_list W t) :: u32)"
      by (simp add: sum_list_distinct_conv_sum_set)
    then show ?thesis unfolding m using sum_count_set [of W "set W"] by simp
  qed
  moreover have "of_nat nb - of_nat es = (of_nat (card (bkt nb ` set W)) :: u32)" if "card (set W) < 2 ^ 32"
  proof -
    have "length b < 2 ^ 32" if b: "b \<in> set (main_cache s)" for b
    proof -
      have "length b \<le> length xs" unfolding xs_def length_concat using b by (simp add: member_le_sum_list)
      then show ?thesis using \<open>card (set W) < 2 ^ 32\<close> lx by simp
    qed
    then have "of_nat (length b) = (0::u32) \<longleftrightarrow> b = []" if b: "b \<in> set (main_cache s)" for b
    proof -
      have "2 ^ 32 dvd length b \<longleftrightarrow> length b = 0" using \<open>\<And>b. b \<in> set (main_cache s) \<Longrightarrow> length b < 2 ^ 32\<close> [OF b] nat_dvd_not_less
        by (metis dvd_0_right gr0I)
      then show ?thesis using word_of_nat_eq_0_iff [of "length b", where 'a = 32] by simp
    qed
    then have "filter (\<lambda>b. of_nat (length b) = (0::u32)) (main_cache s) = filter (\<lambda>b. b = []) (main_cache s)" by (intro filter_cong refl)
    then have "es = length (filter (\<lambda>b. b = []) (main_cache s))" by (simp only: es_def)
    then have "nb = es + card (bkt nb ` set W)"
      using empty_buckets [OF len] full_buckets [OF t] sw by (simp add: nb_def)
    then show ?thesis by (metis add_diff_cancel_left' of_nat_add)
  qed
  ultimately show ?thesis using p by (auto simp: nb_def)
qed

lemma run_main:
  assumes a: "env_ok e" "slices_ok (content e) n" "\<forall>v \<in> set (words_of (content e)). word_ok v"
    "distinct o1" "set o1 = {..<n}" "distinct o2" "set o2 = {..<n}" and W: "W = map lower (words_of (content e))"
  shows "\<exists>s full. word_count e n o1 o2 = Some ((word_table W, of_nat (card (set W)), of_nat (length W), full,
      min (of_nat (card (set W))) (of_nat (n_buckets s))), s) \<and>
    (card (set W) < 2 ^ 32 \<longrightarrow> full = of_nat (card (bkt (n_buckets s) ` set W))) \<and> threads_ok s \<and> (all_ids s = {} \<longleftrightarrow> W = [])"
proof -
  obtain s where s: "run_threads e n o1 o2 (mr_init e n) = Some s" "table_ok True (n_buckets s) (objs s) (main_cache s)"
      "crel (objs s) (main_cache s) (count_list W)" "threads_ok s" "wtxt (objs s) ` ids (main_cache s) = wtxt (objs s) ` all_ids s"
    using run_threads_counts [OF a] W by blast
  have "all_ids s = {} \<longleftrightarrow> wtxt (objs s) ` ids (main_cache s) = {}" unfolding s(5) by simp
  also have "wtxt (objs s) ` ids (main_cache s) = set W" using s(3) by (simp add: crel_def count_list_0_iff set_eq_iff)
  also have "set W = {} \<longleftrightarrow> W = []" by simp
  finally show ?thesis using print_counts [OF s(2,3)] s(1,4) by (auto simp: word_count_def)
qed

section \<open>Defects\<close>


lemma destroy_bucket_fails:
  assumes "load_at wcc j = Some (n # ns)" "obj ws n = Some w"
  shows "loop (destroy_iter wcc j) (Some n, ws) = None"
proof (rule loop_fail)
  have "n < length ws" using assms(2) by (rule obj_bound)
  then have "obj (ws[n := None]) n = None" by (simp add: obj_update)
  then show "destroy_iter wcc j (Some n, ws) = None" using assms by (simp add: destroy_iter_def ht_get_next_def)
qed

lemma destroy_table:
  assumes t: "table_ok m nb ws T" and js: "set js \<subseteq> {..<nb}"
  shows "destroy_buckets T js ws = (if \<forall>j \<in> set js. T ! j = [] then Some ws else None)"
  using js
proof (induction js)
  case (Cons j js)
  have j: "j < length T" using Cons.prems t by (simp add: table_ok_def)
  show ?case
  proof (cases "T ! j")
    case Nil
    have "loop (destroy_iter T j) (None, ws) = Some ws" by (rule loop_stop) (simp add: destroy_iter_def)
    then show ?thesis using Cons j Nil by (simp add: ht_get_first_def)
  next
    case (Cons n ns)
    have "n \<in> ids T" using j Cons by (auto simp: in_ids intro!: exI [of _ j])
    then obtain w where "obj ws n = Some w" using table_entry(1) [OF t] by blast
    then show ?thesis using destroy_bucket_fails [of T j n ns ws w] j Cons by (simp add: ht_get_first_def)
  qed
qed simp

lemma destroy_caches:
  "\<forall>T \<in> set Ts. table_ok m nb ws T \<Longrightarrow> wc_destroy nb Ts ws = (if \<forall>T \<in> set Ts. ids T = {} then Some ws else None)"
proof (induction Ts)
  case (Cons T Ts)
  then have t: "table_ok m nb ws T" by simp
  have "(\<forall>j \<in> set [0..<nb]. T ! j = []) \<longleftrightarrow> ids T = {}" 
  proof -
    have "nb = length T" using t by (simp add: table_ok_def)
    then show ?thesis unfolding ids_def by (auto simp: all_set_conv_all_nth)
  qed
  then show ?case using Cons destroy_table [OF t, of "[0..<nb]"] by (auto simp: lessThan_atLeast0)
qed simp

section \<open>Properties\<close>

lemma short_word: "length w < 6 \<Longrightarrow> take 6 (lower w) \<noteq> replicate 6 122"
  by (metis length_map length_replicate not_less order.refl take_all_iff less_imp_le)

lemma short_ok: "w \<noteq> [] \<Longrightarrow> length w < 6 \<Longrightarrow> word_ok w"
  unfolding word_ok_def using short_word by simp

lemma destroy_all:
  assumes "threads_ok s"
  shows "mr_destroy s = (if all_ids s = {} then Some s else None)"
proof -
  have "\<forall>T \<in> set (thread_caches s). table_ok False (n_buckets s) (objs s) T"
    using assms by (auto simp: threads_ok_def in_set_conv_nth)
  moreover have "(\<forall>T \<in> set (thread_caches s). ids T = {}) \<longleftrightarrow> all_ids s = {}"
    by (auto simp: all_ids_def all_set_conv_all_nth)
  ultimately show ?thesis using destroy_caches by (simp add: mr_destroy_def)
qed

text \<open>C8: Word count correctness. Up to \<open>mr_destroy\<close> the program prints every word of the file once, in lower
  case and in alphabetical order, with the number of its occurrences (modulo the width of the counter),
  and then the number of different words, the number of all words, the number of buckets that hold a
  word and the smaller of the number of words and of buckets. This holds for any number of workers,
  for any order in which they run, and for a mapped file as well as for one read with short reads. It
  needs that allocations succeed, that the last slice contains a separator when there are several
  workers, and that no word is a multiple of 32 letters long or begins with six letters z. The whole
  program is well-defined only on a file without words: otherwise \<open>mr_destroy\<close> reads the word objects after
  freeing them.\<close>

theorem word_count_correct:
  assumes "env_ok e" "slices_ok (content e) n" "\<forall>v \<in> set (words_of (content e)). word_ok v"
    "distinct order" "set order = {..<n}" "distinct order'" "set order' = {..<n}" "W = map lower (words_of (content e))"
  shows "\<exists>s out full. word_count e n order order' = Some (out, s) \<and>
    out = (map (\<lambda>t. (t, of_nat (count_list W t))) (sorted_list_of_set (set W)),
      of_nat (card (set W)), of_nat (length W), full, min (of_nat (card (set W))) (of_nat (n_buckets s))) \<and>
    (card (set W) < 2 ^ 32 \<longrightarrow> full = of_nat (card (bkt (n_buckets s) ` set W))) \<and>
    wc_main e n order order' = (if W = [] then Some out else None)"
proof -
  obtain s full where r: "word_count e n order order' = Some ((word_table W, of_nat (card (set W)), of_nat (length W), full,
      min (of_nat (card (set W))) (of_nat (n_buckets s))), s)"
      "card (set W) < 2 ^ 32 \<longrightarrow> full = of_nat (card (bkt (n_buckets s) ` set W))" "threads_ok s" "all_ids s = {} \<longleftrightarrow> W = []"
    using run_main [OF assms] by blast
  then show ?thesis using destroy_all [OF r(3)] by (simp add: wc_main_def word_table_def)
qed

definition sample :: fenv where
  "sample = \<lparr>content = [98, 32, 97, 66, 10, 98, 10], mapped = True, pread = \<lambda>_ _. None, no_buffer = False,
    no_realloc = \<lambda>_. False, no_calloc = \<lambda>_. False\<rparr>"

theorem word_count_correct_witness:
  "\<exists>s full ideal. word_count sample 2 [1, 0] [0, 1] = Some (([([97, 98], 1), ([98], 2)], 2, 3, full, ideal), s) \<and>
    wc_main sample 2 [1, 0] [0, 1] = None"
proof -
  have w: "words_of (content sample) = [[98], [97, 66], [98]]"
    by (simp add: sample_def words_of_def close_word_def IS_LETTER_def)
  have l: "map lower (words_of (content sample)) = [[98], [97, 98], [98]]" unfolding w by (simp add: to_lower_def)
  have "env_ok sample" by (simp add: env_ok_def sample_def)
  moreover have "slices_ok (content sample) 2" by (simp add: slices_ok_def next_sep_def sample_def IS_LETTER_def)
  moreover have "\<forall>v \<in> set (words_of (content sample)). word_ok v" unfolding w by (simp add: short_ok)
  moreover have "set [1, 0] = {..<2::nat}" "set [0, 1] = {..<2::nat}" by (auto simp: less_2_cases_iff)
  moreover have "sorted_list_of_set (set [[98], [97, 98], [98 :: u8]]) = [[97, 98], [98]]"
    using sorted_list_of_set.idem_if_sorted_distinct [of "[[97, 98], [98 :: u8]]"] by (simp add: insert_commute)
  moreover have "card (set [[98], [97, 98], [98 :: u8]]) = 2" by (simp add: card_insert_if)
  ultimately show ?thesis
    using word_count_correct [of sample 2 "[1, 0]" "[0, 1]" "[[98], [97, 98], [98]]"] unfolding l by auto
qed



text \<open>Releasing the word caches reads every word object after freeing it: as soon as one thread has
  counted a word, \<open>wc_destroy\<close> accesses freed memory.\<close>

theorem wc_destroy_reads_freed:
  assumes "threads_ok s" "i < length (thread_caches s)" "ids (thread_caches s ! i) \<noteq> {}"
  shows "wc_destroy (n_buckets s) (thread_caches s) (objs s) = None"
proof -
  have "\<forall>T \<in> set (thread_caches s). table_ok False (n_buckets s) (objs s) T"
    using assms(1) by (auto simp: threads_ok_def in_set_conv_nth)
  then show ?thesis using destroy_caches assms(2,3) nth_mem by (metis (no_types, lifting))
qed

theorem wc_destroy_reads_freed_witness:
  "\<exists>s. wc_add_word (no_calloc sample) 0 [97, 0] 1 (mr_init sample 1) = Some (0, s) \<and>
    wc_destroy (n_buckets s) (thread_caches s) (objs s) = None"
proof -
  note i = init_ok [where e = sample and n = 1]
  have k: "key_ok [97]" using short_word [of "[97]"] by (simp add: key_ok_def letters_def to_lower_def)
  have len: "0 < length (thread_caches (mr_init sample 1))" unfolding i(2) by simp
  have mem: "\<forall>n. \<not> no_calloc sample n" by (simp add: sample_def)
  obtain s where s: "wc_add_word (no_calloc sample) 0 ([97] @ 0 # []) (length [97::u8]) (mr_init sample 1) = Some (0, s)"
      "word_added 0 [97] (mr_init sample 1) s"
    using add_word_step [OF i(1) len k _ mem, of "[]"] by auto
  have "crel (objs (mr_init sample 1)) (thread_caches (mr_init sample 1) ! 0) (\<lambda>x. 0)" using i(5) by blast
  then have "crel (objs s) (thread_caches s ! 0) ((\<lambda>x. 0)(lower [97] := Suc 0))"
    using s(2) unfolding word_added_def by blast
  then have "lower [97] \<in> wtxt (objs s) ` ids (thread_caches s ! 0)" unfolding crel_def by (metis fun_upd_same nat.distinct(1))
  then have "ids (thread_caches s ! 0) \<noteq> {}" by blast
  moreover have "threads_ok s" "0 < length (thread_caches s)" using s(2) len by (simp_all add: word_added_def)
  ultimately have "wc_destroy (n_buckets s) (thread_caches s) (objs s) = None" using wc_destroy_reads_freed [of s 0] by blast
  then show ?thesis using s(1) by auto
qed

end
