(* ===== verification/Ring_Shm.thy ===== *)
theory Ring_Shm
  imports Prelude "HOL-Library.Log_Nat"
begin

text \<open>
  The variable-length message ring of \<^verbatim>\<open>ringbuf-shm/ringbuffer.c\<close>: creation, the two halves of a
  write (request and advance) and of a read, attaching to a shared-memory segment, and the
  producer and consumer threads of its test program. The body of the ring is an array of bytes;
  an element is an eight-byte header (two 32-bit words, little endian) and its payload. A
  position outside the body, and an assertion that fails, is the result \<open>None\<close>.

  The head and tail positions keep their 64-bit width. The two threads interleave at the level of
  the operations, each of which makes one access to the position that the other thread moves, and
  of the single 64-bit loads and stores of the payload.
\<close>

section \<open>Bytes\<close>

definition get_bytes :: "u8 list \<Rightarrow> nat \<Rightarrow> nat \<Rightarrow> u8 list option" where
  "get_bytes b a n = (if a + n \<le> length b then Some (take n (drop a b)) else None)"

definition put_bytes :: "u8 list \<Rightarrow> nat \<Rightarrow> u8 list \<Rightarrow> u8 list option" where
  "put_bytes b a m =
     (if a + length m \<le> length b then Some (take a b @ m @ drop (a + length m) b) else None)"

fun le_bytes :: "nat \<Rightarrow> 'a::len word \<Rightarrow> u8 list" where
  "le_bytes 0 w = []"
| "le_bytes (Suc n) w = ucast w # le_bytes n (drop_bit 8 w)"

fun un_le :: "u8 list \<Rightarrow> 'a::len word" where
  "un_le [] = 0"
| "un_le (b # bs) = ucast b OR push_bit 8 (un_le bs)"

section \<open>Data\<close>

datatype memory_order = memory_order_relaxed | memory_order_acquire | memory_order_release

record ringbuf_t =
  rb_size :: u64
  rb_mask :: u64
  rsvd :: u64
  gapd :: u64
  rb_acquire :: memory_order
  rb_release :: memory_order
  rb_head :: u64
  rb_tail :: u64
  rb_buf :: "u8 list"

definition RINGBUF_PAD :: "u64 \<Rightarrow> u64" where
  "RINGBUF_PAD sz = (sz + 7) AND ucast (NOT 7 :: u32)"

text \<open>The header of an element: its size and its gap flag.\<close>

definition get_element :: "u8 list \<Rightarrow> nat \<Rightarrow> (u32 \<times> u32) option" where
  "get_element b a = do {
     h \<leftarrow> get_bytes b a 8;
     Some (un_le (take 4 h), un_le (drop 4 h)) }"

definition put_element :: "u8 list \<Rightarrow> nat \<Rightarrow> u32 \<Rightarrow> u32 \<Rightarrow> u8 list option" where
  "put_element b a sz gap = put_bytes b a (le_bytes 4 sz @ le_bytes 4 gap)"

section \<open>Creation\<close>

definition ringbuf_body_size :: "u64 \<Rightarrow> u64 option" where
  "ringbuf_body_size minimum =
     loop (\<lambda>sz. Some (if sz < minimum then Inl (push_bit 1 sz) else Inr sz)) 1"

definition ringbuf_init :: "ringbuf_t \<Rightarrow> u64 \<Rightarrow> bool \<Rightarrow> ringbuf_t" where
  "ringbuf_init r body_size release_and_acquire =
     r\<lparr>rb_acquire := (if release_and_acquire then memory_order_acquire else memory_order_relaxed),
       rb_release := (if release_and_acquire then memory_order_release else memory_order_relaxed),
       rb_head := 0, rb_tail := 0,
       rb_size := body_size, rb_mask := body_size - 1\<rparr>"

text \<open>
  \<open>memalign total\<close> is the block \<open>posix_memalign\<close> hands out for \<open>total\<close> bytes, with arbitrary
  contents; \<open>None\<close> is the null pointer. The fixed part of the structure takes 56 bytes.
\<close>

definition sizeof_ringbuf :: u64 where
  "sizeof_ringbuf = 56"

definition ringbuf_new :: "(u64 \<Rightarrow> ringbuf_t option) \<Rightarrow> u64 \<Rightarrow> bool \<Rightarrow> ringbuf_t option option" where
  "ringbuf_new memalign minimum release_and_acquire = do {
     body_size \<leftarrow> ringbuf_body_size minimum;
     let total_size = sizeof_ringbuf + body_size;
     Some (case memalign total_size of None \<Rightarrow> None
           | Some r \<Rightarrow> Some (ringbuf_init r body_size release_and_acquire)) }"

section \<open>Writing\<close>

definition ringbuf_write_advance_raw :: "ringbuf_t \<Rightarrow> u64 \<Rightarrow> u64 \<Rightarrow> ringbuf_t" where
  "ringbuf_write_advance_raw r head written = r\<lparr>rb_head := (head + written) AND rb_mask r\<rparr>"

text \<open>
  The result is the position handed to the caller (\<open>None\<close> for NULL), the value stored through
  \<open>maximum\<close>, and the ring.
\<close>

definition ringbuf_write_request_max :: "ringbuf_t \<Rightarrow> u64 \<Rightarrow> nat option \<times> u64 \<times> ringbuf_t" where
  "ringbuf_write_request_max r minimum =
     (let head = rb_head r; tail = rb_tail r;
          padded = 2 * 8 + RINGBUF_PAD minimum;
          space = (if head > tail then ((tail - head + rb_size r) AND rb_mask r) - 1
                   else if head < tail then (tail - head) - 1
                   else rb_size r - 1);
          fin = head + space in
      if fin > rb_size r then
        (let len1 = rb_size r - head in
         if len1 < padded then
           (let len2 = fin AND rb_mask r in
            if len2 < padded then (None, 0, r\<lparr>rsvd := 0, gapd := 0\<rparr>)
            else (Some 8, len2, r\<lparr>rsvd := len2, gapd := len1\<rparr>))
         else (Some (unat head + 8), len1, r\<lparr>rsvd := len1, gapd := 0\<rparr>))
      else if space < padded then (None, 0, r\<lparr>rsvd := 0, gapd := 0\<rparr>)
      else (Some (unat head + 8), space, r\<lparr>rsvd := space, gapd := 0\<rparr>))"

definition ringbuf_write_advance :: "ringbuf_t \<Rightarrow> u64 \<Rightarrow> ringbuf_t option" where
  "ringbuf_write_advance r written =
     (if \<not> written \<le> rsvd r then None
      else let head = rb_head r in
        do {
          b \<leftarrow> (if gapd r > 0 then do {
                  b \<leftarrow> put_element (rb_buf r) (unat head) (ucast (gapd r - 8)) 1;
                  put_element b 0 (ucast written) 0 }
               else put_element (rb_buf r) (unat head) (ucast written) 0);
          Some (ringbuf_write_advance_raw (r\<lparr>rb_buf := b\<rparr>) head (gapd r + 8 + RINGBUF_PAD written)) })"

section \<open>Reading\<close>

definition ringbuf_read_advance_raw :: "ringbuf_t \<Rightarrow> u64 \<Rightarrow> u64 \<Rightarrow> ringbuf_t" where
  "ringbuf_read_advance_raw r tail rd = r\<lparr>rb_tail := (tail + rd) AND rb_mask r\<rparr>"

definition ringbuf_read_request :: "ringbuf_t \<Rightarrow> (nat option \<times> u64 \<times> ringbuf_t) option" where
  "ringbuf_read_request r =
     (let tail = rb_tail r; head = rb_head r;
          space = (if head > tail then head - tail else (head - tail + rb_size r) AND rb_mask r) in
      if space > 0 then
        (let fin = tail + space in
         if fin > rb_size r then
           (let len1 = rb_size r - tail in
            do {
              (sz, gap) \<leftarrow> get_element (rb_buf r) (unat tail);
              if gap \<noteq> 0 then
                (let r' = ringbuf_read_advance_raw r tail len1 in
                 do {
                   (sz2, gap2) \<leftarrow> get_element (rb_buf r') 0;
                   Some (Some 8, ucast sz2, r') })
              else Some (Some (unat tail + 8), ucast sz, r) })
         else do {
           (sz, gap) \<leftarrow> get_element (rb_buf r) (unat tail);
           Some (Some (unat tail + 8), ucast sz, r) })
      else Some (None, 0, r))"

definition ringbuf_read_advance :: "ringbuf_t \<Rightarrow> ringbuf_t option" where
  "ringbuf_read_advance r =
     (let tail = rb_tail r in
      do {
        (sz, gap) \<leftarrow> get_element (rb_buf r) (unat tail);
        Some (ringbuf_read_advance_raw r tail (8 + RINGBUF_PAD (ucast sz))) })"

section \<open>The ring in a shared-memory segment\<close>

text \<open>
  The operating system's shared-memory objects: the segments made so far and the names that are
  linked to them. An object that was just made has length zero, and \<open>ftruncate\<close> extends it by zeros.
\<close>

record shm_os =
  shm_names :: "string \<Rightarrow> nat option"
  shm_segs :: "ringbuf_t list"

record ringbuf_shm_t =
  shm_name :: string
  shm_fd :: nat

definition zero_ringbuf :: ringbuf_t where
  "zero_ringbuf = \<lparr>rb_size = 0, rb_mask = 0, rsvd = 0, gapd = 0,
     rb_acquire = memory_order_relaxed, rb_release = memory_order_relaxed,
     rb_head = 0, rb_tail = 0, rb_buf = []\<rparr>"

definition seg_truncate :: "u64 \<Rightarrow> ringbuf_t \<Rightarrow> ringbuf_t" where
  "seg_truncate len r =
     (let n = unat len - 56; b = rb_buf r in
      r\<lparr>rb_buf := take n b @ replicate (n - length b) 0\<rparr>)"

text \<open>
  The calls that may fail whatever the state is: \<open>strdup\<close>, the two \<open>shm_open\<close>, \<open>ftruncate\<close>
  and \<open>mmap\<close>. The descriptor is the index of the object; \<open>Inl\<close> is the error return.
\<close>

record shm_fail =
  strdup_fails :: bool
  excl_fails :: bool
  open_fails :: bool
  ftruncate_fails :: bool
  mmap_fails :: bool

definition ringbuf_shm_init ::
  "shm_fail \<Rightarrow> shm_os \<Rightarrow> string \<Rightarrow> u64 \<Rightarrow> bool \<Rightarrow> ((int + ringbuf_shm_t) \<times> shm_os) option" where
  "ringbuf_shm_init fl os name minimum release_and_acquire = do {
     body_size \<leftarrow> ringbuf_body_size minimum;
     let total_size = sizeof_ringbuf + body_size;
     if strdup_fails fl then Some (Inl (- 1), os)
     else
       (let is_first = (shm_names os name = None \<and> \<not> excl_fails fl);
            os = (if is_first
                  then os\<lparr>shm_names := (shm_names os)(name \<mapsto> length (shm_segs os)),
                          shm_segs := shm_segs os @ [zero_ringbuf]\<rparr>
                  else os);
            fd = (if is_first \<or> \<not> open_fails fl then shm_names os name else None) in
        case fd of None \<Rightarrow> Some (Inl (- 1), os)
        | Some i \<Rightarrow>
          let unlinked = (shm_names os)(name := None) in
          if ftruncate_fails fl then Some (Inl (- 1), os\<lparr>shm_names := unlinked\<rparr>)
          else do {
            r \<leftarrow> load_at (shm_segs os) i;
            let r = seg_truncate total_size r;
            let os = os\<lparr>shm_segs := (shm_segs os)[i := r]\<rparr>;
            if mmap_fails fl then Some (Inl (- 1), os\<lparr>shm_names := unlinked\<rparr>)
            else
              let r = (if is_first then ringbuf_init r body_size release_and_acquire else r) in
              Some (Inr \<lparr>shm_name = name, shm_fd = i\<rparr>, os\<lparr>shm_segs := (shm_segs os)[i := r]\<rparr>) }) }"

definition ringbuf_shm_deinit :: "ringbuf_shm_t \<Rightarrow> shm_os \<Rightarrow> shm_os" where
  "ringbuf_shm_deinit shm os = os\<lparr>shm_names := (shm_names os)(shm_name shm := None)\<rparr>"

section \<open>The test program\<close>

text \<open>
  \<open>rand() * 1024.f / RAND_MAX\<close> in single precision: the integer is rounded to 24 significant
  bits, half to even; \<open>RAND_MAX\<close>, which is \<open>2 ^ 31 - 1\<close>, is rounded to \<open>2 ^ 31\<close>; the product and the
  quotient are exact. The conversion to \<open>size_t\<close> truncates. A value of \<open>rand\<close> is a 31-bit word.
\<close>

definition to_float :: "nat \<Rightarrow> nat" where
  "to_float n =
     (let u = 2 ^ (floorlog 2 n - 24); q = n div u; m = n mod u in
      if 2 * m < u \<or> 2 * m = u \<and> even q then q * u else (q + 1) * u)"

definition draw_size :: "31 word \<Rightarrow> u64" where
  "draw_size rnd = of_nat (to_float (unat rnd) * 1024 div 2 ^ 31)"

definition PAD :: "u64 \<Rightarrow> u64" where
  "PAD sz = (sz + 7) AND ucast (NOT 7 :: u32)"

definition iterations :: u64 where
  "iterations = 10000"

text \<open>
  A thread is between two rounds of its main loop, or inside the loop over the payload, at
  position \<open>src\<close> of the words up to \<open>fin\<close>.
\<close>

datatype pos = Idle | Payload nat nat u64

record test_state =
  ring :: ringbuf_t
  p_cnt :: u64
  p_pos :: pos
  c_cnt :: u64
  c_pos :: pos

definition producer_main :: "31 word \<Rightarrow> test_state \<Rightarrow> test_state option" where
  "producer_main rnd s =
     (case p_pos s of
        Idle \<Rightarrow>
          if p_cnt s < iterations then
            (let written = PAD (draw_size rnd) in
             case ringbuf_write_request_max (ring s) written of
               (None, maximum, r) \<Rightarrow> Some (s\<lparr>ring := r\<rparr>)
             | (Some ptr, maximum, r) \<Rightarrow>
                 if maximum \<ge> written
                 then Some (s\<lparr>ring := r, p_pos := Payload ptr (ptr + unat written) written\<rparr>)
                 else None)
          else Some s
      | Payload src fin written \<Rightarrow>
          if src < fin then do {
            b \<leftarrow> put_bytes (rb_buf (ring s)) src (le_bytes 8 (p_cnt s));
            v \<leftarrow> get_bytes b src 8;
            if un_le v = p_cnt s
            then Some (s\<lparr>ring := (ring s)\<lparr>rb_buf := b\<rparr>, p_pos := Payload (src + 8) fin written\<rparr>)
            else None }
          else do {
            r \<leftarrow> ringbuf_write_advance (ring s) written;
            Some (s\<lparr>ring := r, p_cnt := p_cnt s + 1, p_pos := Idle\<rparr>) })"

definition consumer_main :: "test_state \<Rightarrow> test_state option" where
  "consumer_main s =
     (case c_pos s of
        Idle \<Rightarrow>
          if c_cnt s < iterations then do {
            (p, toread, r) \<leftarrow> ringbuf_read_request (ring s);
            (case p of None \<Rightarrow> Some (s\<lparr>ring := r\<rparr>)
             | Some ptr \<Rightarrow> Some (s\<lparr>ring := r, c_pos := Payload ptr (ptr + unat toread) toread\<rparr>)) }
          else Some s
      | Payload src fin toread \<Rightarrow>
          if src < fin then do {
            v \<leftarrow> get_bytes (rb_buf (ring s)) src 8;
            if un_le v = c_cnt s then Some (s\<lparr>c_pos := Payload (src + 8) fin toread\<rparr>) else None }
          else do {
            r \<leftarrow> ringbuf_read_advance (ring s);
            Some (s\<lparr>ring := r, c_cnt := c_cnt s + 1, c_pos := Idle\<rparr>) })"

datatype test_event = Producer "31 word" | Consumer

fun test_step :: "test_event \<Rightarrow> test_state \<Rightarrow> test_state option" where
  "test_step (Producer rnd) s = producer_main rnd s"
| "test_step Consumer s = consumer_main s"

definition test_start :: "ringbuf_t \<Rightarrow> test_state" where
  "test_start r = \<lparr>ring = r, p_cnt = 0, p_pos = Idle, c_cnt = 0, c_pos = Idle\<rparr>"

text \<open>\<open>test_threaded\<close>: the ring is made, and the two threads run in the order that \<open>es\<close> gives.\<close>

definition test_threaded :: "(u64 \<Rightarrow> ringbuf_t option) \<Rightarrow> test_event list \<Rightarrow> test_state option" where
  "test_threaded memalign es = do {
     p \<leftarrow> ringbuf_new memalign 8192 True;
     r \<leftarrow> p;
     exec test_step es (test_start r) }"

end
