(* ===== verification/Ring_Shm_Correct.thy ===== *)
theory Ring_Shm_Correct
  imports Ring_Shm
begin

text \<open>
  What the operations of the message ring do: the bytes of a ring stand for a sequence of messages
  (\<open>ring_rel\<close>); a granted write request reserves room that stays clear of those messages wherever
  the reader moves the tail (\<open>reserved\<close>); advancing appends the message that was written there; a read
  request finds the oldest message, past a gap if need be, and advancing removes it. Rings have
  between \<open>2 ^ 3\<close> and \<open>2 ^ 31\<close> bytes, so that a size fits the 32-bit field of a header.
\<close>

section \<open>Bytes\<close>

lemma un_le_bytes: "un_le (le_bytes n w) = take_bit (8 * n) w" for w :: "'a::len word"
proof (induction n arbitrary: w)
  case (Suc n)
  show ?case
    by (rule bit_eqI) (auto simp: Suc.IH bit_simps)
qed simp

lemma length_le_bytes [simp]: "length (le_bytes n w) = n"
  by (induction n arbitrary: w) simp_all

lemma un_le_full [simp]:
  "un_le (le_bytes 4 sz) = (sz :: u32)" "un_le (le_bytes 8 x) = (x :: u64)"
  by (simp_all add: un_le_bytes take_bit_word_eq_self)

lemma get_put_same: "put_bytes b a m = Some b' \<Longrightarrow> get_bytes b' a (length m) = Some m"
  by (auto simp: put_bytes_def get_bytes_def split: if_splits)

definition agree :: "u8 list \<Rightarrow> u8 list \<Rightarrow> nat \<Rightarrow> nat \<Rightarrow> bool" where
  "agree b b' a c \<longleftrightarrow> length b' = length b \<and> (\<forall>i. a \<le> i \<longrightarrow> i < c \<longrightarrow> b' ! i = b ! i)"

lemma put_agree: "put_bytes b a m = Some b' \<Longrightarrow> z \<le> a \<or> a + length m \<le> y \<Longrightarrow> agree b b' y z"
  by (auto simp: put_bytes_def agree_def nth_append split: if_splits)

lemma agree_trans: "agree b b' a c \<Longrightarrow> agree b' b'' a c \<Longrightarrow> agree b b'' a c"
  by (auto simp: agree_def)

lemma agree_mono: "agree b b' a c \<Longrightarrow> a \<le> x \<Longrightarrow> y \<le> c \<Longrightarrow> agree b b' x y"
  by (auto simp: agree_def)

lemma get_agree: "agree b b' a c \<Longrightarrow> a \<le> x \<Longrightarrow> x + n \<le> c \<Longrightarrow> get_bytes b' x n = get_bytes b x n"
  by (auto simp: get_bytes_def agree_def intro!: nth_equalityI)

lemma element_agree: "agree b b' a c \<Longrightarrow> a \<le> x \<Longrightarrow> x + 8 \<le> c \<Longrightarrow> get_element b' x = get_element b x"
  by (simp add: get_element_def get_agree)

lemma put_bytes_ok: "a + length m \<le> length b \<Longrightarrow> \<exists>b'. put_bytes b a m = Some b' \<and> length b' = length b"
  by (simp add: put_bytes_def)

lemma put_element_ok:
  assumes "a + 8 \<le> length b"
  shows "\<exists>b'. put_element b a sz gap = Some b' \<and> get_element b' a = Some (sz, gap) \<and>
    (\<forall>y z. z \<le> a \<or> a + 8 \<le> y \<longrightarrow> agree b b' y z)"
proof -
  let ?m = "le_bytes 4 sz @ le_bytes 4 gap"
  obtain b' where b': "put_bytes b a ?m = Some b'" using put_bytes_ok [of a ?m b] assms by auto
  from get_put_same [OF this] have "get_bytes b' a 8 = Some ?m" by simp
  then have "get_element b' a = Some (sz, gap)" by (simp add: get_element_def)
  moreover have "agree b b' y z" if "z \<le> a \<or> a + 8 \<le> y" for y z
    using put_agree [OF b', of z y] that by simp
  ultimately show ?thesis using b' by (auto simp: put_element_def)
qed

lemma get_bytes_slice:
  "get_bytes b a n = Some m \<Longrightarrow> i + k \<le> n \<Longrightarrow> get_bytes b (a + i) k = Some (take k (drop i m))"
  by (auto simp: get_bytes_def take_drop drop_drop ac_simps min_def split: if_splits)

lemma get_bytes_length: "get_bytes b a n = Some m \<Longrightarrow> length m = n \<and> a + n \<le> length b"
  by (auto simp: get_bytes_def split: if_splits)

section \<open>Sizes\<close>

definition pad8 :: "nat \<Rightarrow> nat" where
  "pad8 n = (n + 7) div 8 * 8"

lemma pad8_dvd [simp]: "8 dvd pad8 n" and pad8_ge: "n \<le> pad8 n" and pad8_less: "pad8 n < n + 8"
  by (auto simp: pad8_def)

lemma pad8_id: "8 dvd n \<Longrightarrow> pad8 n = n"
  by (auto simp: pad8_def elim!: dvdE)

lemma unat_RINGBUF_PAD: "unat sz + 7 < 2 ^ 32 \<Longrightarrow> unat (RINGBUF_PAD sz) = pad8 (unat sz)"
proof -
  assume a: "unat sz + 7 < 2 ^ 32"
  have m: "ucast (NOT 7 :: u32) = (mask 32 AND NOT (mask 3) :: u64)"
    by (simp add: mask_eq_exp_minus_1)
  have s: "unat (sz + 7) = unat sz + 7"
    using a by (subst unat_add_no_wrap) simp_all
  have "take_bit 32 (sz + 7) = sz + 7"
    using a s by (simp add: word_unat_eq_iff unsigned_take_bit_eq take_bit_nat_eq_self)
  then have "RINGBUF_PAD sz = (sz + 7) AND NOT (mask 3)"
    unfolding RINGBUF_PAD_def m by (simp add: take_bit_eq_mask flip: and.assoc)
  also have "\<dots> = push_bit 3 (drop_bit 3 (sz + 7))"
    by (rule bit_eqI) (auto simp: bit_simps)
  finally have e: "RINGBUF_PAD sz = push_bit 3 (drop_bit 3 (sz + 7))" .
  have d: "unat (drop_bit 3 (sz + 7)) = (unat sz + 7) div 8"
    by (simp add: drop_bit_eq_div unat_div s)
  show ?thesis
    using a by (simp add: e push_bit_eq_mult unat_word_ariths d pad8_def mult.commute)
qed

section \<open>The messages in the ring\<close>

text \<open>
  \<open>seg b a ms c\<close>: the bytes from \<open>a\<close> to \<open>c\<close> hold the messages \<open>ms\<close>, each behind its header and
  padded to a multiple of eight bytes.
\<close>

fun seg :: "u8 list \<Rightarrow> nat \<Rightarrow> u8 list list \<Rightarrow> nat \<Rightarrow> bool" where
  "seg b a [] c \<longleftrightarrow> a = c"
| "seg b a (m # ms) c \<longleftrightarrow> get_element b a = Some (of_nat (length m), 0) \<and> length m + 7 < 2 ^ 32 \<and>
     get_bytes b (a + 8) (length m) = Some m \<and> seg b (a + 8 + pad8 (length m)) ms c"

lemma seg_le: "seg b a ms c \<Longrightarrow> a \<le> c \<and> (ms \<noteq> [] \<longrightarrow> a + 8 \<le> c)"
proof (induction ms arbitrary: a)
  case (Cons m ms)
  then have "a + 8 + pad8 (length m) \<le> c" by simp
  then show ?case by simp
qed simp

lemma seg_dvd: "seg b a ms c \<Longrightarrow> 8 dvd a \<Longrightarrow> 8 dvd c"
  by (induction ms arbitrary: a) auto

lemma seg_agree: "seg b a ms c \<Longrightarrow> agree b b' a c \<Longrightarrow> seg b' a ms c"
proof (induction ms arbitrary: a)
  case (Cons m ms)
  let ?n = "a + 8 + pad8 (length m)"
  have s: "seg b ?n ms c" using Cons.prems by simp
  have le: "?n \<le> c" using seg_le [OF s] by simp
  have "a + 8 + length m \<le> c" using le pad8_ge [of "length m"] by linarith
  moreover have "seg b' ?n ms c" using Cons.IH [OF s] agree_mono [OF Cons.prems(2), of ?n c] by simp
  ultimately show ?case
    using Cons.prems element_agree [OF Cons.prems(2), of a] get_agree [OF Cons.prems(2), of "a + 8" "length m"] le
    by simp
qed simp

lemma seg_snoc:
  "seg b a (ms @ [m]) c \<longleftrightarrow> (\<exists>p. seg b a ms p \<and> seg b p [m] c)"
  by (induction ms arbitrary: a) auto

text \<open>
  The ring holds the messages \<open>ms\<close>. Either they lie between tail and head, or the writer went back
  to the beginning: then the messages from the tail on end at a gap that reaches to the end of the
  body, and there is at least one message after it.
\<close>

definition ring_shape :: "ringbuf_t \<Rightarrow> bool" where
  "ring_shape r \<longleftrightarrow> (\<exists>k. 3 \<le> k \<and> k \<le> 31 \<and> rb_size r = 2 ^ k \<and> rb_mask r = 2 ^ k - 1 \<and> length (rb_buf r) = 2 ^ k) \<and>
     8 dvd unat (rb_head r) \<and> unat (rb_head r) < length (rb_buf r) \<and>
     8 dvd unat (rb_tail r) \<and> unat (rb_tail r) < length (rb_buf r)"

definition wrapped :: "u8 list \<Rightarrow> nat \<Rightarrow> u8 list list \<Rightarrow> u8 list list \<Rightarrow> nat \<Rightarrow> bool" where
  "wrapped b t ms1 ms2 h \<longleftrightarrow> (\<exists>p sz. seg b t ms1 p \<and> p + 8 \<le> length b \<and> get_element b p = Some (sz, 1) \<and>
     seg b 0 ms2 h \<and> ms2 \<noteq> [] \<and> h < t)"

definition ring_rel :: "ringbuf_t \<Rightarrow> u8 list list \<Rightarrow> bool" where
  "ring_rel r ms \<longleftrightarrow> ring_shape r \<and>
     (seg (rb_buf r) (unat (rb_tail r)) ms (unat (rb_head r)) \<or>
      (\<exists>ms1 ms2. ms = ms1 @ ms2 \<and> wrapped (rb_buf r) (unat (rb_tail r)) ms1 ms2 (unat (rb_head r))))"

lemma shape_sizes:
  assumes "ring_shape r"
  obtains k where "3 \<le> k" "k \<le> 31" "rb_size r = 2 ^ k" "rb_mask r = 2 ^ k - 1" "length (rb_buf r) = 2 ^ k"
    "unat (rb_size r) = 2 ^ k" "(8::nat) dvd 2 ^ k" "(2::nat) ^ k \<le> 2 ^ 31"
proof -
  obtain k where k: "3 \<le> k" "k \<le> 31" "rb_size r = 2 ^ k" "rb_mask r = 2 ^ k - 1" "length (rb_buf r) = 2 ^ k"
    using assms by (auto simp: ring_shape_def)
  moreover have "unat (rb_size r) = 2 ^ k" using k by (simp add: unat_pow2)
  moreover have "(8::nat) dvd 2 ^ k" using le_imp_power_dvd [OF k(1), of "2::nat"] by simp
  moreover have "(2::nat) ^ k \<le> 2 ^ 31" using k(2) by (intro power_increasing) simp_all
  ultimately show ?thesis by (rule that)
qed

lemma less_dvd8: "8 dvd a \<Longrightarrow> 8 dvd c \<Longrightarrow> a < c \<Longrightarrow> a + 8 \<le> c" for a c :: nat
  by (auto elim!: dvdE)

lemma space_wrap:
  fixes x y :: u64
  assumes "unat x < unat y" "unat y < 2 ^ k" "k \<le> 31"
  shows "(x - y + 2 ^ k) AND (2 ^ k - 1) = x - y + 2 ^ k" "unat (x - y + 2 ^ k) = unat x + 2 ^ k - unat y"
proof -
  have p: "(2::nat) ^ k \<le> 2 ^ 31" using assms(3) by (intro power_increasing) simp_all
  have s: "unat (2 ^ k :: u64) = 2 ^ k" using assms(3) by (simp add: unat_pow2)
  have "unat (x + 2 ^ k) = unat x + 2 ^ k"
    using assms p by (subst unat_add_no_wrap) (simp_all add: s)
  then have "unat (x + 2 ^ k - y) = unat x + 2 ^ k - unat y"
    using assms by (subst unat_sub_le) simp_all
  then show u: "unat (x - y + 2 ^ k) = unat x + 2 ^ k - unat y" by (simp add: algebra_simps)
  show "(x - y + 2 ^ k) AND (2 ^ k - 1) = x - y + 2 ^ k"
    using assms by (simp add: word_unat_eq_iff unat_and_mask_eq u)
qed

lemma advance_pos:
  fixes x y :: u64
  assumes "k \<le> 31" "unat x + unat y < 2 ^ 64"
  shows "unat ((x + y) AND (2 ^ k - 1)) = (unat x + unat y) mod 2 ^ k"
  using assms(2) by (simp add: unat_and_mask_eq unat_add_no_wrap)

section \<open>Reading\<close>

text \<open>The message that the tail points at, once a gap has been skipped.\<close>

definition ready :: "ringbuf_t \<Rightarrow> u8 list \<Rightarrow> bool" where
  "ready r m \<longleftrightarrow> get_element (rb_buf r) (unat (rb_tail r)) = Some (of_nat (length m), 0) \<and>
     get_bytes (rb_buf r) (unat (rb_tail r) + 8) (length m) = Some m"

text \<open>How the tail may move under a writer that saw it at \<open>t\<close>.\<close>

definition tail_moves :: "nat \<Rightarrow> nat \<Rightarrow> nat \<Rightarrow> bool" where
  "tail_moves h t t' \<longleftrightarrow> (if t \<le> h then t \<le> t' \<and> t' \<le> h else t \<le> t' \<or> t' = 0)"

lemma read_request_empty:
  assumes "ring_rel r []"
  shows "ringbuf_read_request r = Some (None, 0, r)"
proof -
  obtain k where k: "k \<le> 31" "rb_size r = 2 ^ k" "rb_mask r = 2 ^ k - 1"
    using assms by (auto simp: ring_rel_def elim: shape_sizes)
  have "rb_head r = rb_tail r"
    using assms by (auto simp: ring_rel_def wrapped_def word_unat_eq_iff)
  moreover have "(2 ^ k :: u64) AND (2 ^ k - 1) = 0"
    using k(1) by (simp add: word_unat_eq_iff unat_and_mask_eq unat_pow2)
  ultimately show ?thesis by (simp add: ringbuf_read_request_def k)
qed

lemma ucast_length: "n + 7 < 2 ^ 32 \<Longrightarrow> ucast (of_nat n :: u32) = (of_nat n :: u64)"
  by (simp add: word_unat_eq_iff unat_of_nat unsigned_ucast_eq take_bit_nat_eq_self)

lemma read_request_some:
  assumes rel: "ring_rel r (m # ms)"
  shows "\<exists>r'. ringbuf_read_request r = Some (Some (unat (rb_tail r') + 8), of_nat (length m), r') \<and>
    ring_rel r' (m # ms) \<and> ready r' m \<and> r' = r\<lparr>rb_tail := rb_tail r'\<rparr> \<and>
    tail_moves (unat (rb_head r)) (unat (rb_tail r)) (unat (rb_tail r'))"
proof -
  let ?h = "rb_head r" and ?t = "rb_tail r" and ?b = "rb_buf r"
  have sh: "ring_shape r" using rel by (simp add: ring_rel_def)
  from sh obtain k where k: "k \<le> 31" "rb_size r = 2 ^ k" "rb_mask r = 2 ^ k - 1" "length ?b = 2 ^ k"
    "unat (rb_size r) = 2 ^ k" "(2::nat) ^ k \<le> 2 ^ 31" by (auto elim: shape_sizes)
  have lt: "unat ?h < 2 ^ k" "unat ?t < 2 ^ k" using sh k by (auto simp: ring_shape_def)
  show ?thesis
  proof (cases "seg ?b (unat ?t) (m # ms) (unat ?h)")
    case True
    then have "unat ?t < unat ?h" using seg_le [OF True] by simp
    then have "?t < ?h" by (simp add: word_less_nat_alt)
    moreover have "\<not> rb_size r < ?h" using lt k by (simp add: word_less_nat_alt)
    moreover have "?h - ?t > 0" using \<open>?t < ?h\<close> by (simp add: word_neq_0_conv [symmetric])
    moreover have len: "length m + 7 < 2 ^ 32" using True by simp
    ultimately have "ringbuf_read_request r = Some (Some (unat ?t + 8), of_nat (length m), r)"
      using True ucast_length [OF len] by (simp add: ringbuf_read_request_def)
    then show ?thesis using rel True by (intro exI [of _ r]) (simp add: ready_def tail_moves_def)
  next
    case False
    then obtain ms1 ms2 where w: "m # ms = ms1 @ ms2" "wrapped ?b (unat ?t) ms1 ms2 (unat ?h)"
      using rel by (auto simp: ring_rel_def)
    obtain p g where p: "seg ?b (unat ?t) ms1 p" "p + 8 \<le> length ?b" "get_element ?b p = Some (g, 1)"
      "seg ?b 0 ms2 (unat ?h)" "ms2 \<noteq> []" "unat ?h < unat ?t" using w(2) by (auto simp: wrapped_def)
    let ?s = "?h - ?t + 2 ^ k"
    have "\<not> ?t < ?h" using p(6) by (simp add: word_less_nat_alt)
    moreover note sp = space_wrap [OF p(6) lt(2) k(1)]
    moreover have "?s > 0" using sp(2) lt by (simp add: word_less_nat_alt)
    moreover have f: "?t + ?s = ?h + 2 ^ k" by simp
    moreover have "unat (?h + 2 ^ k) = unat ?h + 2 ^ k"
      using lt k by (subst unat_add_no_wrap) (simp_all add: unat_pow2)
    then have "?h + 2 ^ k > 2 ^ k" using seg_le [OF p(4)] p(5) k by (simp add: word_less_nat_alt)
    ultimately have rr: "ringbuf_read_request r = do {
        (sz, gap) \<leftarrow> get_element ?b (unat ?t);
        if gap \<noteq> 0 then
          (let r' = ringbuf_read_advance_raw r ?t (2 ^ k - ?t) in
           do { (sz2, gap2) \<leftarrow> get_element (rb_buf r') 0; Some (Some 8, ucast sz2, r') })
        else Some (Some (unat ?t + 8), ucast sz, r) }"
      by (simp add: ringbuf_read_request_def k Let_def)
    show ?thesis
    proof (cases ms1)
      case Nil
      have "(?t + (2 ^ k - ?t)) AND (2 ^ k - 1) = (0 :: u64)"
        using k(1) by (simp add: word_unat_eq_iff unat_and_mask_eq unat_pow2)
      then have raw: "ringbuf_read_advance_raw r ?t (2 ^ k - ?t) = r\<lparr>rb_tail := 0\<rparr>"
        by (simp add: ringbuf_read_advance_raw_def k)
      have ms2: "ms2 = m # ms" using w(1) Nil by simp
      have el: "get_element ?b 0 = Some (of_nat (length m), 0)" and len: "length m + 7 < 2 ^ 32"
        and gb: "get_bytes ?b 8 (length m) = Some m"
        using p(4) ms2 by auto
      have "ringbuf_read_request r = Some (Some 8, of_nat (length m), r\<lparr>rb_tail := 0\<rparr>)"
        unfolding rr using p(1,3) Nil el ucast_length [OF len] by (simp add: raw)
      moreover have "ring_shape (r\<lparr>rb_tail := 0\<rparr>)" using sh by (auto simp: ring_shape_def)
      ultimately show ?thesis
        using p(4,6) ms2 el gb by (intro exI [of _ "r\<lparr>rb_tail := 0\<rparr>"]) (simp add: ring_rel_def ready_def tail_moves_def)
    next
      case (Cons x xs)
      then have "x = m" using w(1) by simp
      then have el: "get_element ?b (unat ?t) = Some (of_nat (length m), 0)" and len: "length m + 7 < 2 ^ 32"
        and gb: "get_bytes ?b (unat ?t + 8) (length m) = Some m"
        using p(1) Cons by auto
      then have "ringbuf_read_request r = Some (Some (unat ?t + 8), of_nat (length m), r)"
        unfolding rr using ucast_length [OF len] by simp
      then show ?thesis using rel el gb p(6) by (intro exI [of _ r]) (simp add: ready_def tail_moves_def)
    qed
  qed
qed

lemma unat_length: "n + 7 < 2 ^ 32 \<Longrightarrow> unat (of_nat n :: u64) = n"
  by (simp add: unat_of_nat)

lemma unat_step: "n + 7 < 2 ^ 32 \<Longrightarrow> unat (8 + RINGBUF_PAD (of_nat n)) = 8 + pad8 n"
  using pad8_less [of n] unat_RINGBUF_PAD [of "of_nat n"]
  by (subst unat_add_no_wrap) (simp_all add: unat_length)

lemma read_advance_ok:
  assumes rel: "ring_rel r (m # ms)" and rd: "ready r m"
  shows "\<exists>t'. ringbuf_read_advance r = Some (r\<lparr>rb_tail := t'\<rparr>) \<and> ring_rel (r\<lparr>rb_tail := t'\<rparr>) ms \<and>
    tail_moves (unat (rb_head r)) (unat (rb_tail r)) (unat t')"
proof -
  let ?h = "rb_head r" and ?t = "rb_tail r" and ?b = "rb_buf r" and ?n = "8 + pad8 (length m)"
  let ?t' = "(?t + (8 + RINGBUF_PAD (of_nat (length m)))) AND rb_mask r"
  have sh: "ring_shape r" using rel by (simp add: ring_rel_def)
  from sh obtain k where k: "k \<le> 31" "rb_mask r = 2 ^ k - 1" "length ?b = 2 ^ k" "(2::nat) ^ k \<le> 2 ^ 31"
    by (auto elim: shape_sizes)
  have lt: "unat ?h < 2 ^ k" "unat ?t < 2 ^ k" "8 dvd unat ?t" using sh k by (auto simp: ring_shape_def)
  obtain c where c: "length m + 7 < 2 ^ 32" "seg ?b (unat ?t) [m] (unat ?t + ?n)" "unat ?t + ?n \<le> c" "c < 2 ^ k"
    "tail_moves (unat ?h) (unat ?t) (unat ?t + ?n)"
    "seg ?b (unat ?t + ?n) ms (unat ?h) \<or>
      (\<exists>ms1 ms2. ms = ms1 @ ms2 \<and> wrapped ?b (unat ?t + ?n) ms1 ms2 (unat ?h))"
  proof (cases "seg ?b (unat ?t) (m # ms) (unat ?h)")
    case True
    then have "seg ?b (unat ?t + ?n) ms (unat ?h)" by (simp add: add.assoc)
    with True seg_le [OF this] lt show ?thesis by (intro that [of "unat ?h"]) (auto simp: tail_moves_def)
  next
    case False
    then obtain ms1 ms2 where w: "m # ms = ms1 @ ms2" "wrapped ?b (unat ?t) ms1 ms2 (unat ?h)"
      using rel by (auto simp: ring_rel_def)
    obtain p g where p: "seg ?b (unat ?t) ms1 p" "p + 8 \<le> length ?b" "get_element ?b p = Some (g, 1)"
      "seg ?b 0 ms2 (unat ?h)" "ms2 \<noteq> []" "unat ?h < unat ?t" using w(2) by (auto simp: wrapped_def)
    from rd p(1,3) obtain xs where xs: "ms1 = m # xs" using w(1) by (cases ms1) (auto simp: ready_def)
    then have "seg ?b (unat ?t + ?n) xs p" using p(1) by (simp add: add.assoc)
    moreover from seg_le [OF this] have "unat ?t + ?n \<le> p" by simp
    moreover have "ms = xs @ ms2" using w(1) xs by simp
    ultimately show ?thesis
      using p xs k by (intro that [of p]) (auto simp: wrapped_def tail_moves_def)
  qed
  have "unat ?t' = unat ?t + ?n"
    using advance_pos [OF k(1), of ?t "8 + RINGBUF_PAD (of_nat (length m))"] c k unat_step [OF c(1)] by simp
  moreover have "ring_shape (r\<lparr>rb_tail := ?t'\<rparr>)"
    using sh lt c(3,4) calculation k by (auto simp: ring_shape_def)
  moreover have "ringbuf_read_advance r = Some (r\<lparr>rb_tail := ?t'\<rparr>)"
    using rd ucast_length [OF c(1)] by (simp add: ringbuf_read_advance_def ready_def ringbuf_read_advance_raw_def)
  ultimately show ?thesis using c(5,6) by (intro exI [of _ ?t']) (simp add: ring_rel_def)
qed

section \<open>Writing\<close>

text \<open>
  What a granted request reserves: room for a payload of \<open>n\<close> bytes at \<open>ptr\<close>, which stays clear of
  the messages in the ring wherever the reader takes the tail.
\<close>

definition reserved :: "ringbuf_t \<Rightarrow> nat \<Rightarrow> nat \<Rightarrow> bool" where
  "reserved r n ptr \<longleftrightarrow> n \<le> unat (rsvd r) \<and> n + 7 < 2 ^ 32 \<and>
     (let h = unat (rb_head r); t = unat (rb_tail r); N = length (rb_buf r) in
      (gapd r = 0 \<and> ptr = h + 8 \<and> h + 16 + pad8 n \<le> N \<and> (h < t \<longrightarrow> h + 8 + pad8 n < t)) \<or>
      (unat (gapd r) = N - h \<and> ptr = 8 \<and> t \<le> h \<and> 8 + pad8 n < t))"

lemma reserved_tail:
  "reserved r n ptr \<Longrightarrow> tail_moves (unat (rb_head r)) (unat (rb_tail r)) (unat t') \<Longrightarrow> reserved (r\<lparr>rb_tail := t'\<rparr>) n ptr"
  by (auto simp: reserved_def tail_moves_def Let_def split: if_splits)

definition free_space :: "ringbuf_t \<Rightarrow> u64" where
  "free_space r = (if rb_head r > rb_tail r then ((rb_tail r - rb_head r + rb_size r) AND rb_mask r) - 1
     else if rb_head r < rb_tail r then (rb_tail r - rb_head r) - 1 else rb_size r - 1)"

lemma unat_minus_1: "0 < unat x \<Longrightarrow> unat (x - 1) = unat x - 1" for x :: "'a::len word"
  by (subst unat_sub_le) simp_all

lemma unat_free_space:
  assumes "ring_shape r"
  shows "unat (free_space r) = (if unat (rb_tail r) \<le> unat (rb_head r)
    then length (rb_buf r) + unat (rb_tail r) - unat (rb_head r) - 1 else unat (rb_tail r) - unat (rb_head r) - 1)"
proof -
  let ?h = "rb_head r" and ?t = "rb_tail r"
  from assms obtain k where k: "k \<le> 31" "rb_size r = 2 ^ k" "rb_mask r = 2 ^ k - 1" "length (rb_buf r) = 2 ^ k"
    "unat (rb_size r) = 2 ^ k" by (auto elim: shape_sizes)
  have lt: "unat ?h < 2 ^ k" "unat ?t < 2 ^ k" using assms k by (auto simp: ring_shape_def)
  consider "unat ?t < unat ?h" | "unat ?h < unat ?t" | "?h = ?t"
    by (cases rule: linorder_cases [of "unat ?t" "unat ?h"]) (auto simp: word_unat_eq_iff)
  then show ?thesis
  proof cases
    case 1
    then show ?thesis
      using space_wrap [OF 1 lt(1) k(1)] lt k
      by (simp add: free_space_def word_less_nat_alt) (subst unat_minus_1, simp_all)
  next
    case 2
    then show ?thesis
      using lt k by (simp add: free_space_def word_less_nat_alt) (subst unat_minus_1, simp_all add: unat_sub_le)
  next
    case 3
    then show ?thesis using lt k by (simp add: free_space_def) (subst unat_minus_1, simp_all add: unat_pow2)
  qed
qed

lemma unat_padded: "unat n + 7 < 2 ^ 32 \<Longrightarrow> unat (2 * 8 + RINGBUF_PAD n) = 16 + pad8 (unat n)"
  using pad8_less [of "unat n"] unat_RINGBUF_PAD [of n] by (subst unat_add_no_wrap) simp_all

lemma write_request_ok:
  assumes sh: "ring_shape r" and n: "unat n + 7 < 2 ^ 32"
  shows "\<exists>p r'. ringbuf_write_request_max r n = (p, rsvd r', r') \<and> r' = r\<lparr>rsvd := rsvd r', gapd := gapd r'\<rparr> \<and>
    (\<forall>ptr. p = Some ptr \<longrightarrow> reserved r' (unat n) ptr) \<and>
    (p = None \<longrightarrow> rb_head r = rb_tail r \<longrightarrow> length (rb_buf r) \<le> 2 * (16 + pad8 (unat n)))"
proof -
  let ?h = "rb_head r" and ?t = "rb_tail r" and ?sp = "free_space r" and ?pd = "2 * 8 + RINGBUF_PAD n :: u64"
  let ?N = "length (rb_buf r)"
  from sh obtain k where k: "3 \<le> k" "k \<le> 31" "rb_size r = 2 ^ k" "rb_mask r = 2 ^ k - 1" "length (rb_buf r) = 2 ^ k"
    "unat (rb_size r) = 2 ^ k" "(8::nat) dvd 2 ^ k" "(2::nat) ^ k \<le> 2 ^ 31" by (rule shape_sizes)
  have lt: "unat ?h < ?N" "unat ?t < ?N" "8 dvd unat ?h" "8 dvd unat ?t" using sh by (auto simp: ring_shape_def)
  have h8: "unat ?h + 8 \<le> ?N" using less_dvd8 [of "unat ?h" ?N] lt k by simp
  note pd = unat_padded [OF n]
  have pge: "unat n \<le> pad8 (unat n)" by (rule pad8_ge)
  have sp: "unat ?sp = (if unat ?t \<le> unat ?h then ?N + unat ?t - unat ?h - 1 else unat ?t - unat ?h - 1)"
    by (rule unat_free_space [OF sh])
  have f: "unat (?h + ?sp) = (if unat ?t \<le> unat ?h then ?N + unat ?t - 1 else unat ?t - 1)"
    using sp lt k by (subst unat_add_no_wrap) auto
  have l1: "unat (rb_size r - ?h) = ?N - unat ?h" using lt k by (subst unat_sub_le) auto
  define res where "res = (if ?h + ?sp > rb_size r then
        (if rb_size r - ?h < ?pd then
           (if (?h + ?sp) AND rb_mask r < ?pd then (None, 0, r\<lparr>rsvd := 0, gapd := 0\<rparr>)
            else (Some 8, (?h + ?sp) AND rb_mask r, r\<lparr>rsvd := (?h + ?sp) AND rb_mask r, gapd := rb_size r - ?h\<rparr>))
         else (Some (unat ?h + 8), rb_size r - ?h, r\<lparr>rsvd := rb_size r - ?h, gapd := 0\<rparr>))
      else if ?sp < ?pd then (None, 0, r\<lparr>rsvd := 0, gapd := 0\<rparr>)
      else (Some (unat ?h + 8), ?sp, r\<lparr>rsvd := ?sp, gapd := 0\<rparr>))"
  have res: "ringbuf_write_request_max r n = res"
    unfolding ringbuf_write_request_max_def res_def free_space_def Let_def by (rule refl)
  show ?thesis
  proof (cases "?h + ?sp > rb_size r")
    case True
    then have th: "unat ?t \<le> unat ?h" "1 < unat ?t"
      using f k lt by (auto simp: word_less_nat_alt split: if_splits)
    have l2: "unat ((?h + ?sp) AND rb_mask r) = unat ?t - 1"
    proof -
      have "?N + unat ?t - 1 = ?N + (unat ?t - 1)" using th by simp
      moreover have "(?N + (unat ?t - 1)) mod ?N = unat ?t - 1"
        using lt by (simp only: mod_add_self1) (rule mod_less, simp)
      ultimately have "(?N + unat ?t - 1) mod ?N = unat ?t - 1" by simp
      then show ?thesis using th f k by (simp add: unat_and_mask_eq)
    qed
    consider (none) "rb_size r - ?h < ?pd" "(?h + ?sp) AND rb_mask r < ?pd"
      | (second) "rb_size r - ?h < ?pd" "\<not> (?h + ?sp) AND rb_mask r < ?pd"
      | (first) "\<not> rb_size r - ?h < ?pd" by blast
    then show ?thesis
    proof cases
      case none
      then have "?N - unat ?h < 16 + pad8 (unat n)" "unat ?t - 1 < 16 + pad8 (unat n)"
        using l1 l2 pd by (auto simp: word_less_nat_alt)
      then have "?h = ?t \<longrightarrow> ?N \<le> 2 * (16 + pad8 (unat n))" by auto
      with none True show ?thesis unfolding res res_def by auto
    next
      case second
      then have "16 + pad8 (unat n) \<le> unat ?t - 1" using l2 pd by (simp add: word_less_nat_alt)
      then have "reserved (r\<lparr>rsvd := (?h + ?sp) AND rb_mask r, gapd := rb_size r - ?h\<rparr>) (unat n) 8"
        using th l1 l2 pge n by (simp add: reserved_def Let_def)
      with second True show ?thesis unfolding res res_def by auto
    next
      case first
      then have "16 + pad8 (unat n) \<le> ?N - unat ?h" using l1 pd by (simp add: word_less_nat_alt)
      then have "reserved (r\<lparr>rsvd := rb_size r - ?h, gapd := 0\<rparr>) (unat n) (unat ?h + 8)"
        using th l1 pge n by (simp add: reserved_def Let_def)
      with first True show ?thesis unfolding res res_def by auto
    qed
  next
    case False
    show ?thesis
    proof (cases "?sp < ?pd")
      case none: True
      then have "unat ?sp < 16 + pad8 (unat n)" using pd by (simp add: word_less_nat_alt)
      then have "?h = ?t \<longrightarrow> ?N \<le> 2 * (16 + pad8 (unat n))" using sp by auto
      with none False show ?thesis unfolding res res_def by auto
    next
      case ok: False
      then have "16 + pad8 (unat n) \<le> unat ?sp" using pd by (simp add: word_less_nat_alt)
      moreover have "unat ?h + unat ?sp \<le> ?N"
      proof -
        have "unat (?h + ?sp) \<le> ?N" using False k by (simp add: word_less_nat_alt)
        then show ?thesis using f sp lt by (auto split: if_splits)
      qed
      ultimately have "reserved (r\<lparr>rsvd := ?sp, gapd := 0\<rparr>) (unat n) (unat ?h + 8)"
        using sp pge n lt by (auto simp: reserved_def Let_def)
      with ok False show ?thesis unfolding res res_def by auto
    qed
  qed
qed

text \<open>A buffer that differs from the ring's only where no message lies.\<close>

definition live_agree :: "ringbuf_t \<Rightarrow> u8 list \<Rightarrow> bool" where
  "live_agree r b' \<longleftrightarrow>
     (let b = rb_buf r; h = unat (rb_head r); t = unat (rb_tail r) in
      if t \<le> h then agree b b' t h else agree b b' t (length b) \<and> agree b b' 0 h)"

lemma ring_rel_cases:
  assumes "ring_rel r ms"
  obtains (straight) "unat (rb_tail r) \<le> unat (rb_head r)" "seg (rb_buf r) (unat (rb_tail r)) ms (unat (rb_head r))"
  | (split) ms1 ms2 where "unat (rb_head r) < unat (rb_tail r)" "ms = ms1 @ ms2"
      "wrapped (rb_buf r) (unat (rb_tail r)) ms1 ms2 (unat (rb_head r))"
proof (cases "seg (rb_buf r) (unat (rb_tail r)) ms (unat (rb_head r))")
  case True
  then show ?thesis using seg_le [OF True] by (intro straight) auto
next
  case False
  then obtain ms1 ms2 where w: "ms = ms1 @ ms2" "wrapped (rb_buf r) (unat (rb_tail r)) ms1 ms2 (unat (rb_head r))"
    using assms by (auto simp: ring_rel_def)
  then have "unat (rb_head r) < unat (rb_tail r)" by (auto simp: wrapped_def)
  from split [OF this w] show ?thesis .
qed

lemma wrapped_agree:
  assumes "wrapped b t ms1 ms2 h" "agree b b' t (length b)" "agree b b' 0 h"
  shows "wrapped b' t ms1 ms2 h"
proof -
  obtain p sz where p: "seg b t ms1 p" "p + 8 \<le> length b" "get_element b p = Some (sz, 1)" "seg b 0 ms2 h"
    "ms2 \<noteq> []" "h < t" using assms(1) by (auto simp: wrapped_def)
  have "t \<le> p" using seg_le [OF p(1)] by simp
  then have "get_element b' p = Some (sz, 1)" using element_agree [OF assms(2), of p] p by simp
  moreover have "seg b' t ms1 p" using seg_agree [OF p(1)] agree_mono [OF assms(2), of t p] p(2) by simp
  moreover have "seg b' 0 ms2 h" by (rule seg_agree [OF p(4) assms(3)])
  moreover have "length b' = length b" using assms(2) by (simp add: agree_def)
  ultimately show ?thesis using p by (auto simp: wrapped_def)
qed

lemma live_length: "live_agree r b' \<Longrightarrow> length b' = length (rb_buf r)"
  by (auto simp: live_agree_def agree_def Let_def split: if_splits)

lemma ring_rel_frame:
  assumes rel: "ring_rel r ms" and la: "live_agree r b'"
  shows "ring_rel (r\<lparr>rb_buf := b'\<rparr>) ms"
proof -
  have "ring_shape (r\<lparr>rb_buf := b'\<rparr>)"
    using rel live_length [OF la] by (simp add: ring_rel_def ring_shape_def)
  moreover from rel have "seg b' (unat (rb_tail r)) ms (unat (rb_head r)) \<or>
    (\<exists>ms1 ms2. ms = ms1 @ ms2 \<and> wrapped b' (unat (rb_tail r)) ms1 ms2 (unat (rb_head r)))"
  proof (cases rule: ring_rel_cases)
    case straight
    then show ?thesis using seg_agree [OF straight(2)] la by (simp add: live_agree_def)
  next
    case (split ms1 ms2)
    then show ?thesis using wrapped_agree [OF split(3), of b'] la by (auto simp: live_agree_def Let_def)
  qed
  ultimately show ?thesis by (simp add: ring_rel_def)
qed

lemma ready_frame:
  assumes rel: "ring_rel r (m # ms)" and rd: "ready r m" and la: "live_agree r b'"
  shows "ready (r\<lparr>rb_buf := b'\<rparr>) m"
proof -
  let ?b = "rb_buf r" and ?t = "unat (rb_tail r)"
  obtain c where c: "agree ?b b' ?t c" "?t + 8 + length m \<le> c"
    using rel
  proof (cases rule: ring_rel_cases)
    case straight
    then have "?t + 8 + pad8 (length m) \<le> unat (rb_head r)" using seg_le by auto
    then show ?thesis
      using la straight(1) pad8_ge [of "length m"] by (intro that [of "unat (rb_head r)"]) (auto simp: live_agree_def)
  next
    case (split ms1 ms2)
    have "?t + 8 + length m \<le> length ?b" using rd get_bytes_length by (auto simp: ready_def)
    then show ?thesis using la split(1) by (intro that [of "length ?b"]) (auto simp: live_agree_def Let_def)
  qed
  then show ?thesis
    using rd element_agree [OF c(1), of ?t] get_agree [OF c(1), of "?t + 8" "length m"] by (simp add: ready_def)
qed

lemma put_live:
  assumes "reserved r n ptr" "put_bytes (rb_buf r) x m = Some b'" "ptr \<le> x + 8" "x + length m \<le> ptr + pad8 n"
  shows "live_agree r b'"
  using assms put_agree [OF assms(2)]
  by (auto simp: live_agree_def reserved_def Let_def)

lemma reserved_buf: "length b' = length (rb_buf r) \<Longrightarrow> reserved r n ptr \<Longrightarrow> reserved (r\<lparr>rb_buf := b'\<rparr>) n ptr"
  by (simp add: reserved_def)

lemma put_payload:
  assumes "ring_rel r ms" "reserved r n ptr" "ptr \<le> x" "x + length m \<le> ptr + pad8 n"
  shows "\<exists>b'. put_bytes (rb_buf r) x m = Some b' \<and> live_agree r b' \<and>
    get_bytes b' x (length m) = Some m \<and> agree (rb_buf r) b' ptr x"
proof -
  have "x + length m \<le> length (rb_buf r)"
    using assms by (auto simp: reserved_def Let_def ring_rel_def ring_shape_def)
  then obtain b' where b': "put_bytes (rb_buf r) x m = Some b'" using put_bytes_ok by blast
  with put_live [OF assms(2) b'] put_agree [OF b', of x ptr] get_put_same [OF b'] assms(3,4) show ?thesis by simp
qed

lemma element_live:
  assumes "ring_rel r ms" "reserved r n ptr"
  shows "\<exists>b'. put_element (rb_buf r) (ptr - 8) sz gap = Some b' \<and> live_agree r b' \<and>
    get_element b' (ptr - 8) = Some (sz, gap) \<and> get_bytes b' ptr n = get_bytes (rb_buf r) ptr n"
proof -
  have p: "8 \<le> ptr" "ptr \<le> length (rb_buf r)"
    using assms by (auto simp: reserved_def Let_def ring_rel_def ring_shape_def)
  obtain b' where b': "put_element (rb_buf r) (ptr - 8) sz gap = Some b'" "get_element b' (ptr - 8) = Some (sz, gap)"
    "\<forall>y z. z \<le> ptr - 8 \<or> ptr - 8 + 8 \<le> y \<longrightarrow> agree (rb_buf r) b' y z"
    using put_element_ok [of "ptr - 8" "rb_buf r" sz gap] p by auto
  have "live_agree r b'"
    using put_live [OF assms(2), of "ptr - 8" "le_bytes 4 sz @ le_bytes 4 gap" b'] b'(1) p by (simp add: put_element_def)
  moreover have "agree (rb_buf r) b' ptr (ptr + n)" using b'(3) p by simp
  then have "get_bytes b' ptr n = get_bytes (rb_buf r) ptr n" by (rule get_agree) simp_all
  ultimately show ?thesis using b' by blast
qed

lemma write_advance_straight:
  assumes rel: "ring_rel r ms" and res: "reserved r (length m) ptr" and g: "gapd r = 0"
    and m: "get_bytes (rb_buf r) ptr (length m) = Some m"
  shows "\<exists>b' h'. ringbuf_write_advance r (of_nat (length m)) = Some (r\<lparr>rb_buf := b', rb_head := h'\<rparr>) \<and>
    ring_rel (r\<lparr>rb_buf := b', rb_head := h'\<rparr>) (ms @ [m]) \<and> live_agree r b'"
proof -
  let ?h = "rb_head r" and ?t = "rb_tail r" and ?n = "length m"
  let ?h' = "(?h + (8 + RINGBUF_PAD (of_nat ?n))) AND rb_mask r"
  have sh: "ring_shape r" using rel by (simp add: ring_rel_def)
  from sh obtain k where k: "k \<le> 31" "rb_mask r = 2 ^ k - 1" "length (rb_buf r) = 2 ^ k" "(2::nat) ^ k \<le> 2 ^ 31"
    by (auto elim: shape_sizes)
  have lt: "unat ?h < 2 ^ k" "8 dvd unat ?h" using sh k by (auto simp: ring_shape_def)
  have r: "?n \<le> unat (rsvd r)" "?n + 7 < 2 ^ 32" "ptr = unat ?h + 8" "unat ?h + 16 + pad8 ?n \<le> 2 ^ k"
    "unat ?h < unat ?t \<longrightarrow> unat ?h + 8 + pad8 ?n < unat ?t"
    using res g k lt by (auto simp: reserved_def Let_def)
  from element_live [OF rel res, of "of_nat ?n" 0] obtain b' where b': "put_element (rb_buf r) (unat ?h) (of_nat ?n) 0 = Some b'"
    "live_agree r b'" "get_element b' (unat ?h) = Some (of_nat ?n, 0)" "get_bytes b' (unat ?h + 8) ?n = Some m"
    using r(3) m by auto
  have h': "unat ?h' = unat ?h + (8 + pad8 ?n)"
    using advance_pos [OF k(1), of ?h "8 + RINGBUF_PAD (of_nat ?n)"] r k unat_step [OF r(2)] by simp
  have "ucast (of_nat ?n :: u64) = (of_nat ?n :: u32)"
    using r(2) by (simp add: word_unat_eq_iff unat_of_nat unsigned_ucast_eq take_bit_nat_eq_self)
  moreover have "of_nat ?n \<le> rsvd r" using r(1) unat_length [OF r(2)] by (simp add: word_le_nat_alt)
  ultimately have wa: "ringbuf_write_advance r (of_nat ?n) = Some (r\<lparr>rb_buf := b', rb_head := ?h'\<rparr>)"
    using b'(1) g by (simp add: ringbuf_write_advance_def ringbuf_write_advance_raw_def Let_def)
  have new: "seg b' (unat ?h) [m] (unat ?h')" using b'(3,4) r(2) h' by simp
  have rel': "ring_rel (r\<lparr>rb_buf := b'\<rparr>) ms" by (rule ring_rel_frame [OF rel b'(2)])
  have "ring_shape (r\<lparr>rb_buf := b', rb_head := ?h'\<rparr>)"
    using sh lt h' r k live_length [OF b'(2)] by (auto simp: ring_shape_def)
  moreover from rel' have "seg b' (unat ?t) (ms @ [m]) (unat ?h') \<or>
    (\<exists>ms1 ms2. ms @ [m] = ms1 @ ms2 \<and> wrapped b' (unat ?t) ms1 ms2 (unat ?h'))"
  proof (cases rule: ring_rel_cases)
    case straight
    then show ?thesis using new by (auto simp: seg_snoc)
  next
    case (split ms1 ms2)
    then have "wrapped b' (unat ?t) ms1 (ms2 @ [m]) (unat ?h')"
      using new r(5) h' by (auto simp: wrapped_def seg_snoc)
    then show ?thesis using split(2) by (intro disjI2 exI [of _ ms1] exI [of _ "ms2 @ [m]"]) simp
  qed
  ultimately show ?thesis using wa b'(2) by (intro exI [of _ b'] exI [of _ ?h']) (simp add: ring_rel_def)
qed

lemma write_advance_gap:
  assumes rel: "ring_rel r ms" and res: "reserved r (length m) ptr" and g: "gapd r \<noteq> 0"
    and m: "get_bytes (rb_buf r) ptr (length m) = Some m"
  shows "\<exists>b' h'. ringbuf_write_advance r (of_nat (length m)) = Some (r\<lparr>rb_buf := b', rb_head := h'\<rparr>) \<and>
    ring_rel (r\<lparr>rb_buf := b', rb_head := h'\<rparr>) (ms @ [m]) \<and> live_agree r b'"
proof -
  let ?h = "rb_head r" and ?t = "rb_tail r" and ?n = "length m" and ?b = "rb_buf r"
  let ?w = "gapd r + 8 + RINGBUF_PAD (of_nat ?n)"
  let ?h' = "(?h + ?w) AND rb_mask r"
  have sh: "ring_shape r" using rel by (simp add: ring_rel_def)
  from sh obtain k where k: "k \<le> 31" "rb_mask r = 2 ^ k - 1" "length ?b = 2 ^ k" "(2::nat) ^ k \<le> 2 ^ 31" "(8::nat) dvd 2 ^ k"
    by (auto elim: shape_sizes)
  have lt: "unat ?h < 2 ^ k" "8 dvd unat ?h" "8 dvd unat ?t" using sh k by (auto simp: ring_shape_def)
  have h8: "unat ?h + 8 \<le> 2 ^ k" using less_dvd8 [OF lt(2) k(5) lt(1)] .
  have r: "?n \<le> unat (rsvd r)" "?n + 7 < 2 ^ 32" "ptr = 8" "unat (gapd r) = 2 ^ k - unat ?h"
    "unat ?t \<le> unat ?h" "8 + pad8 ?n < unat ?t"
    using res g k by (auto simp: reserved_def Let_def)
  from put_element_ok [of "unat ?h" ?b "ucast (gapd r - 8)" 1] obtain b1 where
    b1: "put_element ?b (unat ?h) (ucast (gapd r - 8)) 1 = Some b1" "get_element b1 (unat ?h) = Some (ucast (gapd r - 8), 1)"
    "\<forall>y z. z \<le> unat ?h \<or> unat ?h + 8 \<le> y \<longrightarrow> agree ?b b1 y z" using h8 k by auto
  have l1: "live_agree r b1" using b1(3) r(5) by (simp add: live_agree_def)
  have n1: "length b1 = 2 ^ k" using live_length [OF l1] k by simp
  have rel1: "ring_rel (r\<lparr>rb_buf := b1\<rparr>) ms" by (rule ring_rel_frame [OF rel l1])
  have res1: "reserved (r\<lparr>rb_buf := b1\<rparr>) ?n 8" using reserved_buf [of b1 r ?n 8] res r(3) n1 k by simp
  have m1: "get_bytes b1 8 ?n = Some m"
  proof -
    have "8 + ?n \<le> unat ?h" using r(5,6) pad8_ge [of ?n] by linarith
    then show ?thesis using get_agree [of ?b b1 8 "unat ?h" 8 ?n] b1(3) m r(3) by simp
  qed
  from element_live [OF rel1 res1, of "of_nat ?n" 0] obtain b2 where b2: "put_element b1 0 (of_nat ?n) 0 = Some b2"
    "live_agree (r\<lparr>rb_buf := b1\<rparr>) b2" "get_element b2 0 = Some (of_nat ?n, 0)" "get_bytes b2 8 ?n = Some m"
    using m1 by auto
  have n2: "length b2 = 2 ^ k" using live_length [OF b2(2)] n1 by simp
  have l2: "live_agree r b2" using l1 b2(2) r(5) agree_trans by (auto simp: live_agree_def)
  have gap: "get_element b2 (unat ?h) = Some (ucast (gapd r - 8), 1)"
  proof -
    from put_element_ok [of 0 b1 "of_nat ?n" 0] have "agree b1 b2 8 (2 ^ k)" using b2(1) n1 h8 by auto
    then show ?thesis using element_agree [of b1 b2 8 "2 ^ k" "unat ?h"] b1(2) h8 r(5,6) by simp
  qed
  have uw: "unat ?w = 2 ^ k - unat ?h + (8 + pad8 ?n)"
  proof -
    have "unat (gapd r + (8 + RINGBUF_PAD (of_nat ?n))) = unat (gapd r) + (8 + pad8 ?n)"
      using k r pad8_less [of ?n] unat_step [OF r(2)] by (subst unat_add_no_wrap) simp_all
    then show ?thesis using r(4) by (simp add: add.assoc)
  qed
  have h': "unat ?h' = 8 + pad8 ?n"
  proof -
    have "unat ?h + unat ?w = 2 ^ k + (8 + pad8 ?n)" using uw lt by simp
    then have "unat ?h' = (2 ^ k + (8 + pad8 ?n)) mod 2 ^ k"
      using advance_pos [OF k(1), of ?h ?w] k r pad8_less [of ?n] by simp
    also have "\<dots> = 8 + pad8 ?n" using r(5,6) lt by simp
    finally show ?thesis .
  qed
  have "ucast (of_nat ?n :: u64) = (of_nat ?n :: u32)"
    using r(2) by (simp add: word_unat_eq_iff unat_of_nat unsigned_ucast_eq take_bit_nat_eq_self)
  moreover have "of_nat ?n \<le> rsvd r" using r(1) unat_length [OF r(2)] by (simp add: word_le_nat_alt)
  moreover have "0 < gapd r" using g by (simp add: word_neq_0_conv)
  ultimately have wa: "ringbuf_write_advance r (of_nat ?n) = Some (r\<lparr>rb_buf := b2, rb_head := ?h'\<rparr>)"
    using b1(1) b2(1) by (simp add: ringbuf_write_advance_def ringbuf_write_advance_raw_def Let_def)
  have "seg b2 (unat ?t) ms (unat ?h)"
    using ring_rel_frame [OF rel l2] r(5) by (cases rule: ring_rel_cases) auto
  then have "wrapped b2 (unat ?t) ms [m] (unat ?h')"
    using gap h' h8 n2 b2(3,4) r by (auto simp: wrapped_def)
  moreover have "ring_shape (r\<lparr>rb_buf := b2, rb_head := ?h'\<rparr>)"
    using sh h' r lt n2 k by (auto simp: ring_shape_def)
  ultimately show ?thesis using wa l2 by (intro exI [of _ b2] exI [of _ ?h']) (auto simp: ring_rel_def)
qed

lemma write_advance_ok:
  assumes "ring_rel r ms" "reserved r (length m) ptr" "get_bytes (rb_buf r) ptr (length m) = Some m"
  shows "\<exists>b' h'. ringbuf_write_advance r (of_nat (length m)) = Some (r\<lparr>rb_buf := b', rb_head := h'\<rparr>) \<and>
    ring_rel (r\<lparr>rb_buf := b', rb_head := h'\<rparr>) (ms @ [m]) \<and> live_agree r b'"
  using write_advance_straight [OF assms(1,2) _ assms(3)] write_advance_gap [OF assms(1,2) _ assms(3)]
  by (cases "gapd r = 0") blast+

section \<open>Creation\<close>

lemma body_size_pow2:
  assumes "unat n \<le> 2 ^ 63"
  shows "\<exists>k. ringbuf_body_size n = Some (2 ^ k) \<and> k \<le> 63 \<and> unat n \<le> 2 ^ k \<and> (k = 0 \<or> 2 ^ (k - 1) < unat n)"
proof -
  let ?P = "\<lambda>sz. \<exists>k. sz = 2 ^ k \<and> k \<le> 63 \<and> (k = 0 \<or> 2 ^ (k - 1) < unat n)"
  have "\<exists>x. ringbuf_body_size n = Some x \<and> ?P x \<and> unat n \<le> unat x"
    unfolding ringbuf_body_size_def
  proof (rule loop_total [where P = ?P and m = "\<lambda>sz :: u64. unat n - unat sz"])
    show "?P (1 :: u64)" by (intro exI [of _ 0]) simp
  next
    fix sz :: u64
    assume "?P sz"
    then obtain k where k: "sz = 2 ^ k" "k \<le> 63" "k = 0 \<or> 2 ^ (k - 1) < unat n" by blast
    have u: "unat sz = 2 ^ k" using k by (simp add: unat_pow2)
    show "(\<exists>x. Some (if sz < n then Inl (push_bit 1 sz) else Inr sz) = Some (Inr x) \<and> ?P x \<and> unat n \<le> unat x) \<or>
      (\<exists>s'. Some (if sz < n then Inl (push_bit 1 sz) else Inr sz) = Some (Inl s') \<and> ?P s' \<and> unat n - unat s' < unat n - unat sz)"
    proof (cases "sz < n")
      case True
      then have l: "2 ^ k < unat n" using u by (simp add: word_less_nat_alt)
      then have "(2::nat) ^ k < 2 ^ 63" using assms by linarith
      then have "k < 63" by (rule power_less_imp_less_exp [rotated]) simp
      then have "push_bit 1 sz = 2 ^ Suc k" "unat (2 ^ Suc k :: u64) = 2 ^ Suc k"
        using k(1) unat_pow2 [of "Suc k", where 'a = 64] by (simp_all add: push_bit_eq_mult)
      moreover have "?P (2 ^ Suc k :: u64)" using l \<open>k < 63\<close> by (intro exI [of _ "Suc k"]) simp
      moreover have "unat n - 2 * x < unat n - x" if "0 < x" "x < unat n" for x :: nat using that by linarith
      from this [of "2 ^ k"] have "unat n - 2 ^ Suc k < unat n - 2 ^ k" using l by simp
      ultimately show ?thesis using True u by (intro disjI2 exI [of _ "2 ^ Suc k"]) simp
    next
      case False
      then show ?thesis using k u by (auto simp: word_less_nat_alt)
    qed
  qed
  then show ?thesis by (auto simp: unat_pow2)
qed

text \<open>Above \<open>2 ^ 63\<close> the doubled size wraps to zero and the loop never ends.\<close>

lemma body_size_diverges:
  assumes "2 ^ 63 < unat n"
  shows "ringbuf_body_size n = None"
proof (rule ccontr)
  assume "ringbuf_body_size n \<noteq> None"
  then obtain x where x: "loop (\<lambda>sz. Some (if sz < n then Inl (push_bit 1 sz) else Inr sz)) 1 = Some x"
    by (auto simp: ringbuf_body_size_def)
  let ?P = "\<lambda>sz :: u64. sz = 0 \<or> (\<exists>k \<le> 63. sz = 2 ^ k)"
  have lt: "sz < n" if p: "?P sz" for sz
  proof -
    have "(2::nat) ^ k \<le> 2 ^ 63" if "k \<le> 63" for k using that by (rule power_increasing) simp
    then have "unat sz \<le> 2 ^ 63" using p by (auto simp: unat_pow2 simp del: power_numeral)
    then show ?thesis using assms by (simp add: word_less_nat_alt)
  qed
  have nx: "?P (push_bit 1 sz)" if p: "?P sz" for sz
  proof (cases "sz = 0")
    case False
    then obtain k where k: "k \<le> 63" "sz = 2 ^ k" using p by auto
    show ?thesis
    proof (cases "k = 63")
      case True
      then show ?thesis using k by simp
    next
      case False
      then show ?thesis using k by (intro disjI2 exI [of _ "Suc k"]) (simp add: push_bit_eq_mult)
    qed
  qed simp
  have "False"
  proof (rule loop_partial [where P = ?P and Q = "\<lambda>_. False", OF x])
    show "?P 1" by (intro disjI2 exI [of _ 0]) simp
  qed (use lt nx in \<open>auto split: if_splits\<close>)
  then show False .
qed

end
