(* ===== verification/Ring_Shm_Test.thy ===== *)
theory Ring_Shm_Test
  imports Ring_Shm_Correct
begin

text \<open>
  The programs built on the message ring: the producer and consumer of the test, whatever order
  their steps take, a client that sends and receives whole messages, and processes that attach to
  the ring by name.
\<close>

section \<open>The payload of the test\<close>

fun chunk :: "nat \<Rightarrow> u64 \<Rightarrow> u8 list" where
  "chunk 0 v = []"
| "chunk (Suc j) v = chunk j v @ le_bytes 8 v"

lemma length_chunk [simp]: "length (chunk j v) = 8 * j"
  by (induction j) simp_all

lemma chunk_word: "i < j \<Longrightarrow> take 8 (drop (8 * i) (chunk j v)) = le_bytes 8 v"
proof (induction j)
  case (Suc j)
  show ?case
  proof (cases "i = j")
    case False
    then have "8 * i + 8 \<le> 8 * j" using Suc.prems by simp
    then show ?thesis using Suc False by simp
  qed simp
qed simp

lemma get_bytes_snoc:
  assumes "agree b b' a (a + n)" "get_bytes b a n = Some m" "get_bytes b' (a + n) k = Some m'"
  shows "get_bytes b' a (n + k) = Some (m @ m')"
proof -
  have "get_bytes b' a n = Some m" using get_agree [OF assms(1), of a n] assms(2) by simp
  then show ?thesis
    using assms(3) by (auto simp: get_bytes_def take_add add.commute [of a n] split: if_splits)
qed

lemma to_float_le:
  assumes "n < 2 ^ 31"
  shows "to_float n \<le> 2 ^ 31"
proof -
  define e where "e = floorlog 2 n - 24"
  have "floorlog 2 n \<le> 31" using assms by (intro floorlog_leI) simp_all
  then have e: "e \<le> 31" by (simp add: e_def)
  have "n div 2 ^ e < 2 ^ (31 - e)"
  proof (rule less_mult_imp_div_less)
    show "n < 2 ^ (31 - e) * 2 ^ e" using assms e by (simp flip: power_add)
  qed
  then have "(n div 2 ^ e + 1) * 2 ^ e \<le> 2 ^ (31 - e) * 2 ^ e" by (intro mult_le_mono1) simp
  also have "\<dots> = 2 ^ 31" using e by (simp flip: power_add)
  finally have "(n div 2 ^ e + 1) * 2 ^ e \<le> 2 ^ 31" .
  then show ?thesis by (simp add: to_float_def Let_def flip: e_def)
qed

lemma draw_size_le: "unat (draw_size rnd) \<le> 1024"
proof -
  have "unat rnd < 2 ^ LENGTH(31)" by (rule unsigned_less)
  then have "to_float (unat rnd) \<le> 2 ^ 31" by (intro to_float_le) simp
  then have "to_float (unat rnd) * 1024 div 2 ^ 31 \<le> 1024" by (simp add: div_le_mono)
  then show ?thesis by (simp add: draw_size_def unat_of_nat)
qed

lemma written_size: "\<exists>j \<le> 128. PAD (draw_size rnd) = of_nat (8 * j)"
proof -
  let ?n = "unat (draw_size rnd)"
  have "pad8 ?n = 8 * ((?n + 7) div 8)" by (simp add: pad8_def)
  moreover have "(?n + 7) div 8 \<le> 128" using draw_size_le [of rnd] by simp
  moreover have "unat (PAD (draw_size rnd)) = pad8 ?n"
    using unat_RINGBUF_PAD [of "draw_size rnd"] draw_size_le [of rnd] by (simp add: PAD_def RINGBUF_PAD_def)
  ultimately show ?thesis
    by (intro exI [of _ "(?n + 7) div 8"]) (simp add: word_unat_eq_iff unat_of_nat del: of_nat_mult)
qed

section \<open>The invariant of the test\<close>

text \<open>
  The ring holds the rounds that the producer has published and the consumer has not finished,
  in order; every message consists of copies of its round number.
\<close>

definition ring_ok :: "test_state \<Rightarrow> u8 list list \<Rightarrow> bool" where
  "ring_ok s ms \<longleftrightarrow> ring_rel (ring s) ms \<and> length (rb_buf (ring s)) = 8192 \<and> unat (p_cnt s) \<le> 10000 \<and>
     unat (c_cnt s) + length ms = unat (p_cnt s) \<and>
     (\<forall>i < length ms. \<exists>j \<le> 128. ms ! i = chunk j (of_nat (unat (c_cnt s) + i)))"

definition producer_ok :: "test_state \<Rightarrow> bool" where
  "producer_ok s \<longleftrightarrow> (case p_pos s of Idle \<Rightarrow> True
     | Payload src fin w \<Rightarrow> \<exists>ptr i j. src = ptr + 8 * i \<and> fin = ptr + 8 * j \<and> w = of_nat (8 * j) \<and> i \<le> j \<and> j \<le> 128 \<and>
         reserved (ring s) (8 * j) ptr \<and> unat (p_cnt s) < 10000 \<and>
         get_bytes (rb_buf (ring s)) ptr (8 * i) = Some (chunk i (p_cnt s)))"

definition consumer_ok :: "test_state \<Rightarrow> u8 list list \<Rightarrow> bool" where
  "consumer_ok s ms \<longleftrightarrow> (case c_pos s of Idle \<Rightarrow> True
     | Payload src fin w \<Rightarrow> \<exists>i j ms'. ms = chunk j (c_cnt s) # ms' \<and> ready (ring s) (chunk j (c_cnt s)) \<and>
         src = unat (rb_tail (ring s)) + 8 + 8 * i \<and> fin = unat (rb_tail (ring s)) + 8 + 8 * j \<and> i \<le> j)"

definition test_inv :: "test_state \<Rightarrow> bool" where
  "test_inv s \<longleftrightarrow> (\<exists>ms. ring_ok s ms \<and> producer_ok s \<and> consumer_ok s ms)"

fun rank :: "pos \<Rightarrow> nat" where
  "rank Idle = 2000"
| "rank (Payload src fin w) = 1 + (fin - src)"

definition lower :: "test_state \<Rightarrow> test_state \<Rightarrow> bool" where
  "lower s' s \<longleftrightarrow> (s', s) \<in> measures [\<lambda>s. 20000 - unat (p_cnt s) - unat (c_cnt s), \<lambda>s. rank (p_pos s) + rank (c_pos s)]"

definition finished :: "test_state \<Rightarrow> bool" where
  "finished s \<longleftrightarrow> p_cnt s = iterations \<and> c_cnt s = iterations \<and> p_pos s = Idle \<and> c_pos s = Idle"

lemma below_iterations: "x < iterations \<longleftrightarrow> unat x < 10000"
  by (simp add: iterations_def word_less_nat_alt)

lemma unat_next: "unat x < 10000 \<Longrightarrow> unat (x + 1) = unat x + 1" for x :: u64
  by (subst unat_add_no_wrap) simp_all

lemma lower_count:
  "unat (p_cnt s) + unat (c_cnt s) < unat (p_cnt s') + unat (c_cnt s') \<Longrightarrow> unat (p_cnt s) + unat (c_cnt s) < 20000 \<Longrightarrow> lower s' s"
  unfolding lower_def in_measures by linarith

lemma unat_bytes: "j \<le> 128 \<Longrightarrow> unat (of_nat (8 * j) :: u64) = 8 * j"
  by (simp add: unat_of_nat del: of_nat_mult)

lemma producer_idle:
  assumes inv: "ring_ok s ms" "consumer_ok s ms" and idle: "p_pos s = Idle"
  shows "\<exists>s'. producer_main rnd s = Some s' \<and> test_inv s' \<and>
    (ms = [] \<longrightarrow> unat (p_cnt s) < 10000 \<longrightarrow> lower s' s)"
proof (cases "p_cnt s < iterations")
  case False
  moreover have "producer_ok s" using idle by (simp add: producer_ok_def)
  ultimately show ?thesis using inv idle by (auto simp: producer_main_def test_inv_def below_iterations)
next
  case True
  obtain j where j: "j \<le> 128" "PAD (draw_size rnd) = of_nat (8 * j)" using written_size by blast
  have sh: "ring_shape (ring s)" and rel: "ring_rel (ring s) ms" and len: "length (rb_buf (ring s)) = 8192"
    using inv(1) by (auto simp: ring_ok_def ring_rel_def)
  have pj: "pad8 (8 * j) = 8 * j" by (simp add: pad8_id)
  obtain p r where w: "ringbuf_write_request_max (ring s) (of_nat (8 * j)) = (p, rsvd r, r)"
    "r = (ring s)\<lparr>rsvd := rsvd r, gapd := gapd r\<rparr>" "\<forall>ptr. p = Some ptr \<longrightarrow> reserved r (8 * j) ptr"
    "p = None \<longrightarrow> rb_head (ring s) = rb_tail (ring s) \<longrightarrow> 8192 \<le> 2 * (16 + 8 * j)"
    using write_request_ok [OF sh, of "of_nat (8 * j)"] j len unat_bytes [OF j(1)] pj
    by (auto simp del: of_nat_mult)
  have rok: "ring_rel r ms" "\<And>m. ready r m = ready (ring s) m" "rb_tail r = rb_tail (ring s)" "rb_buf r = rb_buf (ring s)"
  proof -
    show "ring_rel r ms" using rel by (subst w(2)) (simp add: ring_rel_def ring_shape_def)
    show "ready r m = ready (ring s) m" for m by (subst w(2)) (simp add: ready_def)
    show "rb_tail r = rb_tail (ring s)" "rb_buf r = rb_buf (ring s)" by (subst w(2), simp)+
  qed
  show ?thesis
  proof (cases p)
    case None
    then have "producer_main rnd s = Some (s\<lparr>ring := r\<rparr>)"
      using idle True w(1) j(2) by (simp add: producer_main_def)
    moreover have "ring_ok (s\<lparr>ring := r\<rparr>) ms" "consumer_ok (s\<lparr>ring := r\<rparr>) ms" "producer_ok (s\<lparr>ring := r\<rparr>)"
      using inv rok idle len by (simp_all add: ring_ok_def consumer_ok_def producer_ok_def split: pos.splits)
    moreover have "ms \<noteq> []"
    proof
      assume "ms = []"
      then have "rb_head (ring s) = rb_tail (ring s)"
        using rel by (auto simp: ring_rel_def wrapped_def word_unat_eq_iff)
      then show False using w(4) None j(1) by simp
    qed
    ultimately show ?thesis by (auto simp: test_inv_def)
  next
    case (Some ptr)
    then have res: "reserved r (8 * j) ptr" using w(3) by simp
    let ?s = "s\<lparr>ring := r, p_pos := Payload ptr (ptr + 8 * j) (of_nat (8 * j))\<rparr>"
    have "8 * j \<le> unat (rsvd r)" using res by (simp add: reserved_def)
    then have "of_nat (8 * j) \<le> rsvd r" using unat_bytes [OF j(1)] by (simp add: word_le_nat_alt del: of_nat_mult)
    then have "producer_main rnd s = Some ?s"
      using idle True w(1) j(2) Some unat_bytes [OF j(1)] by (simp add: producer_main_def del: of_nat_mult)
    moreover have "producer_ok ?s"
    proof -
      have "get_bytes (rb_buf r) ptr 0 = Some []"
        using res rok len by (auto simp: get_bytes_def reserved_def Let_def)
      then show ?thesis using res True j(1) unfolding producer_ok_def
        by (simp add: below_iterations del: of_nat_mult) (intro exI [of _ ptr] exI [of _ 0] exI [of _ j], simp)
    qed
    moreover have "ring_ok ?s ms" "consumer_ok ?s ms"
      using inv rok len by (simp_all add: ring_ok_def consumer_ok_def split: pos.splits)
    moreover have "lower ?s s" using idle j(1) by (simp add: lower_def)
    ultimately show ?thesis by (auto simp: test_inv_def)
  qed
qed

lemma producer_fill:
  assumes inv: "ring_ok s ms" "producer_ok s" "consumer_ok s ms" and pos: "p_pos s = Payload src fin w" "src < fin"
  shows "\<exists>s'. producer_main rnd s = Some s' \<and> test_inv s' \<and> lower s' s"
proof -
  let ?b = "rb_buf (ring s)"
  obtain ptr i j where p: "src = ptr + 8 * i" "fin = ptr + 8 * j" "w = of_nat (8 * j)" "i \<le> j" "j \<le> 128"
    "reserved (ring s) (8 * j) ptr" "unat (p_cnt s) < 10000" "get_bytes ?b ptr (8 * i) = Some (chunk i (p_cnt s))"
    using inv(2) pos by (auto simp: producer_ok_def)
  have ij: "i < j" using p(1,2) pos(2) by simp
  have rel: "ring_rel (ring s) ms" using inv(1) by (simp add: ring_ok_def)
  obtain b' where b': "put_bytes ?b src (le_bytes 8 (p_cnt s)) = Some b'" "live_agree (ring s) b'"
    "get_bytes b' src 8 = Some (le_bytes 8 (p_cnt s))" "agree ?b b' ptr src"
    using put_payload [OF rel p(6), of src "le_bytes 8 (p_cnt s)"] p(1) ij by (auto simp: pad8_id)
  let ?r = "(ring s)\<lparr>rb_buf := b'\<rparr>"
  let ?s = "s\<lparr>ring := ?r, p_pos := Payload (src + 8) fin w\<rparr>"
  have "producer_main rnd s = Some ?s" using pos b' by (simp add: producer_main_def)
  moreover have "ring_ok ?s ms"
    using inv(1) ring_rel_frame [OF rel b'(2)] live_length [OF b'(2)] by (simp add: ring_ok_def)
  moreover have "consumer_ok ?s ms"
    using inv(3) ready_frame [OF _ _ b'(2)] rel by (fastforce simp: consumer_ok_def split: pos.splits)
  moreover have "producer_ok ?s"
  proof -
    have "get_bytes b' ptr (8 * i + 8) = Some (chunk i (p_cnt s) @ le_bytes 8 (p_cnt s))"
      using get_bytes_snoc [of ?b b' ptr "8 * i"] b'(3,4) p(1,8) by simp
    then have "get_bytes b' ptr (8 * Suc i) = Some (chunk (Suc i) (p_cnt s))" by (simp add: add.commute)
    moreover have "reserved ?r (8 * j) ptr" using reserved_buf [OF live_length [OF b'(2)] p(6)] .
    moreover have "src + 8 = ptr + 8 * Suc i" using p(1) by simp
    ultimately show ?thesis
      using p(2,3,5,7) ij unfolding producer_ok_def
      by (simp del: of_nat_mult chunk.simps mult_Suc_right) (intro exI [of _ ptr] exI [of _ "Suc i"] exI [of _ j], simp)
  qed
  moreover have "lower ?s s" using pos by (auto simp: lower_def)
  ultimately show ?thesis by (auto simp: test_inv_def)
qed

lemma producer_publish:
  assumes inv: "ring_ok s ms" "producer_ok s" "consumer_ok s ms" and pos: "p_pos s = Payload src fin w" "\<not> src < fin"
  shows "\<exists>s'. producer_main rnd s = Some s' \<and> test_inv s' \<and> lower s' s"
proof -
  let ?b = "rb_buf (ring s)"
  obtain ptr i j where p: "src = ptr + 8 * i" "fin = ptr + 8 * j" "w = of_nat (8 * j)" "i \<le> j" "j \<le> 128"
    "reserved (ring s) (8 * j) ptr" "unat (p_cnt s) < 10000" "get_bytes ?b ptr (8 * i) = Some (chunk i (p_cnt s))"
    using inv(2) pos by (auto simp: producer_ok_def)
  let ?m = "chunk j (p_cnt s)"
  have ij: "i = j" using p(1,2,4) pos(2) by simp
  have rel: "ring_rel (ring s) ms" using inv(1) by (simp add: ring_ok_def)
  obtain b' h' where b': "ringbuf_write_advance (ring s) (of_nat (8 * j)) = Some ((ring s)\<lparr>rb_buf := b', rb_head := h'\<rparr>)"
    "ring_rel ((ring s)\<lparr>rb_buf := b', rb_head := h'\<rparr>) (ms @ [?m])" "live_agree (ring s) b'"
    using write_advance_ok [OF rel, of ?m ptr] p ij by (auto simp del: of_nat_mult)
  let ?r = "(ring s)\<lparr>rb_buf := b', rb_head := h'\<rparr>"
  let ?s = "s\<lparr>ring := ?r, p_cnt := p_cnt s + 1, p_pos := Idle\<rparr>"
  have "producer_main rnd s = Some ?s" using pos b'(1) p(3) by (simp add: producer_main_def del: of_nat_mult)
  moreover have e: "c_cnt s + of_nat (length ms) = p_cnt s"
    using inv(1) by (auto simp: ring_ok_def word_unat_eq_iff unat_word_ariths unat_of_nat)
  have "ring_ok ?s (ms @ [?m])"
    using inv(1) b'(2) live_length [OF b'(3)] unat_next [OF p(7)] p(7) e
    using p(5) by (auto simp: ring_ok_def nth_append less_Suc_eq)
  moreover have "consumer_ok ?s (ms @ [?m])"
    using inv(3) ready_frame [OF _ _ b'(3)] rel by (fastforce simp: consumer_ok_def ready_def split: pos.splits)
  moreover have "producer_ok ?s" by (simp add: producer_ok_def)
  moreover have "unat (c_cnt s) \<le> unat (p_cnt s)" using inv(1) by (simp add: ring_ok_def)
  then have "lower ?s s" using p(7) unat_next [OF p(7)] by (intro lower_count) simp_all
  ultimately show ?thesis by (auto simp: test_inv_def)
qed

lemma consumer_idle:
  assumes inv: "ring_ok s ms" "producer_ok s" and idle: "c_pos s = Idle"
  shows "\<exists>s'. consumer_main s = Some s' \<and> test_inv s' \<and> (ms \<noteq> [] \<longrightarrow> lower s' s)"
proof (cases "c_cnt s < iterations")
  case False
  moreover have "consumer_ok s ms" using idle by (simp add: consumer_ok_def)
  moreover have "unat (c_cnt s) + length ms \<le> 10000" using inv(1) by (simp add: ring_ok_def)
  then have "length ms = 0" using False unfolding below_iterations by linarith
  ultimately show ?thesis using inv idle by (auto simp: consumer_main_def test_inv_def)
next
  case True
  have rel: "ring_rel (ring s) ms" using inv(1) by (simp add: ring_ok_def)
  show ?thesis
  proof (cases ms)
    case Nil
    have "consumer_main s = Some s"
      using read_request_empty [of "ring s"] rel Nil idle True by (simp add: consumer_main_def)
    moreover have "consumer_ok s ms" using idle by (simp add: consumer_ok_def)
    ultimately show ?thesis using inv Nil by (auto simp: test_inv_def)
  next
    case (Cons m ms')
    obtain r where r: "ringbuf_read_request (ring s) = Some (Some (unat (rb_tail r) + 8), of_nat (length m), r)"
      "ring_rel r ms" "ready r m" "r = (ring s)\<lparr>rb_tail := rb_tail r\<rparr>"
      "tail_moves (unat (rb_head (ring s))) (unat (rb_tail (ring s))) (unat (rb_tail r))"
      using read_request_some [of "ring s" m ms'] rel Cons by auto
    have buf: "rb_buf r = rb_buf (ring s)" by (subst r(4)) simp
    obtain j where j: "j \<le> 128" "m = chunk j (c_cnt s)"
      using inv(1) Cons by (auto simp: ring_ok_def dest: spec [of _ 0])
    let ?p = "Payload (unat (rb_tail r) + 8) (unat (rb_tail r) + 8 + 8 * j) (of_nat (8 * j))"
    let ?s = "s\<lparr>ring := r, c_pos := ?p\<rparr>"
    have "consumer_main s = Some ?s"
      using idle True r(1) j unat_bytes [OF j(1)] by (simp add: consumer_main_def del: of_nat_mult)
    moreover have "ring_ok ?s ms" using inv(1) r(2) buf by (simp add: ring_ok_def)
    moreover have "producer_ok ?s"
      using inv(2) reserved_tail [OF _ r(5)] r(4) buf by (fastforce simp: producer_ok_def split: pos.splits)
    moreover have "consumer_ok ?s ms" using r(3) Cons j(2) by (simp add: consumer_ok_def)
    moreover have "lower ?s s" using idle j(1) by (simp add: lower_def)
    ultimately show ?thesis by (auto simp: test_inv_def)
  qed
qed

lemma consumer_check:
  assumes inv: "ring_ok s ms" "producer_ok s" "consumer_ok s ms" and pos: "c_pos s = Payload src fin w"
  shows "\<exists>s'. consumer_main s = Some s' \<and> test_inv s' \<and> lower s' s"
proof -
  let ?t = "rb_tail (ring s)" and ?b = "rb_buf (ring s)"
  obtain i j ms' where c: "ms = chunk j (c_cnt s) # ms'" "ready (ring s) (chunk j (c_cnt s))"
    "src = unat ?t + 8 + 8 * i" "fin = unat ?t + 8 + 8 * j" "i \<le> j"
    using inv(3) pos by (auto simp: consumer_ok_def)
  have rel: "ring_rel (ring s) (chunk j (c_cnt s) # ms')" using inv(1) c(1) by (simp add: ring_ok_def)
  show ?thesis
  proof (cases "src < fin")
    case True
    then have ij: "i < j" using c(3,4) by simp
    have "get_bytes ?b (unat ?t + 8) (8 * j) = Some (chunk j (c_cnt s))" using c(2) by (simp add: ready_def)
    from get_bytes_slice [OF this, of "8 * i" 8] have "get_bytes ?b src 8 = Some (le_bytes 8 (c_cnt s))"
      using ij chunk_word [OF ij] c(3) by simp
    then have "consumer_main s = Some (s\<lparr>c_pos := Payload (src + 8) fin w\<rparr>)"
      using pos True by (simp add: consumer_main_def)
    moreover have "consumer_ok (s\<lparr>c_pos := Payload (src + 8) fin w\<rparr>) ms"
      using c ij unfolding consumer_ok_def
      by (simp del: chunk.simps mult_Suc_right) (intro exI [of _ "Suc i"], simp)
    moreover have "ring_ok (s\<lparr>c_pos := Payload (src + 8) fin w\<rparr>) ms" "producer_ok (s\<lparr>c_pos := Payload (src + 8) fin w\<rparr>)"
      using inv(1,2) by (simp_all add: ring_ok_def producer_ok_def split: pos.splits)
    moreover have "lower (s\<lparr>c_pos := Payload (src + 8) fin w\<rparr>) s" using pos True by (auto simp: lower_def)
    ultimately show ?thesis by (auto simp: test_inv_def)
  next
    case False
    obtain t' where t': "ringbuf_read_advance (ring s) = Some ((ring s)\<lparr>rb_tail := t'\<rparr>)"
      "ring_rel ((ring s)\<lparr>rb_tail := t'\<rparr>) ms'"
      "tail_moves (unat (rb_head (ring s))) (unat ?t) (unat t')"
      using read_advance_ok [OF rel c(2)] by auto
    let ?s = "s\<lparr>ring := (ring s)\<lparr>rb_tail := t'\<rparr>, c_cnt := c_cnt s + 1, c_pos := Idle\<rparr>"
    have "consumer_main s = Some ?s" using pos False t'(1) by (simp add: consumer_main_def)
    moreover have lt: "unat (c_cnt s) < unat (p_cnt s)" "unat (p_cnt s) \<le> 10000" using inv(1) c(1) by (auto simp: ring_ok_def)
    then have nx: "unat (c_cnt s + 1) = unat (c_cnt s) + 1" by (intro unat_next) simp
    have "ring_ok ?s ms'"
      unfolding ring_ok_def
    proof (intro conjI allI impI)
      fix k
      assume "k < length ms'"
      then have "\<exists>j \<le> 128. ms ! Suc k = chunk j (of_nat (unat (c_cnt s) + Suc k))"
        using inv(1) c(1) unfolding ring_ok_def by (metis Suc_less_eq length_Cons)
      then show "\<exists>j \<le> 128. ms' ! k = chunk j (of_nat (unat (c_cnt ?s) + k))" using c(1) nx by (simp add: algebra_simps)
    qed (use inv(1) c(1) t'(2) nx in \<open>auto simp: ring_ok_def\<close>)
    moreover have "producer_ok ?s"
      using inv(2) reserved_tail [OF _ t'(3)] by (fastforce simp: producer_ok_def split: pos.splits)
    moreover have "consumer_ok ?s ms'" by (simp add: consumer_ok_def)
    moreover have "lower ?s s" using lt nx by (intro lower_count) simp_all
    ultimately show ?thesis by (auto simp: test_inv_def)
  qed
qed

section \<open>All interleavings\<close>

lemma producer_step:
  assumes "test_inv s"
  shows "\<exists>s'. producer_main rnd s = Some s' \<and> test_inv s' \<and>
    (p_pos s \<noteq> Idle \<or> p_cnt s = c_cnt s \<and> unat (p_cnt s) < 10000 \<longrightarrow> lower s' s)"
proof -
  obtain ms where ms: "ring_ok s ms" "producer_ok s" "consumer_ok s ms" using assms by (auto simp: test_inv_def)
  show ?thesis
  proof (cases "p_pos s")
    case Idle
    moreover have "p_cnt s = c_cnt s \<longrightarrow> ms = []" using ms(1) by (auto simp: ring_ok_def)
    ultimately show ?thesis using producer_idle [OF ms(1,3) Idle, of rnd] by auto
  next
    case (Payload src fin w)
    then show ?thesis
      using producer_fill [OF ms Payload, of rnd] producer_publish [OF ms Payload, of rnd] by (cases "src < fin") auto
  qed
qed

lemma consumer_step:
  assumes "test_inv s"
  shows "\<exists>s'. consumer_main s = Some s' \<and> test_inv s' \<and> (c_pos s \<noteq> Idle \<or> p_cnt s \<noteq> c_cnt s \<longrightarrow> lower s' s)"
proof -
  obtain ms where ms: "ring_ok s ms" "producer_ok s" "consumer_ok s ms" using assms by (auto simp: test_inv_def)
  show ?thesis
  proof (cases "c_pos s")
    case Idle
    moreover have "p_cnt s \<noteq> c_cnt s \<longrightarrow> ms \<noteq> []" using ms(1) by (auto simp: ring_ok_def word_unat_eq_iff)
    ultimately show ?thesis using consumer_idle [OF ms(1,2) Idle] by auto
  next
    case (Payload src fin w)
    then show ?thesis using consumer_check [OF ms Payload] by blast
  qed
qed

lemma test_step_ok: "test_inv s \<Longrightarrow> \<exists>s'. test_step e s = Some s' \<and> test_inv s'"
  using producer_step [of s] consumer_step [of s] by (cases e) force+

text \<open>Unless both threads are done, one of them can take a step that brings the end nearer.\<close>

lemma test_progress:
  assumes "test_inv s" "\<not> finished s"
  shows "\<exists>e s'. test_step e s = Some s' \<and> test_inv s' \<and> lower s' s"
proof (cases "c_pos s \<noteq> Idle \<or> p_cnt s \<noteq> c_cnt s")
  case True
  then show ?thesis using consumer_step [OF assms(1)] by (intro exI [of _ Consumer]) auto
next
  case False
  have "p_pos s \<noteq> Idle \<or> p_cnt s = c_cnt s \<and> unat (p_cnt s) < 10000"
  proof (rule ccontr)
    assume n: "\<not> ?thesis"
    then have "unat (p_cnt s) = 10000" using assms(1) False by (auto simp: test_inv_def ring_ok_def)
    then have "p_cnt s = iterations" by (simp add: iterations_def word_unat_eq_iff)
    then show False using assms(2) n False by (simp add: finished_def)
  qed
  then show ?thesis using producer_step [OF assms(1)] by (intro exI [of _ "Producer 0"]) auto
qed

lemma test_completes: "test_inv s \<Longrightarrow> \<exists>es s'. exec test_step es s = Some s' \<and> finished s'"
proof (induction s rule: wf_induct_rule [OF wf_measures [of "[\<lambda>s. 20000 - unat (p_cnt s) - unat (c_cnt s), \<lambda>s. rank (p_pos s) + rank (c_pos s)]"]])
  case (1 s)
  show ?case
  proof (cases "finished s")
    case True
    then show ?thesis by (intro exI [of _ "[]"] exI [of _ s]) simp
  next
    case False
    from test_progress [OF 1(2) False] obtain e s1 where e: "test_step e s = Some s1" "test_inv s1" "lower s1 s" by blast
    from 1(1) [OF e(3) [unfolded lower_def] e(2)] obtain es s' where "exec test_step es s1 = Some s'" "finished s'" by blast
    with e(1) show ?thesis by (intro exI [of _ "e # es"] exI [of _ s']) simp
  qed
qed

section \<open>Making the ring\<close>

lemma body_size_8192: "ringbuf_body_size 8192 = Some (2 ^ 13)"
proof -
  obtain k where k: "ringbuf_body_size 8192 = Some (2 ^ k)" "k = 0 \<or> (2::nat) ^ (k - 1) < 2 ^ 13" "(2::nat) ^ 13 \<le> 2 ^ k"
    using body_size_pow2 [of 8192] by auto
  have "13 \<le> k" using k(3) by (rule power_le_imp_le_exp [rotated]) simp
  moreover have "k - 1 < 13"
    using k(2) \<open>13 \<le> k\<close> power_less_imp_less_exp [of "2::nat" "k - 1" 13] by simp
  ultimately have "k = 13" by simp
  then show ?thesis using k(1) by simp
qed

lemma init_rel:
  assumes "3 \<le> k" "k \<le> 31" "length (rb_buf r) = 2 ^ k"
  shows "ring_rel (ringbuf_init r (2 ^ k) b) []"
  using assms by (auto simp: ring_rel_def ring_shape_def ringbuf_init_def)

definition memalign_law :: "(u64 \<Rightarrow> ringbuf_t option) \<Rightarrow> bool" where
  "memalign_law memalign \<longleftrightarrow> (\<forall>n r. memalign n = Some r \<longrightarrow> length (rb_buf r) + 56 = unat n)"

lemma new_rel:
  assumes "ringbuf_new memalign n b = Some (Some r)" "memalign_law memalign" "unat n \<le> 2 ^ 31" "8 \<le> unat n"
  shows "ring_rel r [] \<and> unat n \<le> length (rb_buf r)"
proof -
  obtain k where k: "ringbuf_body_size n = Some (2 ^ k)" "unat n \<le> 2 ^ k" "k = 0 \<or> 2 ^ (k - 1) < unat n"
    using body_size_pow2 [of n] assms(3) by auto
  have "(2::nat) ^ 3 \<le> 2 ^ k" using k(2) assms(4) by simp
  then have k3: "3 \<le> k" by (rule power_le_imp_le_exp [rotated]) simp
  then have "(2::nat) ^ (k - 1) < 2 ^ 31" using k(3) assms(3) by simp
  then have k31: "k \<le> 31" using power_less_imp_less_exp [of "2::nat" "k - 1" 31] by simp
  obtain r0 where r0: "memalign (56 + 2 ^ k) = Some r0" "r = ringbuf_init r0 (2 ^ k) b"
    using assms(1) k(1) by (auto simp: ringbuf_new_def sizeof_ringbuf_def split: option.splits)
  have "(2::nat) ^ k \<le> 2 ^ 31" using k31 by (intro power_increasing) simp_all
  then have "unat (56 + 2 ^ k :: u64) = 56 + 2 ^ k" using k31 by (subst unat_add_no_wrap) (simp_all add: unat_pow2)
  moreover have "length (rb_buf r0) + 56 = unat (56 + 2 ^ k :: u64)" using assms(2) r0(1) by (simp add: memalign_law_def)
  ultimately have "length (rb_buf r0) = 2 ^ k" by simp
  then show ?thesis using init_rel [OF k3 k31] r0(2) k(2) by (simp add: ringbuf_init_def)
qed

lemma start_inv:
  assumes "ring_rel r []" "length (rb_buf r) = 8192"
  shows "test_inv (test_start r)"
  using assms by (auto simp: test_inv_def test_start_def ring_ok_def producer_ok_def consumer_ok_def intro!: exI [of _ "[]"])

definition fresh_ring :: "nat \<Rightarrow> ringbuf_t" where
  "fresh_ring k = ringbuf_init (zero_ringbuf\<lparr>rb_buf := replicate (2 ^ k) 0\<rparr>) (2 ^ k) True"

lemma fresh_ring_rel: "3 \<le> k \<Longrightarrow> k \<le> 31 \<Longrightarrow> ring_rel (fresh_ring k) []"
  unfolding fresh_ring_def by (rule init_rel) simp_all

interpretation ring_test: total_system "test_start (fresh_ring 13)" test_step test_inv
proof
  show "test_inv (test_start (fresh_ring 13))"
    by (rule start_inv) (simp_all add: fresh_ring_rel, simp add: fresh_ring_def ringbuf_init_def)
  show "test_inv s'" if i: "test_inv s" and e: "test_step e s = Some s'" for s e s'
    using test_step_ok [OF i, of e] e by auto
  show "\<exists>s'. test_step e s = Some s'" if i: "test_inv s" for s e
    using test_step_ok [OF i, of e] by auto
qed

section \<open>Whole messages\<close>

text \<open>
  A client that sends a message (request, copy, advance) and one that receives a message
  (request, copy, advance).
\<close>

definition send :: "u8 list \<Rightarrow> ringbuf_t \<Rightarrow> ringbuf_t option" where
  "send m r = (case ringbuf_write_request_max r (of_nat (length m)) of
     (None, _, r) \<Rightarrow> None
   | (Some ptr, _, r) \<Rightarrow> do {
       b \<leftarrow> put_bytes (rb_buf r) ptr m;
       ringbuf_write_advance (r\<lparr>rb_buf := b\<rparr>) (of_nat (length m)) })"

definition recv :: "ringbuf_t \<Rightarrow> (u8 list option \<times> ringbuf_t) option" where
  "recv r = do {
     (p, n, r) \<leftarrow> ringbuf_read_request r;
     (case p of None \<Rightarrow> Some (None, r)
      | Some ptr \<Rightarrow> do {
          m \<leftarrow> get_bytes (rb_buf r) ptr (unat n);
          r \<leftarrow> ringbuf_read_advance r;
          Some (Some m, r) }) }"

definition granted :: "u8 list \<Rightarrow> ringbuf_t \<Rightarrow> bool" where
  "granted m r \<longleftrightarrow> length m + 7 < 2 ^ 32 \<and> fst (ringbuf_write_request_max r (of_nat (length m))) \<noteq> None"

lemma send_rel:
  assumes rel: "ring_rel r ms" and g: "granted m r"
  shows "\<exists>r'. send m r = Some r' \<and> ring_rel r' (ms @ [m])"
proof -
  have len: "length m + 7 < 2 ^ 32" using g by (simp add: granted_def)
  have sh: "ring_shape r" using rel by (simp add: ring_rel_def)
  note ul = unat_length [OF len]
  obtain p r1 where w: "ringbuf_write_request_max r (of_nat (length m)) = (p, rsvd r1, r1)"
    "r1 = r\<lparr>rsvd := rsvd r1, gapd := gapd r1\<rparr>" "\<forall>ptr. p = Some ptr \<longrightarrow> reserved r1 (length m) ptr"
    using write_request_ok [OF sh, of "of_nat (length m)"] ul len by auto
  obtain ptr where ptr: "p = Some ptr" "reserved r1 (length m) ptr" using g w by (auto simp: granted_def)
  have rel1: "ring_rel r1 ms" using rel by (subst w(2)) (simp add: ring_rel_def ring_shape_def)
  obtain b where b: "put_bytes (rb_buf r1) ptr m = Some b" "live_agree r1 b" "get_bytes b ptr (length m) = Some m"
    using put_payload [OF rel1 ptr(2), of ptr m] pad8_ge [of "length m"] by auto
  let ?r = "r1\<lparr>rb_buf := b\<rparr>"
  have "reserved ?r (length m) ptr" by (rule reserved_buf [OF live_length [OF b(2)] ptr(2)])
  from write_advance_ok [OF ring_rel_frame [OF rel1 b(2)] this] b(3)
  show ?thesis using w(1) ptr(1) b(1) by (auto simp: send_def)
qed

interpretation ring_queue: fifo_queue ring_rel "\<lambda>m r ms. granted m r" "\<lambda>m. m" send recv
proof
  show "\<exists>r'. send m r = Some r' \<and> ring_rel r' (ms @ [m])" if "ring_rel r ms" "granted m r" for r ms m
    using that by (rule send_rel)
  show "\<exists>r'. recv r = Some (None, r') \<and> ring_rel r' []" if "ring_rel r []" for r
    using read_request_empty [OF that] that by (simp add: recv_def)
  show "\<exists>r'. recv r = Some (Some m, r') \<and> ring_rel r' ms" if rel: "ring_rel r (m # ms)" for r m ms
  proof -
    obtain r1 where r1: "ringbuf_read_request r = Some (Some (unat (rb_tail r1) + 8), of_nat (length m), r1)"
      "ring_rel r1 (m # ms)" "ready r1 m" using read_request_some [OF rel] by blast
    have "length m + 7 < 2 ^ 32"
      using r1(2) by (cases rule: ring_rel_cases) (auto simp: wrapped_def Cons_eq_append_conv)
    then show ?thesis
      using r1 read_advance_ok [OF r1(2,3)] by (auto simp: recv_def ready_def unat_length)
  qed
qed

text \<open>
  A client that sends and receives in any order and notes what it sent and what it received. A message
  for which the ring has no room is not sent.
\<close>

datatype call = Send "u8 list" | Recv

fun client_call :: "call \<Rightarrow> ringbuf_t \<times> u8 list list \<times> u8 list list \<Rightarrow> (ringbuf_t \<times> u8 list list \<times> u8 list list) option" where
  "client_call (Send m) (r, sent, got) =
     (case ringbuf_write_request_max r (of_nat (length m)) of
        (None, _, r) \<Rightarrow> Some (r, sent, got)
      | (Some _, _, _) \<Rightarrow> do { r \<leftarrow> send m r; Some (r, sent @ [m], got) })"
| "client_call Recv (r, sent, got) = do {
     (m, r) \<leftarrow> recv r;
     Some (r, sent, case m of None \<Rightarrow> got | Some m \<Rightarrow> got @ [m]) }"

lemma refused_rel:
  assumes "ring_rel r ms" "ringbuf_write_request_max r n = (None, x, r')" "unat n + 7 < 2 ^ 32"
  shows "ring_rel r' ms" "rb_size r' = rb_size r"
proof -
  have sh: "ring_shape r" using assms(1) by (simp add: ring_rel_def)
  have "r' = r\<lparr>rsvd := rsvd r', gapd := gapd r'\<rparr>" using write_request_ok [OF sh assms(3)] assms(2) by auto
  then obtain u v where r': "r' = r\<lparr>rsvd := u, gapd := v\<rparr>" by blast
  show "ring_rel r' ms" "rb_size r' = rb_size r" unfolding r' using assms(1) by (simp_all add: ring_rel_def ring_shape_def)
qed

text \<open>No operation changes the size of the ring.\<close>

lemma send_size: "send m r = Some r' \<Longrightarrow> rb_size r' = rb_size r"
  by (auto simp: send_def ringbuf_write_request_max_def ringbuf_write_advance_def ringbuf_write_advance_raw_def Let_def
      split: if_splits prod.splits bind_splits)

lemma recv_size: "recv r = Some (m, r') \<Longrightarrow> rb_size r' = rb_size r"
  by (auto simp: recv_def ringbuf_read_request_def ringbuf_read_advance_def ringbuf_read_advance_raw_def Let_def
      split: if_splits prod.splits bind_splits option.splits)

lemma client_calls:
  assumes "ring_rel r pend" "sent = got @ pend" "\<forall>m. Send m \<in> set calls \<longrightarrow> length m + 7 < 2 ^ 32"
  shows "\<exists>r' sent' got' pend'. exec client_call calls (r, sent, got) = Some (r', sent', got') \<and> sent' = got' @ pend' \<and>
    ring_rel r' pend' \<and> rb_size r' = rb_size r"
  using assms
proof (induction calls arbitrary: r sent got pend)
  case (Cons c calls)
  have IH: "\<exists>r' sent' got' pend'. exec client_call calls (r1, sent1, got1) = Some (r', sent', got') \<and> sent' = got' @ pend' \<and>
      ring_rel r' pend' \<and> rb_size r' = rb_size r1" if "ring_rel r1 pend1" "sent1 = got1 @ pend1" for r1 sent1 got1 pend1
    by (rule Cons.IH [OF that]) (use Cons.prems(3) in simp)
  show ?case
  proof (cases c)
    case (Send m)
    then have len: "length m + 7 < 2 ^ 32" using Cons.prems(3) by simp
    obtain p x r1 where w: "ringbuf_write_request_max r (of_nat (length m)) = (p, x, r1)" by (cases "ringbuf_write_request_max r (of_nat (length m))")
    show ?thesis
    proof (cases p)
      case None
      then have "ring_rel r1 pend" "rb_size r1 = rb_size r" using refused_rel [OF Cons.prems(1)] w len unat_length [OF len] by auto
      then show ?thesis using IH [of r1 pend sent got] Cons.prems(2) Send w None by simp
    next
      case (Some ptr)
      then have "granted m r" using len w by (simp add: granted_def)
      from send_rel [OF Cons.prems(1) this] obtain r2 where r2: "send m r = Some r2" "ring_rel r2 (pend @ [m])" by blast
      then show ?thesis using IH [OF r2(2), of "sent @ [m]" got] send_size [OF r2(1)] Cons.prems(2) Send w Some by simp
    qed
  next
    case Recv
    show ?thesis
    proof (cases pend)
      case Nil
      then obtain r2 where r2: "recv r = Some (None, r2)" "ring_rel r2 []" using ring_queue.deq_empty Cons.prems(1) by blast
      then show ?thesis using IH [OF r2(2), of sent got] recv_size [OF r2(1)] Cons.prems(2) Recv Nil by simp
    next
      case (Cons m ms)
      then obtain r2 where r2: "recv r = Some (Some m, r2)" "ring_rel r2 ms" using ring_queue.deq_item Cons.prems(1) by blast
      then show ?thesis using IH [OF r2(2), of sent "got @ [m]"] recv_size [OF r2(1)] Cons.prems(2) Recv Cons by simp
    qed
  qed
qed auto

lemma send_fits:
  assumes "ring_rel r []" "2 * (16 + pad8 (length m)) < length (rb_buf r)"
  shows "\<exists>r'. send m r = Some r'"
proof -
  have sh: "ring_shape r" and e: "rb_head r = rb_tail r"
    using assms(1) by (auto simp: ring_rel_def wrapped_def word_unat_eq_iff)
  have "length (rb_buf r) \<le> 2 ^ 31" using sh by (elim shape_sizes) simp
  then have len: "length m + 7 < 2 ^ 32" using assms(2) pad8_ge [of "length m"] by simp
  have "granted m r"
    using write_request_ok [OF sh, of "of_nat (length m)"] unat_length [OF len] len assms(2) e
    by (auto simp: granted_def)
  then show ?thesis using send_rel [OF assms(1)] by blast
qed

section \<open>Attaching by name\<close>

lemma truncate_same: "length (rb_buf r) + 56 = unat len \<Longrightarrow> seg_truncate len r = r"
  by (simp add: seg_truncate_def)

lemma shm_init_first:
  assumes "ringbuf_shm_init fl os name n b = Some (Inr shm, os1)" "shm_names os name = None"
    "ringbuf_body_size n = Some (2 ^ k)" "3 \<le> k" "k \<le> 31"
  shows "shm = \<lparr>shm_name = name, shm_fd = length (shm_segs os)\<rparr> \<and> shm_names os1 name = Some (length (shm_segs os)) \<and>
    (\<exists>r. shm_segs os1 = shm_segs os @ [r] \<and> ring_rel r [] \<and> length (rb_buf r) = 2 ^ k)"
proof -
  have "(2::nat) ^ k \<le> 2 ^ 31" using assms(5) by (intro power_increasing) simp_all
  then have u: "unat (sizeof_ringbuf + 2 ^ k) = 56 + 2 ^ k"
    using assms(5) by (subst unat_add_no_wrap) (simp_all add: unat_pow2 sizeof_ringbuf_def)
  let ?r = "seg_truncate (sizeof_ringbuf + 2 ^ k) zero_ringbuf"
  have len: "length (rb_buf ?r) = 2 ^ k" by (simp add: seg_truncate_def u Let_def)
  then have "ring_rel (ringbuf_init ?r (2 ^ k) b) []" "length (rb_buf (ringbuf_init ?r (2 ^ k) b)) = 2 ^ k"
    using init_rel [OF assms(4,5) len, of b] by (simp_all add: ringbuf_init_def)
  then show ?thesis
    using assms(1,2,3) by (auto simp: ringbuf_shm_init_def Let_def split: if_splits)
qed

lemma shm_init_again:
  assumes "ringbuf_shm_init fl os name n b = Some (Inr shm, os1)" "shm_names os name = Some i"
    "ringbuf_body_size n = Some (2 ^ k)" "k \<le> 31" "i < length (shm_segs os)" "length (rb_buf (shm_segs os ! i)) = 2 ^ k"
  shows "shm_fd shm = i \<and> os1 = os"
proof -
  have "(2::nat) ^ k \<le> 2 ^ 31" using assms(4) by (intro power_increasing) simp_all
  then have u: "unat (sizeof_ringbuf + 2 ^ k) = 56 + 2 ^ k"
    using assms(4) by (subst unat_add_no_wrap) (simp_all add: unat_pow2 sizeof_ringbuf_def)
  have "seg_truncate (sizeof_ringbuf + 2 ^ k) (shm_segs os ! i) = shm_segs os ! i"
    by (rule truncate_same) (simp add: u assms(6))
  then show ?thesis
    using assms(1,2,3,5) by (auto simp: ringbuf_shm_init_def Let_def split: if_splits)
qed

section \<open>Properties\<close>

text \<open>
  C20. The test of \<^verbatim>\<open>ringbuf-shm/ringbuffer.c\<close> passes under every interleaving: with the ring in
  memory that \<open>posix_memalign\<close> provided, no assertion of the producer or the consumer fails and
  no access leaves the ring, whatever sizes are drawn; the consumer is never ahead of the
  producer; and from every state that can be reached both threads can still finish all rounds.
\<close>

theorem test_threaded_correct:
  assumes "memalign_law memalign" "memalign 8248 = Some r"
  shows "\<exists>s. test_threaded memalign es = Some s \<and> unat (c_cnt s) \<le> unat (p_cnt s) \<and> unat (p_cnt s) \<le> 10000 \<and>
    (\<exists>es' s'. exec test_step es' s = Some s' \<and> finished s')"
proof -
  let ?r = "ringbuf_init r 8192 True"
  have new: "ringbuf_new memalign 8192 True = Some (Some ?r)"
    using assms(2) by (simp add: ringbuf_new_def body_size_8192 sizeof_ringbuf_def)
  have "length (rb_buf r) + 56 = unat (8248 :: u64)" using assms by (simp add: memalign_law_def)
  then have "length (rb_buf ?r) = 8192" by (simp add: ringbuf_init_def)
  moreover have "ring_rel ?r []" using new_rel [OF new assms(1)] by simp
  ultimately have "test_inv (test_start ?r)" by (intro start_inv)
  from ring_test.exec_total_from [OF this, of es] obtain s where
    s: "exec test_step es (test_start ?r) = Some s" "test_inv s" by blast
  moreover have "unat (c_cnt s) \<le> unat (p_cnt s)" "unat (p_cnt s) \<le> 10000"
    using s(2) by (auto simp: test_inv_def ring_ok_def)
  ultimately show ?thesis using new test_completes [OF s(2)] by (simp add: test_threaded_def)
qed

definition plain_memalign :: "u64 \<Rightarrow> ringbuf_t option" where
  "plain_memalign n = (if unat n < 56 then None else Some (zero_ringbuf\<lparr>rb_buf := replicate (unat n - 56) 0\<rparr>))"

lemma plain_memalign_law: "memalign_law plain_memalign"
  by (auto simp: memalign_law_def plain_memalign_def)

theorem test_threaded_correct_witness:
  "\<exists>s. test_threaded plain_memalign [Producer 7, Consumer, Producer 3] = Some s \<and>
    unat (c_cnt s) \<le> unat (p_cnt s) \<and> unat (p_cnt s) \<le> 10000 \<and>
    (\<exists>es' s'. exec test_step es' s = Some s' \<and> finished s')"
  by (rule test_threaded_correct [OF plain_memalign_law, of "zero_ringbuf\<lparr>rb_buf := replicate 8192 0\<rparr>"])
    (simp add: plain_memalign_def)

text \<open>
  C21. A client of a new ring may send and receive messages of any length in any order: no call leaves
  the memory of the ring, the messages that were sent come out in the order in which they were sent,
  byte for byte, wherever the head and the tail stand, and also when the writer goes back to the
  beginning of the ring over a gap that the reader has to skip. What has not been received yet is in
  the ring, and as often as the ring is empty it accepts every message that takes, with its headers, less than half
  of the size the ring was made for.
\<close>

theorem ringbuf_messages_in_order:
  assumes "ringbuf_new memalign n b = Some (Some r)" "memalign_law memalign" "8 \<le> unat n" "unat n \<le> 2 ^ 31"
    "\<forall>m. Send m \<in> set calls \<longrightarrow> length m + 7 < 2 ^ 32"
  shows "\<exists>r' sent got pend. exec client_call calls (r, [], []) = Some (r', sent, got) \<and> sent = got @ pend \<and>
    (\<forall>k. length pend \<le> k \<longrightarrow> (\<exists>r2. drain recv k r' = Some (pend, r2))) \<and>
    (pend = [] \<longrightarrow> (\<forall>m. 2 * (16 + pad8 (length m)) < unat n \<longrightarrow> (\<exists>r2. client_call (Send m) (r', sent, got) = Some (r2, sent @ [m], got))))"
proof -
  have rel: "ring_rel r []" and len: "unat n \<le> length (rb_buf r)" using new_rel [OF assms(1,2,4,3)] by auto
  obtain r' sent got pend where c: "exec client_call calls (r, [], []) = Some (r', sent, got)" "sent = got @ pend"
      "ring_rel r' pend" "rb_size r' = rb_size r"
    using client_calls [OF rel _ assms(5), of "[]" "[]"] by auto
  have "\<exists>r2. drain recv k r' = Some (pend, r2)" if "length pend \<le> k" for k
    using ring_queue.drain_all [OF c(3) that] by blast
  moreover have "\<exists>r2. client_call (Send m) (r', sent, got) = Some (r2, sent @ [m], got)"
    if m: "pend = []" "2 * (16 + pad8 (length m)) < unat n" for m
  proof -
    have sz: "length (rb_buf r') = length (rb_buf r)" using c(3,4) rel by (auto simp: ring_rel_def elim!: shape_sizes)
    then have fit: "2 * (16 + pad8 (length m)) < length (rb_buf r')" using m(2) len by simp
    have "ring_rel r' []" using c(3) m(1) by simp
    from send_fits [OF this fit] obtain r2 where r2: "send m r' = Some r2" by blast
    then obtain p x r1 where "ringbuf_write_request_max r' (of_nat (length m)) = (Some p, x, r1)"
      by (auto simp: send_def split: prod.splits option.splits)
    then show ?thesis using r2 by simp
  qed
  ultimately show ?thesis using c(1,2) by blast
qed

lemma body_size_64: "ringbuf_body_size 64 = Some 64"
proof -
  obtain k where k: "ringbuf_body_size 64 = Some (2 ^ k)" "k = 0 \<or> (2::nat) ^ (k - 1) < 2 ^ 6" "(2::nat) ^ 6 \<le> 2 ^ k"
    using body_size_pow2 [of 64] by auto
  have "6 \<le> k" using k(3) by (rule power_le_imp_le_exp [rotated]) simp
  moreover have "k - 1 < 6" using k(2) \<open>6 \<le> k\<close> power_less_imp_less_exp [of "2::nat" "k - 1" 6] by simp
  ultimately have "k = 6" by simp
  then show ?thesis using k(1) by simp
qed

text \<open>
  Four messages of eight bytes in a ring of 64 bytes: the fourth one does not fit behind the third and goes
  to the beginning of the ring, over a gap, so that the head ends at 16.
\<close>

definition four_messages :: "call list" where
  "four_messages = concat (map (\<lambda>i. [Send (replicate 8 (of_nat i)), Recv]) [1, 2, 3, 4])"

theorem ringbuf_messages_in_order_witness:
  "\<exists>r r' got pend. ringbuf_new plain_memalign 64 True = Some (Some r) \<and>
    exec client_call four_messages (r, [], []) = Some (r', got @ pend, got) \<and> rb_head r' = 16 \<and> rb_tail r' = 16 \<and>
    got = map (\<lambda>i. replicate 8 (of_nat i)) [1, 2, 3, 4]"
proof -
  have new: "ringbuf_new plain_memalign 64 True = Some (Some (fresh_ring 6))"
    by (simp add: ringbuf_new_def body_size_64 sizeof_ringbuf_def plain_memalign_def fresh_ring_def)
  have "\<forall>m. Send m \<in> set four_messages \<longrightarrow> length m + 7 < 2 ^ 32" by (simp add: four_messages_def)
  then obtain r' sent got pend where c: "exec client_call four_messages (fresh_ring 6, [], []) = Some (r', sent, got)" "sent = got @ pend"
    using ringbuf_messages_in_order [OF new plain_memalign_law, of four_messages] by auto
  have "map_option (\<lambda>(r, sent, got). (rb_head r, rb_tail r, got)) (exec client_call four_messages (fresh_ring 6, [], [])) =
      Some (16, 16, map (\<lambda>i. replicate 8 (of_nat i)) [1, 2, 3, 4])" by code_simp
  then show ?thesis using new c by auto
qed

text \<open>
  C36. The value reported through \<open>maximum\<close> is too large: it counts the header of the element. A
  writer that uses all of it passes the assertion of \<open>ringbuf_write_advance\<close>, and the reader is
  then handed a region that ends beyond the ring.
\<close>

theorem ringbuf_maximum_overruns:
  assumes "5 \<le> k" "k \<le> 31"
  shows "\<exists>r1 r2. ringbuf_write_request_max (fresh_ring k) 0 = (Some 8, 2 ^ k - 1, r1) \<and>
    ringbuf_write_advance r1 (2 ^ k - 1) = Some r2 \<and>
    ringbuf_read_request r2 = Some (Some 8, 2 ^ k - 1, r2) \<and>
    length (rb_buf r2) < 8 + unat (2 ^ k - 1 :: u64) \<and> get_bytes (rb_buf r2) 8 (2 ^ k - 1) = None"
proof -
  let ?r1 = "(fresh_ring k)\<lparr>rsvd := 2 ^ k - 1, gapd := 0\<rparr>"
  have p32: "(32::nat) \<le> 2 ^ k" using power_increasing [OF assms(1), of "2::nat"] by simp
  have p31: "(2::nat) ^ k \<le> 2 ^ 31" using assms(2) by (intro power_increasing) simp_all
  have u: "unat (2 ^ k :: u64) = 2 ^ k" "unat (2 ^ k - 1 :: u64) = 2 ^ k - 1"
    using assms by (simp_all add: unat_pow2 unat_pow2_minus_1)
  have "RINGBUF_PAD 0 = 0" by (simp add: RINGBUF_PAD_def)
  moreover have "\<not> (2 ^ k :: u64) < 2 ^ k - 1" "\<not> (2 ^ k - 1 :: u64) < 16" using u p32 by (simp_all add: word_less_nat_alt)
  ultimately have req: "ringbuf_write_request_max (fresh_ring k) 0 = (Some 8, 2 ^ k - 1, ?r1)"
    by (simp add: ringbuf_write_request_max_def fresh_ring_def ringbuf_init_def Let_def)
  obtain b where b: "put_element (rb_buf ?r1) 0 (ucast (2 ^ k - 1 :: u64)) 0 = Some b"
    "get_element b 0 = Some (ucast (2 ^ k - 1 :: u64), 0)" "agree (rb_buf ?r1) b 8 8"
    using put_element_ok [of 0 "rb_buf ?r1" "ucast (2 ^ k - 1 :: u64)" 0] p32 by (auto simp: fresh_ring_def ringbuf_init_def)
  have lb: "length b = 2 ^ k" using b(3) by (simp add: agree_def fresh_ring_def ringbuf_init_def)
  have pad: "unat (RINGBUF_PAD (2 ^ k - 1)) = 2 ^ k"
  proof -
    have "(8::nat) dvd 2 ^ k" using le_imp_power_dvd [of 3 k "2::nat"] assms(1) by simp
    then have "pad8 (2 ^ k - 1) = 2 ^ k" using p32 by (auto simp: pad8_def elim!: dvdE)
    then show ?thesis using unat_RINGBUF_PAD [of "2 ^ k - 1"] u p31 by simp
  qed
  have "(0 + (8 + RINGBUF_PAD (2 ^ k - 1))) AND (2 ^ k - 1) = (8 :: u64)"
  proof -
    have "unat (8 + RINGBUF_PAD (2 ^ k - 1)) = 8 + 2 ^ k" using pad p31 by (subst unat_add_no_wrap) simp_all
    then show ?thesis using p32 by (simp add: word_unat_eq_iff unat_and_mask_eq)
  qed
  then have adv: "ringbuf_write_advance ?r1 (2 ^ k - 1) = Some (?r1\<lparr>rb_buf := b, rb_head := 8\<rparr>)"
    using b(1) by (simp add: ringbuf_write_advance_def ringbuf_write_advance_raw_def fresh_ring_def ringbuf_init_def Let_def)
  have "ucast (ucast (2 ^ k - 1 :: u64) :: u32) = (2 ^ k - 1 :: u64)"
    using u p31 by (simp add: word_unat_eq_iff unsigned_ucast_eq unsigned_take_bit_eq take_bit_nat_eq_self)
  moreover have "\<not> (2 ^ k :: u64) < 8" using u p32 by (simp add: word_less_nat_alt)
  ultimately have "ringbuf_read_request (?r1\<lparr>rb_buf := b, rb_head := 8\<rparr>) = Some (Some 8, 2 ^ k - 1, ?r1\<lparr>rb_buf := b, rb_head := 8\<rparr>)"
    using b(2) by (simp add: ringbuf_read_request_def fresh_ring_def ringbuf_init_def Let_def)
  moreover have "length b < 8 + unat (2 ^ k - 1 :: u64)" "get_bytes b 8 (2 ^ k - 1) = None"
    using lb u p32 by (simp_all add: get_bytes_def)
  ultimately show ?thesis 
    using req adv by (intro exI [of _ ?r1] exI [of _ "?r1\<lparr>rb_buf := b, rb_head := 8\<rparr>"] conjI) simp_all
qed

theorem ringbuf_maximum_overruns_witness:
  "\<exists>r1 r2. ringbuf_write_request_max (fresh_ring 13) 0 = (Some 8, 8191, r1) \<and>
    ringbuf_write_advance r1 8191 = Some r2 \<and> length (rb_buf r2) < 8 + 8191"
  using ringbuf_maximum_overruns [of 13] by auto

text \<open>The padding is computed with a 32-bit mask, so a request for four gigabytes is granted by any ring.\<close>

lemma pad_drops_high_bits: "RINGBUF_PAD (2 ^ 32) = 0"
  by (simp add: RINGBUF_PAD_def)

text \<open>
  A process that attaches by name to a ring which another process made gets the same segment,
  and leaves the messages in it untouched; the process that made it found it empty.
\<close>

theorem shm_attach_shares:
  assumes "ringbuf_shm_init fl os name n b = Some (Inr shm, os1)" "shm_names os name = None"
    "8 \<le> unat n" "unat n \<le> 2 ^ 31"
    and used: "os2 = os1\<lparr>shm_segs := (shm_segs os1)[shm_fd shm := r]\<rparr>" "ring_rel r ms"
      "length (rb_buf r) = length (rb_buf (shm_segs os1 ! shm_fd shm))"
    and "ringbuf_shm_init fl' os2 name n b' = Some (Inr shm', os3)"
  shows "ring_rel (shm_segs os1 ! shm_fd shm) [] \<and> shm_fd shm' = shm_fd shm \<and> shm_segs os3 ! shm_fd shm' = r"
proof -
  obtain k where k: "ringbuf_body_size n = Some (2 ^ k)" "unat n \<le> 2 ^ k" "k = 0 \<or> 2 ^ (k - 1) < unat n"
    using body_size_pow2 [of n] assms(4) by auto
  have "(2::nat) ^ 3 \<le> 2 ^ k" using k(2) assms(3) by simp
  then have k3: "3 \<le> k" by (rule power_le_imp_le_exp [rotated]) simp
  then have "(2::nat) ^ (k - 1) < 2 ^ 31" using k(3) assms(4) by simp
  then have k31: "k \<le> 31" using power_less_imp_less_exp [of "2::nat" "k - 1" 31] by simp
  from shm_init_first [OF assms(1,2) k(1) k3 k31] obtain r0 where
    first: "shm_fd shm = length (shm_segs os)" "shm_names os1 name = Some (length (shm_segs os))"
      "shm_segs os1 = shm_segs os @ [r0]" "ring_rel r0 []" "length (rb_buf r0) = 2 ^ k" by auto
  have "shm_fd shm' = length (shm_segs os) \<and> os3 = os2"
    by (rule shm_init_again [OF assms(8) _ k(1) k31]) (use used(1,3) first in simp_all)
  then show ?thesis using first used(1) by simp
qed

definition no_shm :: shm_os where
  "no_shm = \<lparr>shm_names = \<lambda>_. None, shm_segs = []\<rparr>"

definition no_fail :: shm_fail where
  "no_fail = \<lparr>strdup_fails = False, excl_fails = False, open_fails = False, ftruncate_fails = False, mmap_fails = False\<rparr>"

theorem shm_attach_shares_witness:
  "\<exists>shm os1 shm' os3. ringbuf_shm_init no_fail no_shm ''/ring'' 64 True = Some (Inr shm, os1) \<and>
    ringbuf_shm_init no_fail os1 ''/ring'' 64 True = Some (Inr shm', os3) \<and>
    ring_rel (shm_segs os1 ! shm_fd shm) [] \<and> shm_fd shm' = shm_fd shm \<and>
    shm_segs os3 ! shm_fd shm' = shm_segs os1 ! shm_fd shm"
proof -
  obtain shm os1 where i1: "ringbuf_shm_init no_fail no_shm ''/ring'' 64 True = Some (Inr shm, os1)"
    by (simp add: ringbuf_shm_init_def body_size_64 no_fail_def no_shm_def)
  have k: "ringbuf_body_size 64 = Some (2 ^ 6)" by (simp add: body_size_64)
  have none: "shm_names no_shm ''/ring'' = None" by (simp add: no_shm_def)
  from shm_init_first [OF i1 none k] obtain r where f: "shm_fd shm = 0" "shm_names os1 ''/ring'' = Some 0"
    "shm_segs os1 = [r]" "ring_rel r []" by (auto simp: no_shm_def)
  obtain shm' os3 where i2: "ringbuf_shm_init no_fail os1 ''/ring'' 64 True = Some (Inr shm', os3)"
    using f by (simp add: ringbuf_shm_init_def body_size_64 no_fail_def)
  have at: "ring_rel (shm_segs os1 ! shm_fd shm) [] \<and> shm_fd shm' = shm_fd shm \<and> shm_segs os3 ! shm_fd shm' = r"
    by (rule shm_attach_shares [OF i1 none, of os1 r "[]" no_fail True]) (use f i2 in simp_all)
  moreover have "shm_segs os3 ! shm_fd shm' = shm_segs os1 ! shm_fd shm" using at f(1,3) by auto
  ultimately show ?thesis using i1 i2 by blast
qed

end
