(* ===== verification/Tpool.thy ===== *)
theory Tpool
  imports Prelude
begin

text \<open>
  The thread pool of \<^verbatim>\<open>tpool/tpool.c\<close>: futures, the job queue, the worker threads and the shutdown. Tasks and
  futures live on a heap; an access to a block that was freed (or never allocated) is the result
  \<open>None\<close>. Everything the code does while it holds a mutex is one step, and the steps of the
  workers and of the client interleave in any order. \<open>malloc\<close> is the pointer that an event
  brings, \<open>NULL\<close> when it fails; \<open>run f a\<close> is what a task function \<open>f\<close> returns for the argument \<open>a\<close>.
\<close>

section \<open>Data\<close>

definition FUTURE_RUNNING :: u32 where "FUTURE_RUNNING = 1"
definition FUTURE_FINISHED :: u32 where "FUTURE_FINISHED = 2"
definition FUTURE_TIMEOUT :: u32 where "FUTURE_TIMEOUT = 4"
definition FUTURE_CANCELLED :: u32 where "FUTURE_CANCELLED = 8"
definition FUTURE_DESTROYED :: u32 where "FUTURE_DESTROYED = 16"

record ('f, 'a) threadtask =
  func :: "'f option"
  arg :: "'a option"
  future :: ptr
  tnext :: ptr

record 'r tpool_future =
  flag :: u32
  result :: "'r option"

text \<open>
  Where a worker is in \<open>jobqueue_fetch\<close>: about to lock the queue, waiting for the condition variable,
  with a task it has taken, with a task it runs, or at \<open>pthread_exit\<close>.
\<close>

datatype worker = Top | Asleep | Got ptr | Run ptr | Exited

record ('f, 'a, 'r) threadpool =
  tasks :: "ptr \<Rightarrow> ('f, 'a) threadtask option"
  futs :: "ptr \<Rightarrow> 'r tpool_future option"
  jhead :: ptr
  jtail :: ptr
  workers :: "worker list"

definition has :: "u32 \<Rightarrow> 'r tpool_future \<Rightarrow> bool" where
  "has b fu \<longleftrightarrow> flag fu AND b \<noteq> 0"

definition set_task :: "ptr \<Rightarrow> ('f, 'a) threadtask option \<Rightarrow> ('f, 'a, 'r) threadpool \<Rightarrow> ('f, 'a, 'r) threadpool" where
  "set_task p t s = s\<lparr>tasks := (tasks s)(p := t)\<rparr>"

definition set_fut :: "ptr \<Rightarrow> 'r tpool_future option \<Rightarrow> ('f, 'a, 'r) threadpool \<Rightarrow> ('f, 'a, 'r) threadpool" where
  "set_fut p fu s = s\<lparr>futs := (futs s)(p := fu)\<rparr>"

definition set_worker :: "nat \<Rightarrow> worker \<Rightarrow> ('f, 'a, 'r) threadpool \<Rightarrow> ('f, 'a, 'r) threadpool" where
  "set_worker i w s = s\<lparr>workers := (workers s)[i := w]\<rparr>"

definition set_flag :: "ptr \<Rightarrow> u32 \<Rightarrow> 'r tpool_future \<Rightarrow> ('f, 'a, 'r) threadpool \<Rightarrow> ('f, 'a, 'r) threadpool" where
  "set_flag p b fu = set_fut p (Some (fu\<lparr>flag := flag fu OR b\<rparr>))"

section \<open>Futures\<close>

definition tpool_future_create :: "ptr \<Rightarrow> ('f, 'a, 'r) threadpool \<Rightarrow> ('f, 'a, 'r) threadpool" where
  "tpool_future_create q s = (if q \<noteq> NULL then set_fut q (Some \<lparr>flag = 0, result = None\<rparr>) s else s)"

definition tpool_future_destroy :: "ptr \<Rightarrow> ('f, 'a, 'r) threadpool \<Rightarrow> ('f, 'a, 'r) threadpool option" where
  "tpool_future_destroy q s =
     (if q \<noteq> NULL then do {
        fu \<leftarrow> futs s q;
        Some (if has FUTURE_FINISHED fu \<or> has FUTURE_CANCELLED fu then set_fut q None s
              else set_flag q FUTURE_DESTROYED fu s) }
      else Some s)"

text \<open>
  One return of \<open>tpool_future_get\<close>: \<open>timeout\<close> says that the call has a time limit and that it
  has passed. The inner \<open>None\<close> means that the caller stays blocked.
\<close>

definition tpool_future_get :: "ptr \<Rightarrow> bool \<Rightarrow> ('f, 'a, 'r) threadpool \<Rightarrow> ('r option option \<times> ('f, 'a, 'r) threadpool) option" where
  "tpool_future_get q timeout s = do {
     fu \<leftarrow> futs s q;
     let fu = fu\<lparr>flag := flag fu AND NOT FUTURE_TIMEOUT\<rparr>;
     Some (if has FUTURE_FINISHED fu then (Some (result fu), set_fut q (Some fu) s)
           else if timeout then (Some None, set_flag q FUTURE_TIMEOUT fu s)
           else (None, set_fut q (Some fu) s)) }"

section \<open>The job queue\<close>

definition jobqueue_create :: "('f, 'a, 'r) threadpool" where
  "jobqueue_create = \<lparr>tasks = (\<lambda>_. None), futs = (\<lambda>_. None), jhead = NULL, jtail = NULL, workers = []\<rparr>"

definition jobqueue_destroy :: "('f, 'a, 'r) threadpool \<Rightarrow> ('f, 'a, 'r) threadpool option" where
  "jobqueue_destroy s = loop (\<lambda>s.
     let tmp = jhead s in
     if tmp \<noteq> NULL then do {
       t \<leftarrow> tasks s tmp;
       let s = s\<lparr>jhead := tnext t\<rparr>;
       fu \<leftarrow> futs s (future t);
       let s = (if has FUTURE_DESTROYED fu then set_fut (future t) None s
                else set_flag (future t) FUTURE_CANCELLED fu s);
       Some (Inl (set_task tmp None s)) }
     else Some (Inr s)) s"

text \<open>The task at the tail; the loop looks for the one before it.\<close>

definition before_tail :: "('f, 'a, 'r) threadpool \<Rightarrow> ptr option" where
  "before_tail s = loop (\<lambda>tmp. do {
     t \<leftarrow> tasks s tmp;
     Some (if tnext t \<noteq> jtail s then Inl (tnext t) else Inr tmp) }) (jhead s)"

definition take_tail :: "('f, 'a, 'r) threadpool \<Rightarrow> (ptr \<times> ('f, 'a, 'r) threadpool) option" where
  "take_tail s =
     (if jhead s = jtail s then Some (jtail s, s\<lparr>jhead := NULL, jtail := NULL\<rparr>)
      else do {
        tmp \<leftarrow> before_tail s;
        t \<leftarrow> tasks s tmp;
        Some (tnext t, (set_task tmp (Some (t\<lparr>tnext := NULL\<rparr>)) s)\<lparr>jtail := tmp\<rparr>) })"

text \<open>The next step of worker \<open>i\<close>.\<close>

definition jobqueue_fetch :: "('f \<Rightarrow> 'a option \<Rightarrow> 'r option) \<Rightarrow> nat \<Rightarrow> ('f, 'a, 'r) threadpool \<Rightarrow> ('f, 'a, 'r) threadpool option" where
  "jobqueue_fetch run i s = do {
     w \<leftarrow> load_at (workers s) i;
     case w of
       Top \<Rightarrow>
         if jtail s = NULL then Some (set_worker i Asleep s)
         else do { (t, s) \<leftarrow> take_tail s; Some (set_worker i (Got t) s) }
     | Asleep \<Rightarrow> Some s
     | Got p \<Rightarrow> do {
         t \<leftarrow> tasks s p;
         fu \<leftarrow> futs s (future t);
         if func t \<noteq> None then
           Some (if has FUTURE_CANCELLED fu then set_worker i Top (set_task p None s)
                 else set_worker i (Run p) (set_flag (future t) FUTURE_RUNNING fu s))
         else Some (set_worker i Exited (set_task p None (set_fut (future t) None s))) }
     | Run p \<Rightarrow> do {
         t \<leftarrow> tasks s p;
         f \<leftarrow> func t;
         let ret_value = run f (arg t);
         fu \<leftarrow> futs s (future t);
         let s = (if has FUTURE_DESTROYED fu then set_fut (future t) None s
                  else set_flag (future t) FUTURE_FINISHED (fu\<lparr>result := ret_value\<rparr>) s);
         Some (set_worker i Top (set_task p None s)) }
     | Exited \<Rightarrow> Some s }"

section \<open>The pool\<close>

text \<open>\<open>pthread_cond_broadcast\<close> on the queue.\<close>

definition wake_all :: "worker list \<Rightarrow> worker list" where
  "wake_all = map (\<lambda>w. if w = Asleep then Top else w)"

text \<open>
  \<open>p\<close> and \<open>q\<close> are the blocks for the task and the future, \<open>junk\<close> what the \<open>next\<close> member holds
  in the fresh block. The result is the future.
\<close>

definition tpool_apply :: "ptr \<Rightarrow> ptr \<Rightarrow> ptr \<Rightarrow> 'f option \<Rightarrow> 'a option \<Rightarrow> ('f, 'a, 'r) threadpool \<Rightarrow> (ptr \<times> ('f, 'a, 'r) threadpool) option" where
  "tpool_apply p q junk f a s =
     (let s = tpool_future_create q s in
      if p \<noteq> NULL \<and> q \<noteq> NULL then
        let t = \<lparr>func = f, arg = a, future = q, tnext = junk\<rparr> in
        Some (q,
          if jhead s \<noteq> NULL
          then (set_task p (Some (t\<lparr>tnext := jhead s\<rparr>)) s)\<lparr>jhead := p\<rparr>
          else (set_task p (Some t) s)\<lparr>jhead := p, jtail := p, workers := wake_all (workers s)\<rparr>)
      else if p \<noteq> NULL then Some (NULL, s)
      else if q \<noteq> NULL then do { s \<leftarrow> tpool_future_destroy q s; Some (NULL, s) }
      else Some (NULL, s))"

text \<open>
  \<open>tpool_create\<close> with the outcomes of its allocations and of each \<open>pthread_create\<close>. With the pool
  (\<open>None\<close> for NULL) come the blocks that are still allocated and the threads that still run.
\<close>

record pool_env =
  jobqueue_ok :: bool
  pool_ok :: bool
  workers_ok :: bool
  thread_ok :: "nat \<Rightarrow> bool"

datatype block = B_jobqueue | B_pool | B_workers

fun start_threads :: "(nat \<Rightarrow> bool) \<Rightarrow> nat \<Rightarrow> nat \<Rightarrow> nat + nat" where
  "start_threads ok i 0 = Inr i"
| "start_threads ok i (Suc k) = (if ok i then start_threads ok (Suc i) k else Inl i)"

definition tpool_create :: "pool_env \<Rightarrow> nat \<Rightarrow> (('f, 'a, 'r) threadpool option \<times> block set \<times> nat set) option" where
  "tpool_create e n =
     (let jobqueue = jobqueue_create :: ('f, 'a, 'r) threadpool;
          blocks = (if jobqueue_ok e then {B_jobqueue} else {}) \<union> (if pool_ok e then {B_pool} else {}) in
      if \<not> jobqueue_ok e \<or> \<not> pool_ok e then do {
        blocks \<leftarrow> (if jobqueue_ok e then do { jobqueue_destroy jobqueue; Some (blocks - {B_jobqueue}) } else Some blocks);
        Some (None, blocks - {B_pool}, {}) }
      else if workers_ok e then
        let blocks = blocks \<union> {B_workers} in
        (case start_threads (thread_ok e) 0 n of
           Inl i \<Rightarrow>
             let blocks = blocks - {B_workers} in do {
             jobqueue_destroy jobqueue;
             Some (None, blocks - {B_jobqueue} - {B_pool}, {..<i} - {..<i}) }
         | Inr i \<Rightarrow> Some (Some (jobqueue\<lparr>workers := replicate n Top\<rparr>), blocks, {..<i}))
      else do {
        jobqueue_destroy jobqueue;
        Some (None, blocks - {B_jobqueue} - {B_pool}, {}) })"

text \<open>
  The end of \<open>tpool_join\<close>, after its calls of \<open>tpool_apply\<close>: it blocks until every worker has
  exited (the inner \<open>None\<close>) and then destroys the queue.
\<close>

definition tpool_join_wait :: "('f, 'a, 'r) threadpool \<Rightarrow> ('f, 'a, 'r) threadpool option option" where
  "tpool_join_wait s =
     (if \<forall>w \<in> set (workers s). w = Exited then do { s \<leftarrow> jobqueue_destroy s; Some (Some s) } else Some None)"

end
