(* ===== verification/Tpool_Correct.thy ===== *)
theory Tpool_Correct
  imports Tpool
begin

text \<open>
  Correctness of the thread pool under every interleaving: no access to freed memory, tasks are
  taken in the order in which they were submitted, a future delivers the result of its task, a
  waiting worker is never left asleep while there is work, and the shutdown runs every task first.
\<close>

section \<open>Flags\<close>

lemmas flag_defs = FUTURE_RUNNING_def FUTURE_FINISHED_def FUTURE_TIMEOUT_def FUTURE_CANCELLED_def FUTURE_DESTROYED_def

lemma and_or_zero: "(x OR y) AND z = 0 \<longleftrightarrow> x AND z = 0 \<and> y AND z = 0" for x y z :: "'a::len word"
  by (auto simp: bit_eq_iff bit_simps)

lemma has_or [simp]: "has b (fu\<lparr>flag := flag fu OR c\<rparr>) \<longleftrightarrow> has b fu \<or> c AND b \<noteq> 0"
  by (simp add: has_def and_or_zero)

lemma has_result [simp]: "has b (fu\<lparr>result := r\<rparr>) \<longleftrightarrow> has b fu"
  by (simp add: has_def)

lemma has_or_result [simp]: "has b (fu\<lparr>result := r, flag := flag fu OR c\<rparr>) \<longleftrightarrow> has b fu \<or> c AND b \<noteq> 0"
  by (simp add: has_def and_or_zero)

lemma has_and: "has b (fu\<lparr>flag := flag fu AND c\<rparr>) \<longleftrightarrow> flag fu AND (c AND b) \<noteq> 0"
  by (simp add: has_def and.assoc)

lemma flags_disjoint [simp]:
  "FUTURE_RUNNING AND FUTURE_FINISHED = 0" "FUTURE_RUNNING AND FUTURE_CANCELLED = 0" "FUTURE_RUNNING AND FUTURE_DESTROYED = 0"
  "FUTURE_TIMEOUT AND FUTURE_FINISHED = 0" "FUTURE_TIMEOUT AND FUTURE_CANCELLED = 0" "FUTURE_TIMEOUT AND FUTURE_DESTROYED = 0"
  "FUTURE_DESTROYED AND FUTURE_FINISHED = 0" "FUTURE_DESTROYED AND FUTURE_CANCELLED = 0" "FUTURE_DESTROYED \<noteq> 0" "FUTURE_FINISHED \<noteq> 0"
  by (simp_all add: flag_defs)

section \<open>Memory\<close>

text \<open>
  The memory of the pool. \<open>S\<close> are the live tasks, in the queue or with a worker; each owns a
  future of its own that is neither finished nor cancelled. \<open>H q\<close> is what the client expects of a
  future it has not destroyed: the future of a live task, or a finished one with the right result.
\<close>

definition fut :: "(ptr \<Rightarrow> ('f, 'a) threadtask option) \<Rightarrow> ptr \<Rightarrow> ptr" where
  "fut T p = future (the (T p))"

definition expect :: "('f, 'a) threadtask \<Rightarrow> bool \<Rightarrow> ('f \<times> 'a option) option" where
  "expect t destroyed = (case func t of None \<Rightarrow> None | Some f \<Rightarrow> if destroyed then None else Some (f, arg t))"

lemma expect_next [simp]: "expect (t\<lparr>tnext := x\<rparr>) d = expect t d"
  by (simp add: expect_def split: option.splits)

lemma expect_destroyed [simp]: "expect t True = None"
  by (simp add: expect_def split: option.splits)

definition task_ok :: "(ptr \<Rightarrow> ('f, 'a) threadtask option) \<Rightarrow> (ptr \<Rightarrow> 'r tpool_future option) \<Rightarrow> (ptr \<Rightarrow> ('f \<times> 'a option) option) \<Rightarrow> ptr \<Rightarrow> bool" where
  "task_ok T F H p \<longleftrightarrow> p \<noteq> NULL \<and> (\<exists>t fu. T p = Some t \<and> F (future t) = Some fu \<and> future t \<noteq> NULL \<and>
     \<not> has FUTURE_FINISHED fu \<and> \<not> has FUTURE_CANCELLED fu \<and>
     H (future t) = expect t (has FUTURE_DESTROYED fu))"

definition finished :: "('f \<Rightarrow> 'a option \<Rightarrow> 'r option) \<Rightarrow> (ptr \<Rightarrow> 'r tpool_future option) \<Rightarrow> ptr \<Rightarrow> 'f \<times> 'a option \<Rightarrow> bool" where
  "finished run F q x \<longleftrightarrow> (\<exists>fu. F q = Some fu \<and> has FUTURE_FINISHED fu \<and> result fu = run (fst x) (snd x))"

definition mem :: "('f \<Rightarrow> 'a option \<Rightarrow> 'r option) \<Rightarrow> (ptr \<Rightarrow> ('f, 'a) threadtask option) \<Rightarrow> (ptr \<Rightarrow> 'r tpool_future option) \<Rightarrow> (ptr \<Rightarrow> ('f \<times> 'a option) option) \<Rightarrow> ptr set \<Rightarrow> bool" where
  "mem run T F H S \<longleftrightarrow> inj_on (fut T) S \<and> (\<forall>p \<in> S. task_ok T F H p) \<and>
     (\<forall>q x. H q = Some x \<longrightarrow> q \<noteq> NULL \<and> (q \<in> fut T ` S \<or> finished run F q x))"

lemma task_ok_D:
  assumes "mem run T F H S" "p \<in> S"
  obtains t fu where "T p = Some t" "F (future t) = Some fu" "fut T p = future t" "p \<noteq> NULL" "future t \<noteq> NULL"
    "\<not> has FUTURE_FINISHED fu" "\<not> has FUTURE_CANCELLED fu"
    "H (future t) = expect t (has FUTURE_DESTROYED fu)"
  using assms by (auto simp: mem_def task_ok_def fut_def)

lemma mem_fut_live: "mem run T F H S \<Longrightarrow> q \<in> fut T ` S \<Longrightarrow> F q \<noteq> None"
  by (auto simp: mem_def task_ok_def fut_def)

lemma mem_expects: "mem run T F H S \<Longrightarrow> H q = Some x \<Longrightarrow> q \<noteq> NULL \<and> (q \<in> fut T ` S \<or> finished run F q x)"
  unfolding mem_def by blast

lemma mem_fresh: "mem run T F H S \<Longrightarrow> F q = None \<Longrightarrow> H q = None"
  using mem_expects [of run T F H S q] mem_fut_live [of run T F H S q] by (cases "H q") (auto simp: finished_def)

lemma mem_add:
  assumes m: "mem run T F H S" and new: "p \<notin> S" "p \<noteq> NULL" "F (future t) = None" "future t \<noteq> NULL"
    and H': "H' = H(future t := expect t False)"
  shows "mem run (T(p \<mapsto> t)) (F(future t \<mapsto> \<lparr>flag = 0, result = None\<rparr>)) H' (insert p S)"
proof -
  let ?T = "T(p \<mapsto> t)" and ?F = "F(future t \<mapsto> \<lparr>flag = 0, result = None\<rparr>)"
  have old: "fut ?T x = fut T x" "fut T x \<noteq> future t" if "x \<in> S" for x
  proof -
    show "fut ?T x = fut T x" using that new(1) by (auto simp: fut_def)
    show "fut T x \<noteq> future t" using mem_fut_live [OF m, of "fut T x"] that new(3) by auto
  qed
  have pt: "fut ?T p = future t" by (simp add: fut_def)
  have img: "fut ?T ` insert p S = insert (future t) (fut T ` S)" using old(1) pt by auto
  have "inj_on (fut ?T) S" using m old(1) by (auto simp: mem_def inj_on_def)
  moreover have "fut ?T p \<notin> fut ?T ` (S - {p})" using old pt by force
  ultimately have "inj_on (fut ?T) (insert p S)" by simp
  moreover have "task_ok ?T ?F H' x" if "x \<in> insert p S" for x
  proof (cases "x = p")
    case True
    then show ?thesis using new H' by (auto simp: task_ok_def has_def)
  next
    case False
    then have x: "x \<in> S" using that by simp
    then show ?thesis
      by (rule task_ok_D [OF m]) (use False old(2) [OF x] H' in \<open>auto simp: task_ok_def\<close>)
  qed
  moreover have "q \<noteq> NULL \<and> (q \<in> fut ?T ` insert p S \<or> finished run ?F q x)" if "H' q = Some x" for q x
  proof (cases "q = future t")
    case True
    then show ?thesis using new(4) pt by auto
  next
    case False
    then have "H q = Some x" using that H' by simp
    then have "q \<noteq> NULL \<and> (q \<in> fut T ` S \<or> finished run F q x)" by (rule mem_expects [OF m])
    then show ?thesis unfolding img using False by (auto simp: finished_def)
  qed
  ultimately show ?thesis by (simp add: mem_def)
qed

lemma mem_next:
  assumes m: "mem run T F H S" and t: "T p = Some t"
  shows "mem run (T(p \<mapsto> t\<lparr>tnext := x\<rparr>)) F H S"
proof -
  have f: "fut (T(p \<mapsto> t\<lparr>tnext := x\<rparr>)) = fut T" using t by (auto simp: fut_def)
  have k: "task_ok (T(p \<mapsto> t\<lparr>tnext := x\<rparr>)) F H = task_ok T F H" using t by (auto simp: task_ok_def fun_eq_iff)
  show ?thesis using m by (simp add: mem_def f k)
qed

text \<open>A change of the other flags, \<open>RUNNING\<close> and \<open>TIMEOUT\<close>.\<close>

lemma mem_flag:
  assumes m: "mem run T F H S" and q: "F q = Some fu"
    and same: "has FUTURE_FINISHED fu' = has FUTURE_FINISHED fu" "has FUTURE_CANCELLED fu' = has FUTURE_CANCELLED fu"
      "has FUTURE_DESTROYED fu' = has FUTURE_DESTROYED fu" "result fu' = result fu"
  shows "mem run T (F(q \<mapsto> fu')) H S"
proof -
  have "task_ok T (F(q \<mapsto> fu')) H p = task_ok T F H p" for p
    using q same by (auto simp: task_ok_def)
  moreover have "finished run (F(q \<mapsto> fu')) = finished run F"
    using q same by (auto simp: finished_def fun_eq_iff)
  ultimately show ?thesis using m by (simp add: mem_def)
qed

lemma mem_destroy:
  assumes m: "mem run T F H S" and q: "F q = Some fu" "H q = Some x" "\<not> has FUTURE_FINISHED fu"
  shows "mem run T (F(q \<mapsto> fu\<lparr>flag := flag fu OR FUTURE_DESTROYED\<rparr>)) (H(q := None)) S"
proof -
  let ?F = "F(q \<mapsto> fu\<lparr>flag := flag fu OR FUTURE_DESTROYED\<rparr>)"
  have "task_ok T ?F (H(q := None)) p" if "p \<in> S" for p
    by (rule task_ok_D [OF m that]) (use q in \<open>auto simp: task_ok_def flag_defs\<close>)
  moreover have "y \<noteq> NULL \<and> (y \<in> fut T ` S \<or> finished run ?F y z)" if "(H(q := None)) y = Some z" for y z
    using mem_expects [OF m, of y z] that by (auto simp: finished_def split: if_splits)
  ultimately show ?thesis using m by (simp add: mem_def)
qed

lemma mem_free:
  assumes m: "mem run T F H S" and q: "F q = Some fu" "has FUTURE_FINISHED fu"
  shows "mem run T (F(q := None)) (H(q := None)) S"
proof -
  have nl: "fut T p \<noteq> q" if "p \<in> S" for p by (rule task_ok_D [OF m that]) (use q in auto)
  have "task_ok T (F(q := None)) (H(q := None)) p" if "p \<in> S" for p
    by (rule task_ok_D [OF m that]) (use nl [OF that] in \<open>auto simp: task_ok_def\<close>)
  moreover have "y \<noteq> NULL \<and> (y \<in> fut T ` S \<or> finished run (F(q := None)) y z)" if "(H(q := None)) y = Some z" for y z
    using mem_expects [OF m, of y z] that by (auto simp: finished_def split: if_splits)
  ultimately show ?thesis using m by (simp add: mem_def)
qed

text \<open>A task is done: its block is freed, its future replaced by \<open>v\<close>.\<close>

lemma mem_done:
  assumes m: "mem run T F H S" and p: "p \<in> S" "T p = Some t"
    and v: "\<And>x. H (future t) = Some x \<Longrightarrow> \<exists>fu. v = Some fu \<and> has FUTURE_FINISHED fu \<and> result fu = run (fst x) (snd x)"
  shows "mem run (T(p := None)) (F(future t := v)) H (S - {p})"
proof -
  have fp: "fut T p = future t" using p(2) by (simp add: fut_def)
  have nl: "fut T x \<noteq> future t" if "x \<in> S" "x \<noteq> p" for x
    using m p(1) that fp by (auto simp: mem_def inj_on_def)
  have f: "fut (T(p := None)) x = fut T x" if "x \<noteq> p" for x using that by (simp add: fut_def)
  have img: "fut (T(p := None)) ` (S - {p}) = fut T ` S - {future t}"
    using nl fp f by auto
  have "inj_on (fut (T(p := None))) (S - {p})" using m f by (auto simp: mem_def inj_on_def)
  moreover have "task_ok (T(p := None)) (F(future t := v)) H x" if "x \<in> S - {p}" for x
  proof -
    have x: "x \<in> S" "x \<noteq> p" using that by auto
    show ?thesis by (rule task_ok_D [OF m x(1)]) (use x nl [OF x] in \<open>auto simp: task_ok_def\<close>)
  qed
  moreover have "y \<noteq> NULL \<and> (y \<in> fut (T(p := None)) ` (S - {p}) \<or> finished run (F(future t := v)) y z)"
    if "H y = Some z" for y z
  proof (cases "y = future t")
    case True
    then show ?thesis using v [of z] that mem_expects [OF m that] by (auto simp: finished_def)
  next
    case False
    then show ?thesis using mem_expects [OF m that] unfolding img by (auto simp: finished_def)
  qed
  ultimately show ?thesis by (simp add: mem_def)
qed

section \<open>The queue\<close>

text \<open>The tasks of the queue from head to tail; the link of the last one is not looked at.\<close>

definition linked :: "(ptr \<Rightarrow> ('f, 'a) threadtask option) \<Rightarrow> ptr list \<Rightarrow> bool" where
  "linked T Q \<longleftrightarrow> successively (\<lambda>p p'. \<exists>t. T p = Some t \<and> tnext t = p') Q"

definition queue_ok :: "('f, 'a, 'r) threadpool \<Rightarrow> ptr list \<Rightarrow> bool" where
  "queue_ok s Q \<longleftrightarrow> linked (tasks s) Q \<and>
     jhead s = (if Q = [] then NULL else hd Q) \<and> jtail s = (if Q = [] then NULL else last Q)"

lemma linked_cong: "linked T Q \<Longrightarrow> (\<And>p. p \<in> set (butlast Q) \<Longrightarrow> T' p = T p) \<Longrightarrow> linked T' Q"
  unfolding linked_def
proof (induction Q rule: induct_list012)
  case (3 x y zs)
  then show ?case by (auto split: if_splits)
qed simp_all

lemma before_tail_loop:
  assumes "linked T (xs @ [a, b])" "distinct (xs @ [a, b])" "xs @ [a, b] = p # ys" "jtail s = b" "tasks s = T"
  shows "loop (\<lambda>tmp. do { t \<leftarrow> tasks s tmp; Some (if tnext t \<noteq> jtail s then Inl (tnext t) else Inr tmp) }) p = Some a"
  using assms(1-3)
proof (induction xs arbitrary: p ys)
  case Nil
  then show ?case using assms(4,5) by (auto simp: linked_def intro: loop_stop)
next
  case (Cons x xs)
  obtain p' ys' where n: "xs @ [a, b] = p' # ys'" by (cases "xs @ [a, b]") auto
  then obtain t where t: "T x = Some t" "tnext t = p'" using Cons.prems(1) by (auto simp: linked_def)
  have "p' \<noteq> b" using n Cons.prems(2) by (cases xs) auto
  then have "loop (\<lambda>tmp. do { t \<leftarrow> tasks s tmp; Some (if tnext t \<noteq> jtail s then Inl (tnext t) else Inr tmp) }) x =
    loop (\<lambda>tmp. do { t \<leftarrow> tasks s tmp; Some (if tnext t \<noteq> jtail s then Inl (tnext t) else Inr tmp) }) p'"
    using t assms(4,5) by (intro loop_next) simp
  moreover have "p = x" using Cons.prems(3) by simp
  moreover have "linked T (xs @ [a, b])" using Cons.prems(1) n by (simp add: linked_def)
  ultimately show ?case using Cons.IH [OF _ _ n] Cons.prems(2) by simp
qed

text \<open>Taking removes the oldest task, the last of the list.\<close>

lemma take_tail_ok:
  assumes q: "queue_ok s (Q @ [p])" and d: "distinct (Q @ [p])" "NULL \<notin> set (Q @ [p])"
  shows "\<exists>s'. take_tail s = Some (p, s') \<and> queue_ok s' Q \<and> workers s' = workers s \<and> futs s' = futs s \<and>
    (tasks s' = tasks s \<or> (\<exists>x t. tasks s x = Some t \<and> tasks s' = (tasks s)(x \<mapsto> t\<lparr>tnext := NULL\<rparr>)))"
proof (cases Q rule: rev_cases)
  case Nil
  then show ?thesis using q by (auto simp: take_tail_def queue_ok_def linked_def)
next
  case (snoc xs a)
  have l: "linked (tasks s) (xs @ [a, p])" using q snoc by (simp add: queue_ok_def)
  obtain h ys where h: "xs @ [a, p] = h # ys" by (cases "xs @ [a, p]") auto
  have Qp: "Q @ [p] = h # ys" using h snoc by simp
  have "jhead s = hd (Q @ [p])" and jt: "jtail s = p" using q by (simp_all add: queue_ok_def)
  then have jh: "jhead s = h" "jtail s = p" by (simp_all only: Qp list.sel)
  have "Q \<noteq> []" using snoc by simp
  then have hq: "h = hd Q" "Q \<noteq> []" using arg_cong [OF Qp, of hd] by simp_all
  then have "h \<noteq> p" using d(1) by auto
  obtain t where t: "tasks s a = Some t" "tnext t = p" using l by (auto simp: linked_def successively_append_iff)
  have bt: "before_tail s = Some a"
    unfolding before_tail_def jh(1) by (rule before_tail_loop [OF l _ h]) (use d(1) snoc jh in simp_all)
  let ?s = "(set_task a (Some (t\<lparr>tnext := NULL\<rparr>)) s)\<lparr>jtail := a\<rparr>"
  have "take_tail s = Some (p, ?s)"
    using jh \<open>h \<noteq> p\<close> bt t by (simp add: take_tail_def)
  moreover have "linked (tasks ?s) Q"
  proof (rule linked_cong)
    show "linked (tasks s) Q" using l snoc by (auto simp: linked_def successively_append_iff)
    show "tasks ?s x = tasks s x" if "x \<in> set (butlast Q)" for x using that d(1) snoc by (auto simp: set_task_def)
  qed
  then have "queue_ok ?s Q"
    using jh(1) hq snoc by (simp add: queue_ok_def set_task_def)
  ultimately show ?thesis using t by (auto simp: set_task_def)
qed

section \<open>The pool and its client\<close>

text \<open>
  The pool with a client that keeps to the interface: it uses a future only until it destroys it,
  and submits nothing once it has begun to join. \<open>held\<close> are its futures with the call they stand for,
  \<open>submitted\<close> and \<open>taken\<close> the tasks in the order in which they entered and left the queue, \<open>calls\<close>
  how many times \<open>tpool_join\<close> has called \<open>tpool_apply\<close>.
\<close>

type_synonym ('f, 'a) job = "'f option \<times> 'a option \<times> ptr"

record ('f, 'a, 'r) client =
  pool :: "('f, 'a, 'r) threadpool"
  held :: "ptr \<Rightarrow> ('f \<times> 'a option) option"
  submitted :: "('f, 'a) job list"
  taken :: "('f, 'a) job list"
  calls :: nat

datatype ('f, 'a) event =
    Worker nat
  | Spurious nat
  | Apply 'f "'a option" ptr ptr ptr
  | Get ptr bool
  | Destroy ptr
  | Stop ptr ptr ptr

definition job :: "(ptr \<Rightarrow> ('f, 'a) threadtask option) \<Rightarrow> ptr \<Rightarrow> ('f, 'a) job" where
  "job T p = (let t = the (T p) in (func t, arg t, future t))"

text \<open>\<open>malloc\<close> hands out blocks that are not in use.\<close>

definition malloc_ok :: "ptr \<Rightarrow> ptr \<Rightarrow> ('f, 'a, 'r) threadpool \<Rightarrow> bool" where
  "malloc_ok p q s \<longleftrightarrow> (p \<noteq> NULL \<longrightarrow> tasks s p = None) \<and> (q \<noteq> NULL \<longrightarrow> futs s q = None)"

fun took :: "worker \<Rightarrow> worker \<Rightarrow> (ptr \<Rightarrow> ('f, 'a) threadtask option) \<Rightarrow> ('f, 'a) job list" where
  "took Top (Got p) T = [job T p]"
| "took _ _ T = []"

fun client_step :: "('f \<Rightarrow> 'a option \<Rightarrow> 'r option) \<Rightarrow> ('f, 'a) event \<Rightarrow> ('f, 'a, 'r) client \<Rightarrow> ('f, 'a, 'r) client option" where
  "client_step run (Worker i) c =
     (if i < length (workers (pool c)) then do {
        s \<leftarrow> jobqueue_fetch run i (pool c);
        Some (c\<lparr>pool := s, taken := taken c @ took (workers (pool c) ! i) (workers s ! i) (tasks s)\<rparr>) }
      else Some c)"
| "client_step run (Spurious i) c =
     (if i < length (workers (pool c)) \<and> workers (pool c) ! i = Asleep
      then Some (c\<lparr>pool := set_worker i Top (pool c)\<rparr>) else Some c)"
| "client_step run (Apply f a p q junk) c =
     (if calls c = 0 \<and> malloc_ok p q (pool c) then do {
        (r, s) \<leftarrow> tpool_apply p q junk (Some f) a (pool c);
        Some (if r \<noteq> NULL
              then c\<lparr>pool := s, held := (held c)(r \<mapsto> (f, a)), submitted := submitted c @ [(Some f, a, q)]\<rparr>
              else c\<lparr>pool := s\<rparr>) }
      else Some c)"
| "client_step run (Get q timeout) c =
     (if held c q \<noteq> None then do {
        (r, s) \<leftarrow> tpool_future_get q timeout (pool c);
        Some (c\<lparr>pool := s\<rparr>) }
      else Some c)"
| "client_step run (Destroy q) c =
     (if held c q \<noteq> None then do {
        s \<leftarrow> tpool_future_destroy q (pool c);
        Some (c\<lparr>pool := s, held := (held c)(q := None)\<rparr>) }
      else Some c)"
| "client_step run (Stop p q junk) c =
     (if calls c < length (workers (pool c)) \<and> malloc_ok p q (pool c) then do {
        (r, s) \<leftarrow> tpool_apply p q junk None None (pool c);
        Some (c\<lparr>pool := s, calls := calls c + 1,
                submitted := submitted c @ (if r \<noteq> NULL then [(None, None, q)] else [])\<rparr>) }
      else Some c)"

definition client_start :: "nat \<Rightarrow> ('f, 'a, 'r) client" where
  "client_start n = \<lparr>pool = jobqueue_create\<lparr>workers := replicate n Top\<rparr>, held = (\<lambda>_. None), submitted = [], taken = [], calls = 0\<rparr>"

section \<open>The invariant\<close>

fun task_of :: "worker \<Rightarrow> ptr list" where
  "task_of (Got p) = [p]"
| "task_of (Run p) = [p]"
| "task_of _ = []"

definition live :: "('f, 'a, 'r) threadpool \<Rightarrow> ptr list \<Rightarrow> ptr list" where
  "live s Q = Q @ concat (map task_of (workers s))"

definition stopping :: "(ptr \<Rightarrow> ('f, 'a) threadtask option) \<Rightarrow> worker \<Rightarrow> bool" where
  "stopping T w \<longleftrightarrow> w = Exited \<or> (\<exists>p t. w = Got p \<and> T p = Some t \<and> func t = None)"

definition mem_inv :: "('f \<Rightarrow> 'a option \<Rightarrow> 'r option) \<Rightarrow> ('f, 'a, 'r) client \<Rightarrow> ptr list \<Rightarrow> bool" where
  "mem_inv run c Q \<longleftrightarrow> queue_ok (pool c) Q \<and> distinct (live (pool c) Q) \<and>
     mem run (tasks (pool c)) (futs (pool c)) (held c) (set (live (pool c) Q)) \<and>
     dom (tasks (pool c)) \<subseteq> set (live (pool c) Q) \<and>
     (\<forall>p. Run p \<in> set (workers (pool c)) \<longrightarrow> (\<exists>t. tasks (pool c) p = Some t \<and> func t \<noteq> None)) \<and>
     (Q \<noteq> [] \<longrightarrow> Asleep \<notin> set (workers (pool c)))"

text \<open>The shutdown's tasks, at most \<open>n\<close> of them, come after all others.\<close>

definition stops_last :: "('f, 'a) job list \<Rightarrow> nat \<Rightarrow> bool" where
  "stops_last js n \<longleftrightarrow> (\<exists>rs ns. js = rs @ ns \<and> (\<forall>j \<in> set rs. fst j \<noteq> None) \<and> (\<forall>j \<in> set ns. fst j = None) \<and> length ns \<le> n)"

definition order_inv :: "('f, 'a, 'r) client \<Rightarrow> ptr list \<Rightarrow> bool" where
  "order_inv c Q \<longleftrightarrow> submitted c = taken c @ rev (map (job (tasks (pool c))) Q) \<and>
     length (filter (\<lambda>j. fst j = None) (taken c)) = length (filter (stopping (tasks (pool c))) (workers (pool c))) \<and>
     stops_last (submitted c) (calls c) \<and> calls c \<le> length (workers (pool c))"

definition client_inv :: "('f \<Rightarrow> 'a option \<Rightarrow> 'r option) \<Rightarrow> ('f, 'a, 'r) client \<Rightarrow> bool" where
  "client_inv run c \<longleftrightarrow> (\<exists>Q. mem_inv run c Q \<and> order_inv c Q)"

lemma set_worker_fields [simp]:
  "tasks (set_worker i w s) = tasks s" "futs (set_worker i w s) = futs s" "jhead (set_worker i w s) = jhead s"
  "jtail (set_worker i w s) = jtail s" "queue_ok (set_worker i w s) Q = queue_ok s Q"
  by (simp_all add: set_worker_def queue_ok_def)

lemma set_fields [simp]:
  "tasks (set_task p t s) = (tasks s)(p := t)" "futs (set_task p t s) = futs s" "workers (set_task p t s) = workers s"
  "jhead (set_task p t s) = jhead s" "jtail (set_task p t s) = jtail s"
  "tasks (set_fut q fu s) = tasks s" "futs (set_fut q fu s) = (futs s)(q := fu)" "workers (set_fut q fu s) = workers s"
  "jhead (set_fut q fu s) = jhead s" "jtail (set_fut q fu s) = jtail s" "queue_ok (set_fut q fu s) Q = queue_ok s Q"
  by (simp_all add: set_task_def set_fut_def queue_ok_def)

lemma set_flag_fields [simp]:
  "tasks (set_flag q b fu s) = tasks s" "futs (set_flag q b fu s) = (futs s)(q \<mapsto> fu\<lparr>flag := flag fu OR b\<rparr>)"
  "workers (set_flag q b fu s) = workers s" "jhead (set_flag q b fu s) = jhead s" "jtail (set_flag q b fu s) = jtail s"
  "queue_ok (set_flag q b fu s) Q = queue_ok s Q"
  by (simp_all add: set_flag_def)

lemma workers_set [simp]: "workers (set_worker i w s) = (workers s)[i := w]"
  by (simp add: set_worker_def)

lemma worker_split:
  assumes "i < length ws" "ws ! i = w"
  obtains us vs where "ws = us @ w # vs" "i = length us"
proof
  show "ws = take i ws @ w # drop (Suc i) ws" using id_take_nth_drop [OF assms(1)] assms(2) by simp
  show "i = length (take i ws)" using assms by simp
qed

lemma func_next:
  assumes "T' = T \<or> (\<exists>x t. T x = Some t \<and> T' = T(x \<mapsto> t\<lparr>tnext := v\<rparr>))"
  shows "(\<exists>t. T' p = Some t \<and> P (func t)) \<longleftrightarrow> (\<exists>t. T p = Some t \<and> P (func t))"
  using assms by (elim disjE exE conjE) (auto split: if_splits)

lemma stopping_iff: "stopping T w \<longleftrightarrow> w = Exited \<or> (\<exists>p. w = Got p \<and> (\<exists>t. T p = Some t \<and> func t = None))"
  by (auto simp: stopping_def)

lemma stopping_cong: "(\<And>p. p \<in> set (task_of w) \<Longrightarrow> T' p = T p) \<Longrightarrow> stopping T' w = stopping T w"
  by (cases w) (auto simp: stopping_def)

lemma stopping_filter_cong:
  assumes "\<forall>p \<in> set (concat (map task_of ws)). T' p = T p"
  shows "filter (stopping T') ws = filter (stopping T) ws"
proof (rule filter_cong [OF refl])
  fix w
  assume "w \<in> set ws"
  then show "stopping T' w = stopping T w" using assms by (intro stopping_cong) auto
qed

lemma order_frame:
  assumes o: "order_inv c Q" and w: "workers (pool c) = us @ w # vs" "workers s' = us @ w' # vs"
    and q: "\<forall>p \<in> set Q. job (tasks s') p = job (tasks (pool c)) p"
    and others: "\<forall>p \<in> set (concat (map task_of (us @ vs))). tasks s' p = tasks (pool c) p"
    and same: "stopping (tasks s') w' = stopping (tasks (pool c)) w"
  shows "order_inv (c\<lparr>pool := s'\<rparr>) Q"
proof -
  have "map (job (tasks s')) Q = map (job (tasks (pool c))) Q" using q by simp
  moreover have "filter (stopping (tasks s')) us = filter (stopping (tasks (pool c))) us"
    "filter (stopping (tasks s')) vs = filter (stopping (tasks (pool c))) vs"
    using others by (auto intro!: stopping_filter_cong)
  ultimately show ?thesis using o w same by (auto simp: order_inv_def)
qed

lemma step_idle:
  assumes inv: "mem_inv run c []" "order_inv c []" and i: "i < length (workers (pool c))" and w: "workers (pool c) ! i = Top"
  shows "mem_inv run (c\<lparr>pool := set_worker i Asleep (pool c)\<rparr>) [] \<and> order_inv (c\<lparr>pool := set_worker i Asleep (pool c)\<rparr>) []"
proof -
  obtain us vs where u: "workers (pool c) = us @ Top # vs" "i = length us" using worker_split [OF i w] .
  have "order_inv (c\<lparr>pool := set_worker i Asleep (pool c)\<rparr>) []"
    by (rule order_frame [OF inv(2) u(1), where w' = Asleep]) (simp_all add: u stopping_def)
  moreover have "mem_inv run (c\<lparr>pool := set_worker i Asleep (pool c)\<rparr>) []"
    using inv(1) by (auto simp: mem_inv_def u live_def)
  ultimately show ?thesis by simp
qed

lemma step_take:
  assumes inv: "mem_inv run c (Q @ [p])" "order_inv c (Q @ [p])" and i: "i < length (workers (pool c))" and w: "workers (pool c) ! i = Top"
  shows "\<exists>s1. take_tail (pool c) = Some (p, s1) \<and> workers s1 = workers (pool c) \<and>
    (let c' = c\<lparr>pool := set_worker i (Got p) s1, taken := taken c @ [job (tasks s1) p]\<rparr> in mem_inv run c' Q \<and> order_inv c' Q)"
proof -
  let ?T = "tasks (pool c)"
  obtain us vs where u: "workers (pool c) = us @ Top # vs" "i = length us" using worker_split [OF i w] .
  have q: "queue_ok (pool c) (Q @ [p])" and d: "distinct (live (pool c) (Q @ [p]))"
    and m: "mem run ?T (futs (pool c)) (held c) (set (live (pool c) (Q @ [p])))" using inv(1) by (auto simp: mem_inv_def)
  have nn: "NULL \<notin> set (Q @ [p])"
  proof
    assume "NULL \<in> set (Q @ [p])"
    then have "NULL \<in> set (live (pool c) (Q @ [p]))" by (auto simp: live_def)
    then show False by (rule task_ok_D [OF m]) simp
  qed
  have dq: "distinct (Q @ [p])" using d by (auto simp: live_def)
  obtain s1 where s1: "take_tail (pool c) = Some (p, s1)" "queue_ok s1 Q" "workers s1 = workers (pool c)" "futs s1 = futs (pool c)"
    and T: "tasks s1 = ?T \<or> (\<exists>x t. ?T x = Some t \<and> tasks s1 = ?T(x \<mapsto> t\<lparr>tnext := NULL\<rparr>))"
    using take_tail_ok [OF q dq nn] by blast
  let ?c = "c\<lparr>pool := set_worker i (Got p) s1, taken := taken c @ [job (tasks s1) p]\<rparr>"
  have jobs: "job (tasks s1) = job ?T" using T by (auto simp: job_def fun_eq_iff Let_def)
  have stop: "stopping (tasks s1) = stopping ?T" using func_next [OF T, where P = "\<lambda>f. f = None"] by (simp add: stopping_iff fun_eq_iff)
  have m1: "mem run (tasks s1) (futs (pool c)) (held c) (set (live (pool c) (Q @ [p])))"
    using T m mem_next [OF m] by auto
  have fun1: "\<And>x. (\<exists>t. tasks s1 x = Some t \<and> func t \<noteq> None) = (\<exists>t. ?T x = Some t \<and> func t \<noteq> None)"
    by (rule func_next [OF T])
  have lv: "set (live (set_worker i (Got p) s1) Q) = set (live (pool c) (Q @ [p]))"
    by (auto simp: live_def s1(3) u)
  have "mem_inv run ?c Q"
    unfolding mem_inv_def
  proof (intro conjI)
    show "queue_ok (pool ?c) Q" using s1(2) by simp
    show "distinct (live (pool ?c) Q)" using d by (auto simp: live_def s1(3) u)
    show "mem run (tasks (pool ?c)) (futs (pool ?c)) (held ?c) (set (live (pool ?c) Q))"
      using m1 lv by (simp add: s1(4))
    have "dom (tasks s1) = dom ?T" using T by (auto split: if_splits)
    then show "dom (tasks (pool ?c)) \<subseteq> set (live (pool ?c) Q)" using inv(1) lv by (simp add: mem_inv_def)
    show "\<forall>p. Run p \<in> set (workers (pool ?c)) \<longrightarrow> (\<exists>t. tasks (pool ?c) p = Some t \<and> func t \<noteq> None)"
      using inv(1) fun1 by (auto simp: mem_inv_def s1(3) u)
    show "Q \<noteq> [] \<longrightarrow> Asleep \<notin> set (workers (pool ?c))"
      using inv(1) by (auto simp: mem_inv_def s1(3) u)
  qed
  moreover have "order_inv ?c Q"
  proof -
    have "p \<in> set (live (pool c) (Q @ [p]))" by (simp add: live_def)
    then obtain t where t: "?T p = Some t" by (rule task_ok_D [OF m])
    then have "stopping ?T (Got p) \<longleftrightarrow> fst (job ?T p) = None" by (simp add: stopping_def job_def)
    moreover have "\<not> stopping ?T Top" by (simp add: stopping_def)
    ultimately show ?thesis
      using inv(2) by (auto simp: order_inv_def s1(3) u jobs stop)
  qed
  ultimately show ?thesis using s1(1,3) by (simp add: Let_def)
qed

lemma live_worker:
  assumes "workers s = us @ w # vs" "p \<in> set (task_of w)"
  shows "p \<in> set (live s Q)"
  using assms by (auto simp: live_def)

text \<open>A worker is done with task \<open>p\<close>, whose future becomes \<open>v\<close>.\<close>

lemma step_done:
  assumes inv: "mem_inv run c Q" "order_inv c Q" and u: "workers (pool c) = us @ w # vs"
    and p: "task_of w = [p]" "tasks (pool c) p = Some t" and w': "task_of w' = []" "w' \<noteq> Asleep"
    and same: "stopping ((tasks (pool c))(p := None)) w' = stopping (tasks (pool c)) w"
    and v: "\<And>x. held c (future t) = Some x \<Longrightarrow> \<exists>fu. v = Some fu \<and> has FUTURE_FINISHED fu \<and> result fu = run (fst x) (snd x)"
    and s': "tasks s' = (tasks (pool c))(p := None)" "futs s' = (futs (pool c))(future t := v)" "workers s' = us @ w' # vs"
      "jhead s' = jhead (pool c)" "jtail s' = jtail (pool c)"
  shows "mem_inv run (c\<lparr>pool := s'\<rparr>) Q \<and> order_inv (c\<lparr>pool := s'\<rparr>) Q"
proof -
  let ?T = "tasks (pool c)"
  have q: "queue_ok (pool c) Q" and d: "distinct (live (pool c) Q)"
    and m: "mem run ?T (futs (pool c)) (held c) (set (live (pool c) Q))" using inv(1) by (auto simp: mem_inv_def)
  have pl: "p \<in> set (live (pool c) Q)" using live_worker [OF u] p(1) by simp
  have pq: "p \<notin> set Q" "p \<notin> set (concat (map task_of (us @ vs)))" using d u p(1) by (auto simp: live_def)
  have lv: "set (live s' Q) = set (live (pool c) Q) - {p}" using pq w'(1) p(1) by (auto simp: live_def u s'(3))
  have "mem_inv run (c\<lparr>pool := s'\<rparr>) Q"
    unfolding mem_inv_def
  proof (intro conjI)
    have "linked (tasks s') Q"
    proof (rule linked_cong)
      show "linked ?T Q" using q by (simp add: queue_ok_def)
      show "tasks s' x = ?T x" if "x \<in> set (butlast Q)" for x using that pq(1) by (auto simp: s'(1) dest: in_set_butlastD)
    qed
    then show "queue_ok (pool (c\<lparr>pool := s'\<rparr>)) Q" using q s'(4,5) by (simp add: queue_ok_def)
    show "distinct (live (pool (c\<lparr>pool := s'\<rparr>)) Q)" using d w'(1) by (auto simp: live_def u s'(3))
    show "mem run (tasks (pool (c\<lparr>pool := s'\<rparr>))) (futs (pool (c\<lparr>pool := s'\<rparr>))) (held (c\<lparr>pool := s'\<rparr>)) (set (live (pool (c\<lparr>pool := s'\<rparr>)) Q))"
      using mem_done [OF m pl p(2) v] by (simp add: lv s'(1,2))
    show "dom (tasks (pool (c\<lparr>pool := s'\<rparr>))) \<subseteq> set (live (pool (c\<lparr>pool := s'\<rparr>)) Q)"
      using inv(1) lv by (auto simp: mem_inv_def s'(1) split: if_splits)
    show "\<forall>x. Run x \<in> set (workers (pool (c\<lparr>pool := s'\<rparr>))) \<longrightarrow> (\<exists>t. tasks (pool (c\<lparr>pool := s'\<rparr>)) x = Some t \<and> func t \<noteq> None)"
    proof (intro allI impI)
      fix x
      assume "Run x \<in> set (workers (pool (c\<lparr>pool := s'\<rparr>)))"
      then have x: "Run x \<in> set (us @ vs)" using s'(3) w'(1) by auto
      then have "x \<noteq> p" using pq(2) by force
      moreover have "\<exists>t. ?T x = Some t \<and> func t \<noteq> None" using inv(1) x u by (auto simp: mem_inv_def)
      ultimately show "\<exists>t. tasks (pool (c\<lparr>pool := s'\<rparr>)) x = Some t \<and> func t \<noteq> None" by (simp add: s'(1))
    qed
    show "Q \<noteq> [] \<longrightarrow> Asleep \<notin> set (workers (pool (c\<lparr>pool := s'\<rparr>)))" using inv(1) w'(2) by (auto simp: mem_inv_def u s'(3))
  qed
  moreover have "order_inv (c\<lparr>pool := s'\<rparr>) Q"
    by (rule order_frame [OF inv(2) u s'(3)]) (use pq same in \<open>auto simp: s'(1) job_def\<close>)
  ultimately show ?thesis ..
qed

lemma step_start:
  assumes inv: "mem_inv run c Q" "order_inv c Q" and u: "workers (pool c) = us @ Got p # vs"
    and t: "tasks (pool c) p = Some t" "func t \<noteq> None" "futs (pool c) (future t) = Some fu"
  shows "let c' = c\<lparr>pool := set_worker (length us) (Run p) (set_flag (future t) FUTURE_RUNNING fu (pool c))\<rparr>
    in mem_inv run c' Q \<and> order_inv c' Q"
proof -
  let ?s = "set_worker (length us) (Run p) (set_flag (future t) FUTURE_RUNNING fu (pool c))"
  have m: "mem run (tasks (pool c)) (futs (pool c)) (held c) (set (live (pool c) Q))" using inv(1) by (simp add: mem_inv_def)
  have lv: "set (live ?s Q) = set (live (pool c) Q)" by (auto simp: live_def u)
  have "mem run (tasks ?s) (futs ?s) (held c) (set (live ?s Q))"
    using mem_flag [OF m t(3), of "fu\<lparr>flag := flag fu OR FUTURE_RUNNING\<rparr>"] by (simp add: lv)
  then have "mem_inv run (c\<lparr>pool := ?s\<rparr>) Q"
    using inv(1) t(1,2) by (auto simp: mem_inv_def live_def u)
  moreover have "order_inv (c\<lparr>pool := ?s\<rparr>) Q"
    by (rule order_frame [OF inv(2) u, where w' = "Run p"]) (use t in \<open>simp_all add: u stopping_def\<close>)
  ultimately show ?thesis by (simp add: Let_def)
qed

lemma worker_step:
  assumes inv: "client_inv run c"
  shows "\<exists>c'. client_step run (Worker i) c = Some c' \<and> client_inv run c'"
proof (cases "i < length (workers (pool c))")
  case False
  then show ?thesis using inv by simp
next
  case True
  obtain Q where Q: "mem_inv run c Q" "order_inv c Q" using inv by (auto simp: client_inv_def)
  obtain us vs where u: "workers (pool c) = us @ workers (pool c) ! i # vs" "i = length us" using worker_split [OF True refl] .
  have m: "mem run (tasks (pool c)) (futs (pool c)) (held c) (set (live (pool c) Q))" using Q(1) by (simp add: mem_inv_def)
  have jt: "jtail (pool c) = (if Q = [] then NULL else last Q)" using Q(1) by (simp add: mem_inv_def queue_ok_def)
  show ?thesis
  proof (cases "workers (pool c) ! i")
    case Top
    show ?thesis
    proof (cases Q rule: rev_cases)
      case Nil
      then show ?thesis
        using True Top jt step_idle [of run c i] Q by (auto simp: jobqueue_fetch_def client_inv_def)
    next
      case (snoc Q' p)
      obtain s1 where s1: "take_tail (pool c) = Some (p, s1)" "workers s1 = workers (pool c)" "let c' = c\<lparr>pool := set_worker i (Got p) s1, taken := taken c @ [job (tasks s1) p]\<rparr> in mem_inv run c' Q' \<and> order_inv c' Q'"
        using step_take [of run c Q' p i] Q snoc True Top by auto
      have "p \<in> set (live (pool c) Q)" using snoc by (simp add: live_def)
      then have "p \<noteq> NULL" by (rule task_ok_D [OF m])
      moreover have "i < length (workers s1)" using s1(2) True by simp
      ultimately show ?thesis
        using True Top jt snoc s1 by (auto simp: jobqueue_fetch_def client_inv_def Let_def)
    qed
  next
    case Asleep
    then show ?thesis using True inv by (auto simp: jobqueue_fetch_def)
  next
    case (Got p)
    have pl: "p \<in> set (live (pool c) Q)" using live_worker [OF u(1)] Got by simp
    obtain t fu where t: "tasks (pool c) p = Some t" "futs (pool c) (future t) = Some fu" "\<not> has FUTURE_CANCELLED fu"
      "held c (future t) = expect t (has FUTURE_DESTROYED fu)" using task_ok_D [OF m pl] by metis
    show ?thesis
    proof (cases "func t = None")
      case False
      then show ?thesis
        using step_start [of run c Q us p vs t fu] Q u True Got t by (auto simp: jobqueue_fetch_def Let_def client_inv_def)
    next
      case none: True
      let ?s = "set_worker i Exited (set_task p None (set_fut (future t) None (pool c)))"
      have "mem_inv run (c\<lparr>pool := ?s\<rparr>) Q \<and> order_inv (c\<lparr>pool := ?s\<rparr>) Q"
        by (rule step_done [OF Q u(1) _ t(1), where w' = Exited and v = None])
          (use Got none t u in \<open>simp_all add: stopping_def expect_def\<close>)
      then show ?thesis using True Got t none by (auto simp: jobqueue_fetch_def client_inv_def)
    qed
  next
    case (Run p)
    have pl: "p \<in> set (live (pool c) Q)" using live_worker [OF u(1)] Run by simp
    obtain t fu where t: "tasks (pool c) p = Some t" "futs (pool c) (future t) = Some fu"
      "held c (future t) = expect t (has FUTURE_DESTROYED fu)" using task_ok_D [OF m pl] by metis
    have "Run p \<in> set (workers (pool c))" using nth_mem [OF True] Run by simp
    then obtain f where f: "func t = Some f" using Q(1) t(1) by (auto simp: mem_inv_def)
    let ?v = "if has FUTURE_DESTROYED fu then None
      else Some (fu\<lparr>result := run f (arg t), flag := flag fu OR FUTURE_FINISHED\<rparr>)"
    let ?s = "set_worker i Top (set_task p None (if has FUTURE_DESTROYED fu then set_fut (future t) None (pool c)
      else set_flag (future t) FUTURE_FINISHED (fu\<lparr>result := run f (arg t)\<rparr>) (pool c)))"
    have "mem_inv run (c\<lparr>pool := ?s\<rparr>) Q \<and> order_inv (c\<lparr>pool := ?s\<rparr>) Q"
      by (rule step_done [OF Q u(1) _ t(1), where w' = Top and v = ?v])
        (use Run t u f in \<open>auto simp: stopping_def expect_def split: if_splits\<close>)
    then show ?thesis using True Run t f by (auto simp: jobqueue_fetch_def client_inv_def Let_def)
  next
    case Exited
    then show ?thesis using True inv by (auto simp: jobqueue_fetch_def)
  qed
qed

lemma mem_extra:
  assumes m: "mem run T F H S" and q: "F q = None"
  shows "mem run T (F(q \<mapsto> fu)) H S"
proof -
  have "task_ok T (F(q \<mapsto> fu)) H p" if "p \<in> S" for p
    by (rule task_ok_D [OF m that]) (use q in \<open>auto simp: task_ok_def\<close>)
  moreover have "y \<noteq> NULL \<and> (y \<in> fut T ` S \<or> finished run (F(q \<mapsto> fu)) y z)" if "H y = Some z" for y z
    using mem_expects [OF m that] q by (auto simp: finished_def)
  ultimately show ?thesis using m by (simp add: mem_def)
qed

lemma wake_all_tasks [simp]: "concat (map task_of (wake_all ws)) = concat (map task_of ws)"
  by (induction ws) (auto simp: wake_all_def)

lemma wake_all_stopping [simp]: "length (filter (stopping T) (wake_all ws)) = length (filter (stopping T) ws)"
  by (induction ws) (auto simp: wake_all_def stopping_def)

lemma wake_all_set: "Asleep \<notin> set (wake_all ws)" "Run p \<in> set (wake_all ws) \<longleftrightarrow> Run p \<in> set ws"
  by (auto simp: wake_all_def image_iff)

text \<open>A new task at the head of the queue; \<open>ws\<close> are the workers, woken if the queue was empty.\<close>

lemma step_push:
  assumes inv: "mem_inv run c Q" and new: "p \<noteq> NULL" "q \<noteq> NULL" "tasks (pool c) p = None" "futs (pool c) q = None"
    and t: "future t = q" "Q \<noteq> [] \<longrightarrow> tnext t = hd Q"
    and ws: "ws = workers (pool c) \<and> Q \<noteq> [] \<or> ws = wake_all (workers (pool c))"
    and s': "tasks s' = (tasks (pool c))(p \<mapsto> t)" "futs s' = (futs (pool c))(q \<mapsto> \<lparr>flag = 0, result = None\<rparr>)"
      "workers s' = ws" "jhead s' = p" "jtail s' = (if Q = [] then p else jtail (pool c))"
    and c': "pool c' = s'" "held c' = (held c)(q := expect t False)"
  shows "mem_inv run c' (p # Q)"
proof -
  let ?T = "tasks (pool c)"
  have qo: "queue_ok (pool c) Q" and d: "distinct (live (pool c) Q)"
    and m: "mem run ?T (futs (pool c)) (held c) (set (live (pool c) Q))" using inv by (auto simp: mem_inv_def)
  have pl: "p \<notin> set (live (pool c) Q)"
  proof
    assume "p \<in> set (live (pool c) Q)"
    then show False by (rule task_ok_D [OF m]) (use new(3) in simp)
  qed
  have tk: "concat (map task_of ws) = concat (map task_of (workers (pool c)))" using ws by auto
  have lv: "live s' (p # Q) = p # live (pool c) Q" by (simp add: live_def s'(3) tk)
  show ?thesis
    unfolding mem_inv_def c'
  proof (intro conjI)
    have "linked (tasks s') Q"
    proof (rule linked_cong)
      show "linked ?T Q" using qo by (simp add: queue_ok_def)
      show "tasks s' x = ?T x" if "x \<in> set (butlast Q)" for x
        using that pl by (auto simp: s'(1) live_def dest: in_set_butlastD)
    qed
    then have "linked (tasks s') (p # Q)" using t(2) by (cases Q) (auto simp: linked_def s'(1))
    then show "queue_ok s' (p # Q)" using qo s'(4,5) by (auto simp: queue_ok_def)
    show "distinct (live s' (p # Q))" using d pl by (simp add: lv)
    show "mem run (tasks s') (futs s') ((held c)(q := expect t False)) (set (live s' (p # Q)))"
      using mem_add [OF m pl new(1), of t] new(2,4) t(1) by (simp add: lv s'(1,2))
    show "dom (tasks s') \<subseteq> set (live s' (p # Q))" using inv by (auto simp: mem_inv_def lv s'(1))
    show "\<forall>x. Run x \<in> set (workers s') \<longrightarrow> (\<exists>t. tasks s' x = Some t \<and> func t \<noteq> None)"
    proof (intro allI impI)
      fix x
      assume "Run x \<in> set (workers s')"
      then have "Run x \<in> set (workers (pool c))" using ws s'(3) by (auto simp: wake_all_set)
      then obtain t0 where "?T x = Some t0" "func t0 \<noteq> None" using inv by (auto simp: mem_inv_def)
      then show "\<exists>t. tasks s' x = Some t \<and> func t \<noteq> None" using new(3) by (auto simp: s'(1))
    qed
    show "p # Q \<noteq> [] \<longrightarrow> Asleep \<notin> set (workers s')"
      using ws s'(3) inv by (auto simp: mem_inv_def wake_all_set)
  qed
qed

lemma step_push_order:
  assumes o: "order_inv c Q" and p: "p \<notin> set (live (pool c) Q)"
    and ws: "ws = workers (pool c) \<or> ws = wake_all (workers (pool c))"
    and s': "tasks s' = (tasks (pool c))(p \<mapsto> t)" "workers s' = ws"
    and c': "pool c' = s'" "submitted c' = submitted c @ [(func t, arg t, future t)]" "taken c' = taken c"
      "stops_last (submitted c') (calls c')" "calls c' \<le> length (workers (pool c))"
  shows "order_inv c' (p # Q)"
proof -
  let ?T = "tasks (pool c)"
  have "map (job (tasks s')) Q = map (job ?T) Q" using p by (auto simp: s'(1) job_def live_def)
  moreover have "job (tasks s') p = (func t, arg t, future t)" by (simp add: job_def s'(1))
  moreover have "filter (stopping (tasks s')) (workers (pool c)) = filter (stopping ?T) (workers (pool c))"
    by (rule stopping_filter_cong) (use p in \<open>auto simp: s'(1) live_def\<close>)
  then have "length (filter (stopping (tasks s')) ws) = length (filter (stopping ?T) (workers (pool c)))"
    using ws by auto
  moreover have "length ws = length (workers (pool c))" using ws by (auto simp: wake_all_def)
  ultimately show ?thesis
    using o c' s'(2) by (auto simp: order_inv_def)
qed

lemma stops_last_func: "stops_last js 0 \<Longrightarrow> stops_last (js @ [(Some f, a, q)]) 0"
  by (auto simp: stops_last_def)

lemma stops_last_stop:
  assumes "stops_last js n"
  shows "stops_last (js @ [(None, a, q)]) (Suc n)"
proof -
  obtain rs ns where "js = rs @ ns" "\<forall>j \<in> set rs. fst j \<noteq> None" "\<forall>j \<in> set ns. fst j = None" "length ns \<le> n"
    using assms unfolding stops_last_def by blast
  then show ?thesis unfolding stops_last_def by (intro exI [of _ rs] exI [of _ "ns @ [(None, a, q)]"]) auto
qed

lemma stops_last_more: "stops_last js n \<Longrightarrow> stops_last js (Suc n)"
  unfolding stops_last_def by (blast intro: le_SucI)

text \<open>The two successful ways through \<open>tpool_apply\<close>, and the three that fail.\<close>

lemma apply_cases:
  assumes inv: "mem_inv run c Q" and mal: "malloc_ok p q (pool c)"
  obtains (ok) s' t ws where "tpool_apply p q junk f a (pool c) = Some (q, s')" "p \<noteq> NULL" "q \<noteq> NULL"
      "func t = f" "arg t = a" "future t = q" "Q \<noteq> [] \<longrightarrow> tnext t = hd Q"
      "ws = workers (pool c) \<and> Q \<noteq> [] \<or> ws = wake_all (workers (pool c))"
      "tasks s' = (tasks (pool c))(p \<mapsto> t)" "futs s' = (futs (pool c))(q \<mapsto> \<lparr>flag = 0, result = None\<rparr>)"
      "workers s' = ws" "jhead s' = p" "jtail s' = (if Q = [] then p else jtail (pool c))"
  | (fail) s' where "tpool_apply p q junk f a (pool c) = Some (NULL, s')"
      "\<And>c'. pool c' = s' \<Longrightarrow> held c' = held c \<Longrightarrow> mem_inv run c' Q" "tasks s' = tasks (pool c)" "workers s' = workers (pool c)"
proof -
  let ?s = "tpool_future_create q (pool c)"
  have h: "jhead (pool c) = (if Q = [] then NULL else hd Q)" using inv by (simp add: mem_inv_def queue_ok_def)
  have m: "mem run (tasks (pool c)) (futs (pool c)) (held c) (set (live (pool c) Q))" using inv by (simp add: mem_inv_def)
  have hn: "hd Q \<noteq> NULL" if "Q \<noteq> []"
  proof -
    have "hd Q \<in> set (live (pool c) Q)" using that by (simp add: live_def)
    then show ?thesis by (rule task_ok_D [OF m])
  qed
  consider (both) "p \<noteq> NULL" "q \<noteq> NULL" | (nofut) "q = NULL" | (notask) "p = NULL" "q \<noteq> NULL" by blast
  then show ?thesis
  proof cases
    case both
    let ?t = "\<lparr>func = f, arg = a, future = q, tnext = if Q = [] then junk else hd Q\<rparr>"
    let ?s' = "if Q \<noteq> [] then (set_task p (Some ?t) ?s)\<lparr>jhead := p\<rparr>
      else (set_task p (Some ?t) ?s)\<lparr>jhead := p, jtail := p, workers := wake_all (workers ?s)\<rparr>"
    have "tpool_apply p q junk f a (pool c) = Some (q, ?s')"
      using both h hn by (auto simp: tpool_apply_def tpool_future_create_def)
    then show ?thesis
      by (rule ok [where t = ?t and ws = "if Q \<noteq> [] then workers (pool c) else wake_all (workers (pool c))"])
        (use both in \<open>auto simp: tpool_future_create_def set_task_def\<close>)
  next
    case nofut
    show ?thesis
      by (rule fail [of "pool c"]) (use nofut inv in \<open>auto simp: tpool_apply_def tpool_future_create_def mem_inv_def Let_def\<close>)
  next
    case notask
    have n: "futs (pool c) q = None" using mal notask by (simp add: malloc_ok_def)
    let ?fu = "\<lparr>flag = 0 OR FUTURE_DESTROYED, result = None\<rparr>"
    have e: "tpool_apply p q junk f a (pool c) = Some (NULL, set_fut q (Some ?fu) ?s)"
      using notask by (simp add: tpool_apply_def tpool_future_create_def tpool_future_destroy_def has_def set_flag_def)
    have "futs (set_fut q (Some ?fu) ?s) = (futs (pool c))(q \<mapsto> ?fu)" "tasks (set_fut q (Some ?fu) ?s) = tasks (pool c)"
      "workers (set_fut q (Some ?fu) ?s) = workers (pool c)" "\<And>Q. queue_ok (set_fut q (Some ?fu) ?s) Q = queue_ok (pool c) Q"
      using notask by (auto simp: tpool_future_create_def)
    with e show ?thesis
      by (intro fail [OF e]) (use inv mem_extra [OF m n, of ?fu] in \<open>simp_all add: mem_inv_def live_def\<close>)
  qed
qed

lemma fresh_not_live:
  assumes "mem_inv run c Q" "malloc_ok p q (pool c)" "p \<noteq> NULL"
  shows "p \<notin> set (live (pool c) Q)"
proof
  have m: "mem run (tasks (pool c)) (futs (pool c)) (held c) (set (live (pool c) Q))" using assms(1) by (simp add: mem_inv_def)
  assume "p \<in> set (live (pool c) Q)"
  then show False by (rule task_ok_D [OF m]) (use assms(2,3) in \<open>simp add: malloc_ok_def\<close>)
qed

lemma apply_step:
  assumes inv: "client_inv run c"
  shows "\<exists>c'. client_step run (Apply f a p q junk) c = Some c' \<and> client_inv run c'"
proof (cases "calls c = 0 \<and> malloc_ok p q (pool c)")
  case False
  then show ?thesis using inv by auto
next
  case True
  then have cl: "calls c = 0" and mal: "malloc_ok p q (pool c)" by auto
  obtain Q where Q: "mem_inv run c Q" "order_inv c Q" using inv by (auto simp: client_inv_def)
  from Q(1) mal show ?thesis
  proof (cases rule: apply_cases [where junk = junk and f = "Some f" and a = a])
    case (ok s' t ws)
    let ?c = "c\<lparr>pool := s', held := (held c)(q \<mapsto> (f, a)), submitted := submitted c @ [(Some f, a, q)]\<rparr>"
    have "expect t False = Some (f, a)" using ok by (simp add: expect_def)
    then have "mem_inv run ?c (p # Q)"
      using mal ok by (intro step_push [OF Q(1), where t = t and s' = s' and ws = ws and q = q]) (auto simp: malloc_ok_def)
    moreover have "order_inv ?c (p # Q)"
      using Q(2) ok fresh_not_live [OF Q(1) mal ok(2)] stops_last_func [of "submitted c" f a q] cl
      by (intro step_push_order [OF Q(2), where t = t and s' = s' and ws = ws]) (auto simp: order_inv_def)
    ultimately show ?thesis using True ok by (auto simp: client_inv_def)
  next
    case (fail s')
    have "mem_inv run (c\<lparr>pool := s'\<rparr>) Q" by (rule fail(2)) simp_all
    moreover have "order_inv (c\<lparr>pool := s'\<rparr>) Q" using Q(2) fail(3,4) by (auto simp: order_inv_def)
    ultimately show ?thesis using True fail(1) by (auto simp: client_inv_def)
  qed
qed

lemma stop_step:
  assumes inv: "client_inv run c"
  shows "\<exists>c'. client_step run (Stop p q junk) c = Some c' \<and> client_inv run c'"
proof (cases "calls c < length (workers (pool c)) \<and> malloc_ok p q (pool c)")
  case False
  then show ?thesis using inv by auto
next
  case True
  then have cl: "calls c < length (workers (pool c))" and mal: "malloc_ok p q (pool c)" by auto
  obtain Q where Q: "mem_inv run c Q" "order_inv c Q" using inv by (auto simp: client_inv_def)
  have sl: "stops_last (submitted c) (calls c)" using Q(2) unfolding order_inv_def by blast
  from Q(1) mal show ?thesis
  proof (cases rule: apply_cases [where junk = junk and f = None and a = None])
    case (ok s' t ws)
    let ?c = "c\<lparr>pool := s', calls := calls c + 1, submitted := submitted c @ [(None, None, q)]\<rparr>"
    have "expect t False = None" using ok by (simp add: expect_def)
    moreover have "held c q = None"
      using Q(1) mal ok(3) mem_fresh [of run "tasks (pool c)" "futs (pool c)" "held c" "set (live (pool c) Q)" q]
      by (simp add: mem_inv_def malloc_ok_def)
    ultimately have "mem_inv run ?c (p # Q)"
      using mal ok by (intro step_push [OF Q(1), where t = t and s' = s' and ws = ws and q = q]) (auto simp: malloc_ok_def)
    moreover have "order_inv ?c (p # Q)"
      using Q(2) ok fresh_not_live [OF Q(1) mal ok(2)] stops_last_stop [OF sl, of None q] cl
      by (intro step_push_order [OF Q(2), where t = t and s' = s' and ws = ws]) auto
    ultimately show ?thesis using True ok by (auto simp: client_inv_def)
  next
    case (fail s')
    let ?c = "c\<lparr>pool := s', calls := calls c + 1\<rparr>"
    have "mem_inv run ?c Q" by (rule fail(2)) simp_all
    moreover have "order_inv ?c Q" using Q(2) fail(3,4) cl stops_last_more [OF sl] by (auto simp: order_inv_def)
    ultimately show ?thesis using True fail(1) by (auto simp: client_inv_def)
  qed
qed

lemma get_step:
  assumes inv: "client_inv run c"
  shows "\<exists>c'. client_step run (Get q timeout) c = Some c' \<and> client_inv run c'"
proof (cases "held c q = None")
  case True
  then show ?thesis using inv by simp
next
  case False
  obtain Q where Q: "mem_inv run c Q" "order_inv c Q" using inv by (auto simp: client_inv_def)
  have m: "mem run (tasks (pool c)) (futs (pool c)) (held c) (set (live (pool c) Q))" using Q(1) by (simp add: mem_inv_def)
  obtain fu where fu: "futs (pool c) q = Some fu" using mem_fresh [OF m, of q] False by (cases "futs (pool c) q") auto
  let ?fu = "fu\<lparr>flag := flag fu AND NOT FUTURE_TIMEOUT\<rparr>"
  have same: "has FUTURE_FINISHED ?fu = has FUTURE_FINISHED fu" "has FUTURE_CANCELLED ?fu = has FUTURE_CANCELLED fu"
    "has FUTURE_DESTROYED ?fu = has FUTURE_DESTROYED fu"
    unfolding has_and by (simp_all add: has_def flag_defs)
  have "\<exists>r fu'. tpool_future_get q timeout (pool c) = Some (r, set_fut q (Some fu') (pool c)) \<and>
    (fu' = ?fu \<or> fu' = ?fu\<lparr>flag := flag ?fu OR FUTURE_TIMEOUT\<rparr>)"
    using fu by (cases "has FUTURE_FINISHED ?fu"; cases timeout) (auto simp: tpool_future_get_def set_flag_def Let_def)
  then obtain r fu' where g: "tpool_future_get q timeout (pool c) = Some (r, set_fut q (Some fu') (pool c))"
    "fu' = ?fu \<or> fu' = ?fu\<lparr>flag := flag ?fu OR FUTURE_TIMEOUT\<rparr>" by blast
  have "has FUTURE_FINISHED fu' = has FUTURE_FINISHED fu" "has FUTURE_CANCELLED fu' = has FUTURE_CANCELLED fu"
    "has FUTURE_DESTROYED fu' = has FUTURE_DESTROYED fu" "result fu' = result fu"
    using g(2) same has_or [of _ ?fu FUTURE_TIMEOUT] by (elim disjE; simp only: flags_disjoint; simp)+
  from mem_flag [OF m fu this] have "mem_inv run (c\<lparr>pool := set_fut q (Some fu') (pool c)\<rparr>) Q"
    using Q(1) by (simp add: mem_inv_def live_def)
  moreover have "order_inv (c\<lparr>pool := set_fut q (Some fu') (pool c)\<rparr>) Q" using Q(2) by (auto simp: order_inv_def)
  ultimately show ?thesis using False g(1) by (auto simp: client_inv_def)
qed

lemma destroy_step:
  assumes inv: "client_inv run c"
  shows "\<exists>c'. client_step run (Destroy q) c = Some c' \<and> client_inv run c'"
proof (cases "held c q")
  case None
  then show ?thesis using inv by simp
next
  case (Some x)
  obtain Q where Q: "mem_inv run c Q" "order_inv c Q" using inv by (auto simp: client_inv_def)
  have m: "mem run (tasks (pool c)) (futs (pool c)) (held c) (set (live (pool c) Q))" using Q(1) by (simp add: mem_inv_def)
  obtain fu where fu: "futs (pool c) q = Some fu" using mem_fresh [OF m, of q] Some by (cases "futs (pool c) q") auto
  have qn: "q \<noteq> NULL" using mem_expects [OF m Some] by simp
  let ?s = "if has FUTURE_FINISHED fu \<or> has FUTURE_CANCELLED fu then set_fut q None (pool c) else set_flag q FUTURE_DESTROYED fu (pool c)"
  let ?c = "c\<lparr>pool := ?s, held := (held c)(q := None)\<rparr>"
  have nc: "has FUTURE_FINISHED fu \<or> \<not> has FUTURE_CANCELLED fu"
    using mem_expects [OF m Some] fu by (auto simp: finished_def elim!: task_ok_D [OF m])
  have "mem run (tasks ?s) (futs ?s) ((held c)(q := None)) (set (live ?s Q))"
    using mem_free [OF m fu] mem_destroy [OF m fu Some] nc by (auto simp: live_def)
  then have "mem_inv run ?c Q" using Q(1) by (simp add: mem_inv_def live_def)
  moreover have "order_inv ?c Q" using Q(2) by (auto simp: order_inv_def)
  moreover have "client_step run (Destroy q) c = Some ?c"
    using Some fu qn by (simp add: tpool_future_destroy_def)
  ultimately show ?thesis by (auto simp: client_inv_def)
qed

lemma spurious_step:
  assumes inv: "client_inv run c"
  shows "\<exists>c'. client_step run (Spurious i) c = Some c' \<and> client_inv run c'"
proof (cases "i < length (workers (pool c)) \<and> workers (pool c) ! i = Asleep")
  case False
  then show ?thesis using inv by auto
next
  case True
  obtain Q where Q: "mem_inv run c Q" "order_inv c Q" using inv by (auto simp: client_inv_def)
  obtain us vs where u: "workers (pool c) = us @ Asleep # vs" "i = length us" using worker_split True by metis
  have "order_inv (c\<lparr>pool := set_worker i Top (pool c)\<rparr>) Q"
    by (rule order_frame [OF Q(2) u(1), where w' = Top]) (simp_all add: u stopping_def)
  moreover have "mem_inv run (c\<lparr>pool := set_worker i Top (pool c)\<rparr>) Q"
    using Q(1) by (auto simp: mem_inv_def u live_def)
  ultimately show ?thesis using True by (auto simp: client_inv_def)
qed

lemma client_step_ok: "client_inv run c \<Longrightarrow> \<exists>c'. client_step run e c = Some c' \<and> client_inv run c'"
  by (cases e) (blast intro: worker_step spurious_step apply_step get_step destroy_step stop_step)+

lemma client_start_inv: "client_inv run (client_start n)"
proof -
  have "concat (map task_of (replicate n Top)) = []" by (induction n) simp_all
  moreover have "filter (stopping T) (replicate n Top) = []" for T by (induction n) (simp_all add: stopping_def)
  ultimately show ?thesis
    by (auto simp: client_inv_def client_start_def mem_inv_def order_inv_def queue_ok_def linked_def live_def mem_def
        jobqueue_create_def stops_last_def intro!: exI [of _ "[]"])
qed

interpretation tpool_system: total_system "client_start n" "client_step run" "client_inv run"
  for n :: nat and run :: "'f \<Rightarrow> 'a option \<Rightarrow> 'r option"
proof
  show "client_inv run (client_start n)" by (rule client_start_inv)
  show "client_inv run c'" if i: "client_inv run c" and e: "client_step run e c = Some c'" for c e c'
    using client_step_ok [OF i, of e] e by auto
  show "\<exists>c'. client_step run e c = Some c'" if i: "client_inv run c" for c e
    using client_step_ok [OF i, of e] by auto
qed

section \<open>The shutdown\<close>

fun weight :: "worker \<Rightarrow> nat" where
  "weight (Got p) = 2"
| "weight (Run p) = 1"
| "weight _ = 0"

definition work :: "('f, 'a, 'r) client \<Rightarrow> nat" where
  "work c = 3 * (length (submitted c) - length (taken c)) + sum_list (map weight (workers (pool c)))"

definition nulls :: "('f, 'a) job list \<Rightarrow> nat" where
  "nulls js = length (filter (\<lambda>j. fst j = None) js)"

definition all_exited :: "('f, 'a, 'r) client \<Rightarrow> bool" where
  "all_exited c \<longleftrightarrow> (\<forall>w \<in> set (workers (pool c)). w = Exited)"

lemma sum_update:
  assumes "i < length ws" "weight w < weight (ws ! i)"
  shows "sum_list (map weight (ws[i := w])) < sum_list (map weight ws)"
proof -
  obtain us w0 vs where "ws = us @ w0 # vs" "i = length us" "ws ! i = w0" using worker_split [OF assms(1) refl] by metis
  then show ?thesis using assms(2) by simp
qed

text \<open>A worker that holds a task can always go on.\<close>

lemma busy_progress:
  assumes inv: "client_inv run c" and i: "i < length (workers (pool c))" "workers (pool c) ! i = Got p \<or> workers (pool c) ! i = Run p"
  shows "\<exists>c'. client_step run (Worker i) c = Some c' \<and> submitted c' = submitted c \<and> work c' < work c"
proof -
  obtain s where s: "jobqueue_fetch run i (pool c) = Some s" using worker_step [OF inv, of i] i(1) by (auto split: Option.bind_splits)
  then obtain w where w: "workers s = (workers (pool c))[i := w]" "weight w < weight (workers (pool c) ! i)"
    using i by (auto simp: jobqueue_fetch_def Let_def split: Option.bind_splits if_splits)
  have "took (workers (pool c) ! i) x T = []" for x T using i(2) by auto
  then show ?thesis using s i(1) sum_update [OF i(1) w(2)] by (simp add: work_def w(1))
qed

lemma take_progress:
  assumes inv: "client_inv run c" and i: "i < length (workers (pool c))" "workers (pool c) ! i = Top" and q: "taken c \<noteq> submitted c"
  shows "\<exists>c'. client_step run (Worker i) c = Some c' \<and> submitted c' = submitted c \<and> work c' < work c"
proof -
  obtain Q where Q: "mem_inv run c Q" "order_inv c Q" using inv by (auto simp: client_inv_def)
  have sub: "submitted c = taken c @ rev (map (job (tasks (pool c))) Q)" using Q(2) by (simp add: order_inv_def)
  then obtain Q' p where Q': "Q = Q' @ [p]" using q by (cases Q rule: rev_cases) auto
  obtain s1 where s1: "take_tail (pool c) = Some (p, s1)" "workers s1 = workers (pool c)"
    using step_take [of run c Q' p i] Q Q' i by auto
  have m: "mem run (tasks (pool c)) (futs (pool c)) (held c) (set (live (pool c) Q))" using Q(1) by (simp add: mem_inv_def)
  have "p \<in> set (live (pool c) Q)" using Q' by (simp add: live_def)
  then have "p \<noteq> NULL" by (rule task_ok_D [OF m])
  then have "jtail (pool c) \<noteq> NULL" using Q(1) Q' by (simp add: mem_inv_def queue_ok_def)
  then have step: "client_step run (Worker i) c = Some (c\<lparr>pool := set_worker i (Got p) s1, taken := taken c @ [job (tasks s1) p]\<rparr>)"
    using i s1 by (simp add: jobqueue_fetch_def)
  obtain us vs where u: "workers (pool c) = us @ Top # vs" "i = length us" using worker_split [OF i] .
  have "length (submitted c) = length (taken c) + Suc (length Q')" using sub Q' by simp
  then show ?thesis using step by (simp add: work_def s1(2) u)
qed

lemma stopping_all: "length (filter P xs) = length xs \<Longrightarrow> x \<in> set xs \<Longrightarrow> P x"
  using length_filter_less [of x xs P] by fastforce

lemma exited_taken:
  assumes inv: "client_inv run c" and ex: "all_exited c" and n: "0 < length (workers (pool c))"
  shows "taken c = submitted c"
proof -
  obtain Q where o: "order_inv c Q" using inv by (auto simp: client_inv_def)
  obtain rs ns where r: "submitted c = rs @ ns" "\<forall>j \<in> set rs. fst j \<noteq> None" "\<forall>j \<in> set ns. fst j = None" "length ns \<le> calls c"
    using o unfolding order_inv_def stops_last_def by blast
  have "filter (stopping (tasks (pool c))) (workers (pool c)) = workers (pool c)"
    using ex by (auto simp: all_exited_def stopping_def)
  then have t: "length (filter (\<lambda>j. fst j = None) (taken c)) = length (workers (pool c))" using o by (simp add: order_inv_def)
  have sub: "submitted c = taken c @ rev (map (job (tasks (pool c))) Q)" and c: "calls c \<le> length (workers (pool c))"
    using o by (simp_all add: order_inv_def)
  have "filter (\<lambda>j. fst j = None) rs = []" "filter (\<lambda>j. fst j = None) ns = ns" using r(2,3) by auto
  then have "length (filter (\<lambda>j. fst j = None) (submitted c)) = length ns" using r(1) by simp
  moreover have "length (filter (\<lambda>j. fst j = None) (submitted c)) \<ge> length (workers (pool c))" using sub t by simp
  ultimately have ln: "length ns = length (workers (pool c))" using r(4) c by simp
  have "\<not> length (taken c) < length (submitted c)"
  proof
    assume less: "length (taken c) < length (submitted c)"
    have tk: "taken c = take (length (taken c)) (rs @ ns)" using sub r(1) by (metis append_eq_conv_conj)
    have "filter (\<lambda>j. fst j = None) (taken c) = filter (\<lambda>j. fst j = None) (take (length (taken c) - length rs) ns)"
      by (subst tk) (use r(2) in \<open>auto simp: filter_empty_conv dest: in_set_takeD\<close>)
    then have "length (filter (\<lambda>j. fst j = None) (taken c)) \<le> length (taken c) - length rs"
      by (metis length_filter_le length_take min.boundedE)
    moreover have "length (taken c) - length rs < length ns" using less n unfolding r(1) length_append ln by linarith
    ultimately show False using t ln by simp
  qed
  then show ?thesis using sub by simp
qed

text \<open>Once \<open>tpool_join\<close> has submitted a stop for every worker, some worker can go on until all have exited.\<close>

lemma join_progress:
  assumes inv: "client_inv run c" and n: "0 < length (workers (pool c))"
    and all: "nulls (submitted c) = length (workers (pool c))" and ne: "\<not> all_exited c"
  shows "\<exists>i c'. client_step run (Worker i) c = Some c' \<and> submitted c' = submitted c \<and> work c' < work c"
proof (cases "\<exists>i p. i < length (workers (pool c)) \<and> (workers (pool c) ! i = Got p \<or> workers (pool c) ! i = Run p)")
  case True
  then show ?thesis using busy_progress [OF inv] by blast
next
  case False
  obtain Q where Q: "mem_inv run c Q" "order_inv c Q" using inv by (auto simp: client_inv_def)
  have idle: "w = Top \<or> w = Asleep \<or> w = Exited" if w: "w \<in> set (workers (pool c))" for w
  proof -
    obtain i where i: "i < length (workers (pool c))" "workers (pool c) ! i = w" using w by (auto simp: in_set_conv_nth)
    then show ?thesis using False by (cases w) blast+
  qed
  have cnt: "length (filter (\<lambda>j. fst j = None) (taken c)) = length (filter (stopping (tasks (pool c))) (workers (pool c)))"
    and sub: "submitted c = taken c @ rev (map (job (tasks (pool c))) Q)" using Q(2) by (simp_all add: order_inv_def)
  have "Q \<noteq> []"
  proof
    assume "Q = []"
    then have len: "length (filter (stopping (tasks (pool c))) (workers (pool c))) = length (workers (pool c))"
      using cnt sub all by (simp add: nulls_def)
    have "w = Exited" if w: "w \<in> set (workers (pool c))" for w
      using stopping_all [OF len w] idle [OF w] by (auto simp: stopping_def)
    then show False using ne by (simp add: all_exited_def)
  qed
  then have "Asleep \<notin> set (workers (pool c))" "taken c \<noteq> submitted c" using Q(1) sub by (auto simp: mem_inv_def)
  moreover obtain w where "w \<in> set (workers (pool c))" "w \<noteq> Exited" using ne by (auto simp: all_exited_def)
  ultimately obtain i where "i < length (workers (pool c))" "workers (pool c) ! i = Top"
    using idle by (metis in_set_conv_nth)
  then show ?thesis using take_progress [OF inv] \<open>taken c \<noteq> submitted c\<close> by blast
qed

lemma take_tail_workers: "take_tail s = Some (p, s') \<Longrightarrow> workers s' = workers s"
  by (auto simp: take_tail_def set_task_def split: if_splits Option.bind_splits)

lemma fetch_workers: "jobqueue_fetch run i s = Some s' \<Longrightarrow> length (workers s') = length (workers s)"
  by (auto simp: jobqueue_fetch_def Let_def dest: take_tail_workers split: Option.bind_splits if_splits worker.splits)

lemma step_workers: "client_step run (Worker i) c = Some c' \<Longrightarrow> length (workers (pool c')) = length (workers (pool c))"
  by (auto dest: fetch_workers split: Option.bind_splits if_splits)

lemma join_completes:
  assumes "client_inv run c" "0 < length (workers (pool c))" "nulls (submitted c) = length (workers (pool c))"
  shows "\<exists>es c'. exec (client_step run) es c = Some c' \<and> all_exited c'"
  using assms
proof (induction "work c" arbitrary: c rule: less_induct)
  case less
  show ?case
  proof (cases "all_exited c")
    case True
    then show ?thesis by (intro exI [of _ "[]"] exI [of _ c]) simp
  next
    case False
    obtain i c1 where c1: "client_step run (Worker i) c = Some c1" "submitted c1 = submitted c" "work c1 < work c"
      using join_progress [OF less.prems False] by blast
    have "client_inv run c1" using worker_step [OF less.prems(1), of i] c1(1) by simp
    then obtain es c' where "exec (client_step run) es c1 = Some c'" "all_exited c'"
      using less.hyps [OF c1(3)] less.prems step_workers [OF c1(1)] c1(2) by auto
    then show ?thesis using c1(1) by (intro exI [of _ "Worker i # es"] exI [of _ c']) simp
  qed
qed

lemma destroy_empty: "jhead s = NULL \<Longrightarrow> jobqueue_destroy s = Some s"
  by (simp add: jobqueue_destroy_def)

lemma exited_state:
  assumes inv: "client_inv run c" and ex: "all_exited c" and n: "0 < length (workers (pool c))"
  shows "tpool_join_wait (pool c) = Some (Some (pool c)) \<and> (\<forall>p. tasks (pool c) p = None) \<and>
    (\<forall>q x. held c q = Some x \<longrightarrow> finished run (futs (pool c)) q x)"
proof -
  obtain Q where Q: "mem_inv run c Q" "order_inv c Q" using inv by (auto simp: client_inv_def)
  have "Q = []" using exited_taken [OF inv ex n] Q(2) by (auto simp: order_inv_def)
  moreover have "concat (map task_of (workers (pool c))) = []" using ex by (auto simp: all_exited_def)
  ultimately have lv: "live (pool c) Q = []" by (simp add: live_def)
  have "mem run (tasks (pool c)) (futs (pool c)) (held c) (set (live (pool c) Q))" using Q(1) by (simp add: mem_inv_def)
  then have m: "mem run (tasks (pool c)) (futs (pool c)) (held c) {}" unfolding lv by simp
  have "jobqueue_destroy (pool c) = Some (pool c)"
    using Q(1) \<open>Q = []\<close> by (intro destroy_empty) (simp add: mem_inv_def queue_ok_def)
  moreover have "\<forall>p. tasks (pool c) p = None" using Q(1) lv by (auto simp: mem_inv_def)
  ultimately show ?thesis using ex mem_expects [OF m] by (auto simp: tpool_join_wait_def all_exited_def)
qed

section \<open>Properties\<close>

text \<open>
  C9. The pool is safe and correct under every interleaving of its workers with a client that keeps
  to the interface, whether or not allocations succeed: memory is never used after it was freed,
  the workers take the tasks in the order of submission, no worker sleeps while the queue has
  work, and when \<open>tpool_future_get\<close> returns without a timeout it delivers what the task function
  returned.
\<close>

theorem tpool_correct:
  "\<exists>c. exec (client_step run) es (client_start n) = Some c \<and> (\<exists>rest. submitted c = taken c @ rest) \<and>
    (jtail (pool c) \<noteq> NULL \<longrightarrow> Asleep \<notin> set (workers (pool c))) \<and>
    (\<forall>q f a r s. held c q = Some (f, a) \<longrightarrow> tpool_future_get q False (pool c) = Some (Some r, s) \<longrightarrow> r = run f a)"
proof -
  obtain c where c: "exec (client_step run) es (client_start n) = Some c" "client_inv run c"
    using tpool_system.exec_total [of run es n] by blast
  obtain Q where Q: "mem_inv run c Q" "order_inv c Q" using c(2) by (auto simp: client_inv_def)
  have m: "mem run (tasks (pool c)) (futs (pool c)) (held c) (set (live (pool c) Q))" using Q(1) by (simp add: mem_inv_def)
  have "r = run f a" if h: "held c q = Some (f, a)" and g: "tpool_future_get q False (pool c) = Some (Some r, s)" for q f a r s
  proof -
    obtain fu where fu: "futs (pool c) q = Some fu" using g by (auto simp: tpool_future_get_def split: Option.bind_splits)
    have "has FUTURE_FINISHED (fu\<lparr>flag := flag fu AND NOT FUTURE_TIMEOUT\<rparr>) = has FUTURE_FINISHED fu"
      unfolding has_and by (simp add: has_def flag_defs)
    then have r: "has FUTURE_FINISHED fu" "r = result fu"
      using g fu by (auto simp: tpool_future_get_def Let_def split: if_splits)
    from mem_expects [OF m h] fu r show ?thesis
      by (auto simp: finished_def elim!: task_ok_D [OF m])
  qed
  moreover have "jtail (pool c) \<noteq> NULL \<longrightarrow> Asleep \<notin> set (workers (pool c))"
    using Q(1) by (auto simp: mem_inv_def queue_ok_def split: if_splits)
  moreover have "\<exists>rest. submitted c = taken c @ rest" using Q(2) by (auto simp: order_inv_def)
  ultimately show ?thesis using c(1) by blast
qed

lemmas pool_run_defs = client_start_def jobqueue_create_def malloc_ok_def tpool_apply_def tpool_future_create_def
  tpool_future_get_def jobqueue_fetch_def take_tail_def set_task_def set_fut_def set_flag_def set_worker_def wake_all_def
  has_def flag_defs job_def

theorem tpool_correct_witness:
  "\<exists>c r s. exec (client_step (\<lambda>f a. Some (f + 1 :: nat))) [Apply 5 (None :: unit option) 1 2 7, Worker 0, Worker 0, Worker 0] (client_start 2) = Some c \<and>
    held c 2 = Some (5, None) \<and> tpool_future_get 2 False (pool c) = Some (Some r, s) \<and> r = Some 6"
proof -
  let ?run = "\<lambda>f (a :: unit option). Some (f + 1 :: nat)" and ?es = "[Apply 5 None 1 2 7, Worker 0, Worker 0, Worker 0]"
  obtain c where c: "exec (client_step ?run) ?es (client_start 2) = Some c"
    "\<forall>q f a r s. held c q = Some (f, a) \<longrightarrow> tpool_future_get q False (pool c) = Some (Some r, s) \<longrightarrow> r = ?run f a"
    using tpool_correct [of ?run ?es 2] by blast
  moreover have "held c 2 = Some (5, None)" "\<exists>r s. tpool_future_get 2 False (pool c) = Some (Some r, s)"
    using c(1) by (auto simp: pool_run_defs numeral_2_eq_2)
  ultimately show ?thesis by fastforce
qed

text \<open>
  C22. Shutting down runs everything first: once \<open>tpool_join\<close> has submitted a stop for each of the
  workers, they can all get to their exit; and whenever all have exited, every task was taken,
  every future that the client still holds is finished with its result, no task is left
  allocated, and \<open>tpool_join\<close> returns.
\<close>

theorem tpool_join_complete:
  assumes "exec (client_step run) es (client_start n) = Some c" "0 < length (workers (pool c))"
  shows "(nulls (submitted c) = length (workers (pool c)) \<longrightarrow> (\<exists>es' c'. exec (client_step run) es' c = Some c' \<and> all_exited c')) \<and>
    (all_exited c \<longrightarrow> taken c = submitted c \<and> tpool_join_wait (pool c) = Some (Some (pool c)) \<and>
      (\<forall>p. tasks (pool c) p = None) \<and> (\<forall>q x. held c q = Some x \<longrightarrow> finished run (futs (pool c)) q x))"
proof -
  have inv: "client_inv run c" by (rule tpool_system.reachable_inv [OF assms(1)])
  show ?thesis using join_completes [OF inv assms(2)] exited_taken [OF inv _ assms(2)] exited_state [OF inv _ assms(2)] by blast
qed

theorem tpool_join_complete_witness:
  "\<exists>c es' c'. exec (client_step (\<lambda>f a. Some (f + 1 :: nat))) [Apply 5 (None :: unit option) 1 2 7, Stop 3 4 7] (client_start 1) = Some c \<and>
    exec (client_step (\<lambda>f a. Some (f + 1 :: nat))) es' c = Some c' \<and> all_exited c'"
proof -
  let ?run = "\<lambda>f (a :: unit option). Some (f + 1 :: nat)" and ?es = "[Apply 5 None 1 2 7, Stop 3 4 7]"
  obtain c where c: "exec (client_step ?run) ?es (client_start 1) = Some c" "length (workers (pool c)) = 1" "nulls (submitted c) = 1"
    by (simp add: pool_run_defs nulls_def)
  from tpool_join_complete [OF c(1)] c show ?thesis by auto
qed

text \<open>
  A pool without workers accepts tasks, and joining it then walks the queue with the
  uninitialised \<open>next\<close> pointer of the oldest task: unless the fresh block happened to hold a
  null pointer there, freed or foreign memory is accessed.
\<close>

theorem tpool_zero_workers:
  fixes run :: "'f \<Rightarrow> 'a option \<Rightarrow> 'r option"
  assumes "p \<noteq> NULL" "q \<noteq> NULL" "junk \<noteq> NULL"
  shows "\<exists>c. exec (client_step run) [Apply f a p q junk] (client_start 0) = Some c \<and> tpool_join_wait (pool c) = None"
proof -
  let ?t = "\<lparr>func = Some f, arg = a, future = q, tnext = junk\<rparr>"
  let ?s = "\<lparr>tasks = [p \<mapsto> ?t], futs = [q \<mapsto> \<lparr>flag = 0, result = None\<rparr>], jhead = p, jtail = p, workers = []\<rparr> :: ('f, 'a, 'r) threadpool"
  let ?s1 = "\<lparr>tasks = Map.empty, futs = [q \<mapsto> \<lparr>flag = 0 OR FUTURE_CANCELLED, result = None\<rparr>], jhead = junk, jtail = p, workers = []\<rparr> :: ('f, 'a, 'r) threadpool"
  have "jobqueue_destroy ?s = jobqueue_destroy ?s1"
    unfolding jobqueue_destroy_def
    by (rule loop_next) (use assms in \<open>simp add: set_task_def set_flag_def set_fut_def has_def\<close>)
  also have "\<dots> = None" unfolding jobqueue_destroy_def by (rule loop_fail) (use assms in simp)
  finally have "jobqueue_destroy ?s = None" .
  then have j: "tpool_join_wait ?s = None" by (simp add: tpool_join_wait_def)
  have "exec (client_step run) [Apply f a p q junk] (client_start 0) =
    Some \<lparr>pool = ?s, held = [q \<mapsto> (f, a)], submitted = [(Some f, a, q)], taken = [], calls = 0\<rparr>"
    using assms by (simp add: pool_run_defs)
  with j show ?thesis by simp
qed

theorem tpool_zero_workers_witness:
  "\<exists>c. exec (client_step (\<lambda>f a. Some (f + 1 :: nat))) [Apply 5 (None :: unit option) 1 2 7] (client_start 0) = Some c \<and> tpool_join_wait (pool c) = None"
  by (rule tpool_zero_workers) simp_all

text \<open>When only the task block cannot be allocated, the future is marked and never freed.\<close>

lemma apply_leaks_future:
  assumes "q \<noteq> NULL"
  shows "\<exists>s'. tpool_apply NULL q junk f a s = Some (NULL, s') \<and> futs s' q \<noteq> None"
  using assms by (simp add: tpool_apply_def tpool_future_create_def tpool_future_destroy_def has_def)

text \<open>A creation that fails gives everything back, at whichever call it fails.\<close>

lemma create_fails_clean:
  assumes "tpool_create e n = Some (None, blocks, threads)"
  shows "blocks = {} \<and> threads = {}"
  using assms by (auto simp: tpool_create_def destroy_empty jobqueue_create_def Let_def split: if_splits sum.splits)

end
