(* ===== verification/Httpd_Queue.thy ===== *)
theory Httpd_Queue
  imports Prelude
begin

text \<open>
  The two-lock connection queue of \<^verbatim>\<open>httpd/httpd.c\<close>, one step per access to shared memory, for any number of
  threads and any interleaving. The result \<open>None\<close> is an access to memory that is not allocated. The
  queue is shown to be safe and first-in first-out; its condition variable is shown to lose
  wake-ups, because the producer signals without the lock that the consumer holds.
\<close>

section \<open>Data\<close>

record node =
  nfd :: int
  nnext :: ptr

text \<open>
  Where a thread is in \<open>enqueue\<close> or \<open>dequeue\<close>. A pointer is the node being added, or the old head;
  an integer is the descriptor read, or the size read.
\<close>

datatype pc =
    Idle
  | E_lock ptr | E_link ptr | E_tail ptr | E_load | E_store int | E_signal | E_unlock
  | D_lock | D_check | D_wait | D_asleep | D_read | D_move ptr int | D_load ptr | D_store ptr int | D_unlock ptr | D_free ptr

record queue =
  nodes :: "ptr \<Rightarrow> node option"
  qhead :: ptr
  qtail :: ptr
  qsize :: int
  head_lock :: "nat option"
  tail_lock :: "nat option"
  sleepers :: "nat list"
  pcs :: "nat \<Rightarrow> pc"
  enq_log :: "int list"
  deq_log :: "int list"

definition goto :: "nat \<Rightarrow> pc \<Rightarrow> queue \<Rightarrow> queue" where
  "goto t p q = q\<lparr>pcs := (pcs q)(t := p)\<rparr>"

section \<open>Operations\<close>

text \<open>
  \<open>queue_init\<close>: the outcomes of the four allocations and of the initialisation of the mutexes;
  \<open>Inl\<close> is \<open>exit(1)\<close>, with the blocks that were not freed before.
\<close>

datatype block = B_dummy | B_head_lock | B_tail_lock | B_non_empty

definition queue_init :: "(block \<Rightarrow> bool) \<Rightarrow> bool \<Rightarrow> ptr \<Rightarrow> (block set + queue)" where
  "queue_init ok mutexes_ok dummy =
     (if \<not> ok B_dummy then Inl {}
      else if \<not> ok B_head_lock then Inl ({B_dummy} - {B_dummy})
      else if \<not> ok B_tail_lock then Inl ({B_dummy, B_head_lock} - {B_head_lock} - {B_dummy})
      else if \<not> ok B_non_empty then Inl ({B_dummy, B_head_lock, B_tail_lock} - {B_tail_lock} - {B_head_lock} - {B_dummy})
      else if \<not> mutexes_ok then
        Inl ({B_dummy, B_head_lock, B_tail_lock, B_non_empty} - {B_non_empty} - {B_tail_lock} - {B_head_lock} - {B_dummy})
      else Inr \<lparr>nodes = [dummy \<mapsto> \<lparr>nfd = 0, nnext = NULL\<rparr>], qhead = dummy, qtail = dummy, qsize = 0,
        head_lock = None, tail_lock = None, sleepers = [], pcs = (\<lambda>_. Idle), enq_log = [], deq_log = []\<rparr>)"

definition set_next :: "ptr \<Rightarrow> ptr \<Rightarrow> queue \<Rightarrow> queue option" where
  "set_next p nx q = do { n \<leftarrow> nodes q p; Some (q\<lparr>nodes := (nodes q)(p \<mapsto> n\<lparr>nnext := nx\<rparr>)\<rparr>) }"

text \<open>\<open>pthread_cond_signal\<close> wakes one of the sleeping threads, which the kernel chooses (\<open>w\<close>).\<close>

definition signal :: "nat \<Rightarrow> queue \<Rightarrow> queue" where
  "signal w q =
     (case sleepers q of [] \<Rightarrow> q
      | v # vs \<Rightarrow> let x = (if w \<in> set (v # vs) then w else v) in
          goto x D_lock (q\<lparr>sleepers := remove1 x (v # vs)\<rparr>))"

text \<open>The first steps: \<open>enqueue\<close> with the block \<open>p\<close> from \<open>malloc\<close>, and \<open>dequeue\<close>.\<close>

definition enqueue_start :: "nat \<Rightarrow> int \<Rightarrow> ptr \<Rightarrow> queue \<Rightarrow> queue option" where
  "enqueue_start t fd p q =
     (if p = NULL then None
      else Some (goto t (E_lock p) (q\<lparr>nodes := (nodes q)(p \<mapsto> \<lparr>nfd = fd, nnext = NULL\<rparr>)\<rparr>)))"

definition enqueue :: "nat \<Rightarrow> nat \<Rightarrow> queue \<Rightarrow> queue option" where
  "enqueue t w q = (case pcs q t of
     E_lock p \<Rightarrow> Some (if tail_lock q = None then goto t (E_link p) (q\<lparr>tail_lock := Some t\<rparr>) else q)
   | E_link p \<Rightarrow> do {
       n \<leftarrow> nodes q p;
       q \<leftarrow> set_next (qtail q) p q;
       Some (goto t (E_tail p) (q\<lparr>enq_log := enq_log q @ [nfd n]\<rparr>)) }
   | E_tail p \<Rightarrow> Some (goto t E_load (q\<lparr>qtail := p\<rparr>))
   | E_load \<Rightarrow> Some (goto t (E_store (qsize q)) q)
   | E_store n \<Rightarrow> Some (goto t E_signal (q\<lparr>qsize := n + 1\<rparr>))
   | E_signal \<Rightarrow> Some (signal w (goto t E_unlock q))
   | E_unlock \<Rightarrow> Some (goto t Idle (q\<lparr>tail_lock := None\<rparr>))
   | _ \<Rightarrow> None)"

definition dequeue :: "nat \<Rightarrow> queue \<Rightarrow> queue option" where
  "dequeue t q = (case pcs q t of
     D_lock \<Rightarrow> Some (if head_lock q = None then goto t D_check (q\<lparr>head_lock := Some t\<rparr>) else q)
   | D_check \<Rightarrow> do {
       n \<leftarrow> nodes q (qhead q);
       Some (goto t (if nnext n = NULL then D_wait else D_read) q) }
   | D_wait \<Rightarrow> Some (goto t D_asleep (q\<lparr>head_lock := None, sleepers := sleepers q @ [t]\<rparr>))
   | D_asleep \<Rightarrow> Some q
   | D_read \<Rightarrow> do {
       old_head \<leftarrow> nodes q (qhead q);
       n \<leftarrow> nodes q (nnext old_head);
       Some (goto t (D_move (qhead q) (nfd n)) q) }
   | D_move old fd \<Rightarrow> do {
       n \<leftarrow> nodes q (qhead q);
       Some (goto t (D_load old) (q\<lparr>qhead := nnext n, deq_log := deq_log q @ [fd]\<rparr>)) }
   | D_load old \<Rightarrow> Some (goto t (D_store old (qsize q)) q)
   | D_store old n \<Rightarrow> Some (goto t (D_unlock old) (q\<lparr>qsize := n - 1\<rparr>))
   | D_unlock old \<Rightarrow> Some (goto t (D_free old) (q\<lparr>head_lock := None\<rparr>))
   | D_free old \<Rightarrow> do { nodes q old; Some (goto t Idle (q\<lparr>nodes := (nodes q)(old := None)\<rparr>)) }
   | _ \<Rightarrow> None)"

text \<open>
  An event: a thread calls \<open>enqueue\<close> or \<open>dequeue\<close>, takes its next step (with the sleeper the kernel
  would wake), or wakes up for no reason. \<open>malloc\<close> hands out a block that is not in use.
\<close>

datatype event = Enqueue nat int ptr | Dequeue nat | Step nat nat | Spurious nat

fun queue_step :: "event \<Rightarrow> queue \<Rightarrow> queue option" where
  "queue_step (Enqueue t fd p) q =
     (if pcs q t = Idle \<and> p \<noteq> NULL \<and> nodes q p = None then enqueue_start t fd p q else Some q)"
| "queue_step (Dequeue t) q = Some (if pcs q t = Idle then goto t D_lock q else q)"
| "queue_step (Step t w) q =
     (if pcs q t = Idle then Some q
      else if pcs q t \<in> {D_lock, D_check, D_wait, D_asleep, D_read} then dequeue t q
      else case pcs q t of D_move old fd \<Rightarrow> dequeue t q | D_load old \<Rightarrow> dequeue t q | D_store old n \<Rightarrow> dequeue t q
        | D_unlock old \<Rightarrow> dequeue t q | D_free old \<Rightarrow> dequeue t q | _ \<Rightarrow> enqueue t w q)"
| "queue_step (Spurious t) q =
     Some (if t \<in> set (sleepers q) then goto t D_lock (q\<lparr>sleepers := remove1 t (sleepers q)\<rparr>) else q)"

section \<open>The invariant\<close>

fun owner :: "pc \<Rightarrow> ptr option" where
  "owner (E_lock p) = Some p"
| "owner (E_link p) = Some p"
| "owner (D_load p) = Some p"
| "owner (D_store p n) = Some p"
| "owner (D_unlock p) = Some p"
| "owner (D_free p) = Some p"
| "owner _ = None"

fun has_tail_lock :: "pc \<Rightarrow> bool" where
  "has_tail_lock (E_link p) = True"
| "has_tail_lock (E_tail p) = True"
| "has_tail_lock E_load = True"
| "has_tail_lock (E_store n) = True"
| "has_tail_lock E_signal = True"
| "has_tail_lock E_unlock = True"
| "has_tail_lock _ = False"

fun has_head_lock :: "pc \<Rightarrow> bool" where
  "has_head_lock D_check = True"
| "has_head_lock D_wait = True"
| "has_head_lock D_read = True"
| "has_head_lock (D_move p fd) = True"
| "has_head_lock (D_load p) = True"
| "has_head_lock (D_store p n) = True"
| "has_head_lock (D_unlock p) = True"
| "has_head_lock _ = False"

definition locks_ok :: "queue \<Rightarrow> bool" where
  "locks_ok q \<longleftrightarrow> (\<forall>t. has_tail_lock (pcs q t) \<longleftrightarrow> tail_lock q = Some t) \<and> (\<forall>t. has_head_lock (pcs q t) \<longleftrightarrow> head_lock q = Some t) \<and>
     (\<forall>t. t \<in> set (sleepers q) \<longleftrightarrow> pcs q t = D_asleep) \<and> distinct (sleepers q)"

text \<open>
  The list: \<open>ps\<close> is the dummy node followed by the nodes in the queue. Only between linking a node and
  moving the tail is the tail not the last of them.
\<close>

definition nx :: "queue \<Rightarrow> ptr \<Rightarrow> ptr" where
  "nx q p = nnext (the (nodes q p))"

definition list_ok :: "queue \<Rightarrow> ptr list \<Rightarrow> bool" where
  "list_ok q ps \<longleftrightarrow> chain (nx q) (qhead q) ps NULL \<and> ps \<noteq> [] \<and> (\<forall>p \<in> set ps. nodes q p \<noteq> None) \<and>
     (qtail q = last ps \<or> (\<exists>t. pcs q t = E_tail (last ps))) \<and> (\<forall>t p. pcs q t = E_tail p \<longrightarrow> p = last ps)"

definition own_ok :: "queue \<Rightarrow> ptr list \<Rightarrow> bool" where
  "own_ok q ps \<longleftrightarrow> (\<forall>t p. owner (pcs q t) = Some p \<longrightarrow> p \<noteq> NULL \<and> nodes q p \<noteq> None \<and> p \<notin> set ps \<and>
       (\<forall>u. owner (pcs q u) = Some p \<longrightarrow> u = t)) \<and>
     (\<forall>t p. pcs q t = E_lock p \<or> pcs q t = E_link p \<longrightarrow> nx q p = NULL)"

definition fdof :: "queue \<Rightarrow> ptr \<Rightarrow> int" where
  "fdof q p = nfd (the (nodes q p))"

definition log_ok :: "queue \<Rightarrow> ptr list \<Rightarrow> bool" where
  "log_ok q ps \<longleftrightarrow> enq_log q = deq_log q @ map (fdof q) (tl ps) \<and>
     (\<forall>t. pcs q t = D_read \<longrightarrow> tl ps \<noteq> []) \<and>
     (\<forall>t p fd. pcs q t = D_move p fd \<longrightarrow> tl ps \<noteq> [] \<and> p = hd ps \<and> fd = fdof q (hd (tl ps)))"

definition queue_inv :: "queue \<Rightarrow> bool" where
  "queue_inv q \<longleftrightarrow> (\<exists>ps. locks_ok q \<and> list_ok q ps \<and> own_ok q ps \<and> log_ok q ps)"

lemma goto_fields [simp]:
  "nodes (goto t p q) = nodes q" "qhead (goto t p q) = qhead q" "qtail (goto t p q) = qtail q" "nx (goto t p q) = nx q"
  "head_lock (goto t p q) = head_lock q" "tail_lock (goto t p q) = tail_lock q" "sleepers (goto t p q) = sleepers q"
  "pcs (goto t p q) = (pcs q)(t := p)" "enq_log (goto t p q) = enq_log q" "deq_log (goto t p q) = deq_log q" "qsize (goto t p q) = qsize q"
  by (auto simp: goto_def nx_def)

lemma nx_upd [simp]: "nx (q\<lparr>qhead := a\<rparr>) = nx q" "nx (q\<lparr>qtail := a\<rparr>) = nx q" "nx (q\<lparr>qsize := n\<rparr>) = nx q"
  "nx (q\<lparr>head_lock := l\<rparr>) = nx q" "nx (q\<lparr>tail_lock := l\<rparr>) = nx q" "nx (q\<lparr>sleepers := ss\<rparr>) = nx q"
  "nx (q\<lparr>enq_log := es\<rparr>) = nx q" "nx (q\<lparr>deq_log := es\<rparr>) = nx q"
  by (auto simp: nx_def fun_eq_iff)

lemma fdof_goto [simp]: "fdof (goto t p q) = fdof q"
  by (auto simp: fdof_def fun_eq_iff)

lemma list_D:
  assumes "list_ok q ps"
  shows "chain (nx q) (qhead q) ps NULL" "ps \<noteq> []" "p \<in> set ps \<Longrightarrow> nodes q p \<noteq> None"
    "qtail q = last ps \<or> (\<exists>t. pcs q t = E_tail (last ps))" "pcs q t = E_tail p \<Longrightarrow> p = last ps"
  using assms unfolding list_ok_def by blast+

lemma own_D:
  assumes "own_ok q ps" "owner (pcs q t) = Some p"
  shows "p \<noteq> NULL" "nodes q p \<noteq> None" "p \<notin> set ps" "\<And>u. owner (pcs q u) = Some p \<Longrightarrow> u = t"
  using assms unfolding own_ok_def by blast+

lemma own_next: "own_ok q ps \<Longrightarrow> pcs q t = E_lock p \<or> pcs q t = E_link p \<Longrightarrow> nx q p = NULL"
  unfolding own_ok_def by blast

lemma own_okI:
  assumes "\<And>t p. owner (pcs q t) = Some p \<Longrightarrow> p \<noteq> NULL \<and> nodes q p \<noteq> None \<and> p \<notin> set ps"
    "\<And>t u p. owner (pcs q t) = Some p \<Longrightarrow> owner (pcs q u) = Some p \<Longrightarrow> u = t"
    "\<And>t p. pcs q t = E_lock p \<or> pcs q t = E_link p \<Longrightarrow> nx q p = NULL"
  shows "own_ok q ps"
  using assms unfolding own_ok_def by blast

definition inv_at :: "queue \<Rightarrow> ptr list \<Rightarrow> bool" where
  "inv_at q ps \<longleftrightarrow> list_ok q ps \<and> own_ok q ps \<and> log_ok q ps"

text \<open>A step that moves thread \<open>t\<close> to \<open>b\<close> and changes neither the list nor the logs.\<close>

lemma frame_pc:
  assumes inv: "inv_at q ps" and q': "nodes q' = nodes q" "qhead q' = qhead q" "qtail q' = qtail q" "enq_log q' = enq_log q"
      "deq_log q' = deq_log q" "pcs q' = (pcs q)(t := b)"
    and own: "owner b = None \<or> owner b = owner (pcs q t)"
    and new: "\<And>p. b = E_lock p \<or> b = E_link p \<Longrightarrow> pcs q t = E_lock p \<or> pcs q t = E_link p"
    and tail: "\<And>p. pcs q t \<noteq> E_tail p" "\<And>p. b \<noteq> E_tail p"
    and dq: "b = D_read \<Longrightarrow> tl ps \<noteq> []" "\<And>p fd. b = D_move p fd \<Longrightarrow> tl ps \<noteq> [] \<and> p = hd ps \<and> fd = fdof q (hd (tl ps))"
  shows "inv_at q' ps"
proof -
  have l: "list_ok q ps" and o: "own_ok q ps" and g: "log_ok q ps" using inv by (auto simp: inv_at_def)
  have nx: "nx q' = nx q" and fd: "fdof q' = fdof q" using q'(1) by (auto simp: nx_def fdof_def fun_eq_iff)
  have tl: "pcs q' u = E_tail p \<longleftrightarrow> pcs q u = E_tail p" for u p using tail q'(6) by auto
  have "list_ok q' ps" using l unfolding list_ok_def nx q'(1-3) tl .
  moreover have "own_ok q' ps"
  proof (rule own_okI)
    have old: "owner (pcs q u) = Some p" if "owner (pcs q' u) = Some p" for u p
      using that own q'(6) by (auto split: if_splits)
    show "p \<noteq> NULL \<and> nodes q' p \<noteq> None \<and> p \<notin> set ps" if "owner (pcs q' u) = Some p" for u p
      using own_D [OF o old [OF that]] q'(1) by simp
    show "v = u" if "owner (pcs q' u) = Some p" "owner (pcs q' v) = Some p" for u v p
      using own_D(4) [OF o old [OF that(1)] old [OF that(2)]] .
    show "nx q' p = NULL" if "pcs q' u = E_lock p \<or> pcs q' u = E_link p" for u p
      using own_next [OF o, of u p] new [of p] that q'(6) nx by (auto split: if_splits)
  qed
  moreover have "log_ok q' ps"
    using g dq unfolding log_ok_def q' fd by auto
  ultimately show ?thesis by (simp add: inv_at_def)
qed

lemma locks_D:
  assumes "locks_ok q"
  shows "has_tail_lock (pcs q t) \<longleftrightarrow> tail_lock q = Some t" "has_head_lock (pcs q t) \<longleftrightarrow> head_lock q = Some t"
    "t \<in> set (sleepers q) \<longleftrightarrow> pcs q t = D_asleep" "distinct (sleepers q)"
  using assms by (auto simp: locks_ok_def)

text \<open>The locks and the sleepers stay as they are.\<close>

lemma locks_pc:
  assumes "locks_ok q" "pcs q' = (pcs q)(t := b)" "head_lock q' = head_lock q" "tail_lock q' = tail_lock q" "sleepers q' = sleepers q"
    "has_tail_lock b = has_tail_lock (pcs q t)" "has_head_lock b = has_head_lock (pcs q t)" "b \<noteq> D_asleep" "pcs q t \<noteq> D_asleep"
  shows "locks_ok q'"
  using assms by (auto simp: locks_ok_def)

lemma step_link:
  assumes inv: "inv_at q ps" "locks_ok q" and t: "pcs q t = E_link p"
  shows "\<exists>q'. enqueue t w q = Some q' \<and> inv_at q' (ps @ [p]) \<and> locks_ok q'"
proof -
  have l: "list_ok q ps" and o: "own_ok q ps" and g: "log_ok q ps" using inv(1) by (auto simp: inv_at_def)
  have no: "pcs q u \<noteq> E_tail x" for u x
    using locks_D(1) [OF inv(2), of u] locks_D(1) [OF inv(2), of t] t by auto
  have tl: "qtail q = last ps" using list_D(4) [OF l] no by simp
  have ow: "owner (pcs q t) = Some p" using t by simp
  note p = own_D [OF o ow] and pn = own_next [OF o, of t p]
  obtain n where n: "nodes q p = Some n" using p(2) by auto
  have lst: "last ps \<in> set ps" "ps \<noteq> []" using list_D(2) [OF l] by simp_all
  obtain d where d: "nodes q (last ps) = Some d" using list_D(3) [OF l lst(1)] by auto
  let ?N = "(nodes q)(last ps \<mapsto> d\<lparr>nnext := p\<rparr>)"
  let ?q = "goto t (E_tail p) (q\<lparr>nodes := ?N, enq_log := enq_log q @ [nfd n]\<rparr>)"
  have e: "enqueue t w q = Some ?q" using t n d tl by (simp add: enqueue_def set_next_def)
  have nxq: "nx ?q = (nx q)(last ps := p)" by (auto simp: nx_def)
  have fdq: "fdof ?q = fdof q" using d by (auto simp: fdof_def)
  note c = list_D(1) [OF l]
  obtain qs where qs: "ps = qs @ [last ps]" using lst(2) by (metis append_butlast_last_id)
  have "chain (nx ?q) (qhead ?q) (ps @ [p]) NULL"
  proof -
    have "distinct (qs @ [last ps])" using chain_distinct [OF c] qs by simp
    then have nq: "last ps \<notin> set qs" by simp
    have "chain (nx q) (qhead q) (qs @ [last ps]) NULL" using c qs by simp
    then have c1: "chain (nx q) (qhead q) qs (last ps)" "last ps \<noteq> NULL" unfolding chain_snoc by auto
    then have "chain (nx ?q) (qhead q) (qs @ [last ps]) p" unfolding chain_snoc nxq using nq by simp
    then have "chain (nx ?q) (qhead q) ((qs @ [last ps]) @ [p]) NULL"
      unfolding chain_snoc [of _ _ "qs @ [last ps]"] nxq using p(1,3) pn t lst by auto
    then show ?thesis using qs by simp
  qed
  moreover have "nodes ?q x \<noteq> None" if "x \<in> set (ps @ [p])" for x using that list_D(3) [OF l, of x] n d by auto
  ultimately have "list_ok ?q (ps @ [p])" using no unfolding list_ok_def by (auto split: if_splits)
  moreover have "own_ok ?q (ps @ [p])"
  proof (rule own_okI)
    have old: "u \<noteq> t \<and> owner (pcs q u) = Some x" if "owner (pcs ?q u) = Some x" for u x
      using that by (auto split: if_splits)
    show "x \<noteq> NULL \<and> nodes ?q x \<noteq> None \<and> x \<notin> set (ps @ [p])" if a: "owner (pcs ?q u) = Some x" for u x
      using own_D [OF o, of u x] old [OF a] p(4) [of u] by auto
    show "v = u" if "owner (pcs ?q u) = Some x" "owner (pcs ?q v) = Some x" for u v x
      using own_D(4) [OF o, of u x v] old [OF that(1)] old [OF that(2)] by simp
    show "nx ?q x = NULL" if a: "pcs ?q u = E_lock x \<or> pcs ?q u = E_link x" for u x
    proof -
      have ux: "pcs q u = E_lock x \<or> pcs q u = E_link x" using a by (auto split: if_splits)
      then have "owner (pcs q u) = Some x" by auto
      from own_D(3) [OF o this] lst(1) have "x \<noteq> last ps" by auto
      then show ?thesis unfolding nxq using own_next [OF o ux] by simp
    qed
  qed
  moreover have "log_ok ?q (ps @ [p])"
  proof -
    have "fdof q p = nfd n" using n by (simp add: fdof_def)
    then show ?thesis using g lst(2) unfolding log_ok_def fdq by (auto split: if_splits)
  qed
  moreover have "locks_ok ?q" by (rule locks_pc [OF inv(2), where t = t and b = "E_tail p"]) (use t in simp_all)
  ultimately show ?thesis using e by (simp add: inv_at_def)
qed

lemma step_tail:
  assumes inv: "inv_at q ps" "locks_ok q" and t: "pcs q t = E_tail p"
  shows "inv_at (goto t E_load (q\<lparr>qtail := p\<rparr>)) ps \<and> locks_ok (goto t E_load (q\<lparr>qtail := p\<rparr>))"
proof -
  let ?q = "goto t E_load (q\<lparr>qtail := p\<rparr>)"
  have l: "list_ok q ps" and o: "own_ok q ps" and g: "log_ok q ps" using inv(1) by (auto simp: inv_at_def)
  have p: "p = last ps" by (rule list_D(5) [OF l t])
  have "list_ok ?q ps" unfolding list_ok_def using list_D(1,2) [OF l] list_D(3) [OF l] list_D(5) [OF l] p by (auto split: if_splits)
  moreover have "own_ok ?q ps"
  proof (rule own_okI)
    have old: "owner (pcs q u) = Some x" if "owner (pcs ?q u) = Some x" for u x using that by (auto split: if_splits)
    show "x \<noteq> NULL \<and> nodes ?q x \<noteq> None \<and> x \<notin> set ps" if "owner (pcs ?q u) = Some x" for u x
      using own_D [OF o old [OF that]] by simp
    show "v = u" if "owner (pcs ?q u) = Some x" "owner (pcs ?q v) = Some x" for u v x
      using own_D(4) [OF o old [OF that(1)] old [OF that(2)]] .
    show "nx ?q x = NULL" if "pcs ?q u = E_lock x \<or> pcs ?q u = E_link x" for u x
      using own_next [OF o, of u x] that by (auto split: if_splits)
  qed
  moreover have "fdof ?q = fdof q" by (auto simp: fdof_def)
  then have "log_ok ?q ps" using g unfolding log_ok_def by (auto split: if_splits)
  moreover have "locks_ok ?q" by (rule locks_pc [OF inv(2), where t = t and b = E_load]) (use t in simp_all)
  ultimately show ?thesis by (simp add: inv_at_def)
qed

lemma step_move:
  assumes inv: "inv_at q ps" "locks_ok q" and t: "pcs q t = D_move old fd"
  shows "\<exists>q'. dequeue t q = Some q' \<and> inv_at q' (tl ps) \<and> locks_ok q'"
proof -
  have l: "list_ok q ps" and o: "own_ok q ps" and g: "log_ok q ps" using inv(1) by (auto simp: inv_at_def)
  have m: "tl ps \<noteq> []" "old = hd ps" "fd = fdof q (hd (tl ps))" using g t unfolding log_ok_def by blast+
  obtain y zs where ps: "ps = old # y # zs" using m(1,2) list_D(2) [OF l] by (cases ps; cases "tl ps") auto
  note c = list_D(1) [OF l]
  have h: "qhead q = old" "old \<noteq> NULL" "nx q old = y" "chain (nx q) y (y # zs) NULL" using c ps by auto
  have d: "distinct ps" by (rule chain_distinct [OF c])
  obtain n where n: "nodes q old = Some n" using list_D(3) [OF l, of old] ps by auto
  let ?q = "goto t (D_load old) (q\<lparr>qhead := y, deq_log := deq_log q @ [fd]\<rparr>)"
  have e: "dequeue t q = Some ?q" using t h(1,3) n by (simp add: dequeue_def nx_def)
  have et: "pcs ?q u = E_tail x \<longleftrightarrow> pcs q u = E_tail x" for u x using t by auto
  have "list_ok ?q (tl ps)"
    using h(4) list_D(3) [OF l] list_D(4) [OF l] list_D(5) [OF l] unfolding list_ok_def et by (auto simp: ps)
  moreover have "own_ok ?q (tl ps)"
  proof (rule own_okI)
    have old: "u = t \<and> x = old \<or> u \<noteq> t \<and> owner (pcs q u) = Some x" if "owner (pcs ?q u) = Some x" for u x
      using that by (auto split: if_splits)
    have no: "owner (pcs q u) \<noteq> Some old" for u using own_D(3) [OF o, of u old] ps by auto
    show "x \<noteq> NULL \<and> nodes ?q x \<noteq> None \<and> x \<notin> set (tl ps)" if "owner (pcs ?q u) = Some x" for u x
      using old [OF that] own_D [OF o, of u x] h(2) n d ps by auto
    show "v = u" if "owner (pcs ?q u) = Some x" "owner (pcs ?q v) = Some x" for u v x
      using old [OF that(1)] old [OF that(2)] own_D(4) [OF o, of u x v] no by blast
    show "nx ?q x = NULL" if "pcs ?q u = E_lock x \<or> pcs ?q u = E_link x" for u x
      using own_next [OF o, of u x] that by (auto split: if_splits)
  qed
  moreover have "log_ok ?q (tl ps)"
  proof -
    have fq: "fdof ?q = fdof q" by (auto simp: fdof_def)
    have u1: "\<not> has_head_lock (pcs ?q u)" if "u \<noteq> t" for u
      using locks_D(2) [OF inv(2), of u] locks_D(2) [OF inv(2), of t] t that by auto
    have "pcs ?q u \<noteq> D_read" "pcs ?q u \<noteq> D_move x y" for u x y
      using u1 [of u] by (cases "u = t"; auto)+
    then show ?thesis using g m(3) unfolding log_ok_def fq by (auto simp: ps)
  qed
  moreover have "locks_ok ?q" by (rule locks_pc [OF inv(2), where t = t and b = "D_load old"]) (use t in simp_all)
  ultimately show ?thesis using e by (auto simp: inv_at_def)
qed

text \<open>Blocks that are not in the list come and go.\<close>

lemma step_nodes:
  assumes inv: "inv_at q ps" and p: "p \<notin> set ps" "\<And>u. u \<noteq> t \<Longrightarrow> owner (pcs q u) \<noteq> Some p"
    and q': "nodes q' = (nodes q)(p := v)" "qhead q' = qhead q" "qtail q' = qtail q" "enq_log q' = enq_log q"
      "deq_log q' = deq_log q" "pcs q' = (pcs q)(t := b)"
    and b: "b = Idle \<or> b = E_lock p \<and> p \<noteq> NULL \<and> (\<exists>n. v = Some n \<and> nnext n = NULL)"
    and t: "\<And>x. pcs q t \<noteq> E_tail x"
  shows "inv_at q' ps"
proof -
  have l: "list_ok q ps" and o: "own_ok q ps" and g: "log_ok q ps" using inv by (auto simp: inv_at_def)
  have nx: "nx q' x = nx q x" and fd: "fdof q' x = fdof q x" if "x \<noteq> p" for x using q'(1) that by (auto simp: nx_def fdof_def)
  have et: "pcs q' u = E_tail x \<longleftrightarrow> pcs q u = E_tail x" for u x using t b q'(6) by auto
  have "chain (nx q') (qhead q) ps NULL"
    using list_D(1) [OF l] by (rule chain_cong) (use nx p(1) in metis)
  moreover have "nodes q' x \<noteq> None" if "x \<in> set ps" for x using list_D(3) [OF l that] p(1) that q'(1) by auto
  ultimately have "list_ok q' ps"
    using list_D(2,4) [OF l] list_D(5) [OF l] unfolding list_ok_def et q'(2,3) by blast
  moreover have "own_ok q' ps"
  proof (rule own_okI)
    have old: "u = t \<and> x = p \<and> b = E_lock p \<or> u \<noteq> t \<and> owner (pcs q u) = Some x" if "owner (pcs q' u) = Some x" for u x
      using that b q'(6) by (auto split: if_splits)
    show "x \<noteq> NULL \<and> nodes q' x \<noteq> None \<and> x \<notin> set ps" if a: "owner (pcs q' u) = Some x" for u x
      using old [OF a] own_D(1-3) [OF o, of u x] p b q'(1) by (cases "u = t") auto
    show "w = u" if "owner (pcs q' u) = Some x" "owner (pcs q' w) = Some x" for u w x
      using old [OF that(1)] old [OF that(2)] own_D(4) [OF o, of u x w] p(2) by blast
    show "nx q' x = NULL" if a: "pcs q' u = E_lock x \<or> pcs q' u = E_link x" for u x
    proof (cases "u = t")
      case True
      then have "b = E_lock p" "x = p" using a b q'(6) by auto
      then show ?thesis using b q'(1) by (auto simp: nx_def)
    next
      case False
      then have ux: "pcs q u = E_lock x \<or> pcs q u = E_link x" using a q'(6) by auto
      then have "x \<noteq> p" using p(2) [OF False] by auto
      then show ?thesis using nx own_next [OF o ux] by simp
    qed
  qed
  moreover have "log_ok q' ps"
  proof -
    have sub: "set (tl ps) \<subseteq> set ps" by (cases ps) auto
    have fs: "fdof q' x = fdof q x" if x: "x \<in> set (tl ps)" for x
    proof -
      have "x \<noteq> p" using x sub p(1) by blast
      then show ?thesis by (rule fd)
    qed
    then have "map (fdof q') (tl ps) = map (fdof q) (tl ps)" by simp
    moreover have "fdof q' (hd (tl ps)) = fdof q (hd (tl ps))" if ne: "tl ps \<noteq> []"
      by (rule fs [OF hd_in_set [OF ne]])
    ultimately show ?thesis using g b unfolding log_ok_def q' by (auto split: if_splits)
  qed
  ultimately show ?thesis by (simp add: inv_at_def)
qed

lemma queue_step_start:
  assumes inv: "inv_at q ps" "locks_ok q" and p: "p \<noteq> NULL" "nodes q p = None" and t: "pcs q t = Idle"
  shows "\<exists>q'. enqueue_start t fd p q = Some q' \<and> inv_at q' ps \<and> locks_ok q'"
proof -
  let ?q = "goto t (E_lock p) (q\<lparr>nodes := (nodes q)(p \<mapsto> \<lparr>nfd = fd, nnext = NULL\<rparr>)\<rparr>)"
  have l: "list_ok q ps" and o: "own_ok q ps" using inv(1) by (auto simp: inv_at_def)
  have "p \<notin> set ps" using list_D(3) [OF l, of p] p(2) by auto
  moreover have "owner (pcs q u) \<noteq> Some p" for u using own_D(2) [OF o, of u p] p(2) by auto
  ultimately have "inv_at ?q ps"
    by (intro step_nodes [OF inv(1), where p = p and t = t and b = "E_lock p" and v = "Some \<lparr>nfd = fd, nnext = NULL\<rparr>"]) (use p(1) t in simp_all)
  moreover have "locks_ok ?q" by (rule locks_pc [OF inv(2), where t = t and b = "E_lock p"]) (use t in simp_all)
  ultimately show ?thesis using p(1) by (simp add: enqueue_start_def)
qed

lemma step_free:
  assumes inv: "inv_at q ps" "locks_ok q" and t: "pcs q t = D_free old"
  shows "\<exists>q'. dequeue t q = Some q' \<and> inv_at q' ps \<and> locks_ok q'"
proof -
  let ?q = "goto t Idle (q\<lparr>nodes := (nodes q)(old := None)\<rparr>)"
  have o: "own_ok q ps" using inv(1) by (simp add: inv_at_def)
  have ow: "owner (pcs q t) = Some old" using t by simp
  have "inv_at ?q ps"
    by (rule step_nodes [OF inv(1), where p = old and t = t and b = Idle and v = None])
      (use own_D(3,4) [OF o ow] t in \<open>auto\<close>)
  moreover have "locks_ok ?q" by (rule locks_pc [OF inv(2), where t = t and b = Idle]) (use t in simp_all)
  moreover have "dequeue t q = Some ?q" using t own_D(2) [OF o ow] by (auto simp: dequeue_def)
  ultimately show ?thesis by blast
qed

lemma wake_inv:
  assumes inv: "inv_at q ps" "locks_ok q" and t: "t \<in> set (sleepers q)"
  shows "inv_at (goto t D_lock (q\<lparr>sleepers := remove1 t (sleepers q)\<rparr>)) ps \<and> locks_ok (goto t D_lock (q\<lparr>sleepers := remove1 t (sleepers q)\<rparr>))"
proof -
  have a: "pcs q t = D_asleep" using locks_D(3) [OF inv(2)] t by simp
  have "inv_at (goto t D_lock (q\<lparr>sleepers := remove1 t (sleepers q)\<rparr>)) ps"
    by (rule frame_pc [OF inv(1), where t = t and b = D_lock]) (use a in simp_all)
  moreover have "locks_ok (goto t D_lock (q\<lparr>sleepers := remove1 t (sleepers q)\<rparr>))"
    using inv(2) a locks_D(1,2) [OF inv(2), of t] by (auto simp: locks_ok_def)
  ultimately show ?thesis ..
qed

lemma signal_inv:
  assumes inv: "inv_at q ps" "locks_ok q"
  shows "inv_at (signal w q) ps \<and> locks_ok (signal w q)"
proof (cases "sleepers q")
  case Nil
  then show ?thesis using inv by (simp add: signal_def)
next
  case (Cons v vs)
  define x where "x = (if w \<in> set (v # vs) then w else v)"
  have "x \<in> set (sleepers q)" using Cons by (auto simp: x_def)
  from wake_inv [OF inv this] show ?thesis using Cons by (simp add: signal_def Let_def x_def)
qed

text \<open>The steps that only move a program counter, take a lock or give it back.\<close>

lemma enqueue_ok:
  assumes inv: "inv_at q ps" "locks_ok q" and t: "pcs q t \<in> {E_load, E_signal, E_unlock} \<union> range E_lock \<union> range E_store"
  shows "\<exists>q'. enqueue t w q = Some q' \<and> inv_at q' ps \<and> locks_ok q'"
proof (cases "pcs q t")
  case (E_lock p)
  show ?thesis
  proof (cases "tail_lock q")
    case None
    let ?q = "goto t (E_link p) (q\<lparr>tail_lock := Some t\<rparr>)"
    have "inv_at ?q ps" by (rule frame_pc [OF inv(1), where t = t and b = "E_link p"]) (use E_lock in simp_all)
    moreover have "locks_ok ?q" using inv(2) E_lock None locks_D(1,2) [OF inv(2), of t] by (auto simp: locks_ok_def)
    ultimately show ?thesis using E_lock None by (simp add: enqueue_def)
  next
    case (Some u)
    then show ?thesis using E_lock inv by (simp add: enqueue_def)
  qed
next
  case E_load
  let ?q = "goto t (E_store (qsize q)) q"
  have "inv_at ?q ps" by (rule frame_pc [OF inv(1), where t = t and b = "E_store (qsize q)"]) (use E_load in simp_all)
  moreover have "locks_ok ?q" by (rule locks_pc [OF inv(2), where t = t and b = "E_store (qsize q)"]) (use E_load in simp_all)
  ultimately show ?thesis using E_load by (simp add: enqueue_def)
next
  case (E_store n)
  let ?q = "goto t E_signal (q\<lparr>qsize := n + 1\<rparr>)"
  have "inv_at ?q ps" by (rule frame_pc [OF inv(1), where t = t and b = E_signal]) (use E_store in simp_all)
  moreover have "locks_ok ?q" by (rule locks_pc [OF inv(2), where t = t and b = E_signal]) (use E_store in simp_all)
  ultimately show ?thesis using E_store by (simp add: enqueue_def)
next
  case E_signal
  let ?q = "goto t E_unlock q"
  have "inv_at ?q ps" by (rule frame_pc [OF inv(1), where t = t and b = E_unlock]) (use E_signal in simp_all)
  moreover have "locks_ok ?q" by (rule locks_pc [OF inv(2), where t = t and b = E_unlock]) (use E_signal in simp_all)
  ultimately show ?thesis using E_signal signal_inv [of ?q ps w] by (simp add: enqueue_def)
next
  case E_unlock
  let ?q = "goto t Idle (q\<lparr>tail_lock := None\<rparr>)"
  have "inv_at ?q ps" by (rule frame_pc [OF inv(1), where t = t and b = Idle]) (use E_unlock in simp_all)
  moreover have "locks_ok ?q" using inv(2) E_unlock locks_D(1,2) [OF inv(2), of t] by (auto simp: locks_ok_def)
  ultimately show ?thesis using E_unlock by (simp add: enqueue_def)
qed (use t in auto)

lemma head_ok: "inv_at q ps \<Longrightarrow> qhead q = hd ps \<and> ps \<noteq> [] \<and> nodes q (hd ps) \<noteq> None \<and> (nx q (hd ps) = NULL \<longleftrightarrow> tl ps = [])"
  using list_D [of q ps] by (cases ps; cases "tl ps") (auto simp: inv_at_def)

lemma dequeue_ok:
  assumes inv: "inv_at q ps" "locks_ok q"
    and t: "pcs q t \<in> {D_lock, D_check, D_wait, D_asleep, D_read} \<union> range D_load \<union> range (\<lambda>(p, n). D_store p n) \<union> range D_unlock"
  shows "\<exists>q'. dequeue t q = Some q' \<and> inv_at q' ps \<and> locks_ok q'"
proof (cases "pcs q t")
  case D_lock
  show ?thesis
  proof (cases "head_lock q")
    case None
    let ?q = "goto t D_check (q\<lparr>head_lock := Some t\<rparr>)"
    have "inv_at ?q ps" by (rule frame_pc [OF inv(1), where t = t and b = D_check]) (use D_lock in simp_all)
    moreover have "locks_ok ?q" using inv(2) D_lock None locks_D(1,2) [OF inv(2), of t] by (auto simp: locks_ok_def)
    ultimately show ?thesis using D_lock None by (simp add: dequeue_def)
  next
    case (Some u)
    then show ?thesis using D_lock inv by (simp add: dequeue_def)
  qed
next
  case D_check
  obtain n where n: "nodes q (qhead q) = Some n" "nnext n = NULL \<longleftrightarrow> tl ps = []" using head_ok [OF inv(1)] by (auto simp: nx_def)
  let ?b = "if nnext n = NULL then D_wait else D_read"
  have "inv_at (goto t ?b q) ps" by (rule frame_pc [OF inv(1), where t = t and b = ?b]) (use D_check n in \<open>auto split: if_splits\<close>)
  moreover have "locks_ok (goto t ?b q)" by (rule locks_pc [OF inv(2), where t = t and b = ?b]) (use D_check in simp_all)
  ultimately show ?thesis using D_check n(1) by (simp add: dequeue_def)
next
  case D_wait
  let ?q = "goto t D_asleep (q\<lparr>head_lock := None, sleepers := sleepers q @ [t]\<rparr>)"
  have "inv_at ?q ps" by (rule frame_pc [OF inv(1), where t = t and b = D_asleep]) (use D_wait in simp_all)
  moreover have "locks_ok ?q" using inv(2) D_wait locks_D(1-3) [OF inv(2), of t] by (auto simp: locks_ok_def)
  ultimately show ?thesis using D_wait by (simp add: dequeue_def)
next
  case D_asleep
  then show ?thesis using inv by (simp add: dequeue_def)
next
  case D_read
  have l: "list_ok q ps" and g: "log_ok q ps" using inv(1) by (auto simp: inv_at_def)
  have "tl ps \<noteq> []" using g D_read by (auto simp: log_ok_def)
  then obtain x y zs where ps: "ps = x # y # zs" by (cases ps; cases "tl ps") auto
  obtain n m where n: "nodes q (qhead q) = Some n" "nnext n = y" "nodes q y = Some m" "qhead q = x"
    using list_D(1) [OF l] list_D(3) [OF l, of x] list_D(3) [OF l, of y] ps by (auto simp: nx_def)
  let ?b = "D_move x (nfd m)"
  have "inv_at (goto t ?b q) ps"
    by (rule frame_pc [OF inv(1), where t = t and b = ?b]) (use D_read n ps in \<open>simp_all add: fdof_def\<close>)
  moreover have "locks_ok (goto t ?b q)" by (rule locks_pc [OF inv(2), where t = t and b = ?b]) (use D_read in simp_all)
  ultimately show ?thesis using D_read n by (simp add: dequeue_def)
next
  case (D_load old)
  let ?b = "D_store old (qsize q)"
  have "inv_at (goto t ?b q) ps" by (rule frame_pc [OF inv(1), where t = t and b = ?b]) (use D_load in simp_all)
  moreover have "locks_ok (goto t ?b q)" by (rule locks_pc [OF inv(2), where t = t and b = ?b]) (use D_load in simp_all)
  ultimately show ?thesis using D_load by (simp add: dequeue_def)
next
  case (D_store old n)
  let ?q = "goto t (D_unlock old) (q\<lparr>qsize := n - 1\<rparr>)"
  have "inv_at ?q ps" by (rule frame_pc [OF inv(1), where t = t and b = "D_unlock old"]) (use D_store in simp_all)
  moreover have "locks_ok ?q" by (rule locks_pc [OF inv(2), where t = t and b = "D_unlock old"]) (use D_store in simp_all)
  ultimately show ?thesis using D_store by (simp add: dequeue_def)
next
  case (D_unlock old)
  let ?q = "goto t (D_free old) (q\<lparr>head_lock := None\<rparr>)"
  have "inv_at ?q ps" by (rule frame_pc [OF inv(1), where t = t and b = "D_free old"]) (use D_unlock in simp_all)
  moreover have "locks_ok ?q" using inv(2) D_unlock locks_D(1,2) [OF inv(2), of t] by (auto simp: locks_ok_def)
  ultimately show ?thesis using D_unlock by (simp add: dequeue_def)
qed (use t in auto)

lemma queue_inv_iff: "queue_inv q \<longleftrightarrow> (\<exists>ps. inv_at q ps \<and> locks_ok q)"
  by (auto simp: queue_inv_def inv_at_def)

lemma queue_step_ok:
  assumes "queue_inv q"
  shows "\<exists>q'. queue_step e q = Some q' \<and> queue_inv q'"
proof -
  obtain ps where inv: "inv_at q ps" "locks_ok q" using assms by (auto simp: queue_inv_iff)
  show ?thesis
  proof (cases e)
    case (Enqueue t fd p)
    then show ?thesis using queue_step_start [OF inv, of p t fd] assms by (auto simp: queue_inv_iff)
  next
    case (Dequeue t)
    have "inv_at (goto t D_lock q) ps \<and> locks_ok (goto t D_lock q)" if "pcs q t = Idle"
      using frame_pc [OF inv(1), of "goto t D_lock q" t D_lock] locks_pc [OF inv(2), of "goto t D_lock q" t D_lock] that by simp
    then show ?thesis using Dequeue assms by (auto simp: queue_inv_iff)
  next
    case (Spurious t)
    then show ?thesis using wake_inv [OF inv, of t] assms by (auto simp: queue_inv_iff)
  next
    case (Step t w)
    show ?thesis
    proof (cases "pcs q t")
      case (E_link p)
      then show ?thesis using Step step_link [OF inv E_link, of w] by (auto simp: queue_inv_iff)
    next
      case (E_tail p)
      then show ?thesis using Step step_tail [OF inv E_tail] by (auto simp: queue_inv_iff enqueue_def)
    next
      case (D_move old fd)
      then show ?thesis using Step step_move [OF inv D_move] by (auto simp: queue_inv_iff)
    next
      case (D_free old)
      then show ?thesis using Step step_free [OF inv D_free] by (auto simp: queue_inv_iff)
    qed (use Step assms enqueue_ok [OF inv, of t w] dequeue_ok [OF inv, of t] in \<open>auto simp: queue_inv_iff\<close>)
  qed
qed

lemma queue_init_inv: "dummy \<noteq> NULL \<Longrightarrow> queue_init ok mok dummy = Inr q \<Longrightarrow> queue_inv q"
  unfolding queue_inv_def
  by (intro exI [of _ "[dummy]"])
    (auto simp: queue_init_def locks_ok_def list_ok_def own_ok_def log_ok_def nx_def split: if_splits)

definition start_queue :: queue where
  "start_queue = projr (queue_init (\<lambda>_. True) True 1)"

interpretation two_lock: total_system start_queue queue_step queue_inv
proof
  show "queue_inv start_queue" by (rule queue_init_inv [of 1 "\<lambda>_. True" True]) (simp_all add: start_queue_def queue_init_def)
  show "queue_inv q'" if i: "queue_inv q" and e: "queue_step e q = Some q'" for q e q'
    using queue_step_ok [OF i, of e] e by auto
  show "\<exists>q'. queue_step e q = Some q'" if i: "queue_inv q" for q e
    using queue_step_ok [OF i, of e] by auto
qed

section \<open>Properties\<close>

text \<open>
  C10. The two-lock queue is safe and first-in first-out under every interleaving of any number of
  threads: no step touches memory that was freed, the descriptors that were dequeued are a
  prefix of those that were enqueued, and at most one thread is inside each critical section.
\<close>

theorem connection_queue_fifo:
  assumes "dummy \<noteq> NULL" "queue_init ok mutexes_ok dummy = Inr q0"
  shows "\<exists>q rest. exec queue_step es q0 = Some q \<and> enq_log q = deq_log q @ rest \<and>
    (\<forall>t u. has_head_lock (pcs q t) \<longrightarrow> has_head_lock (pcs q u) \<longrightarrow> t = u) \<and>
    (\<forall>t u. has_tail_lock (pcs q t) \<longrightarrow> has_tail_lock (pcs q u) \<longrightarrow> t = u)"
proof -
  obtain q where q: "exec queue_step es q0 = Some q" "queue_inv q"
    using two_lock.exec_total_from [OF queue_init_inv [OF assms], of es] by blast
  then obtain ps where ps: "locks_ok q" "log_ok q ps" by (auto simp: queue_inv_def)
  have "enq_log q = deq_log q @ map (fdof q) (tl ps)" using ps(2) by (simp add: log_ok_def)
  moreover have "t = u" if "has_head_lock (pcs q t)" "has_head_lock (pcs q u)" for t u
    using locks_D(2) [OF ps(1), of t] locks_D(2) [OF ps(1), of u] that by simp
  moreover have "t = u" if "has_tail_lock (pcs q t)" "has_tail_lock (pcs q u)" for t u
    using locks_D(1) [OF ps(1), of t] locks_D(1) [OF ps(1), of u] that by simp
  ultimately show ?thesis using q(1) by blast
qed

theorem connection_queue_fifo_witness:
  "\<exists>q rest. exec queue_step [Enqueue 0 42 2, Dequeue 1, Step 0 0, Step 0 0, Step 0 0, Step 1 0] start_queue = Some q \<and> enq_log q = deq_log q @ rest"
  using connection_queue_fifo [of 1 "\<lambda>_. True" True start_queue "[Enqueue 0 42 2, Dequeue 1, Step 0 0, Step 0 0, Step 0 0, Step 1 0]"]
  by (auto simp: start_queue_def queue_init_def)

text \<open>
  C39. A wake-up can be lost. The consumer finds the queue empty under the head lock; before it
  sleeps, the producer, which takes only the tail lock, adds a connection and signals nobody.
  The consumer then sleeps although a connection waits, and no step of a thread wakes it: only
  a further call of \<open>enqueue\<close> or a spurious wake-up does.
\<close>

theorem connection_queue_lost_wakeup:
  assumes "t \<noteq> u" "p \<noteq> NULL" "p \<noteq> dummy" "dummy \<noteq> NULL" "queue_init ok mutexes_ok dummy = Inr q0"
  shows "\<exists>q. exec queue_step ([Dequeue t, Step t 0, Step t 0, Enqueue u fd p] @ replicate 7 (Step u 0) @ [Step t 0]) q0 = Some q \<and>
    pcs q t = D_asleep \<and> (\<forall>v. v \<noteq> t \<longrightarrow> pcs q v = Idle) \<and> enq_log q = [fd] \<and> deq_log q = [] \<and>
    (\<forall>v w. queue_step (Step v w) q = Some q)"
proof -
  let ?q0 = "\<lparr>nodes = [dummy \<mapsto> \<lparr>nfd = 0, nnext = NULL\<rparr>], qhead = dummy, qtail = dummy, qsize = 0, head_lock = None, tail_lock = None,
    sleepers = [], pcs = (\<lambda>_. Idle), enq_log = [], deq_log = []\<rparr>"
  have q0: "q0 = ?q0" using assms(5) by (auto simp: queue_init_def split: if_splits)
  let ?q1 = "?q0\<lparr>head_lock := Some t, pcs := (\<lambda>_. Idle)(t := D_wait)\<rparr>"
  have a: "exec queue_step [Dequeue t, Step t 0, Step t 0] q0 = Some ?q1"
    by (simp add: q0 goto_def dequeue_def)
  let ?q2 = "?q1\<lparr>nodes := [dummy \<mapsto> \<lparr>nfd = 0, nnext = p\<rparr>, p \<mapsto> \<lparr>nfd = fd, nnext = NULL\<rparr>], qtail := p, qsize := 1, enq_log := [fd]\<rparr>"
  have b: "exec queue_step (Enqueue u fd p # replicate 7 (Step u 0)) ?q1 = Some ?q2"
    using assms(1-3) by (simp add: numeral_eq_Suc goto_def enqueue_start_def enqueue_def set_next_def signal_def fun_upd_twist) (auto simp: fun_eq_iff)
  let ?q3 = "?q2\<lparr>head_lock := None, sleepers := [t], pcs := (\<lambda>_. Idle)(t := D_asleep)\<rparr>"
  have c: "exec queue_step [Step t 0] ?q2 = Some ?q3" by (simp add: goto_def dequeue_def)
  have "exec queue_step ([Dequeue t, Step t 0, Step t 0, Enqueue u fd p] @ replicate 7 (Step u 0) @ [Step t 0]) q0 = Some ?q3"
    using a b c exec_append [of queue_step "[Dequeue t, Step t 0, Step t 0]" "(Enqueue u fd p # replicate 7 (Step u 0)) @ [Step t 0]" q0]
      exec_append [of queue_step "Enqueue u fd p # replicate 7 (Step u 0)" "[Step t 0]" ?q1] by (simp del: exec.simps)
  moreover have "queue_step (Step v w) ?q3 = Some ?q3" for v w by (simp add: dequeue_def)
  ultimately show ?thesis by (intro exI [of _ ?q3]) simp
qed

theorem connection_queue_lost_wakeup_witness:
  "\<exists>q. exec queue_step ([Dequeue 1, Step 1 0, Step 1 0, Enqueue 2 42 5] @ replicate 7 (Step 2 0) @ [Step 1 0]) start_queue = Some q \<and>
    pcs q 1 = D_asleep \<and> enq_log q = [42] \<and> (\<forall>v w. queue_step (Step v w) q = Some q)"
  using connection_queue_lost_wakeup [of 1 2 5 1 "\<lambda>_. True" True start_queue 42]
  by (auto simp: start_queue_def queue_init_def simp del: exec.simps queue_step.simps)

end
