(* ===== verification/Httpd.thy ===== *)
theory Httpd
  imports Httpd_Queue
begin

text \<open>
  The request parser and the worker of \<^verbatim>\<open>httpd/httpd.c\<close>. The message is the byte buffer of the C
  code, and a pointer into it is an offset (\<open>None\<close> is the null pointer); the string functions write
  their terminators into the buffer as \<open>strsep\<close> does. The result \<open>None\<close> of an operation is a fault: a
  read behind the buffer, or a string function called on the null pointer.
\<close>

section \<open>Requests and replies\<close>

definition MAXMSG :: nat where "MAXMSG = 1024"
definition MAXPATH :: nat where "MAXPATH = 1024"

definition STATUS_OK :: int where "STATUS_OK = 200"
definition STATUS_BAD_REQUEST :: int where "STATUS_BAD_REQUEST = 400"
definition STATUS_FORBIDDEN :: int where "STATUS_FORBIDDEN = 403"
definition STATUS_NOT_FOUND :: int where "STATUS_NOT_FOUND = 404"
definition STATUS_REQUEST_TIMEOUT :: int where "STATUS_REQUEST_TIMEOUT = 408"
definition STATUS_REQUEST_TOO_LARGE :: int where "STATUS_REQUEST_TOO_LARGE = 413"
definition STATUS_SERVER_ERROR :: int where "STATUS_SERVER_ERROR = 500"

lemmas status_defs = STATUS_OK_def STATUS_BAD_REQUEST_def STATUS_FORBIDDEN_def STATUS_NOT_FOUND_def
  STATUS_REQUEST_TIMEOUT_def STATUS_REQUEST_TOO_LARGE_def STATUS_SERVER_ERROR_def

datatype http_method = GET | HEAD

datatype content_type = APPLICATION | AUDIO | IMAGE | MESSAGE | MULTIPART | TEXT | VIDEO

record http_request =
  rmethod :: http_method
  rpath :: string
  rtype :: content_type
  protocol_version :: int

fun type_to_str :: "content_type \<Rightarrow> string" where
  "type_to_str APPLICATION = ''application''"
| "type_to_str AUDIO = ''audio''"
| "type_to_str IMAGE = ''image''"
| "type_to_str MESSAGE = ''message''"
| "type_to_str MULTIPART = ''multipart''"
| "type_to_str TEXT = ''text''"
| "type_to_str VIDEO = ''video''"

definition status_to_str :: "int \<Rightarrow> string" where
  "status_to_str status =
     (if status = STATUS_OK then ''OK''
      else if status = STATUS_BAD_REQUEST then ''Bad Request''
      else if status = STATUS_FORBIDDEN then ''Forbidden''
      else if status = STATUS_NOT_FOUND then ''Not Found''
      else if status = STATUS_REQUEST_TIMEOUT then ''Request Timeout''
      else if status = STATUS_REQUEST_TOO_LARGE then ''Request Entity Too Large''
      else ''Internal Server Error'')"

section \<open>String functions of the C library\<close>

abbreviation NUL :: char where "NUL \<equiv> CHR 0x00"
abbreviation CR :: char where "CR \<equiv> CHR 0x0D"
abbreviation LF :: char where "LF \<equiv> CHR 0x0A"
abbreviation TAB :: char where "TAB \<equiv> CHR 0x09"
abbreviation SP :: char where "SP \<equiv> CHR 0x20"

text \<open>The offset of the first byte from \<open>p\<close> on that is one of \<open>cs\<close> or the terminator.\<close>

definition scan :: "string \<Rightarrow> string \<Rightarrow> nat \<Rightarrow> nat option" where
  "scan cs b p =
     (let k = p + length (takeWhile (\<lambda>c. c \<notin> set cs \<and> c \<noteq> NUL) (drop p b))
      in if k < length b then Some k else None)"

definition strchr :: "string \<Rightarrow> nat option \<Rightarrow> char \<Rightarrow> nat option option" where
  "strchr b s c = do { p \<leftarrow> s; k \<leftarrow> scan [c] b p; Some (if b ! k = c then Some k else None) }"

text \<open>\<open>strsep\<close>: the token, the buffer and the advanced pointer.\<close>

definition strsep :: "string \<Rightarrow> string \<Rightarrow> nat option \<Rightarrow> (nat option \<times> string \<times> nat option) option" where
  "strsep cs b s = (case s of
     None \<Rightarrow> Some (None, b, None)
   | Some p \<Rightarrow> do {
       k \<leftarrow> scan cs b p;
       Some (if b ! k = NUL then (Some p, b, None) else (Some p, b[k := NUL], Some (k + 1))) })"

definition cstr :: "string \<Rightarrow> nat \<Rightarrow> string option" where
  "cstr b p = do { k \<leftarrow> scan [] b p; Some (take (k - p) (drop p b)) }"

fun strstr :: "string \<Rightarrow> string \<Rightarrow> bool" where
  "strstr [] n = (n = [])"
| "strstr (c # h) n = (take (length n) (c # h) = n \<or> strstr h n)"

definition strndup :: "string \<Rightarrow> nat \<Rightarrow> string" where
  "strndup b n = takeWhile (\<lambda>c. c \<noteq> NUL) (take n b)"

section \<open>The parser\<close>

definition strsep_whitespace :: "string \<Rightarrow> nat option \<Rightarrow> (nat option \<times> string \<times> nat option) option" where
  "strsep_whitespace b s = do {
     (ret, b, s) \<leftarrow> strsep [SP, TAB] b s;
     case s of None \<Rightarrow> Some (ret, b, None)
     | Some p \<Rightarrow>
         let k = p + length (takeWhile (\<lambda>c. c = SP \<or> c = TAB) (drop p b))
         in if k < length b then Some (ret, b, Some k) else None }"

text \<open>The null pointer compares as smaller than every pointer into the buffer.\<close>

definition strsep_newline :: "string \<Rightarrow> nat option \<Rightarrow> (nat option \<times> string \<times> nat option) option" where
  "strsep_newline b s = do {
     r \<leftarrow> strchr b s CR;
     n \<leftarrow> strchr b s LF;
     if (case r of None \<Rightarrow> True | Some i \<Rightarrow> (case n of None \<Rightarrow> True | Some j \<Rightarrow> j < i))
     then strsep [LF] b s
     else do {
       (ret, b, s) \<leftarrow> strsep [CR] b s;
       p \<leftarrow> s;
       Some (ret, b, Some (p + 1)) } }"

definition parse_method :: "string \<Rightarrow> http_request \<Rightarrow> int \<times> http_request" where
  "parse_method token request =
     (if token = ''GET'' then (STATUS_OK, request\<lparr>rmethod := GET\<rparr>)
      else if token = ''HEAD'' then (STATUS_OK, request\<lparr>rmethod := HEAD\<rparr>)
      else (STATUS_BAD_REQUEST, request))"

definition parse_path :: "string \<Rightarrow> string \<Rightarrow> http_request \<Rightarrow> int \<times> http_request" where
  "parse_path document_root token request =
     (if token = ''/'' \<or> token = ''/index.html''
      then (STATUS_OK, request\<lparr>rpath := take (MAXPATH - 1) (document_root @ ''/index.html''), rtype := TEXT\<rparr>)
      else (STATUS_NOT_FOUND, request))"

definition parse_protocol_version :: "string \<Rightarrow> http_request \<Rightarrow> int \<times> http_request" where
  "parse_protocol_version token request =
     (if token = ''HTTP/1.0'' then (STATUS_OK, request\<lparr>protocol_version := 0\<rparr>)
      else if token = ''HTTP/1.1'' then (STATUS_OK, request\<lparr>protocol_version := 1\<rparr>)
      else (STATUS_BAD_REQUEST, request))"

text \<open>
  One token of the request line: split it off, fail with \<open>STATUS_BAD_REQUEST\<close> when there is none,
  and hand it to its parser; \<open>k\<close> is what follows when the parser accepts the token.
\<close>

definition next_token :: "(string \<Rightarrow> http_request \<Rightarrow> int \<times> http_request) \<Rightarrow> string \<Rightarrow> nat option \<Rightarrow> http_request \<Rightarrow>
    (string \<Rightarrow> nat option \<Rightarrow> http_request \<Rightarrow> (int \<times> string \<times> http_request) option) \<Rightarrow> (int \<times> string \<times> http_request) option" where
  "next_token parse b line request k = do {
     (token, b, line) \<leftarrow> strsep_whitespace b line;
     case token of None \<Rightarrow> Some (STATUS_BAD_REQUEST, b, request)
     | Some p \<Rightarrow> do {
         str \<leftarrow> cstr b p;
         let (s, request) = parse str request in
           if s \<noteq> STATUS_OK then Some (s, b, request) else k b line request } }"

definition parse_initial_line :: "string \<Rightarrow> string \<Rightarrow> nat \<Rightarrow> http_request \<Rightarrow> (int \<times> string \<times> http_request) option" where
  "parse_initial_line document_root b line request =
     next_token parse_method b (Some line) request (\<lambda>b line request.
     next_token (parse_path document_root) b line request (\<lambda>b line request.
     next_token parse_protocol_version b line request (\<lambda>b line request.
     Some (STATUS_OK, b, request))))"

definition parse_header :: "nat \<Rightarrow> http_request \<Rightarrow> int" where
  "parse_header line request = STATUS_OK"

text \<open>
  The loop over the header lines. Every round moves the pointer forward in the buffer, and a pointer
  behind the buffer is a fault.
\<close>

function parse_headers :: "string \<Rightarrow> nat option \<Rightarrow> http_request \<Rightarrow> int option" where
  "parse_headers b msg request = do {
     (line, b', msg') \<leftarrow> strsep_newline b msg;
     case line of None \<Rightarrow> Some STATUS_OK
     | Some p \<Rightarrow>
         if b' ! p = NUL then Some STATUS_OK
         else if parse_header p request \<noteq> STATUS_OK then Some (parse_header p request)
         else parse_headers b' msg' request }"
  by pat_completeness auto

lemma scan_bounds: "scan cs b p = Some k \<Longrightarrow> p \<le> k \<and> k < length b"
  by (auto simp: scan_def Let_def split: if_splits)

lemma strsep_newline_moves:
  assumes "strsep_newline b msg = Some (line, b', msg')"
  shows "length b' = length b \<and> (\<exists>p. msg = Some p \<and> p < length b \<and> (msg' = None \<or> (\<exists>q. msg' = Some q \<and> p < q)))"
proof -
  obtain p where p: "msg = Some p" using assms by (cases msg) (auto simp: strsep_newline_def strchr_def)
  then show ?thesis using assms
    by (auto simp: strsep_newline_def strchr_def strsep_def split: if_splits bind_splits option.splits dest!: scan_bounds)
qed

termination parse_headers
  by (relation "measure (\<lambda>(b, msg, request). case msg of None \<Rightarrow> 0 | Some p \<Rightarrow> Suc (length b - p))")
    (auto dest!: strsep_newline_moves)

declare parse_headers.simps [simp del]

definition parse_request :: "string \<Rightarrow> string \<Rightarrow> http_request \<Rightarrow> (int \<times> http_request) option" where
  "parse_request document_root msg request = do {
     (line, b, rest) \<leftarrow> strsep_newline msg (Some 0);
     case line of None \<Rightarrow> Some (STATUS_BAD_REQUEST, request)
     | Some p \<Rightarrow> do {
         (s, b, request) \<leftarrow> parse_initial_line document_root b p request;
         if s \<noteq> STATUS_OK then Some (s, request)
         else do { s \<leftarrow> parse_headers b rest request; Some (s, request) } } }"

section \<open>The worker and the greeter\<close>

text \<open>
  What one call of \<open>recv\<close> returns: bytes (none when the client has closed the connection, and never more
  than there is room for), a timeout, or another error.
\<close>

datatype recv_result = Received string | Would_block | Recv_error

datatype received = Message string | Closed_by_client | Broken int | Waiting

definition complete :: "string \<Rightarrow> bool" where
  "complete m \<longleftrightarrow> strstr m [CR, LF, CR, LF] \<or> strstr m [LF, LF]"

text \<open>The receive loop, on the results the calls of \<open>recv\<close> have; \<open>Waiting\<close> when the next call does not return.\<close>

fun receive :: "recv_result list \<Rightarrow> string \<Rightarrow> nat \<Rightarrow> received" where
  "receive rs msg recv_bytes =
     (if \<not> complete (strndup msg recv_bytes) \<and> recv_bytes < MAXMSG then
        (case rs of
           [] \<Rightarrow> Waiting
         | Would_block # _ \<Rightarrow> Broken STATUS_REQUEST_TIMEOUT
         | Recv_error # _ \<Rightarrow> Broken STATUS_SERVER_ERROR
         | Received bytes # rs \<Rightarrow>
             let d = take (MAXMSG - recv_bytes) bytes in
             if d = [] then Closed_by_client
             else receive rs (take recv_bytes msg @ d @ drop (recv_bytes + length d) msg) (recv_bytes + length d))
      else Message msg)"

declare receive.simps [simp del]

fun utoa :: "nat \<Rightarrow> string" where
  "utoa n = (if n < 10 then [char_of (48 + n)] else utoa (n div 10) @ [char_of (48 + n mod 10)])"

declare utoa.simps [simp del]

definition itoa :: "int \<Rightarrow> string" where
  "itoa i = (if i < 0 then CHR ''-'' # utoa (nat (- i)) else utoa (nat i))"

function pieces :: "string \<Rightarrow> string list" where
  "pieces c = (if c = [] then [] else take MAXMSG c # pieces (drop MAXMSG c))"
  by pat_completeness auto
termination by (relation "measure length") (auto simp: MAXMSG_def)

declare pieces.simps [simp del]

text \<open>
  The local variables of a worker that survive a round: the request and the buffer for \<open>stat\<close>. The
  files are a parameter, as is the date line; a file that is missing leaves the buffer for \<open>stat\<close> as it was.
\<close>

record worker =
  wrequest :: http_request
  st_size :: int

datatype action = Close | Requeue | Blocked

definition reply :: "string \<Rightarrow> (string \<Rightarrow> string option) \<Rightarrow> int \<Rightarrow> worker \<Rightarrow> action \<times> string list \<times> worker" where
  "reply date files status w =
     (let r = wrequest w;
          body = (status = STATUS_OK \<and> rmethod r = GET);
          w' = (if body then (case files (rpath r) of None \<Rightarrow> w | Some c \<Rightarrow> w\<lparr>st_size := int (length c)\<rparr>) else w);
          sent = [''HTTP/1.'' @ itoa (protocol_version r) @ '' '' @ itoa status @ '' '' @ status_to_str status @ [CR, LF], date] @
            (if body then [''Content-Length: '' @ itoa (signed_take_bit 31 (st_size w')) @ [CR, LF],
                           ''Content-Type: '' @ type_to_str (rtype r) @ [CR, LF]] else []) @
            [[CR, LF]] @
            (if body then (case files (rpath r) of None \<Rightarrow> [] | Some c \<Rightarrow> pieces c) else [])
      in (if protocol_version r = 0 \<or> status \<noteq> STATUS_OK then Close else Requeue, sent, w'))"

definition worker_routine :: "string \<Rightarrow> string \<Rightarrow> (string \<Rightarrow> string option) \<Rightarrow> recv_result list \<Rightarrow> worker \<Rightarrow>
    (action \<times> string list \<times> worker) option" where
  "worker_routine document_root date files rs w =
     (case receive rs (replicate MAXMSG NUL) 0 of
        Waiting \<Rightarrow> Some (Blocked, [], w)
      | Closed_by_client \<Rightarrow> Some (Close, [], w)
      | Broken status \<Rightarrow> Some (reply date files status w)
      | Message msg \<Rightarrow> do {
          (status, r) \<leftarrow> parse_request document_root msg (wrequest w);
          Some (reply date files status (w\<lparr>wrequest := r\<rparr>)) })"

definition greeter_routine :: "int \<Rightarrow> int \<Rightarrow> (int \<times> int) option" where
  "greeter_routine connfd n =
     (if connfd < 0 then None else Some (connfd, 10 + (if n > 0 then n div 50 else 0)))"

section \<open>Scanning a terminated string\<close>

lemma scan_line [simp]:
  "scan cs (pre @ l @ NUL # post) (length pre) =
     Some (length pre + length (takeWhile (\<lambda>c. c \<notin> set cs \<and> c \<noteq> NUL) l))"
proof -
  have "takeWhile (\<lambda>c. c \<notin> set cs \<and> c \<noteq> NUL) (l @ NUL # post) = takeWhile (\<lambda>c. c \<notin> set cs \<and> c \<noteq> NUL) l"
    by (simp add: takeWhile_tail)
  moreover have "length (takeWhile (\<lambda>c. c \<notin> set cs \<and> c \<noteq> NUL) l) \<le> length l" by (rule length_takeWhile_le)
  ultimately show ?thesis by (simp add: scan_def)
qed

lemma takeWhile_all: "\<forall>x \<in> set l. P x \<Longrightarrow> takeWhile P l = l"
  by simp

lemma takeWhile_no_nul: "NUL \<notin> set l \<Longrightarrow> takeWhile (\<lambda>c. P c \<and> c \<noteq> NUL) l = takeWhile P l"
  by (induction l) auto

lemma cstr_line [simp]:
  assumes "NUL \<notin> set l"
  shows "cstr (pre @ l @ NUL # post) (length pre) = Some l"
proof -
  have "takeWhile (\<lambda>c. c \<noteq> NUL) l = l" using assms by auto
  then show ?thesis by (simp add: cstr_def del: takeWhile_eq_all_conv)
qed

lemma nth_takeWhile_in: "\<exists>c \<in> set l. \<not> P c \<Longrightarrow> length (takeWhile P l) < length l \<and> \<not> P (l ! length (takeWhile P l))"
  by (metis nth_length_takeWhile takeWhile_eq_all_conv length_takeWhile_le le_neq_implies_less takeWhile_eq_take take_all_iff order_refl)

lemma strchr_line:
  assumes "NUL \<notin> set l" "c \<noteq> NUL"
  shows "strchr (pre @ l @ NUL # post) (Some (length pre)) c =
    Some (if c \<in> set l then Some (length pre + length (takeWhile (\<lambda>x. x \<noteq> c) l)) else None)"
proof (cases "c \<in> set l")
  case True
  then have "length (takeWhile (\<lambda>x. x \<noteq> c) l) < length l \<and> l ! length (takeWhile (\<lambda>x. x \<noteq> c) l) = c"
    using nth_takeWhile_in [of l "\<lambda>x. x \<noteq> c"] by auto
  then show ?thesis using True assms takeWhile_no_nul [of l "\<lambda>x. x \<noteq> c"] by (simp add: strchr_def nth_append)
next
  case False
  then have "takeWhile (\<lambda>x. x \<noteq> c) l = l" by auto
  then show ?thesis using False assms takeWhile_no_nul [of l "\<lambda>x. x \<noteq> c"]
    by (simp add: strchr_def del: takeWhile_eq_all_conv)
qed

text \<open>Splitting at the first separator \<open>c\<close>, and not finding one.\<close>

lemma strsep_split:
  assumes "NUL \<notin> set (l @ c # r)" "\<forall>x \<in> set l. x \<notin> set cs" "c \<in> set cs"
  shows "strsep cs (pre @ l @ c # r @ NUL # post) (Some (length pre)) =
    Some (Some (length pre), pre @ l @ NUL # r @ NUL # post, Some (length pre + length l + 1))"
proof -
  have "takeWhile (\<lambda>c. c \<notin> set cs \<and> c \<noteq> NUL) (l @ c # r) = l"
    using assms by (auto simp: takeWhile_append)
  then have "scan cs (pre @ l @ c # r @ NUL # post) (length pre) = Some (length pre + length l)"
    using scan_line [of cs pre "l @ c # r" post] by simp
  moreover have "c \<noteq> NUL" using assms(1) by auto
  ultimately show ?thesis by (simp add: strsep_def nth_append list_update_append)
qed

lemma strsep_end:
  assumes "NUL \<notin> set l" "\<forall>x \<in> set l. x \<notin> set cs"
  shows "strsep cs (pre @ l @ NUL # post) (Some (length pre)) = Some (Some (length pre), pre @ l @ NUL # post, None)"
proof -
  have "takeWhile (\<lambda>c. c \<notin> set cs \<and> c \<noteq> NUL) l = l" using assms by auto
  then show ?thesis by (simp add: strsep_def del: takeWhile_eq_all_conv)
qed

text \<open>One line: a line feed ends it, or a carriage return, which takes the next byte with it.\<close>

definition newline_sep :: "string \<Rightarrow> string \<Rightarrow> bool" where
  "newline_sep sep r \<longleftrightarrow> sep = [LF] \<or> (\<exists>d. sep = [CR, d] \<and> LF \<in> set (d # r))"

lemma takeWhile_sep: "x \<notin> set l \<Longrightarrow> takeWhile (\<lambda>c. c \<noteq> x) (l @ r) = l @ takeWhile (\<lambda>c. c \<noteq> x) r"
  by (auto simp: takeWhile_append)

lemma strsep_newline_step:
  assumes nul: "NUL \<notin> set (l @ sep @ r)" and l: "CR \<notin> set l" "LF \<notin> set l" and sep: "newline_sep sep r"
  shows "strsep_newline (pre @ l @ sep @ r @ NUL # post) (Some (length pre)) =
    Some (Some (length pre), pre @ l @ NUL # tl sep @ r @ NUL # post, Some (length pre + length l + length sep))"
proof -
  let ?m = "l @ sep @ r"
  have b: "pre @ l @ sep @ r @ NUL # post = pre @ ?m @ NUL # post" by simp
  have cr: "strchr (pre @ ?m @ NUL # post) (Some (length pre)) CR =
      Some (if CR \<in> set ?m then Some (length pre + length (takeWhile (\<lambda>x. x \<noteq> CR) ?m)) else None)"
    and lf: "strchr (pre @ ?m @ NUL # post) (Some (length pre)) LF =
      Some (if LF \<in> set ?m then Some (length pre + length (takeWhile (\<lambda>x. x \<noteq> LF) ?m)) else None)"
    by (rule strchr_line [OF nul], simp)+
  from sep consider "sep = [LF]" | d where "sep = [CR, d]" "LF \<in> set (d # r)" by (auto simp: newline_sep_def)
  then show ?thesis
  proof cases
    case 1
    then have "strsep [LF] (pre @ ?m @ NUL # post) (Some (length pre)) =
        Some (Some (length pre), pre @ l @ NUL # r @ NUL # post, Some (length pre + length l + 1))"
      using strsep_split [of l LF r "[LF]" pre post] nul l by auto
    then show ?thesis unfolding b strsep_newline_def cr lf using 1 l by (simp add: takeWhile_sep)
  next
    case (2 d)
    then have "strsep [CR] (pre @ ?m @ NUL # post) (Some (length pre)) =
        Some (Some (length pre), pre @ l @ NUL # (d # r) @ NUL # post, Some (length pre + length l + 1))"
      using strsep_split [of l CR "d # r" "[CR]" pre post] nul l by auto
    then show ?thesis unfolding b strsep_newline_def cr lf using 2 l by (auto simp: takeWhile_sep)
  qed
qed

text \<open>
  What is left of the message when the parser is at the start of a line: the end of the headers is
  still to come, or this line is empty.
\<close>

lemma strstr_iff: "strstr h n \<longleftrightarrow> (\<exists>a b. h = a @ n @ b)"
proof (induction h)
  case (Cons c h)
  have "take (length n) (c # h) = n \<longleftrightarrow> (\<exists>b. c # h = n @ b)" by (metis append_eq_conv_conj append_take_drop_id)
  moreover have "(\<exists>a b. c # h = a @ n @ b) \<longleftrightarrow> (\<exists>b. c # h = n @ b) \<or> (\<exists>a b. h = a @ n @ b)"
    by (metis append_Cons append_Nil list.inject neq_Nil_conv)
  ultimately show ?case using Cons by simp
qed auto

definition pending :: "string \<Rightarrow> bool" where
  "pending r \<longleftrightarrow> complete r \<or> (\<exists>t. r = LF # t) \<or> (\<exists>t. r = CR # LF # t)"

lemma complete_has_LF: "complete m \<Longrightarrow> LF \<in> set m"
  by (auto simp: complete_def strstr_iff)

lemma complete_next_line:
  "complete m \<Longrightarrow> \<exists>l sep r. m = l @ sep @ r \<and> CR \<notin> set l \<and> LF \<notin> set l \<and> newline_sep sep r \<and> pending r"
proof (induction m)
  case (Cons x m)
  consider "x = LF" | d t where "x = CR" "m = d # t" | "x \<noteq> LF" "x \<noteq> CR"
    using Cons.prems by (cases m) (auto simp: complete_def)
  then show ?case
  proof cases
    case 1
    then have "pending m" using Cons.prems by (cases m) (auto simp: complete_def pending_def)
    then show ?thesis using 1 by (intro exI [of _ "[]"] exI [of _ "[LF]"] exI [of _ m]) (simp add: newline_sep_def)
  next
    case (2 d t)
    then have "pending t" using Cons.prems
      by (cases t; cases "tl t") (auto simp: complete_def pending_def)
    moreover have "LF \<in> set (d # t)" using complete_has_LF [OF Cons.prems] 2 by auto
    ultimately show ?thesis using 2
      by (intro exI [of _ "[]"] exI [of _ "[CR, d]"] exI [of _ t]) (simp add: newline_sep_def)
  next
    case 3
    then have "complete m" using Cons.prems by (auto simp: complete_def)
    then obtain l sep r where "m = l @ sep @ r" "CR \<notin> set l" "LF \<notin> set l" "newline_sep sep r" "pending r"
      using Cons.IH by blast
    then show ?thesis using 3 by (intro exI [of _ "x # l"] exI [of _ sep] exI [of _ r]) simp
  qed
qed (simp add: complete_def)

lemma pending_next_line:
  assumes "pending m"
  shows "\<exists>l sep r. m = l @ sep @ r \<and> CR \<notin> set l \<and> LF \<notin> set l \<and> newline_sep sep r \<and> (l = [] \<or> pending r)"
proof -
  consider "complete m" | t where "m = LF # t" | t where "m = CR # LF # t" using assms by (auto simp: pending_def)
  then show ?thesis
  proof cases
    case 1
    then show ?thesis using complete_next_line [of m] by blast
  next
    case (2 t)
    then show ?thesis by (intro exI [of _ "[]"] exI [of _ "[LF]"] exI [of _ t]) (simp add: newline_sep_def)
  next
    case (3 t)
    then show ?thesis by (intro exI [of _ "[]"] exI [of _ "[CR, LF]"] exI [of _ t]) (simp add: newline_sep_def)
  qed
qed

text \<open>The loop over the headers ends at the empty line, without a fault.\<close>

lemma parse_headers_ends:
  "pending m \<Longrightarrow> NUL \<notin> set m \<Longrightarrow> parse_headers (pre @ m @ NUL # post) (Some (length pre)) request = Some STATUS_OK"
proof (induction "length m" arbitrary: m pre rule: less_induct)
  case less
  obtain l sep r where m: "m = l @ sep @ r" "CR \<notin> set l" "LF \<notin> set l" "newline_sep sep r" "l = [] \<or> pending r"
    using pending_next_line [OF less.prems(1)] by blast
  have sep: "sep \<noteq> []" "length (tl sep) < length sep" using m(4) by (auto simp: newline_sep_def)
  let ?b = "pre @ l @ NUL # tl sep @ r @ NUL # post"
  have *: "strsep_newline (pre @ m @ NUL # post) (Some (length pre)) =
      Some (Some (length pre), ?b, Some (length pre + length l + length sep))"
    using strsep_newline_step [of l sep r pre post] m less.prems(2) by simp
  show ?case
  proof (cases l)
    case Nil
    then show ?thesis using * by (subst parse_headers.simps) (simp add: nth_append)
  next
    case (Cons c l')
    have "parse_headers ((pre @ l @ NUL # tl sep) @ r @ NUL # post) (Some (length (pre @ l @ NUL # tl sep))) request = Some STATUS_OK"
      using less.hyps [of r "pre @ l @ NUL # tl sep"] m Cons sep less.prems(2) by simp
    moreover have "c \<noteq> NUL" using less.prems(2) m(1) Cons by auto
    ultimately show ?thesis using * Cons sep by (subst parse_headers.simps) (simp add: nth_append parse_header_def add.assoc)
  qed
qed

section \<open>The request line\<close>

definition blank :: "char \<Rightarrow> bool" where
  "blank c \<longleftrightarrow> c = SP \<or> c = TAB"

lemma blank_eq: "blank = (\<lambda>c. c = SP \<or> c = TAB)"
  by (simp add: fun_eq_iff blank_def)

text \<open>The fields of a line: what runs of blanks separate.\<close>

function fields :: "string \<Rightarrow> string list" where
  "fields l = (case dropWhile (\<lambda>c. \<not> blank c) l of [] \<Rightarrow> [l]
     | _ # r \<Rightarrow> takeWhile (\<lambda>c. \<not> blank c) l # fields (dropWhile blank r))"
  by pat_completeness auto
termination
proof (relation "measure length")
  show "(dropWhile blank r, l) \<in> measure length" if "dropWhile (\<lambda>c. \<not> blank c) l = x # r" for l x r
  proof -
    have "length (dropWhile blank r) \<le> length r" by (rule length_dropWhile_le)
    also have "length r < length (dropWhile (\<lambda>c. \<not> blank c) l)" by (simp add: that)
    also have "\<dots> \<le> length l" by (rule length_dropWhile_le)
    finally show ?thesis by simp
  qed
qed simp

declare fields.simps [simp del]

text \<open>
  The line \<open>l\<close> lies in the buffer at the pointer, and \<open>e\<close> is what follows its terminator.
\<close>

definition line_at :: "string \<Rightarrow> string \<Rightarrow> nat option \<Rightarrow> string \<Rightarrow> bool" where
  "line_at e b s l \<longleftrightarrow> NUL \<notin> set l \<and> (\<exists>pre. b = pre @ l @ NUL # e \<and> s = Some (length pre))"

definition keeps :: "string \<Rightarrow> string \<Rightarrow> string \<Rightarrow> bool" where
  "keeps e b b' \<longleftrightarrow> length b' = length b \<and> (\<exists>pre. b' = pre @ NUL # e)"

text \<open>
  What is left of the line, as its fields: none when the pointer is null.
\<close>

definition rest_at :: "string \<Rightarrow> string \<Rightarrow> nat option \<Rightarrow> string list \<Rightarrow> bool" where
  "rest_at e b s ts \<longleftrightarrow> (if ts = [] then s = None else \<exists>l. line_at e b s l \<and> fields l = ts)"

lemma strsep_whitespace_line:
  assumes "line_at e b s l"
  shows "\<exists>p b' s'. strsep_whitespace b s = Some (Some p, b', s') \<and> cstr b' p = Some (hd (fields l)) \<and> keeps e b b' \<and>
    rest_at e b' s' (tl (fields l))"
proof -
  obtain pre where pre: "b = pre @ l @ NUL # e" "s = Some (length pre)" and nul: "NUL \<notin> set l"
    using assms by (auto simp: line_at_def)
  let ?a = "takeWhile (\<lambda>c. \<not> blank c) l"
  show ?thesis
  proof (cases "dropWhile (\<lambda>c. \<not> blank c) l")
    case Nil
    then have "\<forall>x \<in> set l. x \<notin> set [SP, TAB]" by (auto simp: blank_def)
    then have "strsep_whitespace b s = Some (Some (length pre), b, None)"
      using strsep_end [OF nul, of "[SP, TAB]" pre e] by (simp add: strsep_whitespace_def pre)
    moreover have "keeps e b b" unfolding keeps_def pre by (intro conjI refl exI [of _ "pre @ l"]) simp
    moreover have "fields l = [l]" by (subst fields.simps) (simp only: Nil list.case)
    ultimately show ?thesis using nul pre by (simp add: rest_at_def)
  next
    case (Cons c r)
    have l: "l = ?a @ c # r" using takeWhile_dropWhile_id [of "\<lambda>c. \<not> blank c" l] Cons by simp
    have c: "blank c" using hd_dropWhile [of "\<lambda>c. \<not> blank c" l] Cons by simp
    have a: "\<forall>x \<in> set ?a. x \<notin> set [SP, TAB]" by (auto simp: blank_def dest: set_takeWhileD)
    have nul': "NUL \<notin> set (?a @ c # r)" using nul l by simp
    let ?b = "pre @ ?a @ NUL # r @ NUL # e" and ?w = "takeWhile blank r"
    have "strsep [SP, TAB] (pre @ ?a @ c # r @ NUL # e) (Some (length pre)) =
        Some (Some (length pre), ?b, Some (length pre + length ?a + 1))"
      by (rule strsep_split [OF nul' a]) (use c in \<open>auto simp: blank_def\<close>)
    moreover have b: "b = pre @ ?a @ c # r @ NUL # e" by (subst pre(1), subst l) simp
    moreover have "takeWhile (\<lambda>c. c = SP \<or> c = TAB) (r @ NUL # e) = ?w" by (simp add: takeWhile_tail blank_eq)
    moreover have "length ?w \<le> length r" by (rule length_takeWhile_le)
    ultimately have s: "strsep_whitespace b s = Some (Some (length pre), ?b, Some (length pre + length ?a + 1 + length ?w))"
      unfolding strsep_whitespace_def pre(2) by (simp add: Let_def)
    have f: "fields l = ?a # fields (dropWhile blank r)" by (simp add: fields.simps [of l] Cons)
    have "fields (dropWhile blank r) \<noteq> []" by (subst fields.simps) (auto split: list.splits)
    moreover have "line_at e ?b (Some (length pre + length ?a + 1 + length ?w)) (dropWhile blank r)"
      unfolding line_at_def
    proof (intro conjI exI [of _ "pre @ ?a @ NUL # ?w"])
      show "NUL \<notin> set (dropWhile blank r)" using nul' by (auto dest: set_dropWhileD)
      show "?b = (pre @ ?a @ NUL # ?w) @ dropWhile blank r @ NUL # e"
        by (subst (1) takeWhile_dropWhile_id [of blank r, symmetric]) simp
    qed simp
    moreover have "cstr ?b (length pre) = Some ?a" by (rule cstr_line) (use nul' in simp)
    moreover have "keeps e b ?b" unfolding keeps_def b by (intro conjI exI [of _ "pre @ ?a @ NUL # r"]) simp_all
    ultimately show ?thesis using s f by (auto simp: rest_at_def)
  qed
qed

lemma next_token_none: "rest_at e b s [] \<Longrightarrow> next_token parse b s request k = Some (STATUS_BAD_REQUEST, b, request)"
  by (simp add: rest_at_def next_token_def strsep_whitespace_def strsep_def)

lemma next_token_some:
  assumes "rest_at e b s (t # ts)"
  shows "\<exists>b' s'. keeps e b b' \<and> rest_at e b' s' ts \<and> next_token parse b s request k =
    (if fst (parse t request) \<noteq> STATUS_OK then Some (fst (parse t request), b', snd (parse t request))
     else k b' s' (snd (parse t request)))"
proof -
  obtain l where l: "line_at e b s l" "fields l = t # ts" using assms by (auto simp: rest_at_def)
  then obtain p b' s' where
    "strsep_whitespace b s = Some (Some p, b', s')" "cstr b' p = Some t" "keeps e b b'" "rest_at e b' s' ts"
    using strsep_whitespace_line [OF l(1)] by auto
  then show ?thesis by (intro exI [of _ b'] exI [of _ s']) (simp add: next_token_def case_prod_beta Let_def)
qed

lemma keeps_trans [trans]: "keeps e b b' \<Longrightarrow> keeps e b' b'' \<Longrightarrow> keeps e b b''"
  by (simp add: keeps_def)

text \<open>The status a request line deserves, and the request it asks for.\<close>

definition line_status :: "string list \<Rightarrow> int" where
  "line_status ts =
     (if hd ts \<notin> {''GET'', ''HEAD''} \<or> length ts < 2 then STATUS_BAD_REQUEST
      else if ts ! 1 \<notin> {''/'', ''/index.html''} then STATUS_NOT_FOUND
      else if length ts < 3 \<or> ts ! 2 \<notin> {''HTTP/1.0'', ''HTTP/1.1''} then STATUS_BAD_REQUEST
      else STATUS_OK)"

definition line_request :: "string \<Rightarrow> string list \<Rightarrow> http_request" where
  "line_request document_root ts =
     \<lparr>rmethod = (if hd ts = ''GET'' then GET else HEAD), rpath = take (MAXPATH - 1) (document_root @ ''/index.html''),
      rtype = TEXT, protocol_version = (if ts ! 2 = ''HTTP/1.0'' then 0 else 1)\<rparr>"

lemma parse_initial_line_fields:
  assumes "rest_at e b (Some line) ts" "ts \<noteq> []"
  shows "\<exists>b' r. parse_initial_line document_root b line request = Some (line_status ts, b', r) \<and> keeps e b b' \<and>
    (line_status ts = STATUS_OK \<longrightarrow> r = line_request document_root ts)"
proof -
  let ?k3 = "\<lambda>b line request. Some (STATUS_OK, b, request)"
  let ?k2 = "\<lambda>b line request. next_token parse_protocol_version b line request ?k3"
  let ?k1 = "\<lambda>b line request. next_token (parse_path document_root) b line request ?k2"
  have def: "parse_initial_line document_root b line request = next_token parse_method b (Some line) request ?k1"
    by (simp add: parse_initial_line_def)
  obtain t ts1 where ts: "ts = t # ts1" using assms(2) by (cases ts) auto
  obtain b1 s1 where 1: "keeps e b b1" "rest_at e b1 s1 ts1" "parse_initial_line document_root b line request =
      (if fst (parse_method t request) \<noteq> STATUS_OK then Some (fst (parse_method t request), b1, snd (parse_method t request))
       else ?k1 b1 s1 (snd (parse_method t request)))"
    using next_token_some [OF assms(1) [unfolded ts], of parse_method request ?k1] unfolding def by blast
  show ?thesis
  proof (cases "ts1 = [] \<or> t \<notin> {''GET'', ''HEAD''}")
    case True
    then show ?thesis using 1 ts next_token_none [of e b1 s1]
      by (auto simp: parse_method_def line_status_def status_defs)
  next
    case False
    then obtain t2 ts2 where ts1: "ts1 = t2 # ts2" by (cases ts1) auto
    let ?r1 = "snd (parse_method t request)"
    have d1: "parse_initial_line document_root b line request = ?k1 b1 s1 ?r1"
      using 1(3) False by (auto simp: parse_method_def)
    obtain b2 s2 where 2: "keeps e b1 b2" "rest_at e b2 s2 ts2" "?k1 b1 s1 ?r1 =
      (if fst (parse_path document_root t2 ?r1) \<noteq> STATUS_OK then Some (fst (parse_path document_root t2 ?r1), b2, snd (parse_path document_root t2 ?r1))
       else ?k2 b2 s2 (snd (parse_path document_root t2 ?r1)))"
      using next_token_some [OF 1(2) [unfolded ts1], of "parse_path document_root" ?r1 ?k2] by blast
    have k2: "keeps e b b2" using 1(1) 2(1) by (rule keeps_trans)
    show ?thesis
    proof (cases "ts2 = [] \<or> t2 \<notin> {''/'', ''/index.html''}")
      case True
      then show ?thesis using 2 k2 ts ts1 False d1 next_token_none [of e b2 s2]
        by (auto simp: parse_path_def line_status_def status_defs)
    next
      case False2: False
      then obtain t3 ts3 where ts2: "ts2 = t3 # ts3" by (cases ts2) auto
      let ?r2 = "snd (parse_path document_root t2 ?r1)"
      have d2: "?k1 b1 s1 ?r1 = ?k2 b2 s2 ?r2" using 2(3) False2 by (auto simp: parse_path_def)
      obtain b3 and s3 :: "nat option" where 3: "keeps e b2 b3" "?k2 b2 s2 ?r2 =
        (if fst (parse_protocol_version t3 ?r2) \<noteq> STATUS_OK then Some (fst (parse_protocol_version t3 ?r2), b3, snd (parse_protocol_version t3 ?r2))
         else ?k3 b3 s3 (snd (parse_protocol_version t3 ?r2)))"
        using next_token_some [OF 2(2) [unfolded ts2], of parse_protocol_version ?r2 ?k3] by blast
      have k3: "keeps e b b3" using k2 3(1) by (rule keeps_trans)
      show ?thesis using 3(2) k3 d1 d2 False False2 ts ts1 ts2
        by (auto simp: parse_protocol_version_def parse_method_def parse_path_def line_status_def line_request_def status_defs)
    qed
  qed
qed

section \<open>Whole messages\<close>

definition first_line :: "string \<Rightarrow> string" where
  "first_line m = takeWhile (\<lambda>c. c \<noteq> CR \<and> c \<noteq> LF) m"

text \<open>The buffer after the message \<open>m\<close> has been received into it.\<close>

definition padded :: "string \<Rightarrow> string" where
  "padded m = m @ replicate (MAXMSG - length m) NUL"

lemma fields_nonempty [simp]: "fields l \<noteq> []"
  by (subst fields.simps) (auto split: list.splits)

lemma padded_split: "length m < MAXMSG \<Longrightarrow> padded m = m @ NUL # replicate (MAXMSG - length m - 1) NUL"
  by (cases "MAXMSG - length m") (auto simp: padded_def)

lemma first_line_eq:
  assumes "CR \<notin> set l" "LF \<notin> set l" "newline_sep sep r"
  shows "first_line (l @ sep @ r) = l"
proof -
  have "takeWhile (\<lambda>c. c \<noteq> CR \<and> c \<noteq> LF) (l @ sep @ r) = l @ takeWhile (\<lambda>c. c \<noteq> CR \<and> c \<noteq> LF) (sep @ r)"
    by (rule takeWhile_append2) (use assms in auto)
  moreover have "takeWhile (\<lambda>c. c \<noteq> CR \<and> c \<noteq> LF) (sep @ r) = []" using assms(3) by (auto simp: newline_sep_def)
  ultimately show ?thesis by (simp only: first_line_def append_Nil2)
qed

lemma parse_request_padded:
  assumes "NUL \<notin> set m" "complete m" "length m < MAXMSG"
  shows "\<exists>r. parse_request document_root (padded m) request = Some (line_status (fields (first_line m)), r) \<and>
    (line_status (fields (first_line m)) = STATUS_OK \<longrightarrow> r = line_request document_root (fields (first_line m)))"
proof -
  obtain l sep r where m: "m = l @ sep @ r" "CR \<notin> set l" "LF \<notin> set l" "newline_sep sep r" "pending r"
    using complete_next_line [OF assms(2)] by blast
  let ?post = "replicate (MAXMSG - length m - 1) NUL"
  let ?e = "tl sep @ r @ NUL # ?post"
  have line: "first_line m = l" unfolding m(1) by (rule first_line_eq [OF m(2-4)])
  have nul: "NUL \<notin> set (l @ sep @ r)" using assms(1) m(1) by simp
  have sep: "length sep = Suc (length (tl sep))" using m(4) by (auto simp: newline_sep_def)
  have b: "padded m = [] @ l @ sep @ r @ NUL # ?post" using padded_split [OF assms(3)] m(1) by simp
  have 1: "strsep_newline (padded m) (Some 0) = Some (Some 0, l @ NUL # ?e, Some (length l + length sep))"
    using strsep_newline_step [OF nul m(2-4), of "[]" ?post] unfolding b by simp
  have at: "rest_at ?e (l @ NUL # ?e) (Some 0) (fields l)"
    using nul unfolding rest_at_def line_at_def by (auto intro!: exI [of _ l])
  obtain b' r' where 2: "parse_initial_line document_root (l @ NUL # ?e) 0 request = Some (line_status (fields l), b', r')"
      "keeps ?e (l @ NUL # ?e) b'" "line_status (fields l) = STATUS_OK \<longrightarrow> r' = line_request document_root (fields l)"
    using parse_initial_line_fields [OF at fields_nonempty, of document_root request] by blast
  obtain pre where pre: "b' = pre @ NUL # ?e" and len: "length b' = length (l @ NUL # ?e)" using 2(2) unfolding keeps_def by blast
  have len: "length pre = length l" using len unfolding pre by simp
  have p: "length (pre @ NUL # tl sep) = length l + length sep" using sep len by (simp only: length_append list.size)
  have "parse_headers b' (Some (length l + length sep)) r' = Some STATUS_OK"
    using parse_headers_ends [OF m(5), of "pre @ NUL # tl sep" ?post r'] nul pre unfolding p by simp
  then show ?thesis using 1 2 line by (auto simp: parse_request_def)
qed

lemma complete_append: "complete a \<Longrightarrow> complete (a @ b)"
  unfolding complete_def strstr_iff by (metis append.assoc)

lemma strndup_padded: "NUL \<notin> set m \<Longrightarrow> strndup (m @ r) (length m) = m"
  by (auto simp: strndup_def)

lemma receive_message:
  assumes "NUL \<notin> set (m @ concat ds)" "length (m @ concat ds) < MAXMSG" "[] \<notin> set ds"
    "complete (m @ concat ds)" "ds \<noteq> [] \<Longrightarrow> \<not> complete (m @ concat (butlast ds))"
  shows "receive (map Received ds @ later) (padded m) (length m) = Message (padded (m @ concat ds))"
  using assms
proof (induction ds arbitrary: m)
  case Nil
  then show ?case by (subst receive.simps) (simp add: padded_def strndup_padded)
next
  case (Cons d ds)
  have d: "d \<noteq> []" "length d \<le> MAXMSG - length m" using Cons.prems by auto
  have "\<not> complete m" using Cons.prems(5) complete_append by auto
  then have "receive (map Received (d # ds) @ later) (padded m) (length m) =
      receive (map Received ds @ later) (padded (m @ d)) (length (m @ d))"
    using Cons.prems(1,2) d by (subst receive.simps) (simp add: padded_def strndup_padded)
  also have "\<dots> = Message (padded ((m @ d) @ concat ds))"
  proof (rule Cons.IH)
    show "\<not> complete ((m @ d) @ concat (butlast ds))" if "ds \<noteq> []" using Cons.prems(5) that by simp
  qed (use Cons.prems(1-4) in simp_all)
  finally show ?case by simp
qed

lemma concat_pieces [simp]: "concat (pieces c) = c"
  by (induction c rule: pieces.induct) (subst pieces.simps, auto)

section \<open>Properties\<close>

text \<open>
  C23. A complete request that fits the buffer is parsed without a fault and gets the status its first
  line deserves, whatever its header lines are: 400 unless the method is \<open>GET\<close> or \<open>HEAD\<close> and a
  path follows, 404 unless the path is the one document served, 400 unless the version is 1.0 or 1.1;
  with 200 the request names that document, so no request line reaches another file.
\<close>

theorem parse_request_correct:
  assumes "NUL \<notin> set m" "complete m" "length m < MAXMSG"
  shows "\<exists>r. parse_request document_root (padded m) request = Some (line_status (fields (first_line m)), r) \<and>
    (line_status (fields (first_line m)) = STATUS_OK \<longrightarrow> r = line_request document_root (fields (first_line m)))"
  using assms by (rule parse_request_padded)

theorem parse_request_correct_witness:
  "\<exists>r. parse_request ''/srv'' (padded (''HEAD  / HTTP/1.1'' @ [CR, LF] @ ''Host: a'' @ [CR, LF, CR, LF]))
      \<lparr>rmethod = GET, rpath = [], rtype = VIDEO, protocol_version = 7\<rparr> = Some (STATUS_OK, r) \<and>
    rmethod r = HEAD \<and> rpath r = ''/srv/index.html'' \<and> protocol_version r = 1"
  using parse_request_correct [of "''HEAD  / HTTP/1.1'' @ [CR, LF] @ ''Host: a'' @ [CR, LF, CR, LF]" "''/srv''"
    "\<lparr>rmethod = GET, rpath = [], rtype = VIDEO, protocol_version = 7\<rparr>"]
  by (auto simp: complete_def MAXMSG_def MAXPATH_def first_line_def fields.simps blank_def line_status_def line_request_def)

text \<open>
  C24. The worker, end to end: whatever pieces the request arrives in, a complete \<open>GET\<close> for the document
  is answered with the status line, the date, the length and type of the document, an empty line
  and the document itself; the connection is closed after HTTP/1.0 and queued again after HTTP/1.1.
  Any other complete request is answered with its status and no body, and the connection closed.
\<close>

theorem worker_serves_document:
  assumes "m = concat ds" "NUL \<notin> set m" "length m < MAXMSG" "[] \<notin> set ds" "complete m" "\<not> complete (concat (butlast ds))"
    and "ts = fields (first_line m)" "files (take (MAXPATH - 1) (document_root @ ''/index.html'')) = Some c" "length c < 2 ^ 31"
  shows "\<exists>sent w' v. worker_routine document_root date files (map Received ds @ later) w =
      Some (if line_status ts = STATUS_OK \<and> ts ! 2 = ''HTTP/1.1'' then Requeue else Close, sent, w') \<and>
    (line_status ts = STATUS_OK \<longrightarrow> v = (if ts ! 2 = ''HTTP/1.0'' then 0 else 1)) \<and>
    concat sent = ''HTTP/1.'' @ itoa v @ '' '' @ itoa (line_status ts) @ '' '' @ status_to_str (line_status ts) @ [CR, LF] @ date @
      (if line_status ts = STATUS_OK \<and> hd ts = ''GET''
       then ''Content-Length: '' @ itoa (int (length c)) @ [CR, LF] @ ''Content-Type: text'' @ [CR, LF] @ [CR, LF] @ c
       else [CR, LF])"
proof -
  have ds: "ds \<noteq> []" using assms(1,5) complete_has_LF [of m] by auto
  have rcv: "receive (map Received ds @ later) (replicate MAXMSG NUL) 0 = Message (padded m)"
    using receive_message [of "[]" ds later] assms(1-6) by (simp add: padded_def)
  obtain r where r: "parse_request document_root (padded m) (wrequest w) = Some (line_status ts, r)"
      "line_status ts = STATUS_OK \<Longrightarrow> r = line_request document_root ts"
    using parse_request_padded [OF assms(2,5,3), of document_root "wrequest w"] assms(7) by auto
  have size: "signed_take_bit 31 (int (length c)) = int (length c)"
    using assms(9) by (intro signed_take_bit_int_eq_self) auto
  have w: "worker_routine document_root date files (map Received ds @ later) w = Some (reply date files (line_status ts) (w\<lparr>wrequest := r\<rparr>))"
    using rcv r(1) by (simp add: worker_routine_def)
  show ?thesis
  proof (cases "line_status ts = STATUS_OK")
    case True
    have ver: "ts ! 2 = ''HTTP/1.0'' \<or> ts ! 2 = ''HTTP/1.1''" using True by (auto simp: line_status_def status_defs split: if_splits)
    show ?thesis unfolding w using True r(2) [OF True] assms(8) size ver
      by (auto simp: reply_def line_request_def Let_def)
  next
    case False
    then show ?thesis unfolding w by (auto simp: reply_def Let_def)
  qed
qed

lemma digit_chars: "char_of (48 :: nat) = CHR ''0''" "char_of (50 :: nat) = CHR ''2''" "char_of (53 :: nat) = CHR ''5''"
  by code_simp+

theorem worker_serves_document_witness:
  "\<exists>sent w'. worker_routine ''/srv'' ''Date'' (\<lambda>_. Some ''hello'') [Received (''GET / HT''), Received (''TP/1.0'' @ [LF]), Received [LF]]
      \<lparr>wrequest = \<lparr>rmethod = GET, rpath = [], rtype = TEXT, protocol_version = 0\<rparr>, st_size = 0\<rparr> = Some (Close, sent, w') \<and>
    concat sent = ''HTTP/1.0 200 OK'' @ [CR, LF] @ ''DateContent-Length: 5'' @ [CR, LF] @ ''Content-Type: text'' @ [CR, LF, CR, LF] @ ''hello''"
  using worker_serves_document [of "''GET / HTTP/1.0'' @ [LF, LF]" "[''GET / HT'', ''TP/1.0'' @ [LF], [LF]]" "[''GET'', ''/'', ''HTTP/1.0'']"
    "\<lambda>_. Some ''hello''" "''/srv''" "''hello''" "''Date''" "[]" "\<lparr>wrequest = \<lparr>rmethod = GET, rpath = [], rtype = TEXT, protocol_version = 0\<rparr>, st_size = 0\<rparr>"]
  by (auto simp: complete_def MAXMSG_def first_line_def fields.simps blank_def line_status_def status_to_str_def itoa_def utoa.simps STATUS_OK_def digit_chars)

text \<open>
  C40. A client can crash the server. The receive loop looks for the end of the headers only up to the
  first zero byte, so a request line followed by a zero byte is accepted once 1024 bytes have arrived;
  the parser then takes the line, finds no line break, is left with the null pointer and hands
  it to \<open>strchr\<close> for the first header line.
\<close>

theorem zero_byte_crashes_worker:
  assumes "NUL \<notin> set l" "CR \<notin> set l" "LF \<notin> set l" "line_status (fields l) = STATUS_OK" "length (l @ NUL # junk) = MAXMSG"
  shows "worker_routine document_root date files [Received (l @ NUL # junk)] w = None"
proof -
  have "\<not> complete (strndup (l @ NUL # junk) MAXMSG)"
  proof -
    have "strndup (l @ NUL # junk) MAXMSG = l" using assms(1,5) by (auto simp: strndup_def takeWhile_tail)
    then show ?thesis using complete_has_LF [of l] assms(3) by auto
  qed
  moreover have "\<not> complete (strndup (replicate MAXMSG NUL) 0)" by (simp add: strndup_def complete_def)
  ultimately have rcv: "receive [Received (l @ NUL # junk)] (replicate MAXMSG NUL) 0 = Message (l @ NUL # junk)"
    using assms(5) by (subst receive.simps, subst receive.simps) (simp add: MAXMSG_def)
  have 1: "strsep_newline (l @ NUL # junk) (Some 0) = Some (Some 0, l @ NUL # junk, None)"
    using strchr_line [OF assms(1), of CR "[]" junk] strchr_line [OF assms(1), of LF "[]" junk] assms(1-3)
      strsep_end [OF assms(1), of "[LF]" "[]" junk] by (auto simp: strsep_newline_def)
  have "rest_at junk (l @ NUL # junk) (Some 0) (fields l)"
    using assms(1) unfolding rest_at_def line_at_def by (auto intro!: exI [of _ l])
  from parse_initial_line_fields [OF this fields_nonempty, of document_root "wrequest w"]
  obtain b' r where "parse_initial_line document_root (l @ NUL # junk) 0 (wrequest w) = Some (STATUS_OK, b', r)"
    using assms(4) by auto
  moreover have "parse_headers b' None r = None" by (subst parse_headers.simps) (simp add: strsep_newline_def strchr_def)
  ultimately show ?thesis using rcv 1 by (simp add: worker_routine_def parse_request_def)
qed

theorem zero_byte_crashes_worker_witness:
  "worker_routine ''/srv'' [] (\<lambda>_. None) [Received (''GET / HTTP/1.0'' @ NUL # replicate 1009 NUL)]
     \<lparr>wrequest = \<lparr>rmethod = GET, rpath = [], rtype = TEXT, protocol_version = 0\<rparr>, st_size = 0\<rparr> = None"
  by (rule zero_byte_crashes_worker) (simp_all add: fields.simps blank_def line_status_def MAXMSG_def)

end
