(* ===== verification/Seqlock.thy ===== *)
theory Seqlock
  imports Prelude
begin

text \<open>
  The sequence lock of \<^verbatim>\<open>seqlock/seqlock.c\<close>: any number of readers and writers, one step per access to
  the lock word or to a piece of the shared data, in any interleaving. The lock word is the 32-bit
  counter of the code, so a read is consistent only when the counter does not come round while it
  runs; both sides of this bound are shown.
\<close>

section \<open>Data\<close>

text \<open>
  Where a thread is in \<open>seqlock_read\<close> or \<open>seqlock_write\<close>. Readers carry the number of completed writes
  when they were called (for the statement only), the lock word they saw and the bytes copied so
  far; writers carry the source and how much of it is copied.
\<close>

datatype pc =
    Idle
  | Rd_wait nat | Rd_copy nat u32 "u8 list" | Rd_check nat u32 "u8 list"
  | Wr_wait "u8 list" | Wr_cas u32 "u8 list" | Wr_copy "u8 list" nat | Wr_load "u8 list" | Wr_store u32 "u8 list"

text \<open>
  The lock word, the shared data and the threads. The last four components record the history: the
  values written so far, the writer, the reads that returned, and the calls of \<open>seqlock_write\<close>.
\<close>

record seqlock =
  sync :: u32
  shared :: "u8 list"
  pcs :: "nat \<Rightarrow> pc"
  written :: "u8 list list"
  writer :: "nat option"
  rets :: "(nat \<times> nat \<times> u8 list) list"
  calls :: nat

definition SEQLOCK_WRITER :: u32 where "SEQLOCK_WRITER = 1"

definition seqlock_init :: "u8 list \<Rightarrow> seqlock" where
  "seqlock_init d = \<lparr>sync = 0, shared = d, pcs = (\<lambda>_. Idle), written = [d], writer = None, rets = [], calls = 0\<rparr>"

definition goto :: "nat \<Rightarrow> pc \<Rightarrow> seqlock \<Rightarrow> seqlock" where
  "goto t p s = s\<lparr>pcs := (pcs s)(t := p)\<rparr>"

section \<open>Operations\<close>

text \<open>One load of \<open>wait_for_no_writer\<close>: the lock word, unless a writer is at work.\<close>

definition wait_for_no_writer :: "seqlock \<Rightarrow> u32 option" where
  "wait_for_no_writer s = (if sync s AND SEQLOCK_WRITER \<noteq> 0 then None else Some (sync s))"

text \<open>The size of the next piece \<open>atomic_memcpy\<close> copies when \<open>sz\<close> bytes are left.\<close>

definition piece :: "nat \<Rightarrow> nat" where
  "piece sz = (if sz \<ge> 8 then 8 else if sz \<ge> 4 then 4 else if sz \<ge> 2 then 2 else if sz \<ge> 1 then 1 else 0)"

definition atomic_memcpy :: "u8 list \<Rightarrow> u8 list \<Rightarrow> nat \<Rightarrow> u8 list" where
  "atomic_memcpy dst src off =
     (let k = piece (length src - off) in take off dst @ take k (drop off src) @ drop (off + k) dst)"

definition seqlock_acquire_rd :: "nat \<Rightarrow> nat \<Rightarrow> seqlock \<Rightarrow> seqlock" where
  "seqlock_acquire_rd t a s = (case wait_for_no_writer s of None \<Rightarrow> s | Some prv \<Rightarrow> goto t (Rd_copy a prv []) s)"

definition seqlock_release_rd :: "u32 \<Rightarrow> seqlock \<Rightarrow> bool" where
  "seqlock_release_rd prv s = (sync s = prv)"

definition seqlock_read :: "nat \<Rightarrow> seqlock \<Rightarrow> seqlock" where
  "seqlock_read t s = (case pcs s t of
     Rd_wait a \<Rightarrow> seqlock_acquire_rd t a s
   | Rd_copy a prv dst \<Rightarrow>
       if length dst < length (shared s)
       then goto t (Rd_copy a prv (atomic_memcpy dst (shared s) (length dst))) s
       else goto t (Rd_check a prv dst) s
   | Rd_check a prv dst \<Rightarrow>
       if seqlock_release_rd prv s
       then goto t Idle (s\<lparr>rets := rets s @ [(a, length (written s) - 1, dst)]\<rparr>)
       else goto t (Rd_wait a) s
   | _ \<Rightarrow> s)"

text \<open>The compare-and-swap is weak: it may fail although the lock word is as expected (\<open>weak\<close>).\<close>

definition seqlock_acquire_wr :: "nat \<Rightarrow> bool \<Rightarrow> seqlock \<Rightarrow> seqlock" where
  "seqlock_acquire_wr t weak s = (case pcs s t of
     Wr_wait src \<Rightarrow> (case wait_for_no_writer s of None \<Rightarrow> s | Some l \<Rightarrow> goto t (Wr_cas l src) s)
   | Wr_cas l src \<Rightarrow>
       if sync s = l \<and> \<not> weak then goto t (Wr_copy src 0) (s\<lparr>sync := l + SEQLOCK_WRITER, writer := Some t\<rparr>)
       else goto t (Wr_wait src) s
   | _ \<Rightarrow> s)"

definition seqlock_release_wr :: "nat \<Rightarrow> seqlock \<Rightarrow> seqlock" where
  "seqlock_release_wr t s = (case pcs s t of
     Wr_load src \<Rightarrow>
       let cur = sync s in
       if cur AND SEQLOCK_WRITER = 0 then goto t Idle s else goto t (Wr_store cur src) s
   | Wr_store cur src \<Rightarrow> goto t Idle (s\<lparr>sync := cur + 1, written := written s @ [src], writer := None\<rparr>)
   | _ \<Rightarrow> s)"

definition seqlock_write :: "nat \<Rightarrow> bool \<Rightarrow> seqlock \<Rightarrow> seqlock" where
  "seqlock_write t weak s = (case pcs s t of
     Wr_wait _ \<Rightarrow> seqlock_acquire_wr t weak s
   | Wr_cas _ _ \<Rightarrow> seqlock_acquire_wr t weak s
   | Wr_copy src off \<Rightarrow>
       if off < length src
       then goto t (Wr_copy src (off + piece (length src - off))) (s\<lparr>shared := atomic_memcpy (shared s) src off\<rparr>)
       else goto t (Wr_load src) s
   | Wr_load _ \<Rightarrow> seqlock_release_wr t s
   | Wr_store _ _ \<Rightarrow> seqlock_release_wr t s
   | _ \<Rightarrow> s)"

fun reading :: "pc \<Rightarrow> bool" where
  "reading (Rd_wait _) = True"
| "reading (Rd_copy _ _ _) = True"
| "reading (Rd_check _ _ _) = True"
| "reading _ = False"

text \<open>
  An event: a thread calls one of the two operations, with a source as long as the shared data, or
  takes its next step.
\<close>

datatype event = Read nat | Write nat "u8 list" | Step nat bool

fun seqlock_step :: "event \<Rightarrow> seqlock \<Rightarrow> seqlock option" where
  "seqlock_step (Read t) s = Some (if pcs s t = Idle then goto t (Rd_wait (length (written s) - 1)) s else s)"
| "seqlock_step (Write t src) s =
     Some (if pcs s t = Idle \<and> length src = length (shared s) then goto t (Wr_wait src) (s\<lparr>calls := calls s + 1\<rparr>) else s)"
| "seqlock_step (Step t weak) s = Some (if reading (pcs s t) then seqlock_read t s else seqlock_write t weak s)"

section \<open>The invariant\<close>

text \<open>The lock word without the wrap-around.\<close>

definition cnt :: "seqlock \<Rightarrow> nat" where
  "cnt s = 2 * (length (written s) - 1) + (if writer s = None then 0 else 1)"

fun active :: "pc \<Rightarrow> bool" where
  "active (Wr_copy _ _) = True"
| "active (Wr_load _) = True"
| "active (Wr_store _ _) = True"
| "active _ = False"

fun writing :: "pc \<Rightarrow> bool" where
  "writing (Wr_wait _) = True"
| "writing (Wr_cas _ _) = True"
| "writing p = active p"

definition rd_ok :: "seqlock \<Rightarrow> nat \<Rightarrow> u32 \<Rightarrow> u8 list \<Rightarrow> bool" where
  "rd_ok s a prv dst \<longleftrightarrow> length dst \<le> length (shared s) \<and>
     (\<exists>c. even c \<and> prv = of_nat c \<and> 2 * a \<le> c \<and> c \<le> cnt s \<and> (cnt s = c \<longrightarrow> dst = take (length dst) (shared s)))"

fun pc_ok :: "seqlock \<Rightarrow> pc \<Rightarrow> bool" where
  "pc_ok s Idle \<longleftrightarrow> True"
| "pc_ok s (Rd_wait a) \<longleftrightarrow> a < length (written s)"
| "pc_ok s (Rd_copy a prv dst) \<longleftrightarrow> rd_ok s a prv dst"
| "pc_ok s (Rd_check a prv dst) \<longleftrightarrow> rd_ok s a prv dst \<and> length dst = length (shared s)"
| "pc_ok s (Wr_wait src) \<longleftrightarrow> length src = length (shared s)"
| "pc_ok s (Wr_cas l src) \<longleftrightarrow> length src = length (shared s) \<and> l AND 1 = 0"
| "pc_ok s (Wr_copy src off) \<longleftrightarrow> length src = length (shared s) \<and> off \<le> length src \<and> take off (shared s) = take off src"
| "pc_ok s (Wr_load src) \<longleftrightarrow> shared s = src"
| "pc_ok s (Wr_store cur src) \<longleftrightarrow> shared s = src \<and> cur = sync s"

definition rets_ok :: "seqlock \<Rightarrow> bool" where
  "rets_ok s \<longleftrightarrow> (\<forall>(a, z, b) \<in> set (rets s). z < length (written s) \<and> (\<exists>k. a \<le> k \<and> k \<le> z \<and> b = written s ! k))"

definition core :: "seqlock \<Rightarrow> bool" where
  "core s \<longleftrightarrow> written s \<noteq> [] \<and> sync s = of_nat (cnt s) \<and> (\<forall>t. active (pcs s t) \<longleftrightarrow> writer s = Some t) \<and>
     (writer s = None \<longrightarrow> shared s = last (written s)) \<and> (\<forall>t. pc_ok s (pcs s t))"

definition tally :: "seqlock \<Rightarrow> bool" where
  "tally s \<longleftrightarrow> finite {t. writing (pcs s t)} \<and> card {t. writing (pcs s t)} + length (written s) \<le> calls s + 1"

definition seq_inv :: "seqlock \<Rightarrow> bool" where
  "seq_inv s \<longleftrightarrow> core s \<and> (length (written s) \<le> 2 ^ 31 \<longrightarrow> rets_ok s) \<and> tally s"

lemma goto_sel [simp]:
  "sync (goto t p s) = sync s" "shared (goto t p s) = shared s" "pcs (goto t p s) = (pcs s)(t := p)" "written (goto t p s) = written s"
  "writer (goto t p s) = writer s" "rets (goto t p s) = rets s" "calls (goto t p s) = calls s" "cnt (goto t p s) = cnt s"
  by (simp_all add: goto_def cnt_def)

lemma cnt_upd [simp]:
  "cnt (s\<lparr>sync := x\<rparr>) = cnt s" "cnt (s\<lparr>shared := d\<rparr>) = cnt s" "cnt (s\<lparr>rets := r\<rparr>) = cnt s" "cnt (s\<lparr>calls := n\<rparr>) = cnt s"
  by (simp_all add: cnt_def)

lemma sync_even:
  assumes "core s"
  shows "sync s AND 1 = 0 \<longleftrightarrow> writer s = None"
proof -
  have "odd (of_nat n :: u32) \<longleftrightarrow> odd n" for n by transfer simp
  then show ?thesis using assms by (simp add: core_def and_one_eq cnt_def mod_2_eq_odd)
qed

lemma rd_ok_length: "rd_ok s a prv dst \<Longrightarrow> length dst \<le> length (shared s)"
  unfolding rd_ok_def by blast

lemma rd_okE:
  assumes "rd_ok s a prv dst"
  obtains c where "even c" "prv = of_nat c" "2 * a \<le> c" "c \<le> cnt s" "cnt s = c \<longrightarrow> dst = take (length dst) (shared s)"
  using assms unfolding rd_ok_def by (elim conjE exE) (rule that)

lemma pc_ok_cong:
  assumes "sync s' = sync s" "shared s' = shared s" "cnt s' = cnt s" "length (written s') = length (written s)"
  shows "pc_ok s' p = pc_ok s p"
  using assms by (cases p) (simp_all add: rd_ok_def)

lemma pc_ok_goto [simp]: "pc_ok (goto t p s) q = pc_ok s q"
  by (rule pc_ok_cong) simp_all

lemma pc_ok_upd [simp]: "pc_ok (s\<lparr>rets := r\<rparr>) q = pc_ok s q" "pc_ok (s\<lparr>calls := n\<rparr>) q = pc_ok s q"
  by (rule pc_ok_cong; simp)+

text \<open>What a step of a writer keeps of the other threads.\<close>

lemma pc_frame:
  assumes "pc_ok s p" "\<not> active p" "length (shared s') = length (shared s)" "length (written s) \<le> length (written s')" "cnt s \<le> cnt s'"
    and same: "cnt s' = cnt s \<Longrightarrow> even (cnt s) \<Longrightarrow> shared s' = shared s"
  shows "pc_ok s' p"
proof -
  have rd: "rd_ok s' a prv dst" if rd0: "rd_ok s a prv dst" for a prv dst
  proof -
    obtain c where c: "even c" "prv = of_nat c" "2 * a \<le> c" "c \<le> cnt s" "cnt s = c \<longrightarrow> dst = take (length dst) (shared s)"
      using rd0 by (rule rd_okE)
    have eq: "dst = take (length dst) (shared s')" if "cnt s' = c"
    proof -
      have cs: "cnt s = c" using c(4) assms(5) that by simp
      then have "shared s' = shared s" using c(1) that by (intro same) simp_all
      then show ?thesis using c(5) [rule_format, OF cs] by metis
    qed
    have "length dst \<le> length (shared s')" using rd_ok_length [OF rd0] assms(3) by simp
    moreover have "c \<le> cnt s'" using c(4) assms(5) by simp
    ultimately show ?thesis unfolding rd_ok_def by (intro conjI exI [of _ c] impI c(1-3) eq)
  qed
  show ?thesis using assms(1-4) rd by (cases p) simp_all
qed

lemma core_goto:
  assumes "core s" "pc_ok s p" "active p \<longleftrightarrow> active (pcs s t)"
  shows "core (goto t p s)"
  using assms by (auto simp: core_def)

lemma core_D:
  assumes "core s"
  shows "written s \<noteq> []" "sync s = of_nat (cnt s)" "active (pcs s t) \<longleftrightarrow> writer s = Some t"
    "writer s = None \<Longrightarrow> shared s = last (written s)" "pc_ok s (pcs s t)"
  using assms by (auto simp: core_def)

lemma cnt_even: "even (cnt s) \<longleftrightarrow> writer s = None"
  by (simp add: cnt_def)

lemma piece_le: "piece n \<le> n" and piece_pos: "0 < n \<Longrightarrow> 0 < piece n"
  by (auto simp: piece_def)

lemma acquire_rd_core:
  assumes "core s" "pcs s t = Rd_wait a"
  shows "core (seqlock_acquire_rd t a s)"
proof (cases "writer s")
  case None
  have "rd_ok s a (sync s) []"
    unfolding rd_ok_def using core_D(2) [OF assms(1)] core_D(5) [OF assms(1), of t] assms(2) None cnt_even [of s]
    by (intro conjI exI [of _ "cnt s"]) (simp_all add: cnt_def)
  then show ?thesis
    using sync_even [OF assms(1)] None core_goto [OF assms(1), of "Rd_copy a (sync s) []" t] assms(2)
    by (simp add: seqlock_acquire_rd_def wait_for_no_writer_def SEQLOCK_WRITER_def)
next
  case (Some u)
  then show ?thesis using sync_even [OF assms(1)] assms(1)
    by (simp add: seqlock_acquire_rd_def wait_for_no_writer_def SEQLOCK_WRITER_def)
qed

lemma memcpy_prefix:
  "atomic_memcpy dst src (length dst) = dst @ take (piece (length src - length dst)) (drop (length dst) src)"
  by (simp add: atomic_memcpy_def Let_def)

lemma rd_copy_ok:
  assumes "rd_ok s a prv dst" "length dst < length (shared s)"
  shows "rd_ok s a prv (atomic_memcpy dst (shared s) (length dst))"
proof -
  let ?k = "piece (length (shared s) - length dst)"
  have k: "?k \<le> length (shared s) - length dst" by (rule piece_le)
  obtain c where c: "even c" "prv = of_nat c" "2 * a \<le> c" "c \<le> cnt s" "cnt s = c \<longrightarrow> dst = take (length dst) (shared s)"
    using assms(1) by (rule rd_okE)
  let ?d = "dst @ take ?k (drop (length dst) (shared s))"
  have l: "length ?d = length dst + ?k" using k by simp
  have "?d = take (length ?d) (shared s)" if "cnt s = c"
    unfolding l take_add using c(5) [rule_format, OF that] by metis
  moreover have "length ?d \<le> length (shared s)" using k assms(2) l by simp
  ultimately show ?thesis unfolding memcpy_prefix rd_ok_def by (intro conjI exI [of _ c] impI c(1-4))
qed

lemma rd_ok_called: "rd_ok s a prv dst \<Longrightarrow> core s \<Longrightarrow> a < length (written s)"
  using core_D(1) [of s] by (cases "written s") (auto simp: rd_ok_def cnt_def split: if_splits)

lemma read_core:
  assumes "core s"
  shows "core (seqlock_read t s)"
proof (cases "pcs s t")
  case (Rd_wait a)
  then show ?thesis using acquire_rd_core [OF assms, of t a] by (simp add: seqlock_read_def)
next
  case (Rd_copy a prv dst)
  then have rd: "rd_ok s a prv dst" using core_D(5) [OF assms, of t] by simp
  then have "core (goto t (Rd_copy a prv (atomic_memcpy dst (shared s) (length dst))) s)" if "length dst < length (shared s)"
    using rd_copy_ok [OF rd that] Rd_copy by (intro core_goto [OF assms]) simp_all
  moreover have "core (goto t (Rd_check a prv dst) s)" if "\<not> length dst < length (shared s)"
    using rd that Rd_copy rd_ok_length [OF rd] by (intro core_goto [OF assms]) auto
  ultimately show ?thesis using Rd_copy by (simp add: seqlock_read_def)
next
  case (Rd_check a prv dst)
  then have "rd_ok s a prv dst" using core_D(5) [OF assms, of t] by simp
  then have "a < length (written s)" using assms by (rule rd_ok_called)
  then have "core (goto t (Rd_wait a) s)" using Rd_check by (intro core_goto [OF assms]) simp_all
  moreover have "core (goto t Idle (s\<lparr>rets := r\<rparr>))" for r
  proof -
    have "core (s\<lparr>rets := r\<rparr>)" using assms by (simp add: core_def)
    then show ?thesis by (rule core_goto) (simp_all add: Rd_check)
  qed
  ultimately show ?thesis using Rd_check by (simp add: seqlock_read_def)
qed (simp_all add: seqlock_read_def assms)

lemma core_writer_step:
  assumes "core s" "written s' \<noteq> []" "sync s' = of_nat (cnt s')" "writer s' = None \<Longrightarrow> shared s' = last (written s')"
    and t: "pcs s' = (pcs s)(t := p)" "active p \<longleftrightarrow> writer s' = Some t" "pc_ok s' p" "writer s' \<in> {None, Some t}" "writer s \<in> {None, Some t}"
    and frame: "length (shared s') = length (shared s)" "length (written s) \<le> length (written s')" "cnt s \<le> cnt s'"
      "cnt s' = cnt s \<Longrightarrow> even (cnt s) \<Longrightarrow> shared s' = shared s"
  shows "core s'"
proof -
  have "pc_ok s' (pcs s u)" if "u \<noteq> t" for u
  proof (rule pc_frame [OF core_D(5) [OF assms(1)] _ frame])
    show "\<not> active (pcs s u)" using core_D(3) [OF assms(1), of u] that t(5) by auto
  qed
  moreover have "active (pcs s u) \<longleftrightarrow> writer s' = Some u" if "u \<noteq> t" for u
    using core_D(3) [OF assms(1), of u] that t(4,5) by auto
  ultimately show ?thesis using assms(2-4) t(1-3) unfolding core_def by simp
qed

lemma memcpy_next:
  assumes "length src = length d" "off < length src" "take off d = take off src"
  shows "length (atomic_memcpy d src off) = length d"
    "take (off + piece (length src - off)) (atomic_memcpy d src off) = take (off + piece (length src - off)) src"
proof -
  let ?k = "piece (length src - off)"
  have k: "?k \<le> length src - off" by (rule piece_le)
  then show "length (atomic_memcpy d src off) = length d" using assms by (simp add: atomic_memcpy_def Let_def)
  have "take (off + ?k) (atomic_memcpy d src off) = take off d @ take ?k (drop off src)"
    using k assms by (simp add: atomic_memcpy_def Let_def)
  then show "take (off + ?k) (atomic_memcpy d src off) = take (off + ?k) src" using assms(3) by (simp add: take_add)
qed

lemma acquire_wr_core:
  assumes "core s" "pcs s t = Wr_wait src \<or> pcs s t = Wr_cas l src"
  shows "core (seqlock_acquire_wr t weak s)"
  using assms(2)
proof
  assume pc: "pcs s t = Wr_wait src"
  have "core (goto t (Wr_cas (sync s) src) s)" if "sync s AND 1 = 0"
    by (rule core_goto [OF assms(1)]) (use core_D(5) [OF assms(1), of t] pc that in simp_all)
  then show ?thesis using pc assms(1) by (simp add: seqlock_acquire_wr_def wait_for_no_writer_def SEQLOCK_WRITER_def)
next
  assume pc: "pcs s t = Wr_cas l src"
  have ok: "length src = length (shared s)" "l AND 1 = 0" using core_D(5) [OF assms(1), of t] pc by simp_all
  have "core (goto t (Wr_wait src) s)" by (rule core_goto [OF assms(1)]) (use pc ok in simp_all)
  moreover have "core (goto t (Wr_copy src 0) (s\<lparr>sync := l + 1, writer := Some t\<rparr>))" if "sync s = l"
  proof -
    have w: "writer s = None" using sync_even [OF assms(1)] ok(2) that by simp
    then have c: "cnt (s\<lparr>sync := l + 1, writer := Some t\<rparr>) = cnt s + 1" by (simp add: cnt_def)
    show ?thesis
      by (rule core_writer_step [OF assms(1), where t = t and p = "Wr_copy src 0"])
        (use core_D(1,2) [OF assms(1)] w c ok that in simp_all)
  qed
  ultimately show ?thesis using pc by (simp add: seqlock_acquire_wr_def SEQLOCK_WRITER_def)
qed

lemma release_wr_core:
  assumes "core s" "pcs s t = Wr_load src \<or> pcs s t = Wr_store cur src"
  shows "core (seqlock_release_wr t s)"
proof -
  have w: "writer s = Some t" using core_D(3) [OF assms(1), of t] assms(2) by auto
  show ?thesis using assms(2)
  proof
    assume pc: "pcs s t = Wr_load src"
    have "core (goto t (Wr_store (sync s) src) s)"
      by (rule core_goto [OF assms(1)]) (use core_D(5) [OF assms(1), of t] pc in simp_all)
    then show ?thesis using pc w sync_even [OF assms(1)] by (simp add: seqlock_release_wr_def SEQLOCK_WRITER_def)
  next
    assume pc: "pcs s t = Wr_store cur src"
    have ok: "shared s = src" "cur = sync s" using core_D(5) [OF assms(1), of t] pc by simp_all
    let ?s = "goto t Idle (s\<lparr>sync := cur + 1, written := written s @ [src], writer := None\<rparr>)"
    have "cnt (s\<lparr>sync := cur + 1, written := written s @ [src], writer := None\<rparr>) = cnt s + 1"
      using w core_D(1) [OF assms(1)] by (cases "written s") (simp_all add: cnt_def)
    then have "core ?s"
      using core_D(2) [OF assms(1)] w ok by (intro core_writer_step [OF assms(1), where t = t and p = Idle]) simp_all
    then show ?thesis using pc by (simp add: seqlock_release_wr_def)
  qed
qed

lemma write_core:
  assumes "core s"
  shows "core (seqlock_write t weak s)"
proof (cases "pcs s t")
  case (Wr_copy src off)
  have ok: "length src = length (shared s)" "off \<le> length src" "take off (shared s) = take off src"
    using core_D(5) [OF assms, of t] Wr_copy by simp_all
  have w: "writer s = Some t" using core_D(3) [OF assms, of t] Wr_copy by simp
  show ?thesis
  proof (cases "off < length src")
    case True
    let ?d = "atomic_memcpy (shared s) src off" and ?o = "off + piece (length src - off)"
    have "core (goto t (Wr_copy src ?o) (s\<lparr>shared := ?d\<rparr>))"
    proof (rule core_writer_step [OF assms, where t = t and p = "Wr_copy src ?o"])
      have sh: "shared (goto t (Wr_copy src ?o) (s\<lparr>shared := ?d\<rparr>)) = ?d" by simp
      have "?o \<le> length src" using piece_le [of "length src - off"] True by linarith
      moreover have "length src = length ?d" by (simp only: memcpy_next(1) [OF ok(1) True ok(3)] ok(1))
      ultimately show "pc_ok (goto t (Wr_copy src ?o) (s\<lparr>shared := ?d\<rparr>)) (Wr_copy src ?o)"
        unfolding pc_ok.simps sh using memcpy_next(2) [OF ok(1) True ok(3)] by blast
    qed (use core_D(1,2) [OF assms] w memcpy_next(1) [OF ok(1) True ok(3)] cnt_even [of s] in simp_all)
    then show ?thesis using Wr_copy True by (simp add: seqlock_write_def)
  next
    case False
    have "shared s = take off (shared s)" using False ok(1) by (intro take_all [symmetric]) linarith
    also have "\<dots> = src" unfolding ok(3) using False by (intro take_all) linarith
    finally have "core (goto t (Wr_load src) s)" by (intro core_goto [OF assms]) (simp_all add: Wr_copy)
    then show ?thesis using Wr_copy False by (simp add: seqlock_write_def)
  qed
next
  case (Wr_wait src)
  then show ?thesis using acquire_wr_core [OF assms, of t src 0 weak] by (simp add: seqlock_write_def)
next
  case (Wr_cas l src)
  then show ?thesis using acquire_wr_core [OF assms, of t src l weak] by (simp add: seqlock_write_def)
next
  case (Wr_load src)
  then show ?thesis using release_wr_core [OF assms, of t src 0] by (simp add: seqlock_write_def)
next
  case (Wr_store cur src)
  then show ?thesis using release_wr_core [OF assms, of t src cur] by (simp add: seqlock_write_def)
qed (simp_all add: seqlock_write_def assms)

lemma step_core: "core s \<Longrightarrow> seqlock_step e s = Some s' \<Longrightarrow> core s'"
proof (cases e)
  case (Read t)
  assume *: "core s" "seqlock_step e s = Some s'"
  have "core (goto t (Rd_wait (length (written s) - 1)) s)" if "pcs s t = Idle"
    using core_D(1) [OF *(1)] that by (intro core_goto [OF *(1)]) simp_all
  then show ?thesis using * Read by auto
next
  case (Write t src)
  assume *: "core s" "seqlock_step e s = Some s'"
  have "core (s\<lparr>calls := calls s + 1\<rparr>)" using *(1) by (simp add: core_def)
  then have "core (goto t (Wr_wait src) (s\<lparr>calls := calls s + 1\<rparr>))" if "pcs s t = Idle" "length src = length (shared s)"
    by (rule core_goto) (use that in simp_all)
  then show ?thesis using * Write by auto
next
  case (Step t weak)
  assume "core s" "seqlock_step e s = Some s'"
  then show ?thesis using Step read_core [of s t] write_core [of s t weak] by (auto split: if_splits)
qed

text \<open>How a step changes the history.\<close>

lemma step_history:
  assumes "seqlock_step e s = Some s'"
  shows "(rets s' = rets s \<and> (\<exists>vs. written s' = written s @ vs)) \<or>
    (\<exists>t a dst. pcs s t = Rd_check a (sync s) dst \<and> rets s' = rets s @ [(a, length (written s) - 1, dst)] \<and> written s' = written s)"
proof (cases e)
  case (Step t weak)
  then show ?thesis using assms
    by (cases "pcs s t") (auto simp: seqlock_read_def seqlock_acquire_rd_def seqlock_release_rd_def seqlock_write_def
      seqlock_acquire_wr_def seqlock_release_wr_def Let_def split: option.splits)
qed (use assms in auto)

lemma rets_ok_more:
  assumes "rets_ok s" "rets s' = rets s" "written s' = written s @ vs"
  shows "rets_ok s'"
proof -
  have "z < length (written s') \<and> (\<exists>k. a \<le> k \<and> k \<le> z \<and> b = written s' ! k)" if abz: "(a, z, b) \<in> set (rets s)" for a z b
  proof -
    obtain k where "z < length (written s)" "a \<le> k" "k \<le> z" "b = written s ! k" using assms(1) abz unfolding rets_ok_def by fastforce
    then show ?thesis using assms(3) by (intro conjI exI [of _ k]) (auto simp: nth_append)
  qed
  then show ?thesis unfolding rets_ok_def assms(2) by auto
qed

lemma of_nat_u32_inject: "a < 2 ^ 32 \<Longrightarrow> b < 2 ^ 32 \<Longrightarrow> (of_nat a :: u32) = of_nat b \<Longrightarrow> a = b"
proof -
  assume lt: "a < 2 ^ 32" "b < 2 ^ 32" and eq: "(of_nat a :: u32) = of_nat b"
  have "unat (of_nat n :: u32) = n" if "n < 2 ^ 32" for n using that by (simp add: unat_of_nat)
  then show "a = b" using lt eq by metis
qed

lemma read_consistent:
  assumes "core s" "pcs s t = Rd_check a (sync s) dst" "length (written s) \<le> 2 ^ 31"
  shows "a \<le> length (written s) - 1 \<and> dst = written s ! (length (written s) - 1)"
proof -
  have rd: "rd_ok s a (sync s) dst" and len: "length dst = length (shared s)" using core_D(5) [OF assms(1), of t] assms(2) by simp_all
  obtain c where c: "even c" "sync s = of_nat c" "2 * a \<le> c" "c \<le> cnt s" "cnt s = c \<longrightarrow> dst = take (length dst) (shared s)"
    using rd by (rule rd_okE)
  have ne: "written s \<noteq> []" by (rule core_D(1) [OF assms(1)])
  have "cnt s < 2 ^ 32" using assms(3) ne by (cases "written s") (auto simp: cnt_def)
  then have cs: "cnt s = c" using of_nat_u32_inject [of "cnt s" c] c(2,4) core_D(2) [OF assms(1)] by simp
  then have "writer s = None" using c(1) cnt_even [of s] by simp
  then have "shared s = last (written s)" by (rule core_D(4) [OF assms(1)])
  moreover have "dst = shared s" using c(5) cs len by (metis take_all order_refl)
  moreover have "a \<le> length (written s) - 1" using c(3) cs \<open>writer s = None\<close> by (simp add: cnt_def)
  ultimately show ?thesis using ne by (simp add: last_conv_nth)
qed

lemma step_rets:
  assumes "core s" "length (written s) \<le> 2 ^ 31 \<Longrightarrow> rets_ok s" "seqlock_step e s = Some s'" "length (written s') \<le> 2 ^ 31"
  shows "rets_ok s'"
proof -
  from step_history [OF assms(3)] consider vs where "rets s' = rets s" "written s' = written s @ vs"
    | t a dst where "pcs s t = Rd_check a (sync s) dst" "rets s' = rets s @ [(a, length (written s) - 1, dst)]" "written s' = written s"
    by blast
  then show ?thesis
  proof cases
    case (1 vs)
    then show ?thesis using rets_ok_more [OF assms(2)] assms(4) by simp
  next
    case (2 t a dst)
    have "rets_ok s" using assms(2,4) 2(3) by simp
    moreover have "a \<le> length (written s) - 1 \<and> dst = written s ! (length (written s) - 1)"
      using read_consistent [OF assms(1) 2(1)] assms(4) 2(3) by simp
    moreover have "length (written s) - 1 < length (written s)" using core_D(1) [OF assms(1)] by simp
    ultimately show ?thesis unfolding rets_ok_def 2(2,3) by auto
  qed
qed

text \<open>Every completed write, and every write under way, is one call.\<close>

lemma tallyI:
  assumes "tally s" "pcs s' = (pcs s)(t := p)"
    and "if writing p then (if writing (pcs s t) then length (written s') + calls s \<le> length (written s) + calls s'
           else length (written s') + calls s + 1 \<le> length (written s) + calls s')
         else (if writing (pcs s t) then length (written s') + calls s \<le> length (written s) + calls s' + 1
           else length (written s') + calls s \<le> length (written s) + calls s')"
  shows "tally s'"
proof -
  let ?W = "{u. writing (pcs s u)}"
  have W: "{u. writing (pcs s' u)} = (if writing p then insert t ?W else ?W - {t})" using assms(2) by auto
  have fin: "finite ?W" and c: "card ?W + length (written s) \<le> calls s + 1" using assms(1) by (auto simp: tally_def)
  have "card (?W - {t}) = (if writing (pcs s t) then card ?W - 1 else card ?W)" by simp
  moreover have "writing (pcs s t) \<Longrightarrow> 0 < card ?W" using fin by (auto simp: card_gt_0_iff)
  ultimately show ?thesis using fin c assms(3) unfolding tally_def W
    by (auto simp: card_insert_if split: if_splits)
qed

lemma step_tally:
  assumes "core s" "tally s" "seqlock_step e s = Some s'"
  shows "tally s'"
proof (cases e)
  case (Read t)
  then show ?thesis using assms tallyI [OF assms(2), of "goto t (Rd_wait (length (written s) - 1)) s" t "Rd_wait (length (written s) - 1)"]
    by (auto split: if_splits)
next
  case (Write t src)
  then show ?thesis using assms tallyI [OF assms(2), of "goto t (Wr_wait src) (s\<lparr>calls := calls s + 1\<rparr>)" t "Wr_wait src"]
    by (auto split: if_splits)
next
  case (Step t weak)
  have keep: "tally (goto t p x)" if "writing p = writing (pcs s t)" "pcs x = pcs s" "written x = written s" "calls x = calls s" for p x
    using tallyI [OF assms(2), of "goto t p x" t p] that by auto
  have "sync s AND 1 \<noteq> 0" if "pcs s t = Wr_load src" for src
    using sync_even [OF assms(1)] core_D(3) [OF assms(1), of t] that by simp
  moreover have "tally (goto t Idle (s\<lparr>sync := cur + 1, written := written s @ [src], writer := None\<rparr>))" if "pcs s t = Wr_store cur src" for cur src
    using that by (intro tallyI [OF assms(2), where t = t and p = Idle]) simp_all
  ultimately show ?thesis using Step assms(2,3)
    by (cases "pcs s t") (auto simp: seqlock_read_def seqlock_acquire_rd_def seqlock_release_rd_def seqlock_write_def
      seqlock_acquire_wr_def seqlock_release_wr_def SEQLOCK_WRITER_def wait_for_no_writer_def Let_def intro: keep split: option.splits if_splits)
qed

interpretation seq: inductive_invariant "seqlock_init d" seqlock_step seq_inv for d
proof
  show "seq_inv (seqlock_init d)"
    by (auto simp: seq_inv_def core_def tally_def rets_ok_def seqlock_init_def cnt_def)
  show "seq_inv s'" if i: "seq_inv s" and e: "seqlock_step e s = Some s'" for s e s'
    using i step_core [OF _ e] step_rets [OF _ _ e] step_tally [OF _ _ e] by (auto simp: seq_inv_def)
qed

lemma step_calls: "seqlock_step e s = Some s' \<Longrightarrow> calls s' \<le> calls s + (case e of Write t src \<Rightarrow> 1 | _ \<Rightarrow> 0)"
proof (cases e)
  case (Step t weak)
  assume "seqlock_step e s = Some s'"
  then show ?thesis using Step
    by (cases "pcs s t") (auto simp: seqlock_read_def seqlock_acquire_rd_def seqlock_release_rd_def seqlock_write_def
      seqlock_acquire_wr_def seqlock_release_wr_def Let_def split: option.splits)
qed (auto split: if_splits)

fun is_write :: "event \<Rightarrow> bool" where
  "is_write (Write t src) = True"
| "is_write _ = False"

lemma exec_calls: "exec seqlock_step es s = Some s' \<Longrightarrow> calls s' \<le> calls s + length (filter is_write es)"
proof (induction es arbitrary: s)
  case (Cons e es)
  then obtain s1 where s1: "seqlock_step e s = Some s1" "exec seqlock_step es s1 = Some s'" by (auto split: option.splits)
  have "calls s1 \<le> calls s + (if is_write e then 1 else 0)" using step_calls [OF s1(1)] by (cases e) auto
  then show ?case using Cons.IH [OF s1(2)] by (auto split: if_splits)
qed simp

lemma exec_Some: "\<exists>s'. exec seqlock_step es s = Some s'"
proof (induction es arbitrary: s)
  case (Cons e es)
  then show ?case by (cases e) auto
qed simp

section \<open>Properties\<close>

text \<open>
  C11. No torn reads: as long as fewer than 2^31 writes are made, every read that returns delivers one
  value that was written as a whole (or the initial one), not older than the last write completed
  before the read was called and not newer than the last one completed when it returned.
\<close>

theorem seqlock_reads_consistent:
  assumes "length (filter is_write es) < 2 ^ 31"
  shows "\<exists>s. exec seqlock_step es (seqlock_init d) = Some s \<and>
    (\<forall>(a, z, b) \<in> set (rets s). z < length (written s) \<and> (\<exists>k. a \<le> k \<and> k \<le> z \<and> b = written s ! k))"
proof -
  obtain s where s: "exec seqlock_step es (seqlock_init d) = Some s" using exec_Some by blast
  have inv: "seq_inv s" by (rule seq.exec_inv [OF seq.init_inv s])
  have "calls s \<le> length (filter is_write es)" using exec_calls [OF s] by (simp add: seqlock_init_def)
  then have "length (written s) \<le> 2 ^ 31" using inv assms by (simp add: seq_inv_def tally_def)
  then have "rets_ok s" using inv unfolding seq_inv_def by blast
  then show ?thesis using s unfolding rets_ok_def by blast
qed

theorem seqlock_reads_consistent_witness:
  "\<exists>s. exec seqlock_step ([Write 1 [3, 4], Read 0] @ replicate 8 (Step 1 False) @ replicate 4 (Step 0 False)) (seqlock_init [1, 2]) = Some s \<and>
    (\<forall>(a, z, b) \<in> set (rets s). z < length (written s) \<and> (\<exists>k. a \<le> k \<and> k \<le> z \<and> b = written s ! k))"
  by (rule seqlock_reads_consistent) simp

text \<open>One undisturbed write of 16 bytes, and any number of them.\<close>

definition one_write :: "nat \<Rightarrow> u8 list \<Rightarrow> event list" where
  "one_write w v = Write w v # replicate 7 (Step w False)"

lemma two_pieces:
  assumes "length d = 16" "length v = 16"
  shows "atomic_memcpy d v 0 = take 8 v @ drop 8 d" "atomic_memcpy (take 8 v @ drop 8 d) v 8 = v"
    "atomic_memcpy [] d 0 = take 8 d" "atomic_memcpy (take 8 d) v 8 = take 8 d @ drop 8 v"
  using assms append_take_drop_id [of 8 v] by (simp_all add: atomic_memcpy_def piece_def)

lemma one_write_effect:
  assumes "pcs s w = Idle" "writer s = None" "sync s AND 1 = 0" "length (shared s) = 16" "length v = 16"
  shows "exec seqlock_step (one_write w v) s =
    Some (s\<lparr>sync := sync s + 2, shared := v, written := written s @ [v], calls := calls s + 1\<rparr>)"
proof -
  have odd: "(sync s + 1) AND 1 \<noteq> 0" using assms(3) by (simp add: and_one_eq mod_2_eq_odd)
  let ?s1 = "goto w (Wr_copy v 0) (s\<lparr>sync := sync s + 1, writer := Some w, calls := calls s + 1\<rparr>)"
  let ?s2 = "goto w (Wr_copy v 16) (?s1\<lparr>shared := v\<rparr>)"
  have 1: "exec seqlock_step [Write w v, Step w False, Step w False] s = Some ?s1"
    using assms by (simp add: seqlock_write_def seqlock_acquire_wr_def wait_for_no_writer_def SEQLOCK_WRITER_def goto_def)
  have 2: "exec seqlock_step [Step w False, Step w False] ?s1 = Some ?s2"
    using assms(4,5) two_pieces [OF assms(4,5)] by (simp add: seqlock_write_def goto_def piece_def)
  have 3: "exec seqlock_step [Step w False, Step w False, Step w False] ?s2 =
      Some (s\<lparr>sync := sync s + 2, shared := v, written := written s @ [v], calls := calls s + 1\<rparr>)"
    using assms odd by (simp add: seqlock_write_def seqlock_release_wr_def SEQLOCK_WRITER_def goto_def fun_upd_idem Let_def)
  have "one_write w v = [Write w v, Step w False, Step w False] @ [Step w False, Step w False] @ [Step w False, Step w False, Step w False]"
    by (simp add: one_write_def numeral_eq_Suc)
  then show ?thesis by (simp only: exec_append 1 2 3 option.case)
qed

lemma many_writes_effect:
  assumes "pcs s w = Idle" "writer s = None" "sync s AND 1 = 0" "length (shared s) = 16" "length v = 16"
  shows "exec seqlock_step (concat (replicate k (one_write w v))) s =
    Some (s\<lparr>sync := sync s + 2 * of_nat k, shared := (if k = 0 then shared s else v), written := written s @ replicate k v, calls := calls s + k\<rparr>)"
  using assms
proof (induction k arbitrary: s)
  case (Suc k)
  let ?s = "s\<lparr>sync := sync s + 2, shared := v, written := written s @ [v], calls := calls s + 1\<rparr>"
  have "sync ?s AND 1 = 0" using Suc.prems(3) by (simp add: and_one_eq mod_2_eq_odd)
  then have "exec seqlock_step (concat (replicate k (one_write w v))) ?s =
      Some (?s\<lparr>sync := sync ?s + 2 * of_nat k, shared := (if k = 0 then shared ?s else v), written := written ?s @ replicate k v, calls := calls ?s + k\<rparr>)"
    using Suc.prems by (intro Suc.IH) simp_all
  then show ?case using one_write_effect [OF Suc.prems] by (simp add: exec_append algebra_simps)
qed simp

text \<open>
  C37. The bound is tight: when 2^31 writes complete while a reader has copied one of its two pieces,
  the 32-bit lock word is back at its old value, and the read returns half of the old value
  and half of the new one.
\<close>

theorem seqlock_counter_wraps:
  assumes "length d = 16" "length v = 16" "r \<noteq> w" "k = 2 ^ 31"
  shows "\<exists>s. exec seqlock_step ([Read r, Step r False, Step r False] @ concat (replicate k (one_write w v)) @
      [Step r False, Step r False, Step r False]) (seqlock_init d) = Some s \<and> rets s = [(0, k, take 8 d @ drop 8 v)]"
proof -
  let ?s1 = "goto r (Rd_copy 0 0 (take 8 d)) (seqlock_init d)"
  have 1: "exec seqlock_step [Read r, Step r False, Step r False] (seqlock_init d) = Some ?s1"
    using assms(1) two_pieces(3) [OF assms(1,2)]
    by (simp add: seqlock_init_def goto_def seqlock_read_def seqlock_acquire_rd_def wait_for_no_writer_def)
  let ?s2 = "?s1\<lparr>sync := 0, shared := v, written := d # replicate k v, calls := k\<rparr>"
  have z: "(2 :: u32) * of_nat k = 0" unfolding assms(4) by simp
  have 2: "exec seqlock_step (concat (replicate k (one_write w v))) ?s1 = Some ?s2"
    using many_writes_effect [of ?s1 w v k] assms(1-3) z by (simp add: seqlock_init_def assms(4))
  let ?s3 = "goto r Idle (?s2\<lparr>rets := [(0, k, take 8 d @ drop 8 v)]\<rparr>)"
  have 3: "exec seqlock_step [Step r False, Step r False, Step r False] ?s2 = Some ?s3"
    using assms(1,2) two_pieces(4) [OF assms(1,2)]
    by (simp add: seqlock_init_def goto_def seqlock_read_def seqlock_release_rd_def)
  show ?thesis unfolding exec_append 1 2 3 option.case by (intro exI [of _ ?s3]) simp
qed

theorem seqlock_counter_wraps_witness:
  "\<exists>s. exec seqlock_step ([Read 0, Step 0 False, Step 0 False] @ concat (replicate (2 ^ 31) (one_write 1 (replicate 16 1))) @
      [Step 0 False, Step 0 False, Step 0 False]) (seqlock_init (replicate 16 0)) = Some s \<and>
    rets s = [(0, 2 ^ 31, take 8 (replicate 16 0) @ drop 8 (replicate 16 1))]"
  by (rule seqlock_counter_wraps) (rule length_replicate, rule length_replicate, simp, rule refl)

end
