(* ===== verification/Refcnt.thy ===== *)
theory Refcnt
  imports Prelude
begin

text \<open>
  The reference counts of \<^verbatim>\<open>refcnt/main.c\<close> and its test program: the main thread hands one counted
  reference to each of \<open>n\<close> threads, which take and drop further references \<open>m\<close> times, one step per
  access to the shared block, in any interleaving. The result \<open>None\<close> is a use of freed memory, a second
  free, or a failing assertion.
\<close>

section \<open>Counted blocks\<close>

record refcnt =
  magic :: u32
  refcount :: u32
  data :: string

definition REFCNT_MAGIC :: u32 where "REFCNT_MAGIC = 0xDEADBEEF"

text \<open>
  Allocation: \<open>raw\<close> is what \<open>malloc\<close> returns, \<open>None\<close> on failure, otherwise the bytes of the new block.
\<close>

definition refcnt_malloc :: "string option \<Rightarrow> refcnt option" where
  "refcnt_malloc raw = (case raw of None \<Rightarrow> None | Some bytes \<Rightarrow> Some \<lparr>magic = REFCNT_MAGIC, refcount = 1, data = bytes\<rparr>)"

definition refcnt_strdup :: "bool \<Rightarrow> string \<Rightarrow> refcnt option" where
  "refcnt_strdup ok str = (if \<not> ok then None else Some \<lparr>magic = REFCNT_MAGIC, refcount = 1, data = str\<rparr>)"

text \<open>
  The assertion that opens \<open>refcnt_realloc\<close>, \<open>refcnt_ref\<close> and \<open>refcnt_unref\<close>, on a block that may have
  been freed.
\<close>

definition check_magic :: "refcnt option \<Rightarrow> refcnt option" where
  "check_magic b = do { r \<leftarrow> b; if magic r = REFCNT_MAGIC then Some r else None }"

text \<open>The outcome of \<open>refcnt_realloc\<close>: a fault, or the block it leaves and whether it returns it.\<close>

definition refcnt_realloc :: "bool \<Rightarrow> refcnt option \<Rightarrow> nat \<Rightarrow> string \<Rightarrow> (refcnt \<times> bool) option" where
  "refcnt_realloc ok b len fresh = do {
     r \<leftarrow> check_magic b;
     Some (if \<not> ok then (r, False) else (r\<lparr>data := take len (data r @ fresh)\<rparr>, True)) }"

definition refcnt_ref :: "refcnt option \<Rightarrow> refcnt option" where
  "refcnt_ref b = do { r \<leftarrow> b; Some (r\<lparr>refcount := refcount r + 1\<rparr>) }"

text \<open>The decrement of \<open>refcnt_unref\<close>, and whether the caller has to free the block.\<close>

definition refcnt_unref :: "refcnt option \<Rightarrow> (refcnt \<times> bool) option" where
  "refcnt_unref b = do { r \<leftarrow> b; Some (r\<lparr>refcount := refcount r - 1\<rparr>, refcount r = 1) }"

section \<open>The test program\<close>

text \<open>
  Threads \<open>0, \<dots>, n - 1\<close> run \<open>test_thread\<close>; thread \<open>n\<close> is the main thread, which makes thread \<open>i\<close> after
  \<open>Main_ref\<close>. The numbers are the iterations.
\<close>

datatype pc =
    New
  | Loop nat | Ref nat | Print nat | Unref nat | Sub nat | Free_in nat
  | Last | Last_sub | Free_last | Done
  | Main_check nat | Main_ref nat | Main_create nat

record program =
  block :: "refcnt option"
  pcs :: "nat \<Rightarrow> pc"
  printed :: "string list"

definition goto :: "nat \<Rightarrow> pc \<Rightarrow> program \<Rightarrow> program" where
  "goto t p s = s\<lparr>pcs := (pcs s)(t := p)\<rparr>"

definition test_thread :: "nat \<Rightarrow> nat \<Rightarrow> program \<Rightarrow> program option" where
  "test_thread m t s = (case pcs s t of
     Loop i \<Rightarrow>
       if i < m then do { check_magic (block s); Some (goto t (Ref i) s) }
       else Some (goto t Last s)
   | Ref i \<Rightarrow> do { r \<leftarrow> refcnt_ref (block s); Some (goto t (Print i) (s\<lparr>block := Some r\<rparr>)) }
   | Print i \<Rightarrow> do { r \<leftarrow> block s; Some (goto t (Unref i) (s\<lparr>printed := printed s @ [data r]\<rparr>)) }
   | Unref i \<Rightarrow> do { check_magic (block s); Some (goto t (Sub i) s) }
   | Sub i \<Rightarrow> do {
       (r, last) \<leftarrow> refcnt_unref (block s);
       Some (goto t (if last then Free_in i else Loop (i + 1)) (s\<lparr>block := Some r\<rparr>)) }
   | Free_in i \<Rightarrow> do { block s; Some (goto t (Loop (i + 1)) (s\<lparr>block := None\<rparr>)) }
   | Last \<Rightarrow> do { check_magic (block s); Some (goto t Last_sub s) }
   | Last_sub \<Rightarrow> do {
       (r, last) \<leftarrow> refcnt_unref (block s);
       Some (goto t (if last then Free_last else Done) (s\<lparr>block := Some r\<rparr>)) }
   | Free_last \<Rightarrow> do { block s; Some (goto t Done (s\<lparr>block := None\<rparr>)) }
   | _ \<Rightarrow> Some s)"

definition main_thread :: "nat \<Rightarrow> nat \<Rightarrow> program \<Rightarrow> program option" where
  "main_thread m n s = (case pcs s n of
     Main_check i \<Rightarrow>
       if i < n then do { check_magic (block s); Some (goto n (Main_ref i) s) }
       else Some (goto n Last s)
   | Main_ref i \<Rightarrow> do { r \<leftarrow> refcnt_ref (block s); Some (goto n (Main_create i) (s\<lparr>block := Some r\<rparr>)) }
   | Main_create i \<Rightarrow> Some (goto n (Main_check (i + 1)) (goto i (Loop 0) s))
   | _ \<Rightarrow> test_thread m n s)"

definition program_step :: "nat \<Rightarrow> nat \<Rightarrow> nat \<Rightarrow> program \<Rightarrow> program option" where
  "program_step m n t s = (if t = n then main_thread m n s else if t < n then test_thread m t s else Some s)"

definition N_THREADS :: nat where "N_THREADS = 64"
definition N_ITERATIONS :: nat where "N_ITERATIONS = 100"

definition start :: "nat \<Rightarrow> string \<Rightarrow> program" where
  "start n str = \<lparr>block = refcnt_strdup True str, pcs = (\<lambda>_. New)(n := Main_check 0), printed = []\<rparr>"

section \<open>The invariant\<close>

text \<open>The references a thread owns.\<close>

fun owns :: "pc \<Rightarrow> nat" where
  "owns New = 0"
| "owns (Loop i) = 1"
| "owns (Ref i) = 1"
| "owns (Print i) = 2"
| "owns (Unref i) = 2"
| "owns (Sub i) = 2"
| "owns (Free_in i) = 0"
| "owns Last = 1"
| "owns Last_sub = 1"
| "owns Free_last = 0"
| "owns Done = 0"
| "owns (Main_check i) = 1"
| "owns (Main_ref i) = 1"
| "owns (Main_create i) = 2"

definition total :: "nat \<Rightarrow> program \<Rightarrow> nat" where
  "total n s = (\<Sum>t \<le> n. owns (pcs s t))"

fun thread_pc :: "pc \<Rightarrow> bool" where
  "thread_pc (Main_check i) = False"
| "thread_pc (Main_ref i) = False"
| "thread_pc (Main_create i) = False"
| "thread_pc (Free_in i) = False"
| "thread_pc p = True"

fun main_ok :: "(nat \<Rightarrow> pc) \<Rightarrow> nat \<Rightarrow> pc \<Rightarrow> bool" where
  "main_ok f n (Main_check i) = (i \<le> n \<and> (\<forall>t < n. f t = New \<longleftrightarrow> i \<le> t))"
| "main_ok f n (Main_ref i) = (i < n \<and> (\<forall>t < n. f t = New \<longleftrightarrow> i \<le> t))"
| "main_ok f n (Main_create i) = (i < n \<and> (\<forall>t < n. f t = New \<longleftrightarrow> i \<le> t))"
| "main_ok f n p = (p \<in> {Last, Last_sub, Free_last, Done} \<and> (\<forall>t < n. f t \<noteq> New))"

definition block_ok :: "string \<Rightarrow> nat \<Rightarrow> program \<Rightarrow> bool" where
  "block_ok str n s \<longleftrightarrow> (case block s of
     None \<Rightarrow> total n s = 0 \<and> (\<forall>t \<le> n. pcs s t \<noteq> Free_last)
   | Some r \<Rightarrow> magic r = REFCNT_MAGIC \<and> unat (refcount r) = total n s \<and> data r = str \<and>
       (if total n s = 0 then \<exists>u \<le> n. \<forall>t \<le> n. pcs s t = Free_last \<longleftrightarrow> t = u else \<forall>t \<le> n. pcs s t \<noteq> Free_last))"

definition program_inv :: "string \<Rightarrow> nat \<Rightarrow> program \<Rightarrow> bool" where
  "program_inv str n s \<longleftrightarrow> block_ok str n s \<and> (\<forall>t < n. thread_pc (pcs s t)) \<and>
     main_ok (pcs s) n (pcs s n) \<and> set (printed s) \<subseteq> {str}"

lemma refcnt_goto [simp]: "block (goto t p s) = block s" "pcs (goto t p s) = (pcs s)(t := p)" "printed (goto t p s) = printed s"
  by (simp_all add: goto_def)

lemma total_upd: "pcs s' = (pcs s)(t := p) \<Longrightarrow> t \<le> n \<Longrightarrow> total n s' + owns (pcs s t) = total n s + owns p"
proof -
  assume a: "pcs s' = (pcs s)(t := p)" "t \<le> n"
  have "(\<Sum>u \<le> n. owns (pcs s' u)) = owns p + (\<Sum>u \<in> {..n} - {t}. owns (pcs s u))"
    using a by (subst sum.remove [of _ t]) auto
  moreover have "(\<Sum>u \<le> n. owns (pcs s u)) = owns (pcs s t) + (\<Sum>u \<in> {..n} - {t}. owns (pcs s u))"
    using a by (subst sum.remove [of _ t]) auto
  ultimately show ?thesis by (simp add: total_def)
qed

lemma owns_le_total: "t \<le> n \<Longrightarrow> owns (pcs s t) \<le> total n s"
  unfolding total_def by (intro member_le_sum) auto

lemma total_bound: "total n s \<le> 2 * n + 2"
proof -
  have "owns p \<le> 2" for p by (cases p) auto
  then have "total n s \<le> (\<Sum>t \<le> n. 2)" unfolding total_def by (intro sum_mono)
  then show ?thesis by simp
qed

text \<open>A thread that owns a reference finds the block alive.\<close>

lemma alive:
  assumes "block_ok str n s" "t \<le> n" "0 < owns (pcs s t)"
  shows "\<exists>r. block s = Some r \<and> magic r = REFCNT_MAGIC \<and> unat (refcount r) = total n s \<and> data r = str \<and>
    owns (pcs s t) \<le> total n s \<and> (\<forall>u \<le> n. pcs s u \<noteq> Free_last)"
proof -
  have le: "owns (pcs s t) \<le> total n s" using assms(2) by (rule owns_le_total)
  then have "total n s \<noteq> 0" using assms(3) by linarith
  then show ?thesis using assms(1) le by (cases "block s") (auto simp: block_ok_def)
qed

lemma block_okI:
  assumes "pcs s' = (pcs s)(t := p)" "p \<noteq> Free_last" "\<forall>u \<le> n. pcs s u \<noteq> Free_last" "block s' = Some r"
    "magic r = REFCNT_MAGIC" "data r = str" "unat (refcount r) = total n s'" "0 < total n s'"
  shows "block_ok str n s'"
  using assms by (simp add: block_ok_def)

lemma block_same:
  assumes "block_ok str n s" "t \<le> n" "0 < owns (pcs s t)" "pcs s' = (pcs s)(t := p)" "owns p = owns (pcs s t)" "block s' = block s"
  shows "block_ok str n s'"
proof -
  obtain r where r: "block s = Some r" "magic r = REFCNT_MAGIC" "unat (refcount r) = total n s" "data r = str"
    "owns (pcs s t) \<le> total n s" "\<forall>u \<le> n. pcs s u \<noteq> Free_last" using alive [OF assms(1-3)] by blast
  have "total n s' = total n s" using total_upd [OF assms(4,2)] assms(5) by simp
  then show ?thesis using r assms by (intro block_okI [OF assms(4) _ r(6)]) auto
qed

lemma block_ref:
  assumes "block_ok str n s" "t \<le> n" "0 < owns (pcs s t)" "owns p = Suc (owns (pcs s t))" "2 * n + 2 < 2 ^ 32"
  shows "\<exists>r. refcnt_ref (block s) = Some r \<and> block_ok str n (goto t p (s\<lparr>block := Some r\<rparr>))"
proof -
  obtain r where r: "block s = Some r" "magic r = REFCNT_MAGIC" "unat (refcount r) = total n s" "data r = str"
    "owns (pcs s t) \<le> total n s" "\<forall>u \<le> n. pcs s u \<noteq> Free_last" using alive [OF assms(1-3)] by blast
  let ?r = "r\<lparr>refcount := refcount r + 1\<rparr>" and ?s = "goto t p (s\<lparr>block := Some (r\<lparr>refcount := refcount r + 1\<rparr>)\<rparr>)"
  have tot: "total n ?s = total n s + 1" using total_upd [of ?s s t p n] assms(2,4) by simp
  have "total n s + 1 < 2 ^ 32" using total_bound [of n ?s] tot assms(5) by linarith
  then have "unat (refcount r + 1) = total n s + 1" using r(3) by (simp add: unat_word_ariths)
  then have "block_ok str n ?s" using r tot assms(3,4) by (intro block_okI [where t = t and p = p and s = s and r = ?r]) auto
  then show ?thesis using r(1) by (simp add: refcnt_ref_def)
qed

lemma block_unref:
  assumes "block_ok str n s" "t \<le> n" "0 < owns (pcs s t)"
  shows "\<exists>r last. refcnt_unref (block s) = Some (r, last) \<and> (last \<longleftrightarrow> total n s = 1) \<and>
    (\<forall>p. (last \<longrightarrow> p = Free_last) \<and> (\<not> last \<longrightarrow> p \<noteq> Free_last) \<and> Suc (owns p) = owns (pcs s t) \<longrightarrow>
      block_ok str n (goto t p (s\<lparr>block := Some r\<rparr>)))"
proof -
  obtain r where r: "block s = Some r" "magic r = REFCNT_MAGIC" "unat (refcount r) = total n s" "data r = str"
    "owns (pcs s t) \<le> total n s" "\<forall>u \<le> n. pcs s u \<noteq> Free_last" using alive [OF assms] by blast
  let ?r = "r\<lparr>refcount := refcount r - 1\<rparr>"
  have last: "refcount r = 1 \<longleftrightarrow> total n s = 1" using r(3) by (simp add: word_unat_eq_iff)
  have un: "unat (refcount r - 1) = total n s - 1" using r(3,5) assms(3) unat_sub_le [of 1 "refcount r"] by simp
  have "block_ok str n (goto t p (s\<lparr>block := Some ?r\<rparr>))"
    if p: "refcount r = 1 \<longrightarrow> p = Free_last" "refcount r \<noteq> 1 \<longrightarrow> p \<noteq> Free_last" "Suc (owns p) = owns (pcs s t)" for p
  proof -
    let ?s = "goto t p (s\<lparr>block := Some ?r\<rparr>)"
    have tot: "total n ?s + 1 = total n s" using total_upd [of ?s s t p n] assms(2) p(3) by simp
    show ?thesis
    proof (cases "total n s = 1")
      case True
      then show ?thesis using tot last p(1) r assms(2) un unfolding block_ok_def by auto
    next
      case False
      then show ?thesis using tot last p(2) r un
        by (intro block_okI [where t = t and p = p and s = s and r = ?r]) auto
    qed
  qed
  then show ?thesis using r(1) last by (intro exI [of _ ?r] exI [of _ "refcount r = 1"]) (simp add: refcnt_unref_def)
qed

lemma block_free:
  assumes "block_ok str n s" "t \<le> n" "pcs s t = Free_last"
  shows "\<exists>r. block s = Some r \<and> block_ok str n (goto t Done (s\<lparr>block := None\<rparr>))"
proof -
  let ?s = "goto t Done (s\<lparr>block := None\<rparr>)"
  obtain r where r: "block s = Some r" using assms by (cases "block s") (auto simp: block_ok_def)
  have z: "total n s = 0" and u: "\<exists>u \<le> n. \<forall>t \<le> n. pcs s t = Free_last \<longleftrightarrow> t = u"
    using assms r by (auto simp: block_ok_def split: if_splits)
  have "total n ?s = 0" using total_upd [of ?s s t Done n] assms(2,3) z by simp
  then show ?thesis using r u assms(2,3) by (auto simp: block_ok_def)
qed

lemma check_alive:
  assumes "block_ok str n s" "t \<le> n" "0 < owns (pcs s t)"
  shows "\<exists>r. check_magic (block s) = Some r"
  using alive [OF assms] by (auto simp: check_magic_def)

text \<open>One step of a thread, the main thread included once it has made the others.\<close>

lemma test_thread_block:
  assumes "block_ok str n s" "t \<le> n" "thread_pc (pcs s t)" "2 * n + 2 < 2 ^ 32" "set (printed s) \<subseteq> {str}"
  shows "\<exists>s' p. test_thread m t s = Some s' \<and> block_ok str n s' \<and> pcs s' = (pcs s)(t := p) \<and> thread_pc p \<and>
    (p = New \<longrightarrow> pcs s t = New) \<and> (pcs s t \<in> {Last, Last_sub, Free_last, Done} \<longrightarrow> p \<in> {Last, Last_sub, Free_last, Done}) \<and>
    set (printed s') \<subseteq> {str}"
proof (cases "pcs s t")
  case (Loop i)
  have "block_ok str n (goto t (Ref i) s)"
    using Loop by (intro block_same [OF assms(1,2), where p = "Ref i"]) simp_all
  moreover have "block_ok str n (goto t Last s)"
    using Loop by (intro block_same [OF assms(1,2), where p = Last]) simp_all
  ultimately show ?thesis using Loop check_alive [OF assms(1,2)] assms(5)
    by (intro exI [of _ "goto t (if i < m then Ref i else Last) s"] exI [of _ "if i < m then Ref i else Last"])
      (auto simp: test_thread_def)
next
  case (Ref i)
  then show ?thesis using block_ref [OF assms(1,2), of "Print i"] assms(4,5)
    by (auto simp: test_thread_def intro!: exI [of _ "Print i"])
next
  case (Print i)
  obtain r where r: "block s = Some r" "data r = str" using alive [OF assms(1,2)] Print by auto
  have "block_ok str n (goto t (Unref i) (s\<lparr>printed := printed s @ [str]\<rparr>))"
    using Print by (intro block_same [OF assms(1,2), where p = "Unref i"]) simp_all
  then show ?thesis using r Print assms(5) by (auto simp: test_thread_def intro!: exI [of _ "Unref i"])
next
  case (Unref i)
  then have "block_ok str n (goto t (Sub i) s)" by (intro block_same [OF assms(1,2), where p = "Sub i"]) simp_all
  then show ?thesis using Unref check_alive [OF assms(1,2)] assms(5)
    by (auto simp: test_thread_def intro!: exI [of _ "Sub i"])
next
  case (Sub i)
  then have "2 \<le> total n s" using owns_le_total [OF assms(2), of s] by simp
  then show ?thesis using block_unref [OF assms(1,2)] Sub assms(5)
    by (auto simp: test_thread_def intro!: exI [of _ "Loop (Suc i)"])
next
  case Last
  then have "block_ok str n (goto t Last_sub s)" by (intro block_same [OF assms(1,2), where p = Last_sub]) simp_all
  then show ?thesis using Last check_alive [OF assms(1,2)] assms(5)
    by (auto simp: test_thread_def intro!: exI [of _ Last_sub])
next
  case Last_sub
  then obtain r last where r: "refcnt_unref (block s) = Some (r, last)"
    "block_ok str n (goto t (if last then Free_last else Done) (s\<lparr>block := Some r\<rparr>))"
    using block_unref [OF assms(1,2)] by auto
  then show ?thesis using Last_sub assms(5)
    by (auto simp: test_thread_def intro!: exI [of _ "if last then Free_last else Done"])
next
  case Free_last
  then show ?thesis using block_free [OF assms(1,2)] assms(5) by (auto simp: test_thread_def intro!: exI [of _ Done])
qed (use assms in \<open>auto simp: test_thread_def intro!: exI [of _ "pcs s t"]\<close>)

lemma main_ok_thread:
  assumes "main_ok f n q" "t < n" "f t = New \<longrightarrow> p = New" "p = New \<longrightarrow> f t = New"
  shows "main_ok (f(t := p)) n q"
  using assms by (cases q) auto

lemma test_thread_inv:
  assumes "program_inv str n s" "t < n" "2 * n + 2 < 2 ^ 32"
  shows "\<exists>s'. test_thread m t s = Some s' \<and> program_inv str n s'"
proof -
  have i: "block_ok str n s" "\<forall>t < n. thread_pc (pcs s t)" "main_ok (pcs s) n (pcs s n)" "set (printed s) \<subseteq> {str}"
    using assms(1) by (simp_all add: program_inv_def)
  show ?thesis
  proof (cases "pcs s t = New")
    case True
    then show ?thesis using assms(1) by (simp add: test_thread_def)
  next
    case False
    obtain s' p where s': "test_thread m t s = Some s'" "block_ok str n s'" "pcs s' = (pcs s)(t := p)" "thread_pc p"
        "p = New \<longrightarrow> pcs s t = New" "set (printed s') \<subseteq> {str}"
      using test_thread_block [OF i(1), of t m] i(2,4) assms(2,3) by auto
    have "main_ok (pcs s') n (pcs s' n)"
      using main_ok_thread [OF i(3) assms(2), of p] s'(3,5) False assms(2) by simp
    then show ?thesis using s' i(2) by (auto simp: program_inv_def)
  qed
qed

lemma main_thread_inv:
  assumes "program_inv str n s" "2 * n + 2 < 2 ^ 32"
  shows "\<exists>s'. main_thread m n s = Some s' \<and> program_inv str n s'"
proof -
  have i: "block_ok str n s" "\<forall>t < n. thread_pc (pcs s t)" "main_ok (pcs s) n (pcs s n)" "set (printed s) \<subseteq> {str}"
    using assms(1) by (simp_all add: program_inv_def)
  show ?thesis
  proof (cases "pcs s n")
    case (Main_check i)
    have "block_ok str n (goto n (Main_ref i) s)"
      using Main_check by (intro block_same [OF i(1), where t = n and p = "Main_ref i"]) simp_all
    moreover have "block_ok str n (goto n Last s)"
      using Main_check by (intro block_same [OF i(1), where t = n and p = Last]) simp_all
    ultimately show ?thesis using i Main_check check_alive [OF i(1), of n]
      by (cases "i < n") (auto simp: main_thread_def program_inv_def)
  next
    case (Main_ref j)
    then show ?thesis using block_ref [OF i(1), of n "Main_create j"] i assms(2)
      by (auto simp: main_thread_def program_inv_def)
  next
    case (Main_create j)
    let ?s = "goto j (Loop 0) s" and ?s' = "goto n (Main_check (j + 1)) (goto j (Loop 0) s)"
    have j: "j < n" "pcs s j = New" using i(3) Main_create by auto
    have "total n ?s' = total n s"
      using total_upd [of ?s s j "Loop 0" n] total_upd [of ?s' ?s n "Main_check (j + 1)" n] j Main_create by simp
    then have "block_ok str n ?s'" using alive [OF i(1), of n] Main_create by (auto simp: block_ok_def)
    then show ?thesis using i Main_create j by (auto simp: main_thread_def program_inv_def)
  qed (use i test_thread_block [OF i(1), of n m] assms in \<open>auto simp: main_thread_def program_inv_def\<close>)
qed

lemma test_start_inv: "program_inv str n (start n str)"
proof -
  have "total n (start n str) = 1"
    using total_upd [of "start n str" "\<lparr>block = None, pcs = (\<lambda>_. New), printed = []\<rparr>" n "Main_check 0" n]
    by (simp add: start_def total_def)
  then show ?thesis by (auto simp: program_inv_def block_ok_def start_def refcnt_strdup_def)
qed

text \<open>The program with any numbers of threads and iterations, and the one in the repository.\<close>

locale test_program =
  fixes n m :: nat and str :: string
  assumes few: "2 * n + 2 < 2 ^ 32"

sublocale test_program \<subseteq> total_system "start n str" "program_step m n" "program_inv str n"
proof
  show "program_inv str n (start n str)" by (rule test_start_inv)
  have *: "\<exists>s'. program_step m n t s = Some s' \<and> program_inv str n s'" if "program_inv str n s" for s t
    using test_thread_inv [OF that _ few, of t m] main_thread_inv [OF that few, of m] that by (auto simp: program_step_def)
  show "program_inv str n s'" if "program_inv str n s" "program_step m n t s = Some s'" for s t s'
    using * [OF that(1), of t] that(2) by auto
  show "\<exists>s'. program_step m n t s = Some s'" if "program_inv str n s" for s t
    using * [OF that, of t] by auto
qed

context test_program
begin

lemma program_safe: "\<exists>s. exec (program_step m n) ts (start n str) = Some s \<and> program_inv str n s"
  by (rule exec_total)

end

interpretation refcnt_main: test_program N_THREADS N_ITERATIONS "''Hello, world!''"
  by unfold_locales (simp add: N_THREADS_def)

section \<open>Properties\<close>

text \<open>
  C25. The test program is safe under every interleaving: no thread uses the string after it was freed
  and nobody frees it twice, every thread prints the string as it was made, the string is alive
  as long as a thread owns a reference to it, and when all threads are done it has been freed.
\<close>

theorem refcnt_test_safe:
  assumes "2 * n + 2 < 2 ^ 32"
  shows "\<exists>s. exec (program_step m n) ts (start n str) = Some s \<and> set (printed s) \<subseteq> {str} \<and>
    (\<forall>t \<le> n. 0 < owns (pcs s t) \<longrightarrow> block s \<noteq> None) \<and> ((\<forall>t \<le> n. pcs s t = Done) \<longrightarrow> block s = None)"
proof -
  obtain s where s: "exec (program_step m n) ts (start n str) = Some s" "program_inv str n s"
    using test_program.program_safe [OF test_program.intro [OF assms], of m ts str] by blast
  have b: "block_ok str n s" "set (printed s) \<subseteq> {str}" using s(2) by (simp_all add: program_inv_def)
  have "block s \<noteq> None" if "t \<le> n" "0 < owns (pcs s t)" for t using alive [OF b(1) that] by auto
  moreover have "block s = None" if "\<forall>t \<le> n. pcs s t = Done"
  proof -
    have "total n s = 0" using that by (simp add: total_def)
    then show ?thesis using b(1) that by (cases "block s") (auto simp: block_ok_def)
  qed
  ultimately show ?thesis using s(1) b(2) by blast
qed

theorem refcnt_test_safe_witness:
  "\<exists>s. exec (program_step 2 1) (replicate 8 1 @ replicate 12 0) (start 1 ''Hello, world!'') = Some s \<and> set (printed s) \<subseteq> {''Hello, world!''}"
  using refcnt_test_safe [of 1 2 "replicate 8 1 @ replicate 12 0" "''Hello, world!''"] by auto

end
