(* ===== verification/Work_Steal.thy ===== *)
theory Work_Steal
  imports Prelude "HOL-Library.Multiset"
begin

text \<open>
  The work-stealing deque of \<^verbatim>\<open>work-steal/work-steal.c\<close>: its owner and any number of thieves, one step per
  atomic access, in any interleaving (sequentially consistent). The deque is shown to refine an
  abstract double-ended queue: a linearisation of the successful operations is kept as history,
  and every work item that was returned is one of those it removes. The counters are 64-bit numbers,
  with the wrap-around written out.
\<close>

section \<open>Data\<close>

abbreviation W64 :: nat where "W64 \<equiv> 2 ^ 64"

definition inc :: "nat \<Rightarrow> nat" where "inc n = (n + 1) mod W64"
definition dec :: "nat \<Rightarrow> nat" where "dec n = (n + W64 - 1) mod W64"
definition minus64 :: "nat \<Rightarrow> nat \<Rightarrow> nat" where "minus64 a b = (a + W64 - b) mod W64"

text \<open>
  A cell of an array is \<open>None\<close> while it is uninitialised. The owner is at one of the accesses of
  \<open>take\<close> or \<open>push\<close>, with its local variables; the result of \<open>take\<close> is \<open>None\<close> for \<open>EMPTY\<close>.
\<close>

type_synonym cell = "nat option"

datatype owner_pc =
    O_idle
  | Tk_array nat | Tk_store nat nat | Tk_top nat nat | Tk_read nat nat nat | Tk_cas nat nat cell | Tk_fix nat "cell option"
  | Ps_top nat nat | Ps_array nat nat nat | Ps_resize nat nat nat | Ps_publish nat nat "cell list" | Ps_store nat nat nat | Ps_bottom nat nat

datatype thief_pc = T_idle | St_bottom nat | St_array nat | St_read nat nat | St_cas nat cell

text \<open>What an operation did to the abstract deque.\<close>

datatype operation = Pushed nat | Taken nat | Stolen nat

record deque =
  top :: nat
  bottom :: nat
  array :: nat
  arrays :: "cell list list"
  opc :: owner_pc
  thieves :: "nat \<Rightarrow> thief_pc"
  got :: "cell list"
  item :: "nat \<Rightarrow> nat"
  lin :: "operation list"

definition init :: "nat \<Rightarrow> deque" where
  "init size_hint = \<lparr>top = 0, bottom = 0, array = 0, arrays = [replicate size_hint None], opc = O_idle,
     thieves = (\<lambda>_. T_idle), got = [], item = (\<lambda>_. 0), lin = []\<rparr>"

section \<open>Operations\<close>

text \<open>The read of \<open>buffer[i % size]\<close> in array \<open>a\<close>; \<open>None\<close> when it is outside the array.\<close>

definition load_cell :: "nat \<Rightarrow> nat \<Rightarrow> deque \<Rightarrow> cell option" where
  "load_cell a i s = do { b \<leftarrow> load_at (arrays s) a; load_at b (i mod length b) }"

definition copy_cells :: "cell list \<Rightarrow> nat \<Rightarrow> nat \<Rightarrow> cell list" where
  "copy_cells a t b =
     fold (\<lambda>i nw. nw[i mod length nw := a ! (i mod length a)]) [t..<b] (replicate (2 * length a) None)"

text \<open>
  The new array is private to the owner until it is published, so the loop that fills it is one step with
  the loads of \<open>top\<close> and \<open>bottom\<close> before it.
\<close>

definition resize :: "nat \<Rightarrow> nat \<Rightarrow> nat \<Rightarrow> deque \<Rightarrow> deque option" where
  "resize w b a s = do {
     old \<leftarrow> load_at (arrays s) a;
     Some (s\<lparr>opc := Ps_publish w b (copy_cells old (top s) (bottom s))\<rparr>) }"

definition take_start :: "deque \<Rightarrow> deque" where
  "take_start s = s\<lparr>opc := Tk_array (dec (bottom s))\<rparr>"

definition take_step :: "deque \<Rightarrow> deque option" where
  "take_step s = (case opc s of
     Tk_array b \<Rightarrow> Some (s\<lparr>opc := Tk_store b (array s)\<rparr>)
   | Tk_store b a \<Rightarrow> Some (s\<lparr>bottom := b, opc := Tk_top b a\<rparr>)
   | Tk_top b a \<Rightarrow>
       let t = top s in
       if t \<le> b then
         Some (s\<lparr>opc := Tk_read b a t, lin := (if t = b then lin s else lin s @ [Taken (item s b)])\<rparr>)
       else Some (s\<lparr>opc := Tk_fix b None\<rparr>)
   | Tk_read b a t \<Rightarrow> do {
       x \<leftarrow> load_cell a b s;
       if t = b then Some (s\<lparr>opc := Tk_cas b t x\<rparr>)
       else Some (s\<lparr>opc := O_idle, got := got s @ [x]\<rparr>) }
   | Tk_cas b t x \<Rightarrow>
       if top s = t then Some (s\<lparr>top := inc t, opc := Tk_fix b (Some x), lin := lin s @ [Taken (item s b)]\<rparr>)
       else Some (s\<lparr>opc := Tk_fix b None\<rparr>)
   | Tk_fix b r \<Rightarrow> Some (s\<lparr>bottom := inc b, opc := O_idle, got := got s @ (case r of None \<Rightarrow> [] | Some x \<Rightarrow> [x])\<rparr>)
   | _ \<Rightarrow> None)"

definition push_start :: "nat \<Rightarrow> deque \<Rightarrow> deque" where
  "push_start w s = s\<lparr>opc := Ps_top w (bottom s)\<rparr>"

definition push_step :: "deque \<Rightarrow> deque option" where
  "push_step s = (case opc s of
     Ps_top w b \<Rightarrow> Some (s\<lparr>opc := Ps_array w b (top s)\<rparr>)
   | Ps_array w b t \<Rightarrow> do {
       a \<leftarrow> load_at (arrays s) (array s);
       Some (if minus64 b t > dec (length a) then s\<lparr>opc := Ps_resize w b (array s)\<rparr>
         else s\<lparr>opc := Ps_store w b (array s)\<rparr>) }
   | Ps_resize w b a \<Rightarrow> resize w b a s
   | Ps_publish w b new \<Rightarrow>
       Some (s\<lparr>arrays := arrays s @ [new], array := length (arrays s), opc := Ps_store w b (length (arrays s))\<rparr>)
   | Ps_store w b a \<Rightarrow> do {
       buf \<leftarrow> load_at (arrays s) a;
       buf' \<leftarrow> store_at buf (b mod length buf) (Some w);
       Some (s\<lparr>arrays := (arrays s)[a := buf'], opc := Ps_bottom w b\<rparr>) }
   | Ps_bottom w b \<Rightarrow>
       Some (s\<lparr>bottom := inc b, opc := O_idle, item := (item s)(b := w), lin := lin s @ [Pushed w]\<rparr>)
   | _ \<Rightarrow> None)"

definition thief_to :: "nat \<Rightarrow> thief_pc \<Rightarrow> deque \<Rightarrow> deque" where
  "thief_to i p s = s\<lparr>thieves := (thieves s)(i := p)\<rparr>"

text \<open>\<open>steal\<close>: \<open>EMPTY\<close> and \<open>ABORT\<close> return no work.\<close>

definition steal :: "nat \<Rightarrow> deque \<Rightarrow> deque option" where
  "steal i s = (case thieves s i of
     T_idle \<Rightarrow> Some (thief_to i (St_bottom (top s)) s)
   | St_bottom t \<Rightarrow> Some (thief_to i (if t < bottom s then St_array t else T_idle) s)
   | St_array t \<Rightarrow> Some (thief_to i (St_read t (array s)) s)
   | St_read t a \<Rightarrow> do { x \<leftarrow> load_cell a t s; Some (thief_to i (St_cas t x) s) }
   | St_cas t x \<Rightarrow>
       if top s = t then Some (thief_to i T_idle (s\<lparr>top := inc t, got := got s @ [x], lin := lin s @ [Stolen (item s t)]\<rparr>))
       else Some (thief_to i T_idle s))"

fun taking :: "owner_pc \<Rightarrow> bool" where
  "taking (Tk_array b) = True"
| "taking (Tk_store b a) = True"
| "taking (Tk_top b a) = True"
| "taking (Tk_read b a t) = True"
| "taking (Tk_cas b t x) = True"
| "taking (Tk_fix b r) = True"
| "taking _ = False"

fun is_push :: "operation \<Rightarrow> bool" where
  "is_push (Pushed w) = True"
| "is_push _ = False"

definition pushes :: "deque \<Rightarrow> nat" where
  "pushes s = length (filter is_push (lin s))"

text \<open>
  An event: the owner calls \<open>push\<close>, or \<open>take\<close> (on a deque that was pushed to before), or takes its next
  step; a thief starts a \<open>steal\<close> or takes its next step.
\<close>

datatype event = Push nat | Take | Own | Steal nat

fun deque_step :: "event \<Rightarrow> deque \<Rightarrow> deque option" where
  "deque_step (Push w) s = Some (if opc s = O_idle then push_start w s else s)"
| "deque_step Take s = Some (if opc s = O_idle \<and> pushes s > 0 then take_start s else s)"
| "deque_step Own s = (if opc s = O_idle then Some s else if taking (opc s) then take_step s else push_step s)"
| "deque_step (Steal i) s = steal i s"

text \<open>The abstract deque: what a sequence of operations leaves, when each is possible.\<close>

fun deque_op :: "operation \<Rightarrow> nat list \<Rightarrow> nat list option" where
  "deque_op (Pushed w) d = Some (d @ [w])"
| "deque_op (Taken w) d = (if d \<noteq> [] \<and> last d = w then Some (butlast d) else None)"
| "deque_op (Stolen w) d = (if d \<noteq> [] \<and> hd d = w then Some (tl d) else None)"

definition deque_run :: "operation list \<Rightarrow> nat list option" where
  "deque_run ops = exec deque_op ops []"

fun removed :: "operation list \<Rightarrow> nat list" where
  "removed [] = []"
| "removed (Pushed w # l) = removed l"
| "removed (Taken w # l) = w # removed l"
| "removed (Stolen w # l) = w # removed l"

section \<open>The invariant\<close>

text \<open>The end of the deque: the item a \<open>take\<close> is after is still in it until the owner has claimed it.\<close>

definition bot :: "deque \<Rightarrow> nat" where
  "bot s = (case opc s of Tk_top b a \<Rightarrow> b + 1 | Tk_read b a t \<Rightarrow> if t = b then b + 1 else b | Tk_cas b t x \<Rightarrow> b + 1
     | Tk_fix b r \<Rightarrow> b + 1 | _ \<Rightarrow> bottom s)"

definition contents :: "deque \<Rightarrow> nat list" where
  "contents s = map (item s) [top s..<bot s]"

definition hand :: "deque \<Rightarrow> cell list" where
  "hand s = (case opc s of Tk_read b a t \<Rightarrow> if t = b then [] else [Some (item s b)] | Tk_fix b (Some x) \<Rightarrow> [x] | _ \<Rightarrow> [])"

definition buf :: "nat \<Rightarrow> deque \<Rightarrow> cell list" where
  "buf a s = arrays s ! a"

definition at_cell :: "cell list \<Rightarrow> nat \<Rightarrow> cell" where
  "at_cell b i = b ! (i mod length b)"

definition window :: "cell list \<Rightarrow> deque \<Rightarrow> bool" where
  "window b s \<longleftrightarrow> b \<noteq> [] \<and> bot s - top s \<le> length b \<and> (\<forall>i. top s \<le> i \<and> i < bot s \<longrightarrow> at_cell b i = Some (item s i))"

fun owner_ok :: "owner_pc \<Rightarrow> deque \<Rightarrow> bool" where
  "owner_ok O_idle s \<longleftrightarrow> (0 < pushes s \<longrightarrow> 0 < bottom s)"
| "owner_ok (Tk_array b) s \<longleftrightarrow> bottom s = b + 1"
| "owner_ok (Tk_store b a) s \<longleftrightarrow> bottom s = b + 1 \<and> a = array s"
| "owner_ok (Tk_top b a) s \<longleftrightarrow> bottom s = b \<and> a = array s"
| "owner_ok (Tk_read b a t) s \<longleftrightarrow> bottom s = b \<and> a = array s \<and> t \<le> b \<and> t \<le> top s \<and>
     (t < b \<longrightarrow> at_cell (buf a s) b = Some (item s b))"
| "owner_ok (Tk_cas b t x) s \<longleftrightarrow> bottom s = b \<and> t = b \<and> t \<le> top s \<and> (top s = b \<longrightarrow> x = Some (item s b))"
| "owner_ok (Tk_fix b r) s \<longleftrightarrow> bottom s = b \<and> top s = b + 1"
| "owner_ok (Ps_top w b) s \<longleftrightarrow> bottom s = b"
| "owner_ok (Ps_array w b t) s \<longleftrightarrow> bottom s = b \<and> t \<le> top s"
| "owner_ok (Ps_resize w b a) s \<longleftrightarrow> bottom s = b \<and> a = array s"
| "owner_ok (Ps_publish w b new) s \<longleftrightarrow> bottom s = b \<and> window new s \<and> bot s - top s < length new"
| "owner_ok (Ps_store w b a) s \<longleftrightarrow> bottom s = b \<and> a = array s \<and> bot s - top s < length (buf a s)"
| "owner_ok (Ps_bottom w b) s \<longleftrightarrow> bottom s = b \<and> bot s - top s < length (buf (array s) s) \<and> at_cell (buf (array s) s) b = Some w"

fun thief_ok :: "thief_pc \<Rightarrow> deque \<Rightarrow> bool" where
  "thief_ok T_idle s \<longleftrightarrow> True"
| "thief_ok (St_bottom t) s \<longleftrightarrow> t \<le> top s"
| "thief_ok (St_array t) s \<longleftrightarrow> t \<le> top s \<and> (top s = t \<longrightarrow> t < bot s)"
| "thief_ok (St_read t a) s \<longleftrightarrow> t \<le> top s \<and> a < length (arrays s) \<and> (top s = t \<longrightarrow> t < bot s \<and> at_cell (buf a s) t = Some (item s t))"
| "thief_ok (St_cas t x) s \<longleftrightarrow> t \<le> top s \<and> (top s = t \<longrightarrow> t < bot s \<and> x = Some (item s t))"

definition core :: "deque \<Rightarrow> bool" where
  "core s \<longleftrightarrow> array s < length (arrays s) \<and> [] \<notin> set (arrays s) \<and> top s \<le> bot s \<and> bot s \<le> pushes s \<and>
     window (buf (array s) s) s \<and> owner_ok (opc s) s \<and> (\<forall>i. thief_ok (thieves s i) s) \<and>
     deque_run (lin s) = Some (contents s) \<and> mset (map Some (removed (lin s))) = mset (got s) + mset (hand s)"

lemma inc_small: "n + 1 < W64 \<Longrightarrow> inc n = n + 1"
  unfolding inc_def by (rule mod_less)

lemma dec_pos: "0 < n \<Longrightarrow> n < W64 \<Longrightarrow> dec n = n - 1"
proof -
  assume "0 < n" "n < W64"
  then have "n + W64 - 1 = (n - 1) + W64" "n - 1 < W64" by linarith+
  then show ?thesis unfolding dec_def by (metis mod_add_self2 mod_less)
qed

lemma dec_le: "0 < n \<Longrightarrow> dec n \<le> n - 1"
proof -
  assume "0 < n"
  then have "n + W64 - 1 = (n - 1) + W64" by linarith
  then show ?thesis unfolding dec_def by (metis mod_add_self2 mod_less_eq_dividend)
qed

lemma minus64_le: "b \<le> a \<Longrightarrow> a < W64 \<Longrightarrow> minus64 a b = a - b"
proof -
  assume "b \<le> a" "a < W64"
  then have "a + W64 - b = (a - b) + W64" "a - b < W64" by linarith+
  then show ?thesis unfolding minus64_def by (metis mod_add_self2 mod_less)
qed

lemma mod_neq: "t < b \<Longrightarrow> b - t < n \<Longrightarrow> b mod n \<noteq> t mod n" for n :: nat
proof
  assume *: "t < b" "b - t < n" "b mod n = t mod n"
  then have "n dvd b - t" by (metis mod_eq_dvd_iff_nat less_imp_le)
  then show False using * by (auto dest: dvd_imp_le)
qed

lemma deque_run_snoc: "deque_run (l @ [op]) = (case deque_run l of None \<Rightarrow> None | Some d \<Rightarrow> deque_op op d)"
  unfolding deque_run_def exec_append by (auto split: option.splits)

lemma removed_append [simp]: "removed (l @ m) = removed l @ removed m"
  by (induction l rule: removed.induct) auto

lemma pushes_upd [simp]:
  "pushes (s\<lparr>top := x1\<rparr>) = pushes s" "pushes (s\<lparr>bottom := x1\<rparr>) = pushes s" "pushes (s\<lparr>array := x1\<rparr>) = pushes s"
  "pushes (s\<lparr>arrays := x2\<rparr>) = pushes s" "pushes (s\<lparr>opc := x3\<rparr>) = pushes s" "pushes (s\<lparr>thieves := x4\<rparr>) = pushes s"
  "pushes (s\<lparr>got := x5\<rparr>) = pushes s" "pushes (s\<lparr>item := x6\<rparr>) = pushes s"
  by (simp_all add: pushes_def)

lemma pushes_lin [simp]: "pushes (s\<lparr>lin := l\<rparr>) = length (filter is_push l)" "length (filter is_push (lin s)) = pushes s"
  by (simp_all add: pushes_def)

lemma buf_upd [simp]:
  "buf a (s\<lparr>top := x1\<rparr>) = buf a s" "buf a (s\<lparr>bottom := x1\<rparr>) = buf a s" "buf a (s\<lparr>array := x1\<rparr>) = buf a s"
  "buf a (s\<lparr>opc := x3\<rparr>) = buf a s" "buf a (s\<lparr>thieves := x4\<rparr>) = buf a s"
  "buf a (s\<lparr>got := x5\<rparr>) = buf a s" "buf a (s\<lparr>item := x6\<rparr>) = buf a s" "buf a (s\<lparr>lin := x7\<rparr>) = buf a s"
  by (simp_all add: buf_def)

text \<open>What a thief relies on.\<close>

lemma thief_frame:
  assumes "thief_ok p s" "top s \<le> top s'" "length (arrays s) \<le> length (arrays s')"
    and "top s' = top s \<Longrightarrow> top s < bot s \<Longrightarrow> top s < bot s' \<and> item s' (top s) = item s (top s) \<and>
      (\<forall>a < length (arrays s). at_cell (buf a s) (top s) = Some (item s (top s)) \<longrightarrow> at_cell (buf a s') (top s) = Some (item s (top s)))"
  shows "thief_ok p s'"
proof (cases "top s' = top s \<and> top s < bot s")
  case True
  then have "top s < bot s'" "item s' (top s) = item s (top s)"
    "\<And>a. a < length (arrays s) \<Longrightarrow> at_cell (buf a s) (top s) = Some (item s (top s)) \<Longrightarrow> at_cell (buf a s') (top s) = Some (item s (top s))"
    using assms(4) by blast+
  then show ?thesis using True assms(1,3) by (cases p) auto
next
  case False
  then show ?thesis using assms(1-3) by (cases p) auto
qed

text \<open>A step that leaves the deque as it is.\<close>

lemma deque_core_D:
  assumes "core s"
  shows "array s < length (arrays s)" "[] \<notin> set (arrays s)" "top s \<le> bot s" "bot s \<le> pushes s" "window (buf (array s) s) s"
    "owner_ok (opc s) s" "thief_ok (thieves s i) s" "deque_run (lin s) = Some (contents s)"
    "mset (map Some (removed (lin s))) = mset (got s) + mset (hand s)"
  using assms unfolding core_def by auto

lemma window_cong: "bot s' = bot s \<Longrightarrow> top s' = top s \<Longrightarrow> item s' = item s \<Longrightarrow> window b s' = window b s"
  by (simp add: window_def)

lemma core_same:
  assumes c: "core s" and s': "top s' = top s" "arrays s' = arrays s" "array s' = array s" "item s' = item s" "lin s' = lin s" "thieves s' = thieves s"
    and b: "bot s' = bot s" and o: "owner_ok (opc s') s'" and h: "mset (got s') + mset (hand s') = mset (got s) + mset (hand s)"
  shows "core s'"
proof -
  have "thief_ok (thieves s i) s'" for i
    by (rule thief_frame [OF deque_core_D(7) [OF c]]) (use s' b in \<open>simp_all add: buf_def\<close>)
  moreover have "buf (array s') s' = buf (array s) s" using s' by (simp add: buf_def)
  moreover have "pushes s' = pushes s" using s' by (simp only: pushes_def)
  moreover have "contents s' = contents s" using s' b by (simp add: contents_def)
  ultimately show ?thesis using deque_core_D [OF c] s' b o h window_cong [OF b s'(1,4)] unfolding core_def by simp
qed

lemma load_cell_buf: "a < length (arrays s) \<Longrightarrow> [] \<notin> set (arrays s) \<Longrightarrow> load_cell a i s = Some (at_cell (buf a s) i)"
proof -
  assume a: "a < length (arrays s)" "[] \<notin> set (arrays s)"
  then have "arrays s ! a \<noteq> []" by (metis nth_mem)
  then show ?thesis using a by (simp add: load_cell_def buf_def at_cell_def)
qed

lemma bottom_le:
  assumes "core s"
  shows "bottom s \<le> bot s"
  using deque_core_D(6) [OF assms] by (cases "opc s") (auto simp: bot_def)

lemma take_start_core:
  assumes c: "core s" and pc: "opc s = O_idle" "0 < pushes s" and small: "pushes s + 1 < W64"
  shows "core (take_start s)"
proof -
  have "bottom s \<le> pushes s" using bottom_le [OF c] deque_core_D(4) [OF c] by linarith
  then have "bottom s < W64" using small by linarith
  then have d: "dec (bottom s) = bottom s - 1" "0 < bottom s" using deque_core_D(6) [OF c] pc dec_pos [of "bottom s"] by auto
  show ?thesis using d pc by (intro core_same [OF c]) (simp_all add: take_start_def bot_def hand_def)
qed

lemma push_start_core:
  assumes c: "core s" and pc: "opc s = O_idle"
  shows "core (push_start w s)"
  using pc by (intro core_same [OF c]) (simp_all add: push_start_def bot_def hand_def)

lemma take_top_core:
  assumes c: "core s" and pc: "opc s = Tk_top b a"
  shows "\<exists>s'. take_step s = Some s' \<and> core s'"
proof -
  have o: "bottom s = b" "a = array s" using deque_core_D(6) [OF c] pc by simp_all
  have bot: "bot s = b + 1" using pc by (simp add: bot_def)
  have le: "top s \<le> b + 1" using deque_core_D(3) [OF c] bot by simp
  consider "top s < b" | "top s = b" | "top s = b + 1" using le by linarith
  then show ?thesis
  proof cases
    case 1
    let ?s = "s\<lparr>opc := Tk_read b a (top s), lin := lin s @ [Taken (item s b)]\<rparr>"
    have b': "bot ?s = b" using 1 by (simp add: bot_def)
    have win: "window (buf (array s) s) s" by (rule deque_core_D(5) [OF c])
    have "thief_ok (thieves s i) ?s" for i
      by (rule thief_frame [OF deque_core_D(7) [OF c]]) (use 1 b' in simp_all)
    moreover have "at_cell (buf (array s) s) b = Some (item s b)" using win 1 bot unfolding window_def by auto
    moreover have "window (buf (array s) s) ?s" using win bot b' unfolding window_def by auto
    moreover have "deque_run (lin s @ [Taken (item s b)]) = Some (contents ?s)"
      using deque_core_D(8) [OF c] 1 bot b' by (simp add: deque_run_snoc contents_def)
    moreover have "mset (map Some (removed (lin ?s))) = mset (got ?s) + mset (hand ?s)"
      using deque_core_D(9) [OF c] pc 1 by (simp add: hand_def)
    moreover have "bot ?s \<le> pushes ?s" using deque_core_D(4) [OF c] bot b' by simp
    ultimately have "core ?s" using deque_core_D(1,2) [OF c] 1 o b' unfolding core_def by simp
    then show ?thesis using pc 1 by (simp add: take_step_def)
  next
    case 2
    have "core (s\<lparr>opc := Tk_read b a (top s)\<rparr>)"
      using pc o 2 bot by (intro core_same [OF c]) (simp_all add: bot_def hand_def)
    then show ?thesis using pc 2 by (simp add: take_step_def)
  next
    case 3
    have "core (s\<lparr>opc := Tk_fix b None\<rparr>)"
      using pc o 3 bot by (intro core_same [OF c]) (simp_all add: bot_def hand_def)
    then show ?thesis using pc 3 by (simp add: take_step_def)
  qed
qed

lemma take_cas_core:
  assumes c: "core s" and pc: "opc s = Tk_cas b t x" and small: "pushes s + 1 < W64"
  shows "\<exists>s'. take_step s = Some s' \<and> core s'"
proof -
  have o: "bottom s = b" "t = b" "b \<le> top s" "top s = b \<longrightarrow> x = Some (item s b)" using deque_core_D(6) [OF c] pc by simp_all
  have bot: "bot s = b + 1" using pc by (simp add: bot_def)
  show ?thesis
  proof (cases "top s = b")
    case True
    have i: "inc b = b + 1" using deque_core_D(4) [OF c] bot small by (intro inc_small) linarith
    let ?s = "s\<lparr>top := b + 1, opc := Tk_fix b (Some x), lin := lin s @ [Taken (item s b)]\<rparr>"
    have b': "bot ?s = b + 1" by (simp add: bot_def)
    have "thief_ok (thieves s i) ?s" for i
      by (rule thief_frame [OF deque_core_D(7) [OF c]]) (use True in simp_all)
    moreover have "window (buf (array s) s) ?s" using deque_core_D(5) [OF c] bot b' unfolding window_def by auto
    moreover have "deque_run (lin s @ [Taken (item s b)]) = Some (contents ?s)"
      using deque_core_D(8) [OF c] True bot b' by (simp add: deque_run_snoc contents_def)
    moreover have "mset (map Some (removed (lin ?s))) = mset (got ?s) + mset (hand ?s)"
      using deque_core_D(9) [OF c] pc True o by (simp add: hand_def)
    ultimately have "core ?s" using deque_core_D(1,2,4) [OF c] o b' bot unfolding core_def by simp
    then show ?thesis using pc True o(2) i by (simp add: take_step_def)
  next
    case False
    then have "top s = b + 1" using o(3) deque_core_D(3) [OF c] bot by linarith
    then have "core (s\<lparr>opc := Tk_fix b None\<rparr>)"
      using pc o bot by (intro core_same [OF c]) (simp_all add: bot_def hand_def)
    then show ?thesis using pc False o(2) by (simp add: take_step_def)
  qed
qed

lemma take_step_core:
  assumes c: "core s" and pc: "taking (opc s)" and small: "pushes s + 1 < W64"
  shows "\<exists>s'. take_step s = Some s' \<and> core s'"
proof (cases "opc s")
  case (Tk_array b)
  then have "core (s\<lparr>opc := Tk_store b (array s)\<rparr>)"
    using deque_core_D(6) [OF c] by (intro core_same [OF c]) (simp_all add: bot_def hand_def)
  then show ?thesis using Tk_array by (simp add: take_step_def)
next
  case (Tk_store b a)
  then have "core (s\<lparr>bottom := b, opc := Tk_top b a\<rparr>)"
    using deque_core_D(6) [OF c] by (intro core_same [OF c]) (simp_all add: bot_def hand_def)
  then show ?thesis using Tk_store by (simp add: take_step_def)
next
  case (Tk_top b a)
  then show ?thesis by (rule take_top_core [OF c])
next
  case (Tk_read b a t)
  have o: "bottom s = b" "a = array s" "t \<le> b" "t \<le> top s" "t < b \<longrightarrow> at_cell (buf a s) b = Some (item s b)"
    using deque_core_D(6) [OF c] Tk_read by auto
  have l: "load_cell a b s = Some (at_cell (buf a s) b)" using load_cell_buf deque_core_D(1,2) [OF c] o(2) by simp
  show ?thesis
  proof (cases "t = b")
    case True
    have "at_cell (buf a s) b = Some (item s b)" if "top s = b"
      using deque_core_D(5) [OF c] that Tk_read True o(2) unfolding window_def by (simp add: bot_def)
    then have "core (s\<lparr>opc := Tk_cas b t (at_cell (buf a s) b)\<rparr>)"
      using Tk_read o True by (intro core_same [OF c]) (simp_all add: bot_def hand_def)
    then show ?thesis using Tk_read l True by (simp add: take_step_def)
  next
    case False
    then have "core (s\<lparr>opc := O_idle, got := got s @ [at_cell (buf a s) b]\<rparr>)"
      using Tk_read o by (intro core_same [OF c]) (auto simp: bot_def hand_def)
    then show ?thesis using Tk_read l False by (simp add: take_step_def)
  qed
next
  case (Tk_cas b t x)
  then show ?thesis by (rule take_cas_core [OF c _ small])
next
  case (Tk_fix b r)
  have o: "bottom s = b" "top s = b + 1" using deque_core_D(6) [OF c] Tk_fix by simp_all
  have "b + 1 < W64" using deque_core_D(4) [OF c] Tk_fix small by (simp add: bot_def)
  then have i: "inc b = b + 1" by (rule inc_small)
  have "core (s\<lparr>bottom := b + 1, opc := O_idle, got := got s @ (case r of None \<Rightarrow> [] | Some x \<Rightarrow> [x])\<rparr>)"
    using Tk_fix o by (intro core_same [OF c]) (simp_all add: bot_def hand_def split: option.split)
  then show ?thesis using Tk_fix i by (simp add: take_step_def)
qed (use pc in simp_all)

lemma copy_cells_length [simp]: "length (copy_cells a t b) = 2 * length a"
proof -
  have "length (fold (\<lambda>i nw. nw[i mod length nw := a ! (i mod length a)]) is nw) = length nw" for "is" and nw :: "cell list"
    by (induction "is" arbitrary: nw) simp_all
  then show ?thesis by (simp add: copy_cells_def)
qed

lemma copy_cells_Suc: "t \<le> b \<Longrightarrow> copy_cells a t (Suc b) = (copy_cells a t b)[b mod (2 * length a) := a ! (b mod length a)]"
  using copy_cells_length [of a t b] by (simp add: copy_cells_def)

lemma at_copy_cells:
  "a \<noteq> [] \<Longrightarrow> t \<le> i \<Longrightarrow> i < b \<Longrightarrow> b - t \<le> length a \<Longrightarrow> at_cell (copy_cells a t b) i = at_cell a i"
proof (induction b)
  case (Suc b)
  have pos: "0 < 2 * length a" using Suc.prems(1) by simp
  show ?case
  proof (cases "i = b")
    case True
    then show ?thesis using Suc.prems pos copy_cells_Suc [of t b a] by (simp add: at_cell_def)
  next
    case False
    then have "b mod (2 * length a) \<noteq> i mod (2 * length a)" using Suc.prems by (intro mod_neq) linarith+
    then show ?thesis using Suc False copy_cells_Suc [of t b a] by (simp add: at_cell_def)
  qed
qed simp

lemma publish_core:
  assumes c: "core s" and pc: "opc s = Ps_publish w b new"
  shows "core (s\<lparr>arrays := arrays s @ [new], array := length (arrays s), opc := Ps_store w b (length (arrays s))\<rparr>)" (is "core ?s")
proof -
  have o: "bottom s = b" "window new s" "bot s - top s < length new" using deque_core_D(6) [OF c] pc by simp_all
  have b: "bot ?s = bot s" using pc o by (simp add: bot_def)
  have old: "buf a ?s = buf a s" if "a < length (arrays s)" for a using that by (simp add: buf_def nth_append)
  have "thief_ok (thieves s i) ?s" for i
    by (rule thief_frame [OF deque_core_D(7) [OF c]]) (use old b in simp_all)
  moreover have "buf (array ?s) ?s = new" by (simp add: buf_def)
  moreover have "window new ?s" using o(2) window_cong [of ?s s new] b by simp
  moreover have "contents ?s = contents s" using b by (simp add: contents_def)
  moreover have "hand ?s = hand s" using pc by (simp add: hand_def)
  moreover have "new \<noteq> []" using o(2) by (simp add: window_def)
  ultimately show ?thesis using deque_core_D [OF c] o b unfolding core_def by simp
qed

lemma store_core:
  assumes c: "core s" and pc: "opc s = Ps_store w b a"
  shows "\<exists>s'. push_step s = Some s' \<and> core s'"
proof -
  have o: "bottom s = b" "a = array s" "bot s - top s < length (buf a s)" using deque_core_D(6) [OF c] pc by auto
  have bot: "bot s = b" using pc o by (simp add: bot_def)
  have a: "a < length (arrays s)" "buf a s \<noteq> []" using deque_core_D(1) [OF c] o by auto
  let ?buf = "(buf a s)[b mod length (buf a s) := Some w]"
  let ?s = "s\<lparr>arrays := (arrays s)[a := ?buf], opc := Ps_bottom w b\<rparr>"
  have b: "bot ?s = b" using o by (simp add: bot_def)
  have cells: "buf x ?s = (if x = a then ?buf else buf x s)" for x using a by (simp add: buf_def)
  have keep: "at_cell ?buf i = at_cell (buf a s) i" if "top s \<le> i" "i < b" for i
  proof -
    have "b mod length (buf a s) \<noteq> i mod length (buf a s)" using that o(3) bot by (intro mod_neq) linarith+
    then show ?thesis by (simp add: at_cell_def)
  qed
  have "thief_ok (thieves s i) ?s" for i
  proof (rule thief_frame [OF deque_core_D(7) [OF c]])
    show "top s < bot ?s \<and> item ?s (top s) = item s (top s) \<and> (\<forall>x < length (arrays s).
        at_cell (buf x s) (top s) = Some (item s (top s)) \<longrightarrow> at_cell (buf x ?s) (top s) = Some (item s (top s)))" if "top s < bot s"
      using that b bot keep [of "top s"] unfolding cells by auto
  qed simp_all
  moreover have "window (buf (array ?s) ?s) ?s"
    using deque_core_D(5) [OF c] keep b bot o(2) a(2) unfolding cells window_def by auto
  moreover have "contents ?s = contents s" using b bot by (simp add: contents_def)
  moreover have "hand ?s = hand s" using pc by (simp add: hand_def)
  moreover have "[] \<notin> set ((arrays s)[a := ?buf])"
    using deque_core_D(2) [OF c] a(2) set_update_subset_insert [of "arrays s" a ?buf] list_update_nonempty [of "buf a s"] by (metis insert_iff subsetD)
  moreover have "owner_ok (opc ?s) ?s"
  proof -
    have "buf (array ?s) ?s = ?buf" using cells [of a] o(2) by simp
    moreover have "opc ?s = Ps_bottom w b" "bottom ?s = b" "top ?s = top s" using o by simp_all
    ultimately show ?thesis using o b bot a(2) by (simp only: owner_ok.simps) (simp add: at_cell_def)
  qed
  ultimately have "core ?s" using deque_core_D [OF c] b bot unfolding core_def by simp
  moreover have "push_step s = Some ?s"
    using pc a by (simp add: push_step_def buf_def)
  ultimately show ?thesis by blast
qed

lemma bottom_core:
  assumes c: "core s" and pc: "opc s = Ps_bottom w b"
  shows "core (s\<lparr>bottom := b + 1, opc := O_idle, item := (item s)(b := w), lin := lin s @ [Pushed w]\<rparr>)" (is "core ?s")
proof -
  have o: "bottom s = b" "bot s - top s < length (buf (array s) s)" "at_cell (buf (array s) s) b = Some w" using deque_core_D(6) [OF c] pc by simp_all
  have bot: "bot s = b" and b: "bot ?s = b + 1" using pc o by (simp_all add: bot_def)
  have le: "top s \<le> b" using deque_core_D(3) [OF c] bot by simp
  have "thief_ok (thieves s i) ?s" for i
    by (rule thief_frame [OF deque_core_D(7) [OF c]]) (use b bot in simp_all)
  moreover have "window (buf (array s) s) ?s"
    using deque_core_D(5) [OF c] o bot b le unfolding window_def by (auto simp: less_Suc_eq)
  moreover have "contents ?s = contents s @ [w]" using b bot le by (simp add: contents_def)
  moreover have "hand ?s = hand s" using pc by (simp add: hand_def)
  ultimately show ?thesis using deque_core_D [OF c] b bot le unfolding core_def by (simp add: deque_run_snoc)
qed

lemma push_step_core:
  assumes c: "core s" and pc: "\<not> taking (opc s)" "opc s \<noteq> O_idle" and small: "pushes s + 1 < W64"
  shows "\<exists>s'. push_step s = Some s' \<and> core s'"
proof -
  note win = deque_core_D(5) [OF c]
  have ar: "load_at (arrays s) (array s) = Some (buf (array s) s)" "buf (array s) s \<noteq> []"
    using deque_core_D(1) [OF c] win by (simp_all add: buf_def window_def)
  show ?thesis
  proof (cases "opc s")
    case (Ps_top w b)
    then have "core (s\<lparr>opc := Ps_array w b (top s)\<rparr>)"
      using deque_core_D(6) [OF c] by (intro core_same [OF c]) (simp_all add: bot_def hand_def)
    then show ?thesis using Ps_top by (simp add: push_step_def)
  next
    case (Ps_array w b t)
    have o: "bottom s = b" "t \<le> top s" using deque_core_D(6) [OF c] Ps_array by simp_all
    have bot: "bot s = b" using o Ps_array by (simp add: bot_def)
    have le: "t \<le> b" "b < W64" using o(2) deque_core_D(3,4) [OF c] bot small by linarith+
    have "core (s\<lparr>opc := Ps_resize w b (array s)\<rparr>)"
      using Ps_array o by (intro core_same [OF c]) (simp_all add: bot_def hand_def)
    moreover have "core (s\<lparr>opc := Ps_store w b (array s)\<rparr>)" if "\<not> minus64 b t > dec (length (buf (array s) s))"
    proof -
      have "b - t \<le> length (buf (array s) s) - 1" using that minus64_le [OF le] dec_le [of "length (buf (array s) s)"] ar(2) by simp
      then have "b - top s < length (buf (array s) s)" using o(2) ar(2) by (cases "buf (array s) s") auto
      then show ?thesis using Ps_array o by (intro core_same [OF c]) (simp_all add: bot_def hand_def)
    qed
    ultimately show ?thesis using Ps_array ar by (simp add: push_step_def)
  next
    case (Ps_resize w b a)
    have o: "bottom s = b" "a = array s" using deque_core_D(6) [OF c] Ps_resize by simp_all
    have bot: "bot s = b" using o Ps_resize by (simp add: bot_def)
    let ?new = "copy_cells (buf a s) (top s) b"
    have ne: "?new \<noteq> []" using ar(2) o(2) copy_cells_length [of "buf a s" "top s" b] by fastforce
    have "at_cell ?new i = Some (item s i)" if "top s \<le> i" "i < b" for i
      using at_copy_cells [OF ar(2) that] win bot o(2) that unfolding window_def by simp
    then have "window ?new s" using win ne bot o(2) unfolding window_def by simp
    moreover have "bot s - top s < length ?new" using win ar(2) o(2) unfolding window_def by (cases "buf a s") auto
    ultimately have "core (s\<lparr>opc := Ps_publish w b ?new\<rparr>)"
      using Ps_resize o bot by (intro core_same [OF c]) (simp_all add: bot_def hand_def window_def)
    then show ?thesis using Ps_resize ar o by (simp add: push_step_def resize_def)
  next
    case (Ps_publish w b new)
    then show ?thesis using publish_core [OF c] by (simp add: push_step_def)
  next
    case (Ps_store w b a)
    then show ?thesis by (rule store_core [OF c])
  next
    case (Ps_bottom w b)
    have "bottom s = b" "bot s = b" using deque_core_D(6) [OF c] Ps_bottom by (simp_all add: bot_def)
    then have "inc b = b + 1" using deque_core_D(4) [OF c] small by (intro inc_small) linarith
    then show ?thesis using Ps_bottom bottom_core [OF c Ps_bottom] by (simp add: push_step_def)
  qed (use pc in simp_all)
qed

lemma bot_cong: "opc s' = opc s \<Longrightarrow> bottom s' = bottom s \<Longrightarrow> bot s' = bot s"
  by (simp only: bot_def)

lemma hand_cong: "opc s' = opc s \<Longrightarrow> item s' = item s \<Longrightarrow> hand s' = hand s"
  by (simp only: hand_def)

lemma thieves_upd [simp]:
  "bot (s\<lparr>thieves := f\<rparr>) = bot s" "contents (s\<lparr>thieves := f\<rparr>) = contents s" "hand (s\<lparr>thieves := f\<rparr>) = hand s"
  "window b (s\<lparr>thieves := f\<rparr>) = window b s"
proof -
  show "bot (s\<lparr>thieves := f\<rparr>) = bot s" by (rule bot_cong) simp_all
  then show "contents (s\<lparr>thieves := f\<rparr>) = contents s" "window b (s\<lparr>thieves := f\<rparr>) = window b s"
    by (simp_all add: contents_def window_def)
  show "hand (s\<lparr>thieves := f\<rparr>) = hand s" by (rule hand_cong) simp_all
qed

lemma ok_thieves_upd [simp]: "owner_ok x (s\<lparr>thieves := f\<rparr>) = owner_ok x s" "thief_ok y (s\<lparr>thieves := f\<rparr>) = thief_ok y s"
  by (cases x, simp_all) (cases y, simp_all)

lemma core_thief: "core s \<Longrightarrow> thief_ok p s \<Longrightarrow> core (thief_to i p s)"
  by (simp add: core_def thief_to_def)

lemma steal_top_core:
  assumes c: "core s" and t: "top s < bot s" and x: "x = Some (item s (top s))"
  shows "core (s\<lparr>top := top s + 1, got := got s @ [x], lin := lin s @ [Stolen (item s (top s))]\<rparr>)" (is "core ?s")
proof -
  have b: "bot ?s = bot s" by (rule bot_cong) simp_all
  have h: "hand ?s = hand s" by (rule hand_cong) simp_all
  have "thief_ok (thieves s i) ?s" for i
    by (rule thief_frame [OF deque_core_D(7) [OF c]]) simp_all
  moreover have win: "window y ?s" if "window y s" for y using that b unfolding window_def by auto
  moreover have "owner_ok (opc s) ?s"
    using deque_core_D(6) [OF c] t win b by (cases "opc s") (auto simp: bot_def)
  moreover have "contents s = item s (top s) # contents ?s" using t b by (simp add: contents_def upt_conv_Cons)
  ultimately show ?thesis using deque_core_D [OF c] t b h x unfolding core_def by (simp add: deque_run_snoc)
qed

lemma steal_core:
  assumes c: "core s" and small: "pushes s + 1 < W64"
  shows "\<exists>s'. steal i s = Some s' \<and> core s'"
proof (cases "thieves s i")
  case T_idle
  then show ?thesis using core_thief [OF c, of "St_bottom (top s)" i] by (simp add: steal_def)
next
  case (St_bottom t)
  then have "thief_ok (if t < bottom s then St_array t else T_idle) s"
    using deque_core_D(7) [OF c, of i] bottom_le [OF c] by auto
  then show ?thesis using core_thief [OF c] St_bottom by (simp add: steal_def)
next
  case (St_array t)
  have "thief_ok (St_read t (array s)) s"
    using deque_core_D(7) [OF c, of i] deque_core_D(1,5) [OF c] St_array by (auto simp: window_def)
  then show ?thesis using core_thief [OF c] St_array by (simp add: steal_def)
next
  case (St_read t a)
  then have a: "load_cell a t s = Some (at_cell (buf a s) t)" using deque_core_D(7) [OF c, of i] deque_core_D(2) [OF c] by (intro load_cell_buf) auto
  have "thief_ok (St_cas t (at_cell (buf a s) t)) s" using deque_core_D(7) [OF c, of i] St_read by auto
  then show ?thesis using core_thief [OF c] St_read a by (simp add: steal_def)
next
  case (St_cas t x)
  show ?thesis
  proof (cases "top s = t")
    case True
    then have t: "top s < bot s" "x = Some (item s (top s))" using deque_core_D(7) [OF c, of i] St_cas by auto
    have "inc t = top s + 1" using True t(1) deque_core_D(4) [OF c] small by (subst inc_small) linarith+
    then show ?thesis using core_thief [OF steal_top_core [OF c t], of T_idle i] St_cas True by (simp add: steal_def)
  next
    case False
    then show ?thesis using core_thief [OF c, of T_idle i] St_cas by (simp add: steal_def)
  qed
qed

lemma deque_step_core:
  assumes "core s" "pushes s + 1 < W64"
  shows "\<exists>s'. deque_step e s = Some s' \<and> core s'"
proof (cases e)
  case (Push w)
  then show ?thesis using assms push_start_core [OF assms(1), of w] by auto
next
  case Take
  then show ?thesis using assms take_start_core [OF assms(1)] by auto
next
  case Own
  then show ?thesis using assms take_step_core [OF assms(1) _ assms(2)] push_step_core [OF assms(1) _ _ assms(2)] by auto
next
  case (Steal i)
  then show ?thesis using steal_core [OF assms, of i] by simp
qed

lemma init_core: "0 < n \<Longrightarrow> core (init n)"
  by (auto simp: core_def init_def bot_def pushes_def window_def buf_def deque_run_def contents_def hand_def simp del: pushes_lin)

text \<open>The pushes under way and completed are at most those that were called.\<close>

definition pending :: "deque \<Rightarrow> nat" where
  "pending s = pushes s + (if opc s = O_idle \<or> taking (opc s) then 0 else 1)"

fun is_push_event :: "event \<Rightarrow> bool" where
  "is_push_event (Push w) = True"
| "is_push_event _ = False"

lemma step_pending:
  assumes "deque_step e s = Some s'"
  shows "pending s' \<le> pending s + (if is_push_event e then 1 else 0)"
proof (cases e)
  case Own
  then show ?thesis using assms
    by (cases "opc s") (auto simp: pending_def take_step_def push_step_def resize_def Let_def split: if_splits bind_splits)
next
  case (Steal i)
  then show ?thesis using assms
    by (cases "thieves s i") (auto simp: pending_def steal_def thief_to_def split: if_splits bind_splits)
qed (use assms in \<open>auto simp: pending_def push_start_def take_start_def split: if_splits\<close>)

lemma exec_core:
  "core s \<Longrightarrow> pending s + length (filter is_push_event es) + 1 < W64 \<Longrightarrow> \<exists>s'. exec deque_step es s = Some s' \<and> core s'"
proof (induction es arbitrary: s)
  case (Cons e es)
  have "pushes s + 1 < W64" using Cons.prems(2) by (simp add: pending_def split: if_splits)
  then obtain s1 where s1: "deque_step e s = Some s1" "core s1" using deque_step_core [OF Cons.prems(1)] by blast
  have "pending s1 + length (filter is_push_event es) + 1 < W64"
    using step_pending [OF s1(1)] Cons.prems(2) by (auto split: if_splits)
  then show ?case using Cons.IH [OF s1(2)] s1(1) by simp
qed auto

section \<open>Joining\<close>

text \<open>\<open>join_work\<close>: the counter it leaves, and whether it returns the continuation.\<close>

definition join_work :: "int \<Rightarrow> int \<times> bool" where
  "join_work join_count = (join_count - 1, join_count = 1)"

text \<open>
  The two kinds of work of the program, with what is left of the memory blocks: a work item is freed
  by its task, and using it again is a fault (\<open>None\<close>).
\<close>

datatype work = Print nat | Done

record work_state =
  join_count :: int
  finished :: bool
  outputs :: "nat list"
  alive :: "work \<Rightarrow> bool"

definition print_task :: "nat \<Rightarrow> work_state \<Rightarrow> (work option \<times> work_state) option" where
  "print_task i s =
     (if alive s (Print i) then
        let (c, ready) = join_work (join_count s)
        in Some (if ready then Some Done else None,
             s\<lparr>outputs := outputs s @ [i], alive := (alive s)(Print i := False), join_count := c\<rparr>)
      else None)"

definition done_task :: "work_state \<Rightarrow> (work option \<times> work_state) option" where
  "done_task s = (if alive s Done then Some (None, s\<lparr>alive := (alive s)(Done := False), finished := True\<rparr>) else None)"

definition do_one_work :: "work \<Rightarrow> work_state \<Rightarrow> (work option \<times> work_state) option" where
  "do_one_work w s = (case w of Print i \<Rightarrow> print_task i s | Done \<Rightarrow> done_task s)"

lemma do_one_work_smaller:
  "do_one_work w s = Some (Some w', s') \<Longrightarrow> (case w' of Print i \<Rightarrow> 1 | Done \<Rightarrow> 0) < (case w of Print i \<Rightarrow> 1 | Done \<Rightarrow> (0 :: nat))"
  by (auto simp: do_one_work_def print_task_def done_task_def join_work_def split: work.splits if_splits)

function do_work :: "work \<Rightarrow> work_state \<Rightarrow> work_state option" where
  "do_work w s = do {
     (next, s') \<leftarrow> do_one_work w s;
     case next of None \<Rightarrow> Some s' | Some w' \<Rightarrow> do_work w' s' }"
  by pat_completeness auto
termination
  by (relation "measure (\<lambda>(w, s). case w of Print i \<Rightarrow> 1 | Done \<Rightarrow> 0)") (auto dest: do_one_work_smaller)

declare do_work.simps [simp del]

text \<open>
  Run in any order, each item once, the tasks print every payload and the flag is raised by the last of them.
\<close>

lemma do_work_print:
  assumes "alive s (Print i)" "alive s Done" "0 < join_count s"
  shows "\<exists>s'. do_work (Print i) s = Some s' \<and> outputs s' = outputs s @ [i] \<and> join_count s' = join_count s - 1 \<and>
    finished s' = (if join_count s = 1 then True else finished s) \<and>
    alive s' = (if join_count s = 1 then (alive s)(Print i := False, Done := False) else (alive s)(Print i := False))"
  using assms
  by (auto simp: do_work.simps [of "Print i"] do_work.simps [of Done] do_one_work_def print_task_def done_task_def join_work_def)

lemma do_all_works:
  assumes "distinct ks" "\<forall>i \<in> set ks. alive s (Print i)" "alive s Done" "int (length ks) \<le> join_count s" "\<not> finished s"
  shows "\<exists>s'. exec do_work (map Print ks) s = Some s' \<and> outputs s' = outputs s @ ks \<and>
    (finished s' \<longleftrightarrow> ks \<noteq> [] \<and> int (length ks) = join_count s)"
  using assms
proof (induction ks arbitrary: s)
  case (Cons i ks)
  obtain s1 where s1: "do_work (Print i) s = Some s1" "outputs s1 = outputs s @ [i]" "join_count s1 = join_count s - 1"
      "finished s1 = (if join_count s = 1 then True else finished s)"
      "alive s1 = (if join_count s = 1 then (alive s)(Print i := False, Done := False) else (alive s)(Print i := False))"
    using do_work_print [of s i] Cons.prems by auto
  show ?case
  proof (cases "join_count s = 1")
    case True
    then show ?thesis using s1 Cons.prems by auto
  next
    case False
    have "\<exists>s'. exec do_work (map Print ks) s1 = Some s' \<and> outputs s' = outputs s1 @ ks \<and>
        (finished s' \<longleftrightarrow> ks \<noteq> [] \<and> int (length ks) = join_count s1)"
      by (rule Cons.IH) (use s1 Cons.prems False in auto)
    then show ?thesis using s1 False by auto
  qed
qed simp

section \<open>Properties\<close>

text \<open>
  C12. The deque refines an abstract double-ended queue: whatever the interleaving of its owner and of
  the thieves, no step reads outside an array, there is an order of the successful operations in which
  pushes append, takes remove the last item and steals the first one, and the work items
  handed out (or about to be returned by the owner) are exactly those these operations
  removed. So no item is lost and none is run twice.
\<close>

theorem work_deque_linearizable:
  assumes "0 < size_hint" "length (filter is_push_event es) + 1 < W64"
  shows "\<exists>s. exec deque_step es (init size_hint) = Some s \<and> deque_run (lin s) = Some (contents s) \<and>
    mset (map Some (removed (lin s))) = mset (got s) + mset (hand s)"
proof -
  have "pending (init size_hint) = 0" by (simp add: pending_def init_def pushes_def del: pushes_lin)
  then show ?thesis using exec_core [OF init_core [OF assms(1)], of es] assms(2) deque_core_D(8,9) by (metis add_0)
qed

theorem work_deque_linearizable_witness:
  "\<exists>s. exec deque_step ([Push 7] @ replicate 8 Own @ [Push 8] @ replicate 8 Own @ [Steal 0, Take, Steal 0] @ replicate 5 Own @ replicate 4 (Steal 0)) (init 1) = Some s \<and>
    deque_run (lin s) = Some (contents s) \<and> mset (map Some (removed (lin s))) = mset (got s) + mset (hand s)"
  by (rule work_deque_linearizable) simp_all

text \<open>
  Taking from a deque to which nothing was ever pushed is not \<open>EMPTY\<close>: \<open>bottom - 1\<close> wraps around to the
  largest counter, the test for a non-empty deque succeeds, and \<open>take\<close> returns the contents of a cell
  that was never written.
\<close>

theorem take_on_fresh_deque:
  assumes "0 < size_hint"
  shows "\<exists>s. exec deque_step [Own, Own, Own, Own] (take_start (init size_hint)) = Some s \<and> opc s = O_idle \<and> got s = [None]"
proof -
  obtain b where b: "b = dec 0" "0 < b" by (simp add: dec_def)
  have "b mod size_hint < size_hint" using assms by simp
  moreover have "take_start (init size_hint) = init size_hint\<lparr>opc := Tk_array b\<rparr>" by (simp add: take_start_def init_def b(1))
  ultimately show ?thesis using b(2) by (simp add: init_def take_step_def load_cell_def)
qed

theorem take_on_fresh_deque_witness:
  "\<exists>s. exec deque_step [Own, Own, Own, Own] (take_start (init 8)) = Some s \<and> opc s = O_idle \<and> got s = [None]"
  by (rule take_on_fresh_deque) simp

end
