(* ===== verification/Picosh.thy ===== *)
theory Picosh
  imports Prelude
begin

text \<open>
  The command line parser of \<^verbatim>\<open>picosh/picosh.c\<close>. The code walks the line backwards in place, with a pointer
  into the buffer and a stack of at most 98 words in the array \<open>v\<close>; the model keeps the buffer, the
  pointers and the stack, and the result \<open>None\<close> is an access outside the buffer or outside \<open>v\<close>. What the
  shell would do is the result of \<open>run\<close>: the processes to start, from the last of the pipe to the
  first. The system calls are taken to succeed.
\<close>

section \<open>Character classes\<close>

abbreviation NUL :: char where "NUL \<equiv> CHR 0x00"
abbreviation BAR :: char where "BAR \<equiv> CHR 0x7C"

definition is_delim :: "char \<Rightarrow> bool" where
  "is_delim c \<longleftrightarrow> c = NUL \<or> c = BAR"

definition is_redir :: "char \<Rightarrow> bool" where
  "is_redir c \<longleftrightarrow> c = CHR ''>'' \<or> c = CHR ''<''"

definition is_blank :: "char \<Rightarrow> bool" where
  "is_blank c \<longleftrightarrow> c = CHR '' '' \<or> c = CHR 0x09 \<or> c = CHR 0x0A"

definition is_special :: "char \<Rightarrow> bool" where
  "is_special c \<longleftrightarrow> is_delim c \<or> is_redir c \<or> is_blank c"

section \<open>The parser\<close>

text \<open>The local variables of \<open>run\<close>: the words from \<open>u\<close> on, and the two redirections.\<close>

record parse_state =
  words :: "nat list"
  redir_stdin :: "nat option"
  redir_stdout :: "nat option"

definition start :: parse_state where
  "start = \<lparr>words = [], redir_stdin = None, redir_stdout = None\<rparr>"

definition push_word :: "nat \<Rightarrow> parse_state \<Rightarrow> parse_state option" where
  "push_word p st = (if length (words st) < 98 then Some (st\<lparr>words := p # words st\<rparr>) else None)"

text \<open>The inner loop: back to the special character before a word.\<close>

fun to_special :: "string \<Rightarrow> nat \<Rightarrow> nat option" where
  "to_special b 0 = None"
| "to_special b (Suc c) = do { x \<leftarrow> load_at b c; if is_special x then Some c else to_special b c }"

text \<open>\<open>*u\<close> is the null pointer when there is no word.\<close>

definition redirect :: "char \<Rightarrow> parse_state \<Rightarrow> parse_state" where
  "redirect x st =
     (let w = (case words st of [] \<Rightarrow> None | p # _ \<Rightarrow> Some p);
          st = (if x = CHR ''<'' then st\<lparr>redir_stdin := w\<rparr> else st\<lparr>redir_stdout := w\<rparr>)
      in st\<lparr>words := tl (words st)\<rparr>)"

definition copy_word :: "string \<Rightarrow> nat \<Rightarrow> parse_state \<Rightarrow> (string \<times> nat \<times> parse_state) option" where
  "copy_word b c st = do {
     b' \<leftarrow> store_at b (c + 1) NUL;
     k \<leftarrow> to_special b' (c + 1);
     st' \<leftarrow> push_word (k + 1) st;
     Some (b', k + 1, st') }"

lemma to_special_less: "to_special b c = Some k \<Longrightarrow> k < c"
proof (induction c)
  case (Suc c)
  then show ?case by (cases "load_at b c") (auto split: if_splits)
qed simp

lemma copy_word_back:
  assumes "copy_word b c st = Some (b', c', st')" "load_at b c = Some x" "\<not> is_special x"
  shows "c' \<le> c"
proof -
  obtain k where k: "store_at b (c + 1) NUL = Some b'" "to_special b' (c + 1) = Some k" "c' = k + 1"
    using assms(1) by (auto simp: copy_word_def split: bind_splits)
  have "load_at b' c = Some x" using k(1) assms(2) by (auto simp: store_at_def load_at_def split: if_splits)
  then have "to_special b' c = Some k" using k(2) assms(3) by simp
  then show ?thesis using to_special_less k(3) by fastforce
qed

function parse :: "string \<Rightarrow> nat \<Rightarrow> parse_state \<Rightarrow> (string \<times> nat \<times> parse_state) option" where
  "parse b c st = (case c of 0 \<Rightarrow> None
     | Suc c \<Rightarrow> do {
         x \<leftarrow> load_at b c;
         if is_delim x then Some (b, c, st)
         else do {
           (b, c, st) \<leftarrow> (if \<not> is_special x then copy_word b c st else Some (b, c, st));
           y \<leftarrow> load_at b c;
           parse b c (if is_redir y then redirect y st else st) } })"
  by pat_completeness auto
termination
proof (relation "measure (\<lambda>(b, c, st). c)")
qed (auto split: if_splits dest!: copy_word_back)

declare parse.simps [simp del]

definition word_at :: "string \<Rightarrow> nat \<Rightarrow> string" where
  "word_at b p = takeWhile (\<lambda>c. c \<noteq> NUL) (drop p b)"

text \<open>
  What the shell does for one part of the line: change the directory, or start a process with its arguments
  and redirections, which reads from a pipe or not and writes to one or not.
\<close>

datatype action = Chdir "string option" | Spawn "string list" "string option" "string option" bool bool

lemma parse_less: "parse b c st = Some (b', c', st') \<Longrightarrow> c' < c"
proof (induction b c st rule: parse.induct)
  case (1 b c st)
  show ?case
  proof (cases c)
    case 0
    then show ?thesis using "1.prems" by (simp add: parse.simps)
  next
    case (Suc d)
    obtain x where x: "load_at b d = Some x" using "1.prems" Suc by (cases "load_at b d") (auto simp: parse.simps)
    show ?thesis
    proof (cases "is_delim x")
      case True
      then show ?thesis using "1.prems" Suc x by (simp add: parse.simps)
    next
      case False
      obtain b1 c1 st1 y where y: "(if \<not> is_special x then copy_word b d st else Some (b, d, st)) = Some (b1, c1, st1)"
          "load_at b1 c1 = Some y" "parse b1 c1 (if is_redir y then redirect y st1 else st1) = Some (b', c', st')"
        using "1.prems" Suc x False by (subst (asm) parse.simps) (auto split: bind_splits if_splits)
      have "c' < c1" using "1.IH" [OF Suc x False y(1) refl refl y(2) y(3)] .
      moreover have "c1 \<le> d" using y(1) copy_word_back [OF _ x, of st b1 c1 st1] by (auto split: if_splits)
      ultimately show ?thesis using Suc by simp
    qed
  qed
qed

function run :: "string \<Rightarrow> nat \<Rightarrow> bool \<Rightarrow> action list option" where
  "run b c t = do {
     (b', c', st) \<leftarrow> parse b c start;
     case words st of
       [] \<Rightarrow> Some []
     | u # us \<Rightarrow>
         if word_at b' u = ''cd'' then Some [Chdir (case us of [] \<Rightarrow> None | p # _ \<Rightarrow> Some (word_at b' p))]
         else do {
           let piped = (b' ! c' \<noteq> NUL);
           rest \<leftarrow> (if piped then run b' c' True else Some []);
           Some (Spawn (map (word_at b') (words st)) (map_option (word_at b') (redir_stdin st))
             (map_option (word_at b') (redir_stdout st)) piped t # rest) } }"
  by pat_completeness auto
termination by (relation "measure (\<lambda>(b, c, t). c)") (auto dest: parse_less)

declare run.simps [simp del]

text \<open>The buffer of \<open>main\<close>, with the line that \<open>fgets\<close> has read behind a zero byte, and the call of \<open>run\<close>.\<close>

definition shell_line :: "string \<Rightarrow> action list option" where
  "shell_line line = run (NUL # line @ replicate (511 - length line) NUL) (1 + length line) False"

section \<open>Specification\<close>

text \<open>
  The same on strings, without pointers. A part of the line is read from its end: a word is put in front of
  those to its right, and a redirection takes the word to its right away.
\<close>

record command =
  cwords :: "string list"
  cin :: "string option"
  cout :: "string option"

definition no_command :: command where
  "no_command = \<lparr>cwords = [], cin = None, cout = None\<rparr>"

abbreviation regular :: "char \<Rightarrow> bool" where "regular c \<equiv> \<not> is_special c"

definition take_redirect :: "char \<Rightarrow> command \<Rightarrow> command" where
  "take_redirect x c =
     (let w = (case cwords c of [] \<Rightarrow> None | v # _ \<Rightarrow> Some v)
      in (if x = CHR ''<'' then c\<lparr>cin := w\<rparr> else c\<lparr>cout := w\<rparr>)\<lparr>cwords := tl (cwords c)\<rparr>)"

function read_part :: "string \<Rightarrow> command \<Rightarrow> command option" where
  "read_part r c = (case r of
     [] \<Rightarrow> Some c
   | x # r' \<Rightarrow>
       if is_redir x then read_part r' (take_redirect x c)
       else if is_special x then read_part r' c
       else if length (cwords c) < 98 then read_part (dropWhile regular r) (c\<lparr>cwords := rev (takeWhile regular r) # cwords c\<rparr>)
       else None)"
  by pat_completeness auto
termination
  by (relation "measure (\<lambda>(r, c). length r)") (auto simp: le_imp_less_Suc length_dropWhile_le)

declare read_part.simps [simp del]

function plan :: "string \<Rightarrow> bool \<Rightarrow> action list option" where
  "plan r t = do {
     c \<leftarrow> read_part (takeWhile (\<lambda>x. x \<noteq> BAR) r) no_command;
     case cwords c of
       [] \<Rightarrow> Some []
     | w # ws \<Rightarrow>
         if w = ''cd'' then Some [Chdir (case ws of [] \<Rightarrow> None | v # _ \<Rightarrow> Some v)]
         else (case dropWhile (\<lambda>x. x \<noteq> BAR) r of
             [] \<Rightarrow> Some [Spawn (cwords c) (cin c) (cout c) False t]
           | _ # r' \<Rightarrow> do { rest \<leftarrow> plan r' True; Some (Spawn (cwords c) (cin c) (cout c) True t # rest) }) }"
  by pat_completeness auto
termination
proof (relation "measure (\<lambda>(r, t). length r)")
  show "((r', True), r, t) \<in> measure (\<lambda>(r, t). length r)" if "dropWhile (\<lambda>x. x \<noteq> BAR) r = y # r'" for r r' y t
    using that length_dropWhile_le [of "\<lambda>x. x \<noteq> BAR" r] by simp
qed simp

declare plan.simps [simp del]

section \<open>The parser meets the specification\<close>

definition view :: "string \<Rightarrow> parse_state \<Rightarrow> command" where
  "view b st = \<lparr>cwords = map (word_at b) (words st), cin = map_option (word_at b) (redir_stdin st),
     cout = map_option (word_at b) (redir_stdout st)\<rparr>"

definition pointers :: "parse_state \<Rightarrow> nat set" where
  "pointers st = set (words st) \<union> set_option (redir_stdin st) \<union> set_option (redir_stdout st)"

lemma view_redirect: "view b (redirect x st) = take_redirect x (view b st)"
  by (auto simp: view_def redirect_def take_redirect_def Let_def split: list.splits)

lemma pointers_redirect: "pointers (redirect x st) \<subseteq> pointers st"
  by (cases "words st") (auto simp: pointers_def redirect_def Let_def)

lemma view_cong: "(\<And>p. p \<in> pointers st \<Longrightarrow> word_at b' p = word_at b p) \<Longrightarrow> view b' st = view b st"
  by (auto simp: view_def pointers_def intro!: map_option_cong)

lemma to_special_run:
  "\<forall>x \<in> set w. regular x \<Longrightarrow> is_special (last pre) \<Longrightarrow> pre \<noteq> [] \<Longrightarrow>
   to_special (pre @ w @ post) (length pre + length w) = Some (length pre - 1)"
proof (induction w arbitrary: post rule: rev_induct)
  case Nil
  then obtain q y where "pre = q @ [y]" by (cases pre rule: rev_cases) auto
  then show ?case using Nil by simp
next
  case (snoc x w)
  have "to_special (pre @ w @ (x # post)) (length pre + length w) = Some (length pre - 1)"
    using snoc.IH [of "x # post"] snoc.prems by simp
  then show ?case using snoc.prems by (simp add: nth_append)
qed

lemma word_at_word: "NUL \<notin> set w \<Longrightarrow> word_at (pre @ w @ NUL # post) (length pre) = w"
  by (auto simp: word_at_def takeWhile_tail)

lemma word_at_behind: "length pre < p \<Longrightarrow> word_at (pre @ x # post) p = word_at (pre @ y # post) p"
  by (simp add: word_at_def drop_Cons')

lemma copy_word_spec:
  assumes w: "w \<noteq> []" "\<forall>x \<in> set w. regular x" and pre: "pre \<noteq> []" "is_special (last pre)"
  shows "copy_word (pre @ w @ y # post) (length pre + length w - 1) st =
    (if length (words st) < 98 then Some (pre @ w @ NUL # post, length pre, st\<lparr>words := length pre # words st\<rparr>) else None)"
proof -
  have c: "length pre + length w - 1 + 1 = length pre + length w" using w(1) by (cases w) auto
  have "store_at (pre @ w @ y # post) (length pre + length w) NUL = Some (pre @ w @ NUL # post)"
    by (simp add: store_at_def list_update_append)
  moreover have "to_special (pre @ w @ NUL # post) (length pre + length w) = Some (length pre - 1)"
    by (rule to_special_run [OF w(2) pre(2,1)])
  ultimately show ?thesis using pre(1) unfolding copy_word_def c by (simp add: push_word_def)
qed

definition behind :: "string \<Rightarrow> nat \<Rightarrow> parse_state \<Rightarrow> bool" where
  "behind r c st \<longleftrightarrow> (\<forall>p \<in> pointers st. c \<le> p \<and> (r \<noteq> [] \<and> regular (hd r) \<longrightarrow> c < p))"

text \<open>One round of the loop on each kind of character.\<close>

lemma parse_delim:
  assumes "pre \<noteq> []" "is_delim (last pre)"
  shows "parse (pre @ post) (length pre) st = Some (pre @ post, length pre - 1, st)"
proof -
  obtain q y where "pre = q @ [y]" using assms(1) by (cases pre rule: rev_cases) auto
  then show ?thesis using assms(2) by (subst parse.simps) (simp add: nth_append)
qed

lemma parse_special:
  assumes "is_special x" "\<not> is_delim x"
  shows "parse (pre @ x # post) (Suc (length pre)) st = parse (pre @ x # post) (length pre) (if is_redir x then redirect x st else st)"
  using assms by (subst parse.simps) simp

lemma regular_not_redir: "regular x \<Longrightarrow> \<not> is_redir x \<and> \<not> is_delim x \<and> x \<noteq> NUL"
  by (auto simp: is_special_def is_delim_def)

lemma parse_word:
  assumes w: "w \<noteq> []" "\<forall>x \<in> set w. regular x" and pre: "pre \<noteq> []" "is_special (last pre)"
  shows "parse (pre @ w @ y # post) (length pre + length w) st =
    (if length (words st) < 98 then parse (pre @ w @ NUL # post) (length pre) (st\<lparr>words := length pre # words st\<rparr>) else None)"
proof -
  obtain c where c: "length pre + length w = Suc c" using w(1) by (cases w) auto
  have l: "load_at (pre @ w @ y # post) c = Some (last w)"
    using w(1) c by (cases w rule: rev_cases) (auto simp: nth_append)
  have r: "regular (last w)" using w by simp
  have h: "load_at (pre @ w @ NUL # post) (length pre) = Some (hd w)" using w(1) by (cases w) auto
  have "\<not> is_redir (hd w)" using w by (cases w) (auto dest: regular_not_redir)
  moreover have "copy_word (pre @ w @ y # post) c st =
      (if length (words st) < 98 then Some (pre @ w @ NUL # post, length pre, st\<lparr>words := length pre # words st\<rparr>) else None)"
    using copy_word_spec [OF w pre, of y post st] c by simp
  ultimately show ?thesis unfolding c using l r h regular_not_redir [OF r] by (subst parse.simps) simp
qed

lemma parse_part:
  assumes "pre \<noteq> []" "is_delim (last pre)" "\<forall>x \<in> set r. \<not> is_delim x" "post \<noteq> []" "behind r (length pre + length r) st"
  shows "case read_part r (view (pre @ rev r @ post) st) of
      None \<Rightarrow> parse (pre @ rev r @ post) (length pre + length r) st = None
    | Some cmd \<Rightarrow> \<exists>post' st'. parse (pre @ rev r @ post) (length pre + length r) st = Some (pre @ post', length pre - 1, st') \<and>
        view (pre @ post') st' = cmd \<and> post' \<noteq> []"
  using assms
proof (induction "length r" arbitrary: r post st rule: less_induct)
  case less
  show ?case
  proof (cases r)
    case Nil
    then show ?thesis using parse_delim [OF less.prems(1,2), of post st] less.prems(4) by (simp add: read_part.simps)
  next
    case (Cons x r')
    have nd: "\<not> is_delim x" using less.prems(3) Cons by simp
    show ?thesis
    proof (cases "is_special x")
      case True
      let ?st = "if is_redir x then redirect x st else st"
      have "pointers ?st \<subseteq> pointers st" using pointers_redirect [of x st] by simp
      then have b: "behind r' (length pre + length r') ?st"
        using less.prems(5) Cons unfolding behind_def by (fastforce simp: Suc_le_eq)
      have eq: "pre @ rev r @ post = pre @ rev r' @ x # post" using Cons by simp
      have R: "read_part r (view (pre @ rev r @ post) st) = read_part r' (view (pre @ rev r' @ x # post) ?st)"
        unfolding eq using Cons True nd by (subst read_part.simps) (auto simp: view_redirect)
      have P: "parse (pre @ rev r @ post) (length pre + length r) st = parse (pre @ rev r' @ x # post) (length pre + length r') ?st"
        unfolding eq using parse_special [OF True nd, of "pre @ rev r'" post st] Cons by simp
      show ?thesis unfolding R P
        by (rule less.hyps) (use less.prems Cons b in auto)
    next
      case False
      let ?w = "takeWhile regular r" and ?d = "dropWhile regular r"
      obtain y post1 where post: "post = y # post1" using less.prems(4) by (cases post) auto
      have r: "rev r = rev ?d @ rev ?w" by (metis rev_append takeWhile_dropWhile_id)
      have w: "rev ?w \<noteq> []" "\<forall>x \<in> set (rev ?w). regular x" using Cons False by (auto dest: set_takeWhileD)
      let ?pre = "pre @ rev ?d"
      have sp: "is_special (last ?pre)"
      proof (cases ?d)
        case Nil
        then show ?thesis using less.prems(1,2) by (simp add: is_special_def)
      next
        case (Cons z zs)
        then show ?thesis using hd_dropWhile [of regular r] by simp
      qed
      have len: "length pre + length r = length ?pre + length (rev ?w)"
        using arg_cong [OF r, of length] by simp
      let ?st = "st\<lparr>words := length ?pre # words st\<rparr>" and ?b = "?pre @ rev ?w @ NUL # post1"
      have b0: "pre @ rev r @ post = ?pre @ rev ?w @ y # post1" using r post by simp
      have p: "parse (pre @ rev r @ post) (length pre + length r) st =
          (if length (words st) < 98 then parse ?b (length ?pre) ?st else None)"
        unfolding b0 len using less.prems(1) by (intro parse_word [OF w _ sp]) simp
      have lt: "length pre + length r < p" if "p \<in> pointers st" for p
        using less.prems(5) that Cons False by (auto simp: behind_def)
      have "view ?b st = view (pre @ rev r @ post) st"
        unfolding b0
      proof (rule view_cong)
        fix p assume "p \<in> pointers st"
        then have "length (?pre @ rev ?w) < p" using lt [of p] len by simp
        then show "word_at ?b p = word_at (?pre @ rev ?w @ y # post1) p"
          using word_at_behind [of "?pre @ rev ?w" p NUL post1 y] by simp
      qed
      moreover have "word_at ?b (length ?pre) = rev ?w"
        by (rule word_at_word) (use w(2) regular_not_redir in blast)
      ultimately have v: "view ?b ?st = (view (pre @ rev r @ post) st)\<lparr>cwords := rev ?w # cwords (view (pre @ rev r @ post) st)\<rparr>"
        by (simp add: view_def)
      have bh: "behind ?d (length pre + length ?d) ?st"
      proof -
        have "\<not> regular (hd ?d)" if "?d \<noteq> []" using hd_dropWhile [OF that] .
        moreover have "length pre + length ?d \<le> length pre + length r" by (simp add: length_dropWhile_le)
        ultimately show ?thesis using lt by (fastforce simp: behind_def pointers_def)
      qed
      have IH: "case read_part ?d (view (pre @ rev ?d @ rev ?w @ NUL # post1) ?st) of
          None \<Rightarrow> parse (pre @ rev ?d @ rev ?w @ NUL # post1) (length pre + length ?d) ?st = None
        | Some cmd \<Rightarrow> \<exists>post' st'. parse (pre @ rev ?d @ rev ?w @ NUL # post1) (length pre + length ?d) ?st = Some (pre @ post', length pre - 1, st') \<and>
            view (pre @ post') st' = cmd \<and> post' \<noteq> []"
      proof (rule less.hyps [OF _ less.prems(1,2) _ _ bh])
        show "length ?d < length r" using w(1) len by simp
        show "\<forall>x \<in> set ?d. \<not> is_delim x" using less.prems(3) by (auto dest: set_dropWhileD)
      qed simp
      have R: "read_part r (view (pre @ rev r @ post) st) =
          (if length (words st) < 98 then read_part ?d (view ?b ?st) else None)"
        using Cons False nd unfolding v by (subst read_part.simps) (auto simp: view_def is_special_def)
      have d: "?b = pre @ rev ?d @ rev ?w @ NUL # post1" "length ?pre = length pre + length ?d" by simp_all
      show ?thesis
      proof (cases "length (words st) < 98")
        case True
        show ?thesis unfolding p R if_P [OF True] using IH unfolding d .
      next
        case False
        then show ?thesis unfolding p R by simp
      qed
    qed
  qed
qed

lemma view_sel [simp]: "cwords (view b st) = map (word_at b) (words st)" "cin (view b st) = map_option (word_at b) (redir_stdin st)"
  "cout (view b st) = map_option (word_at b) (redir_stdout st)"
  by (simp_all add: view_def)

lemma run_plan:
  "NUL \<notin> set r \<Longrightarrow> post \<noteq> [] \<Longrightarrow> run (NUL # rev r @ post) (Suc (length r)) t = plan r t"
proof (induction "length r" arbitrary: r post t rule: less_induct)
  case less
  let ?seg = "takeWhile (\<lambda>x. x \<noteq> BAR) r" and ?rest = "dropWhile (\<lambda>x. x \<noteq> BAR) r"
  define pre where "pre = NUL # rev ?rest"
  have r: "r = ?seg @ ?rest" by simp
  have b: "NUL # rev r @ post = pre @ rev ?seg @ post" unfolding pre_def by (subst r) (simp only: rev_append append_Cons append_assoc)
  have c: "Suc (length r) = length pre + length ?seg" unfolding pre_def by (subst r) (simp only: length_append length_Cons length_rev)
  have rest: "?rest = [] \<or> (\<exists>r'. ?rest = BAR # r')" using hd_dropWhile [of "\<lambda>x. x \<noteq> BAR" r] by (cases ?rest) auto
  have pre: "pre \<noteq> []" "is_delim (last pre)" using rest by (auto simp: pre_def is_delim_def)
  have seg: "\<forall>x \<in> set ?seg. \<not> is_delim x" using less.prems(1) by (auto simp: is_delim_def dest: set_takeWhileD)
  have st: "behind ?seg (length pre + length ?seg) start" by (simp add: behind_def pointers_def start_def)
  have v: "view (pre @ rev ?seg @ post) start = no_command" by (simp add: view_def start_def no_command_def)
  note part = parse_part [OF pre seg less.prems(2) st, unfolded v]
  show ?case
  proof (cases "read_part ?seg no_command")
    case None
    then have "parse (NUL # rev r @ post) (Suc (length r)) start = None" using part unfolding b c by simp
    then show ?thesis using None by (simp add: run.simps plan.simps [of r])
  next
    case (Some cmd)
    then obtain post' st' where p: "parse (NUL # rev r @ post) (Suc (length r)) start = Some (pre @ post', length pre - 1, st')"
        "view (pre @ post') st' = cmd" "post' \<noteq> []" using part unfolding b c by auto
    have last: "(pre @ post') ! (length pre - 1) = last pre" using pre(1) by (simp add: nth_append last_conv_nth)
    show ?thesis
    proof (cases "?rest = []")
      case True
      then have "last pre = NUL" by (simp add: pre_def)
      then show ?thesis using p last Some True
        by (simp add: run.simps [of "NUL # rev r @ post"] plan.simps [of r] del: dropWhile_eq_Nil_conv flip: p(2) split: list.split)
    next
      case False
      then obtain r' where r': "?rest = BAR # r'" using rest by auto
      have lp: "last pre = BAR" and pp: "pre @ post' = NUL # rev r' @ BAR # post'" and pl: "length pre - 1 = Suc (length r')"
        using r' by (simp_all add: pre_def)
      have lt: "length r' < length r" using arg_cong [OF r, of length] r' by simp
      have "NUL \<notin> set r'" using less.prems(1) r' by (metis list.set_intros(2) set_dropWhileD)
      then have IH: "run (pre @ post') (length pre - 1) True = plan r' True"
        unfolding pp pl using lt by (intro less.hyps) simp_all
      show ?thesis using p last lp IH Some r'
        by (simp add: run.simps [of "NUL # rev r @ post"] plan.simps [of r] flip: p(2) split: list.splits)
    qed
  qed
qed

lemma line_plan:
  assumes "NUL \<notin> set line" "length line \<le> 510"
  shows "shell_line line = plan (rev line) False"
proof -
  have "replicate (511 - length line) NUL \<noteq> []" using assms(2) by simp
  then show ?thesis using run_plan [of "rev line" "replicate (511 - length line) NUL" False] assms(1) by (simp add: shell_line_def)
qed

lemmas char_classes = is_special_def is_delim_def is_redir_def is_blank_def

lemma many_words:
  "read_part (concat (replicate n '' a'')) c =
     (if n + length (cwords c) \<le> 98 \<or> n = 0 then Some (c\<lparr>cwords := replicate n ''a'' @ cwords c\<rparr>) else None)"
proof (induction n arbitrary: c)
  case (Suc n)
  have w: "takeWhile regular (CHR ''a'' # concat (replicate n '' a'')) = ''a''"
    "dropWhile regular (CHR ''a'' # concat (replicate n '' a'')) = concat (replicate n '' a'')"
    by (cases n; simp add: char_classes)+
  have "read_part (concat (replicate (Suc n) '' a'')) c = read_part (CHR ''a'' # concat (replicate n '' a'')) c"
    by (subst read_part.simps) (simp add: char_classes)
  also have "\<dots> = (if length (cwords c) < 98 then read_part (concat (replicate n '' a'')) (c\<lparr>cwords := ''a'' # cwords c\<rparr>) else None)"
    by (subst read_part.simps) (simp only: w, simp add: char_classes)
  finally show ?case using Suc.IH [of "c\<lparr>cwords := ''a'' # cwords c\<rparr>"] by (auto simp: replicate_append_same)
qed (simp add: read_part.simps)

section \<open>Properties\<close>

text \<open>
  C26. For every line the user can enter, the in-place parser with its pointers and its stack of words does
  exactly what the specification on strings says, stage by stage of the pipe: the words of each part in
  order, with the word behind a redirection as its file, and no access outside the buffer; the
  stack overflows exactly when a part has more than 98 words.
\<close>

theorem shell_line_correct:
  assumes "NUL \<notin> set line" "length line \<le> 510"
  shows "shell_line line = plan (rev line) False"
  using assms by (rule line_plan)

theorem shell_line_correct_witness:
  "shell_line (''ls -l < in|wc>out'') = Some [Spawn [''wc''] None (Some ''out'') True False, Spawn [''ls'', ''-l''] (Some ''in'') None False True]"
  using shell_line_correct [of "''ls -l < in|wc>out''"]
  by (simp add: plan.simps read_part.simps no_command_def is_special_def is_delim_def is_redir_def is_blank_def take_redirect_def)

text \<open>
  A line of 99 words, which fits the input buffer, makes the shell write in front of the array \<open>v\<close>.
\<close>

theorem shell_line_many_words:
  assumes "98 < n" "n \<le> 255"
  shows "shell_line (concat (replicate n ''a '')) = None"
proof -
  have "NUL \<notin> set (concat (replicate n ''a ''))" "length (concat (replicate n ''a '')) \<le> 510"
    using assms(2) by (auto simp: length_concat sum_list_replicate)
  then have "shell_line (concat (replicate n ''a '')) = plan (rev (concat (replicate n ''a ''))) False"
    by (rule line_plan)
  moreover have "rev (concat (replicate n ''a '')) = concat (replicate n '' a'')" by (simp add: rev_concat)
  moreover have "takeWhile (\<lambda>x. x \<noteq> BAR) (concat (replicate n '' a'')) = concat (replicate n '' a'')"
    by (rule takeWhile_eq_all_conv [THEN iffD2]) auto
  ultimately show ?thesis using many_words [of n no_command] assms(1)
    by (simp add: plan.simps no_command_def)
qed

theorem shell_line_many_words_witness: "shell_line (concat (replicate 99 ''a '')) = None"
  by (rule shell_line_many_words) simp_all

end
