(* ===== verification/Mpsc.thy ===== *)
theory Mpsc
  imports Prelude
begin

text \<open>
  The unbounded queue of \<^verbatim>\<open>mpsc/mpsc.c\<close> with any number of producers and one consumer, one step per
  access to shared memory, in any interleaving. A producer first swaps itself in as the tail and
  links itself to its predecessor afterwards, so the list has gaps; the consumer waits at a gap. The
  result \<open>None\<close> is an access to freed memory or a failing assertion.
\<close>

section \<open>Data\<close>

record node =
  nnext :: ptr
  ndata :: nat

datatype producer_pc = P_idle | P_swap ptr | P_link ptr ptr

datatype consumer_pc = C_idle | C_cas ptr | C_head ptr | C_next ptr | C_store ptr ptr | C_free ptr

text \<open>
  The shared memory and the threads; \<open>qs\<close> is the list of the nodes in the queue, and \<open>pushed\<close> and \<open>popped\<close>
  are the items that went in and out, for the statements.
\<close>

record mpsc =
  head :: ptr
  tail :: ptr
  nodes :: "ptr \<Rightarrow> node option"
  producers :: "nat \<Rightarrow> producer_pc"
  consumer :: consumer_pc
  qs :: "ptr list"
  pushed :: "nat list"
  popped :: "nat list"

definition queue_create :: mpsc where
  "queue_create = \<lparr>head = NULL, tail = NULL, nodes = (\<lambda>_. None), producers = (\<lambda>_. P_idle), consumer = C_idle,
     qs = [], pushed = [], popped = []\<rparr>"

section \<open>Operations\<close>

definition queue_has_front :: "mpsc \<Rightarrow> bool" where
  "queue_has_front q = (head q \<noteq> NULL)"

definition queue_front :: "mpsc \<Rightarrow> nat option" where
  "queue_front q = (if head q = NULL then None else map_option ndata (nodes q (head q)))"

definition queue_pop_start :: "mpsc \<Rightarrow> mpsc option" where
  "queue_pop_start q = (if \<not> queue_has_front q then None else Some (q\<lparr>consumer := C_cas (head q)\<rparr>))"

definition data_of :: "mpsc \<Rightarrow> ptr \<Rightarrow> nat" where
  "data_of q p = ndata (the (nodes q p))"

text \<open>
  \<open>queue_pop\<close> takes the item out when it clears the tail, or when it moves the head to the next node.
\<close>

definition queue_pop :: "mpsc \<Rightarrow> mpsc option" where
  "queue_pop q = (case consumer q of
     C_cas p \<Rightarrow>
       if tail q = p then Some (q\<lparr>tail := NULL, consumer := C_head p, qs := [], popped := popped q @ [data_of q p]\<rparr>)
       else Some (q\<lparr>consumer := C_next p\<rparr>)
   | C_head p \<Rightarrow> Some (q\<lparr>head := (if head q = p then NULL else head q), consumer := C_free p\<rparr>)
   | C_next p \<Rightarrow> do {
       n \<leftarrow> nodes q p;
       Some (if nnext n = NULL then q else q\<lparr>consumer := C_store p (nnext n)\<rparr>) }
   | C_store p new_head \<Rightarrow> Some (q\<lparr>head := new_head, consumer := C_free p, qs := tl (qs q), popped := popped q @ [data_of q p]\<rparr>)
   | C_free p \<Rightarrow> do { nodes q p; Some (q\<lparr>nodes := (nodes q)(p := None), consumer := C_idle\<rparr>) }
   | C_idle \<Rightarrow> Some q)"

definition queue_push_start :: "nat \<Rightarrow> nat \<Rightarrow> ptr \<Rightarrow> mpsc \<Rightarrow> mpsc" where
  "queue_push_start t d p q =
     (if p = NULL then q
      else q\<lparr>nodes := (nodes q)(p \<mapsto> \<lparr>nnext = NULL, ndata = d\<rparr>), producers := (producers q)(t := P_swap p)\<rparr>)"

definition queue_push :: "nat \<Rightarrow> mpsc \<Rightarrow> mpsc option" where
  "queue_push t q = (case producers q t of
     P_idle \<Rightarrow> Some q
   | P_swap p \<Rightarrow>
       Some (q\<lparr>tail := p, producers := (producers q)(t := P_link (tail q) p), qs := qs q @ [p], pushed := pushed q @ [data_of q p]\<rparr>)
   | P_link old p \<Rightarrow>
       if old = NULL then Some (q\<lparr>head := p, producers := (producers q)(t := P_idle)\<rparr>)
       else do {
         n \<leftarrow> nodes q old;
         Some (q\<lparr>nodes := (nodes q)(old \<mapsto> n\<lparr>nnext := p\<rparr>), producers := (producers q)(t := P_idle)\<rparr>) })"

text \<open>
  \<open>queue_clear\<close> pops until there is no front; \<open>fuel\<close> bounds the rounds. A whole \<open>queue_pop\<close> with nobody else
  at work is at most four steps.
\<close>

definition pop_whole :: "mpsc \<Rightarrow> mpsc option" where
  "pop_whole q = do { q \<leftarrow> queue_pop_start q; q \<leftarrow> queue_pop q; q \<leftarrow> queue_pop q; q \<leftarrow> queue_pop q; queue_pop q }"

fun queue_clear :: "nat \<Rightarrow> mpsc \<Rightarrow> mpsc option" where
  "queue_clear 0 q = None"
| "queue_clear (Suc fuel) q = (if queue_has_front q then do { q \<leftarrow> pop_whole q; queue_clear fuel q } else Some q)"

text \<open>
  An event: a producer calls \<open>push\<close> (with the block from \<open>malloc\<close>) or takes its next step; the consumer
  starts to \<open>pop\<close>, when there is a front, or takes its next step.
\<close>

datatype event = Push nat nat ptr | Prod nat | Pop | Cons_step

fun mpsc_step :: "event \<Rightarrow> mpsc \<Rightarrow> mpsc option" where
  "mpsc_step (Push t d p) q = Some (if producers q t = P_idle \<and> nodes q p = None then queue_push_start t d p q else q)"
| "mpsc_step (Prod t) q = queue_push t q"
| "mpsc_step Pop q = (if consumer q = C_idle \<and> queue_has_front q then queue_pop_start q else Some q)"
| "mpsc_step Cons_step q = queue_pop q"

section \<open>The invariant\<close>

definition nx :: "mpsc \<Rightarrow> ptr \<Rightarrow> ptr" where
  "nx q p = nnext (the (nodes q p))"

definition adj :: "ptr list \<Rightarrow> (ptr \<times> ptr) list" where
  "adj ps = zip ps (tl ps)"

definition linker :: "mpsc \<Rightarrow> ptr \<Rightarrow> ptr \<Rightarrow> bool" where
  "linker q p n \<longleftrightarrow> (\<exists>t. producers q t = P_link p n)"

text \<open>Two neighbours are linked, unless a producer is about to link them.\<close>

definition pair_ok :: "mpsc \<Rightarrow> ptr \<Rightarrow> ptr \<Rightarrow> bool" where
  "pair_ok q p n \<longleftrightarrow> nx q p = (if linker q p n then NULL else n)"

definition list_ok :: "mpsc \<Rightarrow> bool" where
  "list_ok q \<longleftrightarrow> distinct (qs q) \<and> NULL \<notin> set (qs q) \<and> (\<forall>p \<in> set (qs q). nodes q p \<noteq> None) \<and>
     tail q = (if qs q = [] then NULL else last (qs q)) \<and> (\<forall>p n. (p, n) \<in> set (adj (qs q)) \<longrightarrow> pair_ok q p n) \<and>
     (qs q \<noteq> [] \<longrightarrow> nx q (last (qs q)) = NULL)"

fun detached :: "consumer_pc \<Rightarrow> ptr option" where
  "detached (C_head p) = Some p"
| "detached (C_free p) = Some p"
| "detached _ = None"

fun new_node :: "producer_pc \<Rightarrow> ptr option" where
  "new_node (P_swap n) = Some n"
| "new_node (P_link p n) = Some n"
| "new_node P_idle = None"

fun producer_ok :: "mpsc \<Rightarrow> producer_pc \<Rightarrow> bool" where
  "producer_ok q P_idle \<longleftrightarrow> True"
| "producer_ok q (P_swap n) \<longleftrightarrow> n \<noteq> NULL \<and> nodes q n \<noteq> None \<and> n \<notin> set (qs q) \<and> nx q n = NULL \<and> detached (consumer q) \<noteq> Some n"
| "producer_ok q (P_link p n) \<longleftrightarrow> (if p = NULL then qs q \<noteq> [] \<and> n = hd (qs q) else (p, n) \<in> set (adj (qs q)))"

definition producers_ok :: "mpsc \<Rightarrow> bool" where
  "producers_ok q \<longleftrightarrow> (\<forall>t. producer_ok q (producers q t)) \<and>
     (\<forall>t u n. new_node (producers q t) = Some n \<and> new_node (producers q u) = Some n \<longrightarrow> t = u)"

definition first_linked :: "mpsc \<Rightarrow> bool" where
  "first_linked q \<longleftrightarrow> qs q \<noteq> [] \<and> \<not> linker q NULL (hd (qs q))"

fun consumer_ok :: "mpsc \<Rightarrow> consumer_pc \<Rightarrow> bool" where
  "consumer_ok q C_idle \<longleftrightarrow> head q = (if first_linked q then hd (qs q) else NULL)"
| "consumer_ok q (C_cas p) \<longleftrightarrow> first_linked q \<and> p = hd (qs q) \<and> head q = p"
| "consumer_ok q (C_next p) \<longleftrightarrow> first_linked q \<and> p = hd (qs q) \<and> head q = p \<and> tl (qs q) \<noteq> []"
| "consumer_ok q (C_store p n) \<longleftrightarrow> first_linked q \<and> head q = p \<and> (\<exists>r. qs q = p # n # r) \<and> \<not> linker q p n"
| "consumer_ok q (C_head p) \<longleftrightarrow> p \<noteq> NULL \<and> p \<notin> set (qs q) \<and> nodes q p \<noteq> None \<and> head q = (if first_linked q then hd (qs q) else p)"
| "consumer_ok q (C_free p) \<longleftrightarrow> p \<noteq> NULL \<and> p \<notin> set (qs q) \<and> nodes q p \<noteq> None \<and> head q = (if first_linked q then hd (qs q) else NULL)"

definition mpsc_inv :: "mpsc \<Rightarrow> bool" where
  "mpsc_inv q \<longleftrightarrow> list_ok q \<and> producers_ok q \<and> consumer_ok q (consumer q) \<and> pushed q = popped q @ map (data_of q) (qs q)"

section \<open>Neighbours in a list\<close>

lemma adj_simps [simp]:
  "adj [] = []" "adj [p] = []" "adj (p # n # r) = (p, n) # adj (n # r)"
  by (simp_all add: adj_def)

lemma adj_snoc: "ps \<noteq> [] \<Longrightarrow> adj (ps @ [n]) = adj ps @ [(last ps, n)]"
proof (induction ps)
  case (Cons a ps)
  then show ?case by (cases ps) auto
qed simp

lemma adj_in:
  assumes "(p, n) \<in> set (adj ps)"
  shows "p \<in> set (butlast ps)" "n \<in> set (tl ps)" "p \<in> set ps" "n \<in> set ps"
proof -
  have "p \<in> set (butlast ps) \<and> n \<in> set (tl ps)" using assms
  proof (induction ps)
    case (Cons a ps)
    then show ?case by (cases ps) (auto dest: list.set_sel(2) [rotated])
  qed simp
  then show "p \<in> set (butlast ps)" "n \<in> set (tl ps)" by simp_all
  then show "p \<in> set ps" "n \<in> set ps" by (auto dest: in_set_butlastD list.set_sel(2) [rotated])
qed

lemma adj_fun: "distinct ps \<Longrightarrow> (p, n) \<in> set (adj ps) \<Longrightarrow> (p, m) \<in> set (adj ps) \<Longrightarrow> m = n"
proof (induction ps)
  case (Cons a ps)
  then show ?case by (cases ps) (auto dest: adj_in)
qed simp

lemma adj_not_last: "distinct ps \<Longrightarrow> (p, n) \<in> set (adj ps) \<Longrightarrow> p \<noteq> last ps"
  by (metis adj_in(1) append_butlast_last_id distinct_butlast empty_iff list.set(1) not_distinct_conv_prefix
      butlast.simps(1))

lemma adj_tl: "(p, n) \<in> set (adj (a # ps)) \<Longrightarrow> p \<noteq> a \<Longrightarrow> (p, n) \<in> set (adj ps)"
  by (cases ps) auto

lemma adj_tl_sub: "(p, n) \<in> set (adj (tl ps)) \<Longrightarrow> (p, n) \<in> set (adj ps)"
  by (cases ps; cases "tl ps") auto

section \<open>Every step keeps the invariant\<close>

lemma queue_create_inv: "mpsc_inv queue_create"
  by (simp add: mpsc_inv_def list_ok_def producers_ok_def first_linked_def queue_create_def)

lemma mpsc_invI:
  assumes "list_ok q" "producers_ok q" "consumer_ok q (consumer q)" "pushed q = popped q @ map (data_of q) (qs q)"
  shows "mpsc_inv q"
  using assms by (simp add: mpsc_inv_def)

lemma mpsc_invD:
  assumes "mpsc_inv q"
  shows "list_ok q" "producers_ok q" "consumer_ok q (consumer q)" "pushed q = popped q @ map (data_of q) (qs q)"
  using assms by (simp_all add: mpsc_inv_def)

lemma list_okD:
  assumes "list_ok q"
  shows "distinct (qs q)" "NULL \<notin> set (qs q)" "p \<in> set (qs q) \<Longrightarrow> nodes q p \<noteq> None"
    "tail q = (if qs q = [] then NULL else last (qs q))" "(p, n) \<in> set (adj (qs q)) \<Longrightarrow> pair_ok q p n"
    "qs q \<noteq> [] \<Longrightarrow> nx q (last (qs q)) = NULL"
  using assms by (simp_all add: list_ok_def)

lemma producers_okD:
  assumes "producers_ok q"
  shows "producer_ok q (producers q t)"
    "new_node (producers q t) = Some n \<Longrightarrow> new_node (producers q u) = Some n \<Longrightarrow> u = t"
  using assms unfolding producers_ok_def by blast+

lemma first_linkedD: "first_linked q \<Longrightarrow> qs q \<noteq> []"
  by (simp add: first_linked_def)

text \<open>The address of a new block differs from every node in use.\<close>

lemma push_start_inv:
  assumes i: "mpsc_inv q" and p: "producers q t = P_idle" "nodes q p = None"
  shows "mpsc_inv (queue_push_start t d p q)"
proof (cases "p = NULL")
  case True
  then show ?thesis using i by (simp add: queue_push_start_def)
next
  case False
  define q' where "q' = q\<lparr>nodes := (nodes q)(p \<mapsto> \<lparr>nnext = NULL, ndata = d\<rparr>), producers := (producers q)(t := P_swap p)\<rparr>"
  note l = list_okD [OF mpsc_invD(1) [OF i]] and pr = producers_okD [OF mpsc_invD(2) [OF i]]
  have out: "p \<notin> set (qs q)" using l(3) [of p] p by auto
  have sel [simp]: "qs q' = qs q" "head q' = head q" "tail q' = tail q" "consumer q' = consumer q" "pushed q' = pushed q"
    "popped q' = popped q" "producers q' = (producers q)(t := P_swap p)"
    "nodes q' = (nodes q)(p \<mapsto> \<lparr>nnext = NULL, ndata = d\<rparr>)"
    by (simp_all add: q'_def)
  have nx: "nx q' x = (if x = p then NULL else nx q x)" "x \<noteq> p \<Longrightarrow> data_of q' x = data_of q x" for x
    by (simp_all add: nx_def data_of_def)
  have lk: "linker q' x y = linker q x y" for x y
    using p(1) unfolding linker_def by (auto simp: fun_upd_def) (metis producer_pc.distinct(3))
  have fl: "first_linked q' = first_linked q" by (simp add: first_linked_def lk)
  have po: "pair_ok q' x y" if "(x, y) \<in> set (adj (qs q))" for x y
    using l(5) [OF that] adj_in [OF that] out by (auto simp: pair_ok_def nx lk)
  have "list_ok q'" using l out po by (auto simp: list_ok_def nx)
  moreover have "producer_ok q' (producers q' u)" for u
  proof (cases "u = t")
    case True
    then show ?thesis using out False i p(2) by (cases "consumer q") (auto simp: nx dest: mpsc_invD(3))
  next
    case False
    then show ?thesis using pr(1) [of u] p(2) by (cases "producers q u") (auto simp: nx)
  qed
  moreover have own: "nodes q n \<noteq> None" if "new_node (producers q u) = Some n" for u n
    using pr(1) [of u] that l(3) by (cases "producers q u") (auto split: if_splits dest: adj_in)
  have "u = v" if n: "new_node (producers q' u) = Some n" "new_node (producers q' v) = Some n" for u v n
    using n p(2) own [of u n] own [of v n] pr(2) [of u n v] by (cases "u = t"; cases "v = t") auto
  ultimately have "producers_ok q'" unfolding producers_ok_def by blast
  moreover have "consumer_ok q' (consumer q')" using mpsc_invD(3) [OF i] p(2)
    by (cases "consumer q") (auto simp: fl lk)
  moreover have "pushed q' = popped q' @ map (data_of q') (qs q')"
    using mpsc_invD(4) [OF i] out nx(2) by simp metis
  ultimately have "mpsc_inv q'" using \<open>list_ok q'\<close> by (intro mpsc_invI)
  then show ?thesis using False by (simp add: queue_push_start_def q'_def)
qed

lemma push_swap_inv:
  assumes i: "mpsc_inv q" and p: "producers q t = P_swap p"
    and q': "q' = q\<lparr>tail := p, producers := (producers q)(t := P_link (tail q) p), qs := qs q @ [p],
           pushed := pushed q @ [data_of q p]\<rparr>"
  shows "mpsc_inv q'"
proof -
  note l = list_okD [OF mpsc_invD(1) [OF i]] and pr = producers_okD [OF mpsc_invD(2) [OF i]]
  have sel [simp]: "qs q' = qs q @ [p]" "head q' = head q" "tail q' = p" "consumer q' = consumer q"
    "pushed q' = pushed q @ [data_of q p]" "popped q' = popped q" "producers q' = (producers q)(t := P_link (tail q) p)"
    "nodes q' = nodes q"
    by (simp_all add: q')
  have own: "p \<noteq> NULL" "nodes q p \<noteq> None" "p \<notin> set (qs q)" "nx q p = NULL" "detached (consumer q) \<noteq> Some p"
    using pr(1) [of t] p by simp_all
  have nx: "nx q' x = nx q x" "data_of q' x = data_of q x" for x by (simp_all add: nx_def data_of_def)
  have other: "\<not> linker q x p" for x
    using pr(2) [of t p] p unfolding linker_def by (metis new_node.simps(1,2) producer_pc.distinct(5))
  have lk: "linker q' x y \<longleftrightarrow> linker q x y \<or> (x, y) = (tail q, p)" for x y
    using p unfolding linker_def by (auto simp: fun_upd_def) (metis producer_pc.distinct(5))
  have tl_in: "qs q \<noteq> [] \<Longrightarrow> tail q \<in> set (qs q) \<and> tail q \<noteq> NULL" using l(2,4) last_in_set by metis
  have fl: "first_linked q' = first_linked q"
    using l(4) tl_in by (cases "qs q = []") (auto simp: first_linked_def lk hd_append)
  have ad: "(x, y) \<in> set (adj (qs q')) \<longleftrightarrow> (x, y) \<in> set (adj (qs q)) \<or> (qs q \<noteq> [] \<and> x = last (qs q) \<and> y = p)" for x y
    by (cases "qs q = []") (auto simp: adj_snoc)
  have po: "pair_ok q' x y" if "(x, y) \<in> set (adj (qs q'))" for x y
  proof (cases "(x, y) \<in> set (adj (qs q))")
    case True
    then have "y \<noteq> p" using adj_in(4) own(3) by metis
    then show ?thesis using l(5) [OF True] by (simp add: pair_ok_def lk nx)
  next
    case False
    then have "qs q \<noteq> []" "x = last (qs q)" "y = p" using that ad by blast+
    then show ?thesis using l(4,6) by (simp add: pair_ok_def lk nx)
  qed
  have "list_ok q'" unfolding list_ok_def using l(1-3) own po by (auto simp: nx)
  moreover have "producer_ok q' (producers q' u)" for u
  proof (cases "u = t")
    case True
    then show ?thesis using l(4) tl_in by (auto simp: adj_snoc)
  next
    case False
    then have "new_node (producers q u) \<noteq> Some p" using pr(2) [of t p u] p by auto
    then show ?thesis using pr(1) [of u] False ad by (cases "producers q u") (auto simp: nx)
  qed
  moreover have "u = v" if n: "new_node (producers q' u) = Some n" "new_node (producers q' v) = Some n" for u v n
    using n p pr(2) [of u n v] by (cases "u = t"; cases "v = t") auto
  ultimately have "producers_ok q'" unfolding producers_ok_def by blast
  moreover have "consumer_ok q' (consumer q')" using mpsc_invD(3) [OF i] own(3,5) other
    by (cases "consumer q") (auto simp: fl lk hd_append dest: first_linkedD)
  ultimately show ?thesis using \<open>list_ok q'\<close> mpsc_invD(4) [OF i] by (intro mpsc_invI) (simp_all add: nx)
qed

text \<open>The pending link of a node is the only one, so performing it makes the two neighbours linked.\<close>

lemma linker_done:
  assumes i: "producers_ok q" and p: "producers q t = P_link p n" and q': "producers q' = (producers q)(t := P_idle)"
  shows "linker q' x y \<longleftrightarrow> linker q x y \<and> (x, y) \<noteq> (p, n)"
proof -
  have "u = t" if "producers q u = P_link x n" for u x
    using producers_okD(2) [OF i, of t n u] p that by simp
  then have u: "(\<exists>u. u \<noteq> t \<and> producers q u = P_link x y) \<longleftrightarrow> (\<exists>u. producers q u = P_link x y) \<and> (x, y) \<noteq> (p, n)"
    using p by (metis prod.inject producer_pc.inject(2))
  have "linker q' x y \<longleftrightarrow> (\<exists>u. u \<noteq> t \<and> producers q u = P_link x y)" unfolding linker_def q' by (auto simp: fun_upd_def)
  then show ?thesis unfolding linker_def using u by simp
qed

lemma push_link_producers:
  assumes i: "producers_ok q" and p: "producers q t = P_link p n" and q': "producers q' = (producers q)(t := P_idle)"
    and f: "qs q' = qs q" "consumer q' = consumer q" "\<And>x. x \<notin> set (qs q) \<Longrightarrow> nodes q' x = nodes q x"
  shows "producers_ok q'"
proof -
  note pr = producers_okD [OF i]
  have "producer_ok q' (producers q' u)" for u
    using pr(1) [of u] f by (cases "producers q u") (auto simp: q' nx_def)
  moreover have "u = v" if n: "new_node (producers q' u) = Some n" "new_node (producers q' v) = Some n" for u v n
    using n pr(2) [of u n v] by (cases "u = t"; cases "v = t") (auto simp: q')
  ultimately show ?thesis unfolding producers_ok_def by blast
qed

lemma push_head_inv:
  assumes i: "mpsc_inv q" and p: "producers q t = P_link NULL n"
    and q': "q' = q\<lparr>head := n, producers := (producers q)(t := P_idle)\<rparr>"
  shows "mpsc_inv q'"
proof -
  note l = list_okD [OF mpsc_invD(1) [OF i]] and pr = producers_okD [OF mpsc_invD(2) [OF i]]
  have sel [simp]: "qs q' = qs q" "head q' = n" "tail q' = tail q" "consumer q' = consumer q"
    "pushed q' = pushed q" "popped q' = popped q" "producers q' = (producers q)(t := P_idle)" "nodes q' = nodes q"
    by (simp_all add: q')
  have n: "qs q \<noteq> []" "n = hd (qs q)" using pr(1) [of t] p by simp_all
  have nx: "nx q' x = nx q x" "data_of q' x = data_of q x" for x by (simp_all add: nx_def data_of_def)
  note lk = linker_done [OF mpsc_invD(2) [OF i] p sel(7)]
  have fl: "first_linked q'" "\<not> first_linked q" using n p by (auto simp: first_linked_def lk) (auto simp: linker_def)
  have "pair_ok q' x y" if "(x, y) \<in> set (adj (qs q))" for x y
    using l(5) [OF that] adj_in(3) [OF that] l(2) by (auto simp: pair_ok_def lk nx)
  then have "list_ok q'" using l by (simp add: list_ok_def nx)
  moreover have "producers_ok q'" by (rule push_link_producers [OF mpsc_invD(2) [OF i] p]) simp_all
  moreover have "consumer_ok q' (consumer q')" using mpsc_invD(3) [OF i] fl n by (cases "consumer q") auto
  ultimately show ?thesis using mpsc_invD(4) [OF i] by (intro mpsc_invI) (simp_all add: nx)
qed

lemma push_next_inv:
  assumes i: "mpsc_inv q" and p: "producers q t = P_link p n" "p \<noteq> NULL"
  shows "\<exists>m. nodes q p = Some m \<and>
           mpsc_inv (q\<lparr>nodes := (nodes q)(p \<mapsto> m\<lparr>nnext := n\<rparr>), producers := (producers q)(t := P_idle)\<rparr>)"
proof -
  note l = list_okD [OF mpsc_invD(1) [OF i]] and pr = producers_okD [OF mpsc_invD(2) [OF i]]
  have a: "(p, n) \<in> set (adj (qs q))" using pr(1) [of t] p by simp
  then obtain m where m: "nodes q p = Some m" using l(3) adj_in(3) by blast
  define q' where q': "q' = q\<lparr>nodes := (nodes q)(p \<mapsto> m\<lparr>nnext := n\<rparr>), producers := (producers q)(t := P_idle)\<rparr>"
  have sel [simp]: "qs q' = qs q" "head q' = head q" "tail q' = tail q" "consumer q' = consumer q"
    "pushed q' = pushed q" "popped q' = popped q" "producers q' = (producers q)(t := P_idle)"
    "nodes q' = (nodes q)(p \<mapsto> m\<lparr>nnext := n\<rparr>)"
    by (simp_all add: q')
  have nx: "nx q' x = (if x = p then n else nx q x)" "data_of q' x = data_of q x" for x
    using m by (simp_all add: nx_def data_of_def)
  note lk = linker_done [OF mpsc_invD(2) [OF i] p(1) sel(7)]
  have fl: "first_linked q' = first_linked q" using p(2) by (auto simp: first_linked_def lk)
  have "pair_ok q' x y" if "(x, y) \<in> set (adj (qs q))" for x y
  proof (cases "x = p")
    case True
    then have "y = n" using adj_fun [OF l(1) a] that by blast
    then show ?thesis using True by (simp add: pair_ok_def lk nx)
  next
    case False
    then show ?thesis using l(5) [OF that] by (simp add: pair_ok_def lk nx)
  qed
  moreover have "nx q' (last (qs q)) = nx q (last (qs q))" 
    by (simp only: nx adj_not_last [OF l(1) a, symmetric] if_False)
  ultimately have "list_ok q'" using l(1-4,6) unfolding list_ok_def by simp
  moreover have "producers_ok q'"
    by (rule push_link_producers [OF mpsc_invD(2) [OF i] p(1)]) (use adj_in(3) [OF a] in auto)
  moreover have "consumer_ok q' (consumer q')" using mpsc_invD(3) [OF i] fl by (cases "consumer q") (auto simp: lk)
  ultimately have "mpsc_inv q'" using mpsc_invD(4) [OF i] by (intro mpsc_invI) (simp_all add: nx)
  then show ?thesis using m q' by blast
qed

text \<open>A consumer step that leaves the list of nodes and the producers alone.\<close>

lemma consumer_local:
  assumes i: "mpsc_inv q"
    and f: "qs q' = qs q" "tail q' = tail q" "nodes q' = nodes q" "producers q' = producers q" "pushed q' = pushed q" "popped q' = popped q"
    and d: "detached (consumer q') = detached (consumer q) \<or> detached (consumer q') = None"
    and c: "consumer_ok q' (consumer q')"
  shows "mpsc_inv q'"
proof -
  have [simp]: "nx q' = nx q" "data_of q' = data_of q" "linker q' = linker q"
    using f by (simp_all add: nx_def data_of_def linker_def fun_eq_iff)
  have "list_ok q'" using mpsc_invD(1) [OF i] by (simp add: list_ok_def f pair_ok_def)
  moreover have "producer_ok q' (producers q t)" for t
    using producers_okD(1) [OF mpsc_invD(2) [OF i], of t] d by (cases "producers q t") (auto simp: f)
  then have "producers_ok q'" using mpsc_invD(2) [OF i] by (simp add: producers_ok_def f)
  ultimately show ?thesis using mpsc_invD(4) [OF i] c by (intro mpsc_invI) (simp_all add: f)
qed

lemma first_linked_cong: "qs q' = qs q \<Longrightarrow> producers q' = producers q \<Longrightarrow> first_linked q' = first_linked q"
  by (simp add: first_linked_def linker_def)

lemma pop_start_inv:
  assumes i: "mpsc_inv q" and c: "consumer q = C_idle" "queue_has_front q"
  shows "mpsc_inv (q\<lparr>consumer := C_cas (head q)\<rparr>)"
proof (rule consumer_local [OF i])
  show "consumer_ok (q\<lparr>consumer := C_cas (head q)\<rparr>) (consumer (q\<lparr>consumer := C_cas (head q)\<rparr>))"
    using mpsc_invD(3) [OF i] c first_linked_cong [of "q\<lparr>consumer := C_cas (head q)\<rparr>" q]
    by (simp add: queue_has_front_def split: if_splits)
qed (simp_all add: c)

lemma cas_single:
  assumes i: "mpsc_inv q" and c: "consumer q = C_cas p" "tail q = p"
  shows "qs q = [p]"
proof -
  note l = list_okD [OF mpsc_invD(1) [OF i]]
  have h: "first_linked q" "p = hd (qs q)" "head q = p" using mpsc_invD(3) [OF i] c by simp_all
  have "last (qs q) = hd (qs q)" using l(4) c h first_linkedD [OF h(1)] by simp
  then show ?thesis using first_linkedD [OF h(1)] l(1) h(2) by (cases "qs q") (auto split: if_splits)
qed

text \<open>The last node leaves the list when the tail is cleared: no producer can be linking to it.\<close>

lemma pop_tail_inv:
  assumes i: "mpsc_inv q" and c: "consumer q = C_cas p" "tail q = p"
    and q': "q' = q\<lparr>tail := NULL, consumer := C_head p, qs := [], popped := popped q @ [data_of q p]\<rparr>"
  shows "mpsc_inv q'"
proof -
  note l = list_okD [OF mpsc_invD(1) [OF i]] and pr = producers_okD [OF mpsc_invD(2) [OF i]]
  have h: "first_linked q" "p = hd (qs q)" "head q = p" using mpsc_invD(3) [OF i] c by simp_all
  note s = cas_single [OF i c]
  have sel [simp]: "qs q' = []" "head q' = head q" "tail q' = NULL" "consumer q' = C_head p"
    "pushed q' = pushed q" "popped q' = popped q @ [data_of q p]" "producers q' = producers q" "nodes q' = nodes q"
    by (simp_all add: q')
  have no: "producers q t \<noteq> P_link x y" for t x y
    using pr(1) [of t] h(1) s by (auto simp: first_linked_def linker_def split: if_splits)
  have "producer_ok q' (producers q t)" for t
    using pr(1) [of t] no [of t] s by (cases "producers q t") (auto simp: nx_def)
  then have "producers_ok q'" using mpsc_invD(2) [OF i] by (simp add: producers_ok_def)
  moreover have "list_ok q'" by (simp add: list_ok_def)
  moreover have "consumer_ok q' (consumer q')" using l(2,3) s h(3) by (simp add: first_linked_def)
  ultimately show ?thesis using mpsc_invD(4) [OF i] s by (intro mpsc_invI) simp_all
qed

lemma pop_head_inv:
  assumes i: "mpsc_inv q" and c: "consumer q = C_head p"
    and q': "q' = q\<lparr>head := (if head q = p then NULL else head q), consumer := C_free p\<rparr>"
  shows "mpsc_inv q'"
proof (rule consumer_local [OF i])
  have h: "p \<noteq> NULL" "p \<notin> set (qs q)" "nodes q p \<noteq> None" "head q = (if first_linked q then hd (qs q) else p)"
    using mpsc_invD(3) [OF i] c by simp_all
  have fl: "first_linked q' = first_linked q" by (rule first_linked_cong) (simp_all add: q')
  have "head q' = (if first_linked q then hd (qs q) else NULL)"
  proof (cases "first_linked q")
    case True
    then show ?thesis using h first_linkedD [OF True] hd_in_set [of "qs q"] by (auto simp: q')
  qed (use h in \<open>simp add: q'\<close>)
  then show "consumer_ok q' (consumer q')" using h fl by (simp add: q')
qed (simp_all add: q' c)

lemma pop_wait_inv:
  assumes i: "mpsc_inv q" and c: "consumer q = C_cas p" "tail q \<noteq> p"
  shows "mpsc_inv (q\<lparr>consumer := C_next p\<rparr>)"
proof (rule consumer_local [OF i])
  have h: "first_linked q" "p = hd (qs q)" "head q = p" using mpsc_invD(3) [OF i] c by simp_all
  have "tl (qs q) \<noteq> []" using list_okD(4) [OF mpsc_invD(1) [OF i]] c h first_linkedD [OF h(1)]
    by (cases "qs q") auto
  then show "consumer_ok (q\<lparr>consumer := C_next p\<rparr>) (consumer (q\<lparr>consumer := C_next p\<rparr>))"
    using h first_linked_cong [of "q\<lparr>consumer := C_next p\<rparr>" q] by simp
qed (simp_all add: c)

lemma pop_next_inv:
  assumes i: "mpsc_inv q" and c: "consumer q = C_next p"
  shows "\<exists>n. nodes q p = Some n \<and> (nnext n \<noteq> NULL \<longrightarrow> mpsc_inv (q\<lparr>consumer := C_store p (nnext n)\<rparr>))"
proof -
  note l = list_okD [OF mpsc_invD(1) [OF i]]
  have h: "first_linked q" "p = hd (qs q)" "head q = p" "tl (qs q) \<noteq> []" using mpsc_invD(3) [OF i] c by simp_all
  obtain m r where s: "qs q = p # m # r" using h(2,4) first_linkedD [OF h(1)] by (cases "qs q"; cases "tl (qs q)") auto
  obtain n where n: "nodes q p = Some n" using l(3) [of p] s by auto
  have "mpsc_inv (q\<lparr>consumer := C_store p (nnext n)\<rparr>)" if "nnext n \<noteq> NULL"
  proof (rule consumer_local [OF i])
    have "pair_ok q p m" using l(5) [of p m] s by simp
    then have "nnext n = m" "\<not> linker q p m" using that n by (auto simp: pair_ok_def nx_def split: if_splits)
    then show "consumer_ok (q\<lparr>consumer := C_store p (nnext n)\<rparr>) (consumer (q\<lparr>consumer := C_store p (nnext n)\<rparr>))"
      using h(1,3) s first_linked_cong [of "q\<lparr>consumer := C_store p m\<rparr>" q] by (simp add: linker_def)
  qed (simp_all add: c)
  then show ?thesis using n by blast
qed

lemma pop_store_inv:
  assumes i: "mpsc_inv q" and c: "consumer q = C_store p n"
    and q': "q' = q\<lparr>head := n, consumer := C_free p, qs := tl (qs q), popped := popped q @ [data_of q p]\<rparr>"
  shows "mpsc_inv q'"
proof -
  note l = list_okD [OF mpsc_invD(1) [OF i]] and pr = producers_okD [OF mpsc_invD(2) [OF i]]
  obtain r where h: "first_linked q" "head q = p" "qs q = p # n # r" "\<not> linker q p n" using mpsc_invD(3) [OF i] c by auto
  have sel [simp]: "qs q' = n # r" "head q' = n" "tail q' = tail q" "consumer q' = C_free p"
    "pushed q' = pushed q" "popped q' = popped q @ [data_of q p]" "producers q' = producers q" "nodes q' = nodes q"
    by (simp_all add: q' h)
  have [simp]: "nx q' = nx q" "data_of q' = data_of q" "linker q' = linker q"
    by (simp_all add: nx_def data_of_def linker_def fun_eq_iff)
  have po: "producer_ok q' (producers q t)" for t
  proof (cases "producers q t")
    case (P_link x y)
    then have "linker q x y" by (auto simp: linker_def)
    then have "(x, y) \<noteq> (p, n)" "x = NULL \<Longrightarrow> y \<noteq> p" using h by (auto simp: first_linked_def)
    then show ?thesis using pr(1) [of t] P_link h(3) by (auto split: if_splits)
  qed (use pr(1) [of t] h(3) l(2) in \<open>auto\<close>)
  then have "producers_ok q'" using mpsc_invD(2) [OF i] by (simp add: producers_ok_def)
  moreover have "list_ok q'" using l h(3) by (auto simp: list_ok_def pair_ok_def)
  moreover have "\<not> linker q NULL n"
  proof
    assume "linker q NULL n"
    then obtain t where "producers q t = P_link NULL n" by (auto simp: linker_def)
    then show False using pr(1) [of t] h(3) l(1) by simp
  qed
  then have "consumer_ok q' (consumer q')" using l(1-3) h(3) by (auto simp: first_linked_def)
  ultimately show ?thesis using mpsc_invD(4) [OF i] h(3) by (intro mpsc_invI) simp_all
qed

lemma pop_free_inv:
  assumes i: "mpsc_inv q" and c: "consumer q = C_free p" and q': "q' = q\<lparr>nodes := (nodes q)(p := None), consumer := C_idle\<rparr>"
  shows "nodes q p \<noteq> None \<and> mpsc_inv q'"
proof -
  note l = list_okD [OF mpsc_invD(1) [OF i]] and pr = producers_okD [OF mpsc_invD(2) [OF i]]
  have h: "p \<notin> set (qs q)" "nodes q p \<noteq> None" "head q = (if first_linked q then hd (qs q) else NULL)"
    using mpsc_invD(3) [OF i] c by simp_all
  have sel [simp]: "qs q' = qs q" "head q' = head q" "tail q' = tail q" "consumer q' = C_idle"
    "pushed q' = pushed q" "popped q' = popped q" "producers q' = producers q" "nodes q' = (nodes q)(p := None)"
    by (simp_all add: q')
  have nx: "x \<noteq> p \<Longrightarrow> nx q' x = nx q x" "x \<noteq> p \<Longrightarrow> data_of q' x = data_of q x" for x
    by (simp_all add: nx_def data_of_def)
  have lk [simp]: "linker q' = linker q" by (simp add: linker_def fun_eq_iff)
  have "producer_ok q' (producers q t)" for t
    using pr(1) [of t] c by (cases "producers q t") (auto simp: nx)
  then have pok: "producers_ok q'" using mpsc_invD(2) [OF i] by (simp add: producers_ok_def)
  have "pair_ok q' x y" if "(x, y) \<in> set (adj (qs q))" for x y
  proof -
    have "x \<noteq> p" using adj_in(3) [OF that] h(1) by blast
    then show ?thesis using l(5) [OF that] by (simp add: pair_ok_def nx)
  qed
  moreover have "nx q' (last (qs q)) = NULL" if "qs q \<noteq> []"
    using l(6) [OF that] last_in_set [OF that] h(1) nx(1) by metis
  ultimately have "list_ok q'" using l(1-4) h(1) by (auto simp: list_ok_def)
  moreover have "consumer_ok q' (consumer q')" using h(3) first_linked_cong [of q' q] by simp
  moreover have "pushed q' = popped q' @ map (data_of q') (qs q')"
    using mpsc_invD(4) [OF i] h(1) nx(2) by simp metis
  ultimately show ?thesis using h(2) pok by (simp add: mpsc_invI)
qed

lemma queue_push_inv:
  assumes i: "mpsc_inv q"
  shows "\<exists>q'. queue_push t q = Some q' \<and> mpsc_inv q'"
proof (cases "producers q t")
  case P_idle
  then show ?thesis using i by (simp add: queue_push_def)
next
  case (P_swap p)
  show ?thesis using push_swap_inv [OF i P_swap refl] by (simp add: queue_push_def P_swap)
next
  case (P_link old p)
  show ?thesis
  proof (cases "old = NULL")
    case True
    show ?thesis using push_head_inv [OF i, of t p] P_link True by (simp add: queue_push_def)
  next
    case False
    show ?thesis using push_next_inv [OF i P_link False] False by (auto simp: queue_push_def P_link)
  qed
qed

lemma queue_pop_inv:
  assumes i: "mpsc_inv q"
  shows "\<exists>q'. queue_pop q = Some q' \<and> mpsc_inv q'"
proof (cases "consumer q")
  case C_idle
  then show ?thesis using i by (simp add: queue_pop_def)
next
  case (C_cas p)
  show ?thesis using pop_tail_inv [OF i C_cas _ refl] pop_wait_inv [OF i C_cas] by (simp add: queue_pop_def C_cas)
next
  case (C_head p)
  show ?thesis using pop_head_inv [OF i C_head refl] by (simp add: queue_pop_def C_head)
next
  case (C_next p)
  show ?thesis using pop_next_inv [OF i C_next] i by (auto simp: queue_pop_def C_next)
next
  case (C_store p n)
  show ?thesis using pop_store_inv [OF i C_store refl] by (simp add: queue_pop_def C_store)
next
  case (C_free p)
  show ?thesis using pop_free_inv [OF i C_free refl] by (auto simp: queue_pop_def C_free)
qed

lemma mpsc_step_inv: "mpsc_inv q \<Longrightarrow> \<exists>q'. mpsc_step e q = Some q' \<and> mpsc_inv q'"
proof (cases e)
  case (Prod t)
  assume "mpsc_inv q"
  then show ?thesis using queue_push_inv Prod by simp
next
  case Cons_step
  assume "mpsc_inv q"
  then show ?thesis using queue_pop_inv Cons_step by simp
qed (simp_all add: push_start_inv pop_start_inv queue_pop_start_def)

interpretation mpsc_threads: total_system queue_create mpsc_step mpsc_inv
proof
  show "mpsc_inv queue_create" by (rule queue_create_inv)
next
  fix q e q'
  assume "mpsc_inv q"
  then obtain q1 where "mpsc_step e q = Some q1" "mpsc_inv q1" using mpsc_step_inv by blast
  then show "mpsc_step e q = Some q' \<Longrightarrow> mpsc_inv q'" "\<exists>q'. mpsc_step e q = Some q'" by simp_all
qed

section \<open>Memory\<close>

text \<open>A block in use is a node of the queue, or the one a thread is about to insert or to free.\<close>

definition owned :: "mpsc \<Rightarrow> ptr \<Rightarrow> bool" where
  "owned q p \<longleftrightarrow> p \<in> set (qs q) \<or> detached (consumer q) = Some p \<or> (\<exists>t. producers q t = P_swap p)"

definition no_leak :: "mpsc \<Rightarrow> bool" where
  "no_leak q \<longleftrightarrow> (\<forall>p. nodes q p \<noteq> None \<longrightarrow> owned q p)"

lemma no_leakI: "(\<And>p. nodes q p \<noteq> None \<Longrightarrow> owned q p) \<Longrightarrow> no_leak q"
  by (simp add: no_leak_def)

lemma no_leakD: "no_leak q \<Longrightarrow> nodes q p \<noteq> None \<Longrightarrow> owned q p"
  by (simp add: no_leak_def)

lemma push_no_leak:
  assumes "no_leak q" "queue_push t q = Some q'" "mpsc_inv q"
  shows "no_leak q'"
proof (rule no_leakI)
  fix x
  assume x: "nodes q' x \<noteq> None"
  show "owned q' x"
  proof (cases "producers q t")
    case P_idle
    then show ?thesis using assms(2) no_leakD [OF assms(1), of x] x by (simp add: queue_push_def)
  next
    case (P_swap p)
    have o: "owned q x" using no_leakD [OF assms(1), of x] x assms(2) by (auto simp: queue_push_def P_swap)
    have "producers q' = (producers q)(t := P_link (tail q) p)" "qs q' = qs q @ [p]" "consumer q' = consumer q"
      using assms(2) by (auto simp: queue_push_def P_swap)
    then show ?thesis using o P_swap unfolding owned_def by (metis Un_iff fun_upd_other in_set_conv_decomp producer_pc.inject(1) set_append)
  next
    case (P_link old p)
    have "nodes q x \<noteq> None" using x assms(2) by (auto simp: queue_push_def P_link split: if_splits bind_splits)
    then have o: "owned q x" by (rule no_leakD [OF assms(1)])
    have "producers q' = (producers q)(t := P_idle)" "qs q' = qs q" "consumer q' = consumer q"
      using assms(2) by (auto simp: queue_push_def P_link split: if_splits bind_splits)
    then show ?thesis using o P_link unfolding owned_def by (metis fun_upd_other producer_pc.distinct(5))
  qed
qed

lemma pop_no_leak:
  assumes "no_leak q" "queue_pop q = Some q'" "mpsc_inv q"
  shows "no_leak q'"
proof (rule no_leakI)
  fix x
  assume x: "nodes q' x \<noteq> None"
  have "nodes q x \<noteq> None" using x assms(2)
    by (auto simp: queue_pop_def split: if_splits bind_splits consumer_pc.splits)
  then have o: "owned q x" by (rule no_leakD [OF assms(1)])
  have pr: "producers q' = producers q" using assms(2)
    by (auto simp: queue_pop_def split: if_splits bind_splits consumer_pc.splits)
  show "owned q' x"
  proof (cases "consumer q")
    case (C_cas p)
    then show ?thesis using cas_single [OF assms(3) C_cas] o assms(2) unfolding owned_def pr
      by (auto simp: queue_pop_def split: if_splits)
  next
    case (C_store p n)
    obtain r where "qs q = p # n # r" using mpsc_invD(3) [OF assms(3)] C_store by auto
    moreover have "qs q' = tl (qs q)" "consumer q' = C_free p" using assms(2) by (auto simp: queue_pop_def C_store)
    ultimately show ?thesis using o C_store unfolding owned_def pr by auto
  next
    case C_idle
    then show ?thesis using o assms(2) by (simp add: queue_pop_def)
  next
    case (C_head p)
    then have "qs q' = qs q" "consumer q' = C_free p" using assms(2) by (auto simp: queue_pop_def)
    then show ?thesis using o C_head unfolding owned_def pr by simp
  next
    case (C_next p)
    then have "qs q' = qs q" "detached (consumer q') = None"
      using assms(2) by (auto simp: queue_pop_def split: bind_splits if_splits)
    then show ?thesis using o C_next unfolding owned_def pr by simp
  next
    case (C_free p)
    then have "qs q' = qs q" "x \<noteq> p" using assms(2) x by (auto simp: queue_pop_def split: bind_splits)
    then show ?thesis using o C_free unfolding owned_def pr by auto
  qed
qed

lemma step_no_leak:
  assumes "no_leak q" "mpsc_inv q" "mpsc_step e q = Some q'"
  shows "no_leak q'"
proof (cases e)
  case (Push t d p)
  show ?thesis
  proof (rule no_leakI)
    fix x
    assume x: "nodes q' x \<noteq> None"
    show "owned q' x"
    proof (cases "producers q t = P_idle \<and> nodes q p = None \<and> p \<noteq> NULL")
      case True
      then have q': "q' = q\<lparr>nodes := (nodes q)(p \<mapsto> \<lparr>nnext = NULL, ndata = d\<rparr>), producers := (producers q)(t := P_swap p)\<rparr>"
        using assms(3) by (simp add: Push queue_push_start_def)
      then have "x \<noteq> p \<Longrightarrow> owned q x" using x no_leakD [OF assms(1), of x] by simp
      moreover have "producers q' t = P_swap p" "\<And>u. u \<noteq> t \<Longrightarrow> producers q' u = producers q u" "qs q' = qs q" "consumer q' = consumer q"
        using q' by simp_all
      ultimately show ?thesis using True unfolding owned_def by (metis producer_pc.distinct(1))
    next
      case False
      then have "q' = q" using assms(3) by (auto simp: Push queue_push_start_def split: if_splits)
      then show ?thesis using no_leakD [OF assms(1), of x] x by simp
    qed
  qed
next
  case Pop
  then have "nodes q' = nodes q" "\<And>x. owned q' x \<longleftrightarrow> owned q x"
    using assms(3) by (auto simp: queue_pop_start_def owned_def split: if_splits)
  then show ?thesis using assms(1) by (simp add: no_leak_def)
next
  case (Prod t)
  then show ?thesis using push_no_leak assms by simp
next
  case Cons_step
  then show ?thesis using pop_no_leak assms by simp
qed

lemma exec_no_leak: "no_leak q \<Longrightarrow> mpsc_inv q \<Longrightarrow> exec mpsc_step es q = Some q' \<Longrightarrow> no_leak q'"
proof (induction es arbitrary: q)
  case (Cons e es)
  obtain q1 where "mpsc_step e q = Some q1" "mpsc_inv q1" using mpsc_step_inv [OF Cons.prems(2)] by blast
  then show ?case using Cons step_no_leak by auto
qed simp

section \<open>Clearing the queue\<close>

definition quiet :: "mpsc \<Rightarrow> bool" where
  "quiet q \<longleftrightarrow> consumer q = C_idle \<and> (\<forall>t. producers q t = P_idle)"

lemma quiet_front:
  assumes "mpsc_inv q" "quiet q"
  shows "head q = (if qs q = [] then NULL else hd (qs q))" "queue_has_front q \<longleftrightarrow> qs q \<noteq> []"
proof -
  show h: "head q = (if qs q = [] then NULL else hd (qs q))"
    using assms mpsc_invD(3) [OF assms(1)] by (simp add: quiet_def first_linked_def linker_def)
  show "queue_has_front q \<longleftrightarrow> qs q \<noteq> []"
    using h list_okD(2) [OF mpsc_invD(1) [OF assms(1)]] by (cases "qs q") (auto simp: queue_has_front_def)
qed

lemma pop_whole_correct:
  assumes i: "mpsc_inv q" and qu: "quiet q" and s: "qs q = p # r"
  shows "\<exists>q'. pop_whole q = Some q' \<and> exec mpsc_step (Pop # replicate 4 Cons_step) q = Some q' \<and> quiet q' \<and> qs q' = r \<and>
    popped q' = popped q @ [data_of q p] \<and> pushed q' = pushed q"
proof -
  note l = list_okD [OF mpsc_invD(1) [OF i]]
  have h: "head q = p" "consumer q = C_idle" "p \<noteq> NULL" "\<And>t. producers q t = P_idle" "queue_has_front q"
    using quiet_front [OF i qu] qu s l(2) by (auto simp: quiet_def)
  obtain m where m: "nodes q p = Some m" using l(3) [of p] s by auto
  show ?thesis
  proof (cases r)
    case Nil
    then have "tail q = p" using l(4) s by simp
    then show ?thesis using h m Nil
      by (simp add: pop_whole_def queue_pop_start_def queue_pop_def quiet_def numeral_eq_Suc data_of_def)
  next
    case (Cons n r')
    have "nx q p = n" using l(5) [of p n] s Cons h(4) by (simp add: pair_ok_def linker_def)
    moreover have "n \<noteq> NULL" "tail q \<noteq> p" using l(1,2,4) s Cons by auto
    ultimately show ?thesis using h m Cons s
      by (simp add: pop_whole_def queue_pop_start_def queue_pop_def quiet_def nx_def numeral_eq_Suc data_of_def)
  qed
qed

lemma queue_clear_correct:
  assumes "mpsc_inv q" "quiet q" "no_leak q" "length (qs q) < fuel"
  shows "\<exists>q'. queue_clear fuel q = Some q' \<and> mpsc_inv q' \<and> quiet q' \<and> no_leak q' \<and> qs q' = [] \<and>
    popped q' = popped q @ map (data_of q) (qs q) \<and> pushed q' = pushed q"
  using assms
proof (induction fuel arbitrary: q)
  case (Suc fuel)
  show ?case
  proof (cases "qs q")
    case Nil
    then show ?thesis using quiet_front(2) [of q] Suc.prems by simp
  next
    case (Cons p r)
    obtain q1 where q1: "pop_whole q = Some q1" "exec mpsc_step (Pop # replicate 4 Cons_step) q = Some q1" "quiet q1" "qs q1 = r"
        "popped q1 = popped q @ [data_of q p]" "pushed q1 = pushed q"
      using pop_whole_correct [OF Suc.prems(1,2) Cons] by blast
    have i: "mpsc_inv q1" using mpsc_threads.exec_inv [OF Suc.prems(1) q1(2)] .
    have n: "no_leak q1" using exec_no_leak [OF Suc.prems(3,1) q1(2)] .
    have "map (data_of q1) r = map (data_of q) r"
      using mpsc_invD(4) [OF i] mpsc_invD(4) [OF Suc.prems(1)] q1 Cons by simp
    then show ?thesis using Suc.IH [OF i q1(3) n] Suc.prems(4) quiet_front(2) [OF Suc.prems(1,2)] q1 Cons by auto
  qed
qed simp

section \<open>Properties\<close>

text \<open>
  C13. Whatever the interleaving of the producers and the consumer, no freed node is touched and no
  assertion of \<open>pop\<close> fails; the items come out in the order in which the producers swapped the
  tail, each exactly once; \<open>front\<close> returns the oldest item; and when the consumer waits for the
  link of the next node, there is a producer whose next step sets it.
\<close>

theorem mpsc_fifo:
  "\<exists>q. exec mpsc_step es queue_create = Some q \<and> pushed q = popped q @ map (data_of q) (qs q) \<and>
     (consumer q = C_idle \<and> queue_has_front q \<longrightarrow> queue_front q = Some (data_of q (hd (qs q)))) \<and>
     (\<forall>p. consumer q = C_next p \<and> nx q p = NULL \<longrightarrow>
        (\<exists>t q'. queue_push t q = Some q' \<and> consumer q' = C_next p \<and> nx q' p \<noteq> NULL))"
proof -
  obtain q where q: "exec mpsc_step es queue_create = Some q" "mpsc_inv q" using mpsc_threads.exec_total by blast
  note l = list_okD [OF mpsc_invD(1) [OF q(2)]]
  have "queue_front q = Some (data_of q (hd (qs q)))" if "consumer q = C_idle" "queue_has_front q"
  proof -
    have "head q = hd (qs q)" "qs q \<noteq> []" using mpsc_invD(3) [OF q(2)] that
      by (auto simp: queue_has_front_def first_linked_def split: if_splits)
    then show ?thesis using l(3) [of "hd (qs q)"] that by (auto simp: queue_front_def queue_has_front_def data_of_def)
  qed
  moreover have "\<exists>t q'. queue_push t q = Some q' \<and> consumer q' = C_next p \<and> nx q' p \<noteq> NULL"
    if c: "consumer q = C_next p" "nx q p = NULL" for p
  proof -
    obtain n r where s: "qs q = p # n # r" using mpsc_invD(3) [OF q(2)] c(1)
      by (cases "qs q"; cases "tl (qs q)") (auto simp: first_linked_def)
    then have "linker q p n" using l(5) [of p n] l(2) c(2) by (auto simp: pair_ok_def split: if_splits)
    then obtain t where t: "producers q t = P_link p n" by (auto simp: linker_def)
    have "p \<noteq> NULL" "n \<noteq> NULL" using l(2) s by auto
    then show ?thesis using push_next_inv [OF q(2) t] t c(1) by (auto simp: queue_push_def nx_def intro!: exI [of _ t])
  qed
  ultimately show ?thesis using q mpsc_invD(4) [OF q(2)] by blast
qed

theorem mpsc_fifo_witness:
  "\<exists>q. exec mpsc_step [Push 0 7 64, Prod 0, Prod 0, Push 1 8 80, Prod 1, Pop, Cons_step, Cons_step] queue_create = Some q \<and>
     consumer q = C_next 64 \<and> nx q 64 = NULL \<and> (\<exists>t q'. queue_push t q = Some q' \<and> nx q' 64 \<noteq> NULL)"
proof -
  obtain q where q: "exec mpsc_step [Push 0 7 64, Prod 0, Prod 0, Push 1 8 80, Prod 1, Pop, Cons_step, Cons_step] queue_create = Some q"
      "\<forall>p. consumer q = C_next p \<and> nx q p = NULL \<longrightarrow> (\<exists>t q'. queue_push t q = Some q' \<and> consumer q' = C_next p \<and> nx q' p \<noteq> NULL)"
    using mpsc_fifo [of "[Push 0 7 64, Prod 0, Prod 0, Push 1 8 80, Prod 1, Pop, Cons_step, Cons_step]"] by blast
  moreover have "consumer q = C_next 64" "nx q 64 = NULL"
    using q(1) by (auto simp: queue_create_def queue_push_start_def queue_push_def queue_pop_start_def queue_pop_def
        queue_has_front_def nx_def)
  ultimately show ?thesis by blast
qed

text \<open>
  C27. When no push or pop is under way, \<open>clear\<close> ends after one round per item, takes out all items in
  order, and every block that was allocated for a node is freed.
\<close>

theorem mpsc_clear_frees_all:
  assumes "exec mpsc_step es queue_create = Some q" "quiet q"
  shows "\<exists>q'. queue_clear (Suc (length (qs q))) q = Some q' \<and> \<not> queue_has_front q' \<and> popped q' = pushed q \<and>
    (\<forall>p. nodes q' p = None)"
proof -
  have i: "mpsc_inv q" using mpsc_threads.exec_inv [OF queue_create_inv assms(1)] .
  have "no_leak queue_create" by (simp add: no_leak_def queue_create_def)
  then have "no_leak q" using exec_no_leak queue_create_inv assms(1) by blast
  then obtain q' where q': "queue_clear (Suc (length (qs q))) q = Some q'" "mpsc_inv q'" "quiet q'" "no_leak q'" "qs q' = []"
      "popped q' = popped q @ map (data_of q) (qs q)"
    using queue_clear_correct [OF i assms(2), of "Suc (length (qs q))"] by auto
  have "nodes q' p = None" for p using no_leakD [OF q'(4), of p] q'(3,5) by (cases "nodes q' p = None") (auto simp: quiet_def owned_def)
  then show ?thesis using q' mpsc_invD(4) [OF i] quiet_front(2) [OF q'(2,3)] by auto
qed

theorem mpsc_clear_frees_all_witness:
  "\<exists>q q'. exec mpsc_step [Push 0 7 64, Prod 0, Prod 0, Push 0 8 80, Prod 0, Prod 0] queue_create = Some q \<and>
     queue_clear (Suc (length (qs q))) q = Some q' \<and> popped q' = [7, 8] \<and> (\<forall>p. nodes q' p = None)"
proof -
  obtain q where q: "exec mpsc_step [Push 0 7 64, Prod 0, Prod 0, Push 0 8 80, Prod 0, Prod 0] queue_create = Some q"
      "quiet q" "pushed q = [7, 8]"
    by (simp add: queue_create_def queue_push_start_def queue_push_def quiet_def data_of_def)
  then show ?thesis using mpsc_clear_frees_all [OF q(1,2)] by auto
qed

end
