(* ===== verification/Qsbr.thy ===== *)
theory Qsbr
  imports Prelude
begin

text \<open>
  Quiescent-state based reclamation as in \<^verbatim>\<open>qsbr/main.c\<close>, with its stress test: any number of worker threads,
  of which thread \<open>0\<close> removes, destroys and inserts objects while the others read them, one step per
  access to shared memory, in any interleaving. The result \<open>None\<close> is a failing assertion, an abort or
  an access to freed memory. Allocations and system calls succeed, and the exponential back-off, which
  only spends time, is left out.
\<close>

section \<open>Data\<close>

text \<open>The 64-bit epoch counts modulo \<open>EPOCH_LIMIT\<close>.\<close>

definition EPOCH_LIMIT :: nat where
  "EPOCH_LIMIT = 2 ^ 64"

definition N_DATA :: nat where
  "N_DATA = 4"

definition magic_val :: ptr where
  "magic_val = 1"

text \<open>
  The place of a worker. \<open>Arrive r\<close> and \<open>Wait r\<close> are the two halves of its \<open>r\<close>-th wait at the barrier; the
  next group is the reader and the last one the writer.
\<close>

datatype pc =
    Register | Arrive nat | Wait nat | Loop nat
  | Access nat | Deref nat | Check_load nat | Check_store nat nat
  | Writer nat | Remove nat | Barrier nat | Sync_load nat nat | Sync_store nat nat nat | Sync_scan nat nat "nat option"
  | Retry nat nat | Destroy nat | Insert nat | Show nat
  | Unregister | Exited

text \<open>
  The state of the library and of the test. \<open>tls t\<close> says that thread \<open>t\<close> has its block, \<open>threads\<close> is the list of
  the registered threads.
\<close>

record test =
  global_epoch :: nat
  threads :: "nat list"
  tls :: "nat \<Rightarrow> bool"
  local_epoch :: "nat \<Rightarrow> nat"
  n_workers :: nat
  arrivals :: nat
  stop :: bool
  obj_ptr :: "nat \<Rightarrow> ptr"
  visible :: "nat \<Rightarrow> bool"
  destructions :: nat
  pcs :: "nat \<Rightarrow> pc"

abbreviation goto :: "nat \<Rightarrow> pc \<Rightarrow> test \<Rightarrow> test" where
  "goto t p s \<equiv> s\<lparr>pcs := (pcs s)(t := p)\<rparr>"

section \<open>The library\<close>

definition qsbr_create :: "nat \<Rightarrow> test" where
  "qsbr_create n = \<lparr>global_epoch = 1, threads = [], tls = (\<lambda>_. False), local_epoch = (\<lambda>_. 0), n_workers = n, arrivals = 0,
     stop = False, obj_ptr = (\<lambda>_. NULL), visible = (\<lambda>_. False), destructions = 0, pcs = (\<lambda>_. Register)\<rparr>"

definition qsbr_register :: "nat \<Rightarrow> test \<Rightarrow> test" where
  "qsbr_register t s = s\<lparr>tls := (tls s)(t := True), local_epoch := (local_epoch s)(t := 0), threads := t # threads s\<rparr>"

definition qsbr_unregister :: "nat \<Rightarrow> test \<Rightarrow> test" where
  "qsbr_unregister t s = (if tls s t then s\<lparr>tls := (tls s)(t := False), threads := remove1 t (threads s)\<rparr> else s)"

text \<open>A checkpoint reads the global epoch and then stores it as the epoch of the thread.\<close>

definition qsbr_checkpoint_load :: "nat \<Rightarrow> test \<Rightarrow> nat option" where
  "qsbr_checkpoint_load t s = (if tls s t then Some (global_epoch s) else None)"

definition qsbr_checkpoint_store :: "nat \<Rightarrow> nat \<Rightarrow> test \<Rightarrow> test" where
  "qsbr_checkpoint_store t e s = s\<lparr>local_epoch := (local_epoch s)(t := e)\<rparr>"

definition qsbr_barrier :: "test \<Rightarrow> nat \<times> test" where
  "qsbr_barrier s = (let e = (global_epoch s + 1) mod EPOCH_LIMIT in (e, s\<lparr>global_epoch := e\<rparr>))"

fun list_next :: "nat \<Rightarrow> nat list \<Rightarrow> nat option" where
  "list_next t [] = None"
| "list_next t (u # us) = (if u = t then (case us of [] \<Rightarrow> None | v # _ \<Rightarrow> Some v) else list_next t us)"

definition list_first :: "nat list \<Rightarrow> nat option" where
  "list_first us = (case us of [] \<Rightarrow> None | v # _ \<Rightarrow> Some v)"

text \<open>
  The steps of \<open>qsbr_sync\<close>: a checkpoint, and then one step per thread of the list, until one has not seen
  the target epoch (go to \<open>Retry\<close>) or all have (go to \<open>Destroy\<close>).
\<close>

definition qsbr_sync :: "nat \<Rightarrow> test \<Rightarrow> test option" where
  "qsbr_sync t s = (case pcs s t of
     Sync_load n g \<Rightarrow> do { e \<leftarrow> qsbr_checkpoint_load t s; Some (goto t (Sync_store n g e) s) }
   | Sync_store n g e \<Rightarrow> Some (goto t (Sync_scan n g (list_first (threads s))) (qsbr_checkpoint_store t e s))
   | Sync_scan n g None \<Rightarrow> Some (goto t (Destroy n) s)
   | Sync_scan n g (Some u) \<Rightarrow>
       if \<not> tls s u then None
       else if local_epoch s u < g then Some (goto t (Retry n g) s)
       else Some (goto t (Sync_scan n g (list_next u (threads s))) s)
   | _ \<Rightarrow> Some s)"

section \<open>The stress test\<close>

definition access_obj :: "nat \<Rightarrow> test \<Rightarrow> test option" where
  "access_obj t s = (case pcs s t of
     Access n \<Rightarrow> Some (goto t (if visible s n then Deref n else Check_load n) s)
   | Deref n \<Rightarrow> if obj_ptr s n = magic_val then Some (goto t (Check_load n) s) else None
   | _ \<Rightarrow> Some s)"

definition insert_obj :: "nat \<Rightarrow> test \<Rightarrow> test option" where
  "insert_obj t s = (case pcs s t of
     Insert n \<Rightarrow>
       if visible s n then None
       else Some (goto t (Show n) (s\<lparr>obj_ptr := (obj_ptr s)(n := magic_val)\<rparr>))
   | Show n \<Rightarrow> Some (goto t (Loop n) (s\<lparr>visible := (visible s)(n := True)\<rparr>))
   | _ \<Rightarrow> Some s)"

definition remove_obj :: "nat \<Rightarrow> test \<Rightarrow> test option" where
  "remove_obj n s = (if visible s n then Some (s\<lparr>visible := (visible s)(n := False)\<rparr>) else None)"

definition destroy_obj :: "nat \<Rightarrow> test \<Rightarrow> test" where
  "destroy_obj n s = s\<lparr>obj_ptr := (obj_ptr s)(n := NULL), destructions := destructions s + 1\<rparr>"

definition qsbr_writer :: "nat \<Rightarrow> test \<Rightarrow> test option" where
  "qsbr_writer t s = (case pcs s t of
     Writer n \<Rightarrow> Some (goto t (if visible s n then Remove n else Insert n) s)
   | Remove n \<Rightarrow> do { s \<leftarrow> remove_obj n s; Some (goto t (Barrier n) s) }
   | Barrier n \<Rightarrow> (case qsbr_barrier s of (g, s) \<Rightarrow> Some (goto t (Sync_load n g) s))
   | Retry n g \<Rightarrow> Some (goto t (if stop s then Loop n else Sync_load n g) s)
   | Destroy n \<Rightarrow> Some (goto t (Loop n) (destroy_obj n s))
   | _ \<Rightarrow> Some s)"

text \<open>One step of worker \<open>t\<close>; the two waits at the barrier need the arrivals of all workers.\<close>

definition qsbr_stress :: "nat \<Rightarrow> test \<Rightarrow> test option" where
  "qsbr_stress t s = (case pcs s t of
     Register \<Rightarrow> Some (goto t (Arrive 0) (qsbr_register t s))
   | Arrive r \<Rightarrow> Some (goto t (Wait r) (s\<lparr>arrivals := arrivals s + 1\<rparr>))
   | Wait r \<Rightarrow>
       Some (if (r + 1) * n_workers s \<le> arrivals s then goto t (if r = 0 then Loop 0 else Unregister) s else s)
   | Loop n \<Rightarrow>
       if stop s then Some (goto t (Arrive 1) s)
       else let n = (n + 1) mod N_DATA in Some (goto t (if t = 0 then Writer n else Access n) s)
   | Check_load n \<Rightarrow> do { e \<leftarrow> qsbr_checkpoint_load t s; Some (goto t (Check_store n e) s) }
   | Check_store n e \<Rightarrow> Some (goto t (Loop n) (qsbr_checkpoint_store t e s))
   | Unregister \<Rightarrow> Some (goto t Exited (qsbr_unregister t s))
   | Exited \<Rightarrow> Some s
   | Access n \<Rightarrow> access_obj t s
   | Deref n \<Rightarrow> access_obj t s
   | Insert n \<Rightarrow> insert_obj t s
   | Show n \<Rightarrow> insert_obj t s
   | Sync_load n g \<Rightarrow> qsbr_sync t s
   | Sync_store n g e \<Rightarrow> qsbr_sync t s
   | Sync_scan n g u \<Rightarrow> qsbr_sync t s
   | _ \<Rightarrow> qsbr_writer t s)"

text \<open>An event: a worker takes its next step, or the alarm signal arrives.\<close>

datatype event = Step nat | Alarm

definition leave :: "test \<Rightarrow> test" where
  "leave s = s\<lparr>stop := True\<rparr>"

fun run_test :: "event \<Rightarrow> test \<Rightarrow> test option" where
  "run_test (Step t) s = (if t < n_workers s then qsbr_stress t s else Some s)"
| "run_test Alarm s = Some (leave s)"

section \<open>Invariants\<close>

text \<open>The barrier: how often a thread has arrived, and that nobody passes before all have arrived.\<close>

fun rank :: "pc \<Rightarrow> nat" where
  "rank Register = 0"
| "rank (Arrive r) = r"
| "rank (Wait r) = Suc r"
| "rank Unregister = 2"
| "rank Exited = 2"
| "rank _ = 1"

fun past :: "pc \<Rightarrow> nat" where
  "past Register = 0"
| "past (Arrive r) = r"
| "past (Wait r) = r"
| "past Unregister = 2"
| "past Exited = 2"
| "past _ = 1"

fun pc_ok :: "nat \<Rightarrow> pc \<Rightarrow> bool" where
  "pc_ok t (Arrive r) \<longleftrightarrow> r \<le> 1"
| "pc_ok t (Wait r) \<longleftrightarrow> r \<le> 1"
| "pc_ok t (Access n) \<longleftrightarrow> t \<noteq> 0"
| "pc_ok t (Deref n) \<longleftrightarrow> t \<noteq> 0"
| "pc_ok t (Check_load n) \<longleftrightarrow> t \<noteq> 0"
| "pc_ok t (Check_store n e) \<longleftrightarrow> t \<noteq> 0"
| "pc_ok t Register \<longleftrightarrow> True"
| "pc_ok t (Loop n) \<longleftrightarrow> True"
| "pc_ok t Unregister \<longleftrightarrow> True"
| "pc_ok t Exited \<longleftrightarrow> True"
| "pc_ok t _ \<longleftrightarrow> t = 0"

definition barrier_inv :: "test \<Rightarrow> bool" where
  "barrier_inv s \<longleftrightarrow> (\<forall>t. pc_ok t (pcs s t)) \<and> arrivals s = (\<Sum>t<n_workers s. rank (pcs s t)) \<and>
     (\<forall>t<n_workers s. \<forall>u<n_workers s. past (pcs s t) \<le> rank (pcs s u))"

definition list_inv :: "test \<Rightarrow> bool" where
  "list_inv s \<longleftrightarrow> distinct (threads s) \<and>
     (\<forall>t. t \<in> set (threads s) \<longleftrightarrow> t < n_workers s \<and> pcs s t \<noteq> Register \<and> pcs s t \<noteq> Exited) \<and>
     (\<forall>t. tls s t \<longleftrightarrow> t \<in> set (threads s))"

text \<open>Thread \<open>r\<close> has read an epoch of at least \<open>g\<close> at a checkpoint.\<close>

definition seen :: "test \<Rightarrow> nat \<Rightarrow> nat \<Rightarrow> bool" where
  "seen s r g \<longleftrightarrow> g \<le> local_epoch s r \<or> (\<exists>n e. pcs s r = Check_store n e \<and> g \<le> e)"

fun pending :: "pc \<Rightarrow> nat option" where
  "pending (Check_store n e) = Some e"
| "pending (Sync_store n g e) = Some e"
| "pending _ = None"

definition epoch_inv :: "test \<Rightarrow> bool" where
  "epoch_inv s \<longleftrightarrow> (\<forall>t. local_epoch s t \<le> global_epoch s) \<and>
     (\<forall>t e. pending (pcs s t) = Some e \<longrightarrow> local_epoch s t \<le> e \<and> e \<le> global_epoch s)"

text \<open>The object the writer has removed and not yet destroyed, and the epoch it waits for.\<close>

definition safe_after :: "test \<Rightarrow> nat \<Rightarrow> nat \<Rightarrow> bool" where
  "safe_after s n g \<longleftrightarrow> \<not> visible s n \<and> g \<le> global_epoch s \<and> (\<forall>r. seen s r g \<longrightarrow> pcs s r \<noteq> Deref n)"

fun writer_ok :: "test \<Rightarrow> pc \<Rightarrow> bool" where
  "writer_ok s (Remove n) \<longleftrightarrow> visible s n"
| "writer_ok s (Barrier n) \<longleftrightarrow> \<not> visible s n"
| "writer_ok s (Insert n) \<longleftrightarrow> \<not> visible s n"
| "writer_ok s (Show n) \<longleftrightarrow> obj_ptr s n = magic_val"
| "writer_ok s (Sync_load n g) \<longleftrightarrow> safe_after s n g"
| "writer_ok s (Sync_store n g e) \<longleftrightarrow> safe_after s n g"
| "writer_ok s (Retry n g) \<longleftrightarrow> safe_after s n g"
| "writer_ok s (Sync_scan n g u) \<longleftrightarrow> safe_after s n g \<and>
     (\<exists>pre post. threads s = pre @ post \<and> u = list_first post \<and> (\<forall>v \<in> set pre. g \<le> local_epoch s v))"
| "writer_ok s (Destroy n) \<longleftrightarrow> \<not> visible s n \<and> (\<forall>r<n_workers s. pcs s r \<noteq> Deref n)"
| "writer_ok s _ \<longleftrightarrow> True"

definition object_inv :: "test \<Rightarrow> bool" where
  "object_inv s \<longleftrightarrow> (\<forall>n. visible s n \<longrightarrow> obj_ptr s n = magic_val) \<and>
     (\<forall>r n. r < n_workers s \<and> pcs s r = Deref n \<longrightarrow> obj_ptr s n = magic_val) \<and> writer_ok s (pcs s 0)"

definition test_inv :: "test \<Rightarrow> bool" where
  "test_inv s \<longleftrightarrow> barrier_inv s \<and> list_inv s \<and> epoch_inv s \<and> object_inv s"

section \<open>The barrier and the list of threads\<close>

lemmas stress_defs = qsbr_stress_def access_obj_def insert_obj_def qsbr_sync_def qsbr_writer_def remove_obj_def destroy_obj_def
  qsbr_register_def qsbr_unregister_def qsbr_checkpoint_load_def qsbr_checkpoint_store_def qsbr_barrier_def Let_def

text \<open>What a step does to the place of the thread and to the barrier.\<close>

lemma stress_shape:
  assumes "qsbr_stress t s = Some s'" "pc_ok t (pcs s t)"
  shows "pcs s' = (pcs s)(t := pcs s' t) \<and> pc_ok t (pcs s' t) \<and> n_workers s' = n_workers s \<and>
    arrivals s' + rank (pcs s t) = arrivals s + rank (pcs s' t) \<and> rank (pcs s t) \<le> rank (pcs s' t) \<and>
    (past (pcs s' t) = past (pcs s t) \<or>
     (past (pcs s' t) = rank (pcs s t) \<and> rank (pcs s t) * n_workers s \<le> arrivals s \<and> rank (pcs s' t) = rank (pcs s t)))"
  using assms
  by (cases "pcs s t") (auto simp: stress_defs split: if_splits bind_splits option.splits)

lemma sum_upd:
  fixes f :: "'p \<Rightarrow> nat" and n :: nat
  assumes "t < n"
  shows "(\<Sum>u<n. f ((g(t := p)) u)) + f (g t) = (\<Sum>u<n. f (g u)) + f p"
proof -
  have "(\<Sum>u\<in>{..<n} - {t}. f ((g(t := p)) u)) = (\<Sum>u\<in>{..<n} - {t}. f (g u))" by (rule sum.cong) auto
  then show ?thesis using assms sum.remove [of "{..<n}" t "\<lambda>u. f ((g(t := p)) u)"] sum.remove [of "{..<n}" t "\<lambda>u. f (g u)"] by simp
qed

lemma sum_all:
  fixes f :: "nat \<Rightarrow> nat"
  assumes "c * n \<le> (\<Sum>u<n. f u)" "\<forall>u<n. f u \<le> c" "u < n"
  shows "f u = c"
proof -
  have "(\<Sum>v\<in>{..<n} - {u}. f v) \<le> (\<Sum>v\<in>{..<n} - {u}. c)" by (rule sum_mono) (use assms(2) in auto)
  then have "(\<Sum>v<n. f v) \<le> f u + (n - 1) * c" using sum.remove [of "{..<n}" u f] assms(3) by simp
  moreover have "c * n = (n - 1) * c + c" using assms(3) by (cases n) auto
  ultimately show ?thesis using assms by (metis add.commute add_le_cancel_left le_antisym order_trans)
qed

lemma barrier_invD:
  assumes "barrier_inv s"
  shows "pc_ok t (pcs s t)" "arrivals s = (\<Sum>t<n_workers s. rank (pcs s t))"
    "t < n_workers s \<Longrightarrow> u < n_workers s \<Longrightarrow> past (pcs s t) \<le> rank (pcs s u)"
  using assms by (simp_all add: barrier_inv_def)

lemma rank_past: "pc_ok t p \<Longrightarrow> past p \<le> rank p \<and> rank p \<le> Suc (past p)"
  by (cases p) auto

lemma barrier_step:
  assumes i: "barrier_inv s" and t: "t < n_workers s" and st: "qsbr_stress t s = Some s'"
  shows "barrier_inv s'"
proof -
  note b = barrier_invD [OF i] and sh = stress_shape [OF st b(1)]
  have pcs: "pcs s' u = (if u = t then pcs s' t else pcs s u)" for u using sh by (metis fun_upd_apply)
  have n: "n_workers s' = n_workers s" using sh by simp
  have "arrivals s' + rank (pcs s t) = (\<Sum>u<n_workers s. rank (pcs s u)) + rank (pcs s' t)" using sh b(2) by simp
  also have "\<dots> = (\<Sum>u<n_workers s. rank (((pcs s)(t := pcs s' t)) u)) + rank (pcs s t)" using sum_upd [OF t, of rank "pcs s"] by simp
  finally have a: "arrivals s' = (\<Sum>u<n_workers s'. rank (pcs s' u))" using sh by (metis add_right_cancel)
  have r: "rank (pcs s u) \<le> rank (pcs s' u)" for u using pcs [of u] conjunct1 [OF conjunct2 [OF conjunct2 [OF conjunct2 [OF conjunct2 [OF sh]]]]] by (cases "u = t") simp_all
  have "past (pcs s' u) \<le> rank (pcs s' v)" if uv: "u < n_workers s" "v < n_workers s" for u v
  proof (cases "u = t \<and> past (pcs s' t) \<noteq> past (pcs s t)")
    case False
    then have "past (pcs s' u) = past (pcs s u)" using pcs by metis
    then show ?thesis using b(3) [OF uv] r [of v] by linarith
  next
    case True
    define c where "c = rank (pcs s t)"
    have c: "past (pcs s' t) = c" "c * n_workers s \<le> (\<Sum>u<n_workers s. rank (pcs s u))" using True sh b(2) c_def by auto
    have "c \<noteq> past (pcs s t)" using True c by simp
    then have "c = Suc (past (pcs s t))" using rank_past [OF b(1) [of t]] c_def by auto
    show ?thesis
    proof (cases "\<forall>w<n_workers s. rank (pcs s w) \<le> c")
      case m: True
      then have "rank (pcs s v) = c" using sum_all [OF c(2) m uv(2)] by blast
      then show ?thesis using True c r [of v] by simp
    next
      case False
      then obtain w where w: "w < n_workers s" "c < rank (pcs s w)" by auto
      then have "c \<le> past (pcs s w)" using rank_past [OF b(1) [of w]] by simp
      then show ?thesis using b(3) [OF w(1) uv(2)] r [of v] True c by simp
    qed
  qed
  moreover have "pc_ok u (pcs s' u)" for u using b(1) [of u] sh pcs by metis
  ultimately show ?thesis using a unfolding barrier_inv_def n by blast
qed

lemma list_invD:
  assumes "list_inv s"
  shows "distinct (threads s)" "t \<in> set (threads s) \<longleftrightarrow> t < n_workers s \<and> pcs s t \<noteq> Register \<and> pcs s t \<noteq> Exited"
    "tls s t \<longleftrightarrow> t < n_workers s \<and> pcs s t \<noteq> Register \<and> pcs s t \<noteq> Exited"
  using assms by (simp_all add: list_inv_def)

lemma list_invI:
  assumes "distinct (threads s)" "\<And>t. t \<in> set (threads s) \<longleftrightarrow> t < n_workers s \<and> pcs s t \<noteq> Register \<and> pcs s t \<noteq> Exited"
    "\<And>t. tls s t \<longleftrightarrow> t \<in> set (threads s)"
  shows "list_inv s"
  using assms by (simp add: list_inv_def)

text \<open>While a worker is between the two waits, all workers are registered, and none is leaving.\<close>

lemma body_all_registered:
  assumes "barrier_inv s" "list_inv s" "t < n_workers s" "u < n_workers s" "past (pcs s t) = 1" "rank (pcs s t) = 1"
  shows "u \<in> set (threads s)" "tls s u" "pcs s u \<noteq> Register" "pcs s u \<noteq> Unregister"
proof -
  have r: "1 \<le> rank (pcs s u)" "past (pcs s u) \<le> 1"
    using barrier_invD(3) [OF assms(1,3,4)] barrier_invD(3) [OF assms(1,4,3)] assms(5,6) by simp_all
  then have "pcs s u \<noteq> Register" "pcs s u \<noteq> Exited" "pcs s u \<noteq> Unregister" by auto
  then show "pcs s u \<noteq> Register" "pcs s u \<noteq> Unregister" "u \<in> set (threads s)" "tls s u"
    using list_invD(2,3) [OF assms(2), of u] assms(4) by simp_all
qed

lemma list_step:
  assumes i: "barrier_inv s" and l: "list_inv s" and t: "t < n_workers s" and st: "qsbr_stress t s = Some s'"
  shows "list_inv s'"
proof -
  note sh = stress_shape [OF st barrier_invD(1) [OF i]]
  have pcs: "pcs s' u = (if u = t then pcs s' t else pcs s u)" for u using sh by (metis fun_upd_apply)
  have n: "n_workers s' = n_workers s" using sh by simp
  consider "pcs s t = Register" | "pcs s t = Unregister" | "pcs s t \<noteq> Register" "pcs s t \<noteq> Unregister" by blast
  then show ?thesis
  proof cases
    case 1
    then have s': "threads s' = t # threads s" "tls s' = (tls s)(t := True)" "pcs s' t = Arrive 0"
      using st by (auto simp: stress_defs)
    show ?thesis
    proof (rule list_invI)
      fix u
      show "u \<in> set (threads s') \<longleftrightarrow> u < n_workers s' \<and> pcs s' u \<noteq> Register \<and> pcs s' u \<noteq> Exited"
        using list_invD(2) [OF l, of u] pcs [of u] s' n t by (cases "u = t") simp_all
      show "tls s' u \<longleftrightarrow> u \<in> set (threads s')"
        using list_invD(2,3) [OF l, of u] s' by (cases "u = t") simp_all
    qed (use s' 1 list_invD(1,2) [OF l] in simp)
  next
    case 2
    then have s': "threads s' = remove1 t (threads s)" "tls s' = (tls s)(t := False)" "pcs s' t = Exited"
      using st list_invD(3) [OF l, of t] t by (auto simp: stress_defs)
    show ?thesis
    proof (rule list_invI)
      fix u
      show "u \<in> set (threads s') \<longleftrightarrow> u < n_workers s' \<and> pcs s' u \<noteq> Register \<and> pcs s' u \<noteq> Exited"
        using list_invD(1) [OF l] list_invD(2) [OF l, of u] pcs [of u] s' n by (cases "u = t") simp_all
      show "tls s' u \<longleftrightarrow> u \<in> set (threads s')"
        using list_invD(1) [OF l] list_invD(2,3) [OF l, of u] s' by (cases "u = t") simp_all
    qed (use s' list_invD(1) [OF l] in simp)
  next
    case 3
    have "threads s' = threads s \<and> tls s' = tls s \<and> pcs s' t \<noteq> Register \<and> (pcs s' t = Exited \<longleftrightarrow> pcs s t = Exited)"
      using 3 st by (cases "pcs s t") (auto simp: stress_defs split: if_splits bind_splits option.splits)
    moreover have "(pcs s' u \<noteq> Register \<and> pcs s' u \<noteq> Exited) = (pcs s u \<noteq> Register \<and> pcs s u \<noteq> Exited)" for u
      using pcs [of u] calculation 3 by (cases "u = t") simp_all
    ultimately show ?thesis using l by (simp add: list_inv_def n)
  qed
qed

section \<open>The epochs and the objects\<close>

lemma epoch_shape:
  assumes "qsbr_stress t s = Some s'" "global_epoch s + 1 < EPOCH_LIMIT"
  shows "global_epoch s \<le> global_epoch s'" "global_epoch s' \<le> global_epoch s + 1"
    "u \<noteq> t \<Longrightarrow> local_epoch s' u = local_epoch s u"
    "local_epoch s' t = local_epoch s t \<or> local_epoch s' t = 0 \<and> pcs s t = Register \<or> pending (pcs s t) = Some (local_epoch s' t)"
    "pending (pcs s' t) = Some e \<Longrightarrow> e = global_epoch s \<and> local_epoch s' t = local_epoch s t"
  using assms by (cases "pcs s t"; auto simp: stress_defs split: if_splits bind_splits option.splits)+

lemma epoch_invD:
  assumes "epoch_inv s"
  shows "local_epoch s t \<le> global_epoch s" "pending (pcs s t) = Some e \<Longrightarrow> local_epoch s t \<le> e \<and> e \<le> global_epoch s"
  using assms by (simp_all add: epoch_inv_def)

lemma epoch_step:
  assumes i: "epoch_inv s" and p: "pc_ok t (pcs s t)" and st: "qsbr_stress t s = Some s'" and b: "global_epoch s + 1 < EPOCH_LIMIT"
  shows "epoch_inv s'"
proof -
  note e = epoch_shape [OF st b] and sh = stress_shape [OF st p]
  have pcs: "pcs s' u = (if u = t then pcs s' t else pcs s u)" for u using sh by (metis fun_upd_apply)
  have "local_epoch s' t \<le> global_epoch s"
    using e(4) epoch_invD(1) [OF i, of t] epoch_invD(2) [OF i, of t "local_epoch s' t"] by auto
  then have l: "local_epoch s' u \<le> global_epoch s'" for u
    using e(1) e(3) [of u] epoch_invD(1) [OF i, of u] by (cases "u = t") auto
  have "local_epoch s' u \<le> x \<and> x \<le> global_epoch s'" if "pending (pcs s' u) = Some x" for u x
    using that e(1) e(3) [of u] e(5) [of x] pcs [of u] epoch_invD [OF i, of u] by (cases "u = t") fastforce+
  with l show ?thesis by (simp add: epoch_inv_def)
qed

lemma local_mono:
  assumes "epoch_inv s" "qsbr_stress t s = Some s'" "global_epoch s + 1 < EPOCH_LIMIT" "pcs s t \<noteq> Register"
  shows "local_epoch s u \<le> local_epoch s' u"
  using epoch_shape(3) [OF assms(2,3), of u] epoch_shape(4) [OF assms(2,3)] epoch_invD(2) [OF assms(1), of t "local_epoch s' t"] assms(4)
  by (cases "u = t") auto

text \<open>A reader leaves the objects, the list and the epoch alone, and looks at an object only if it is visible.\<close>

lemma reader_shape:
  assumes "qsbr_stress t s = Some s'" "t \<noteq> 0" "pc_ok t (pcs s t)"
  shows "obj_ptr s' = obj_ptr s" "visible s' = visible s" "global_epoch s' = global_epoch s"
    "pcs s' t = Deref n \<Longrightarrow> visible s n"
    "pcs s t \<noteq> Register \<Longrightarrow> pcs s t \<noteq> Unregister \<Longrightarrow> threads s' = threads s"
  using assms by (cases "pcs s t"; auto simp: stress_defs split: if_splits bind_splits option.splits)+

lemma object_invD:
  assumes "object_inv s"
  shows "visible s n \<Longrightarrow> obj_ptr s n = magic_val" "r < n_workers s \<Longrightarrow> pcs s r = Deref n \<Longrightarrow> obj_ptr s n = magic_val"
    "writer_ok s (pcs s 0)"
  using assms by (simp_all add: object_inv_def)

lemma writer_scanI:
  assumes "threads s = pre @ post" "u = list_first post" "\<forall>v \<in> set pre. g \<le> local_epoch s v" "safe_after s m g"
  shows "writer_ok s (Sync_scan m g u)"
  using assms by auto

lemma seen_frame: "local_epoch s' r = local_epoch s r \<Longrightarrow> pcs s' r = pcs s r \<Longrightarrow> seen s' r g = seen s r g"
  by (simp add: seen_def)

lemma safe_after_reader:
  assumes "safe_after s n g" "visible s' = visible s" "global_epoch s' = global_epoch s" "\<And>u. u \<noteq> t \<Longrightarrow> local_epoch s' u = local_epoch s u"
    "\<And>u. u \<noteq> t \<Longrightarrow> pcs s' u = pcs s u" "pcs s' t = Deref n \<Longrightarrow> visible s n"
  shows "safe_after s' n g"
proof -
  have "pcs s' r \<noteq> Deref n" if "seen s' r g" for r
    using that seen_frame [of s' r s g] assms(1,4-6) unfolding safe_after_def by (cases "r = t") auto
  then show ?thesis using assms(1-3) by (simp add: safe_after_def)
qed

lemma object_step_reader:
  assumes ob: "object_inv s" and ba: "barrier_inv s" and li: "list_inv s" and ep: "epoch_inv s" and t: "t < n_workers s" "t \<noteq> 0"
    and st: "qsbr_stress t s = Some s'" and b: "global_epoch s + 1 < EPOCH_LIMIT"
  shows "object_inv s'"
proof -
  note pok = barrier_invD(1) [OF ba, of t]
  note rs = reader_shape [OF st t(2) pok] and sh = stress_shape [OF st pok] and o = object_invD [OF ob] and e = epoch_shape [OF st b]
  have pcs: "u \<noteq> t \<Longrightarrow> pcs s' u = pcs s u" for u using sh by (metis fun_upd_apply)
  have n: "n_workers s' = n_workers s" using sh by simp
  have sa: "safe_after s m g \<Longrightarrow> safe_after s' m g" for m g
    by (rule safe_after_reader [of s m g s' t]) (simp_all add: rs e(3) pcs)
  have w0: "pcs s' 0 = pcs s 0" using pcs t(2) by simp
  have "writer_ok s' (pcs s 0)"
  proof (cases "pcs s 0")
    case (Sync_scan m g u)
    then have b0: "past (pcs s 0) = 1" "rank (pcs s 0) = 1" "0 < n_workers s" using t by simp_all
    note reg = body_all_registered [OF ba li b0(3) t(1) b0(1,2)]
    have th: "threads s' = threads s" using rs(5) reg by blast
    have "g \<le> local_epoch s v \<Longrightarrow> g \<le> local_epoch s' v" for v using local_mono [OF ep st b reg(3), of v] by simp
    moreover obtain pre post where "threads s = pre @ post" "u = list_first post" "\<forall>v \<in> set pre. g \<le> local_epoch s v" "safe_after s m g"
      using o(3) Sync_scan by auto
    ultimately show ?thesis unfolding Sync_scan using sa th by (intro writer_scanI [of s' pre post]) simp_all
  next
    case (Destroy m)
    have "pcs s' r \<noteq> Deref m" if "r < n_workers s" for r
      using o(3) Destroy that pcs [of r] rs(4) [of m] by (cases "r = t") auto
    then show ?thesis using o(3) Destroy rs(2) n by simp
  qed (use o(3) sa rs(1,2) in auto)
  moreover have "obj_ptr s' m = magic_val" if "r < n_workers s" "pcs s' r = Deref m" for r m
    using that o(1) [of m] o(2) [of r m] pcs [of r] rs(1) rs(4) [of m] by (cases "r = t") auto
  ultimately show ?thesis using o(1) rs(1,2) w0 n unfolding object_inv_def by metis
qed

lemma list_next_first: "distinct (pre @ v # post) \<Longrightarrow> list_next v (pre @ v # post) = list_first post"
  by (induction pre) (auto simp: list_first_def)

text \<open>The steps of the writer, from the removal of an object to its destruction.\<close>

lemma safe_after_writer:
  assumes "safe_after s n g" "visible s' = visible s" "global_epoch s' = global_epoch s"
    "\<And>u. u \<noteq> 0 \<Longrightarrow> local_epoch s' u = local_epoch s u" "\<And>u. u \<noteq> 0 \<Longrightarrow> pcs s' u = pcs s u" "pcs s' 0 \<noteq> Deref n"
  shows "safe_after s' n g"
  by (rule safe_after_reader [OF assms(1-3), of 0]) (use assms(4-6) in simp_all)

lemma barrier_safe:
  assumes ep: "epoch_inv s" and v: "\<not> visible s n" and b: "global_epoch s + 1 < EPOCH_LIMIT"
    and s': "global_epoch s' = global_epoch s + 1" "visible s' = visible s" "local_epoch s' = local_epoch s" "\<And>u. u \<noteq> 0 \<Longrightarrow> pcs s' u = pcs s u"
      "pcs s' 0 = Sync_load n (global_epoch s + 1)"
  shows "safe_after s' n (global_epoch s + 1)"
proof -
  have "\<not> seen s' r (global_epoch s + 1)" for r
  proof (cases "r = 0")
    case True
    then show ?thesis using s'(3,5) epoch_invD(1) [OF ep, of r] by (simp add: seen_def not_le less_Suc_eq_le)
  next
    case False
    have "e \<le> global_epoch s" if "pcs s r = Check_store m e" for m e using epoch_invD(2) [OF ep, of r e] that by simp
    then show ?thesis using epoch_invD(1) [OF ep, of r] s'(3) s'(4) [OF False] by (fastforce simp: seen_def)
  qed
  then show ?thesis using v s'(1,2) by (simp add: safe_after_def)
qed

lemma scan_end_safe:
  assumes ba: "barrier_inv s" and li: "list_inv s" and n: "0 < n_workers s" and w: "pcs s 0 = Sync_scan m g None" "writer_ok s (pcs s 0)"
    and r: "r < n_workers s"
  shows "pcs s r \<noteq> Deref m"
proof -
  have b0: "past (pcs s 0) = 1" "rank (pcs s 0) = 1" using w by simp_all
  have "r \<in> set (threads s)" using body_all_registered(1) [OF ba li n r b0] .
  moreover obtain pre post where "threads s = pre @ post" "None = list_first post" "\<forall>v \<in> set pre. g \<le> local_epoch s v" "safe_after s m g"
    using w by auto
  ultimately show ?thesis by (cases post) (auto simp: list_first_def safe_after_def seen_def)
qed

text \<open>A step of the writer succeeds and leaves it in order.\<close>

lemma writer_ok_step:
  assumes ob: "object_inv s" and ba: "barrier_inv s" and li: "list_inv s" and ep: "epoch_inv s" and n: "0 < n_workers s"
    and st: "qsbr_stress 0 s = Some s'" and b: "global_epoch s + 1 < EPOCH_LIMIT"
  shows "writer_ok s' (pcs s' 0)"
proof -
  note pok = barrier_invD(1) [OF ba, of 0] and o = object_invD [OF ob]
  note sh = stress_shape [OF st pok]
  have pcs: "u \<noteq> 0 \<Longrightarrow> pcs s' u = pcs s u" for u using sh by (metis fun_upd_apply)
  note e = epoch_shape(3) [OF st b]
  have sa: "safe_after s m g \<Longrightarrow> visible s' = visible s \<Longrightarrow> global_epoch s' = global_epoch s \<Longrightarrow> pcs s' 0 \<noteq> Deref m \<Longrightarrow> safe_after s' m g" for m g
    by (rule safe_after_writer [of s m g s']) (simp_all add: pcs e)
  show ?thesis
  proof (cases "pcs s 0")
    case (Barrier m)
    have g: "(global_epoch s + 1) mod EPOCH_LIMIT = global_epoch s + 1" using b by simp
    have "\<not> visible s m" using o(3) Barrier by simp
    moreover have "pcs s' 0 = Sync_load m (global_epoch s + 1)" "global_epoch s' = global_epoch s + 1" "visible s' = visible s"
        "local_epoch s' = local_epoch s"
      using st b Barrier g by (auto simp: stress_defs)
    ultimately show ?thesis using barrier_safe [OF ep _ b, of m s'] pcs by simp
  next
    case (Sync_store m g x)
    then have "pcs s' 0 = Sync_scan m g (list_first (threads s'))" "visible s' = visible s" "global_epoch s' = global_epoch s"
      using st by (auto simp: stress_defs)
    moreover have "safe_after s' m g" using o(3) sa calculation Sync_store by simp
    ultimately show ?thesis using writer_scanI [of s' "[]" "threads s'"] by simp
  next
    case (Sync_scan m g u)
    obtain pre post where w: "threads s = pre @ post" "u = list_first post" "\<forall>v \<in> set pre. g \<le> local_epoch s v" "safe_after s m g"
      using o(3) Sync_scan by auto
    have f: "visible s' = visible s" "global_epoch s' = global_epoch s" "threads s' = threads s" "local_epoch s' = local_epoch s"
      using st Sync_scan by (auto simp: stress_defs split: option.splits if_splits)
    show ?thesis
    proof (cases post)
      case Nil
      then have "pcs s 0 = Sync_scan m g None" using Sync_scan w(2) by (simp add: list_first_def)
      moreover have "pcs s r \<noteq> Deref m" if "r < n_workers s" for r
        by (rule scan_end_safe [OF ba li n calculation o(3) that])
      moreover have "pcs s' 0 = Destroy m" using st calculation(1) by (auto simp: stress_defs)
      ultimately show ?thesis using w(4) f(1) pcs sh by (auto simp: safe_after_def)
    next
      case (Cons v post')
      then have u: "u = Some v" using w(2) by (simp add: list_first_def)
      have nx: "list_next v (threads s) = list_first post'" using list_next_first list_invD(1) [OF li] w(1) Cons by simp
      have "pcs s' 0 = (if local_epoch s v < g then Retry m g else Sync_scan m g (list_first post'))"
        using st Sync_scan u nx by (auto simp: stress_defs split: if_splits)
      moreover have "safe_after s' m g" using sa [OF w(4) f(1,2)] calculation by simp
      moreover have "writer_ok s' (Sync_scan m g (list_first post'))" if "\<not> local_epoch s v < g"
        by (rule writer_scanI [of s' "pre @ [v]" post']) (use w Cons f that calculation in auto)
      ultimately show ?thesis by simp
    qed
  qed (use st o(3) sa in \<open>auto simp: stress_defs split: if_splits bind_splits\<close>)
qed

lemma object_step_writer:
  assumes ob: "object_inv s" and ba: "barrier_inv s" and li: "list_inv s" and ep: "epoch_inv s" and n: "0 < n_workers s"
    and st: "qsbr_stress 0 s = Some s'" and b: "global_epoch s + 1 < EPOCH_LIMIT"
  shows "object_inv s'"
proof -
  note pok = barrier_invD(1) [OF ba, of 0] and o = object_invD [OF ob]
  note sh = stress_shape [OF st pok]
  have pcs: "u \<noteq> 0 \<Longrightarrow> pcs s' u = pcs s u" for u using sh by (metis fun_upd_apply)
  have nd: "pcs s' 0 \<noteq> Deref m" for m using sh by (cases "pcs s' 0") auto
  have "visible s' m \<Longrightarrow> obj_ptr s' m = magic_val" for m
    using st o(1) [of m] o(3) pok by (cases "pcs s 0") (auto simp: stress_defs split: if_splits bind_splits option.splits)
  moreover have keep: "obj_ptr s' m = magic_val" if "obj_ptr s m = magic_val" "\<And>k. pcs s 0 = Destroy k \<Longrightarrow> k \<noteq> m" for m
    using st that by (cases "pcs s 0") (auto simp: stress_defs split: if_splits bind_splits option.splits)
  have "obj_ptr s' m = magic_val" if r: "r < n_workers s" "pcs s' r = Deref m" for r m
  proof -
    have "pcs s r = Deref m" using r nd pcs by (metis)
    then show ?thesis using keep [of m] o(2) [of r m] o(3) r(1) by fastforce
  qed
  ultimately show ?thesis using writer_ok_step [OF assms] sh unfolding object_inv_def by metis
qed

section \<open>The test never fails\<close>

lemma stress_total:
  assumes "test_inv s" "t < n_workers s"
  shows "\<exists>s'. qsbr_stress t s = Some s'"
proof -
  have ba: "barrier_inv s" and li: "list_inv s" and ob: "object_inv s" using assms(1) by (simp_all add: test_inv_def)
  note pok = barrier_invD(1) [OF ba, of t] and o = object_invD [OF ob]
  have reg: "tls s t" if "pcs s t \<noteq> Register" "pcs s t \<noteq> Exited" using list_invD(3) [OF li, of t] that assms(2) by simp
  show ?thesis
  proof (cases "pcs s t")
    case (Deref n)
    then show ?thesis using o(2) [OF assms(2) Deref] by (simp add: stress_defs)
  next
    case (Sync_scan m g u)
    then have t: "t = 0" using pok by simp
    have b0: "past (pcs s 0) = 1" "rank (pcs s 0) = 1" "0 < n_workers s" using Sync_scan t assms(2) by simp_all
    obtain pre post where w: "threads s = pre @ post" "u = list_first post" using o(3) Sync_scan t by auto
    show ?thesis
    proof (cases post)
      case Nil
      then show ?thesis using Sync_scan w by (simp add: stress_defs list_first_def)
    next
      case (Cons v post')
      then have "v \<in> set (threads s)" using w by simp
      then have "tls s v" using li by (simp add: list_inv_def)
      then show ?thesis using Sync_scan w Cons by (simp add: stress_defs list_first_def)
    qed
  qed (use pok o(3) reg in \<open>auto simp: stress_defs\<close>)
qed

lemma run_test_inv:
  assumes i: "test_inv s" and b: "global_epoch s + 1 < EPOCH_LIMIT"
  shows "\<exists>s'. run_test e s = Some s' \<and> test_inv s' \<and> global_epoch s' \<le> global_epoch s + 1"
proof (cases e)
  case (Step t)
  show ?thesis
  proof (cases "t < n_workers s")
    case True
    then obtain s' where s': "qsbr_stress t s = Some s'" using stress_total [OF i] by blast
    have j: "barrier_inv s" "list_inv s" "epoch_inv s" "object_inv s" using i by (simp_all add: test_inv_def)
    have "object_inv s'"
    proof (cases "t = 0")
      case z: True
      then show ?thesis using object_step_writer [OF j(4,1,2,3)] s' True b by simp
    next
      case False
      then show ?thesis using object_step_reader [OF j(4,1,2,3) True False s' b] by simp
    qed
    then have "test_inv s'" using barrier_step [OF j(1) True s'] list_step [OF j(1,2) True s'] epoch_step [OF j(3) barrier_invD(1) [OF j(1)] s' b]
      by (simp add: test_inv_def)
    then show ?thesis using s' True Step epoch_shape(2) [OF s' b] by simp
  next
    case False
    then show ?thesis using i Step by simp
  qed
next
  case Alarm
  have f: "n_workers (leave s) = n_workers s" "pcs (leave s) = pcs s" "arrivals (leave s) = arrivals s" "threads (leave s) = threads s"
    "tls (leave s) = tls s" "local_epoch (leave s) = local_epoch s" "global_epoch (leave s) = global_epoch s"
    "visible (leave s) = visible s" "obj_ptr (leave s) = obj_ptr s"
    by (simp_all add: leave_def)
  have "writer_ok (leave s) p = writer_ok s p" for p by (cases p) (simp_all add: f safe_after_def seen_def)
  then have "test_inv (leave s)" using i by (simp add: test_inv_def barrier_inv_def list_inv_def epoch_inv_def object_inv_def f)
  then show ?thesis using Alarm f by simp
qed

lemma qsbr_create_inv: "test_inv (qsbr_create n)"
  by (simp add: test_inv_def barrier_inv_def list_inv_def epoch_inv_def object_inv_def qsbr_create_def)

lemma run_test_all:
  "test_inv s \<Longrightarrow> global_epoch s + length es < EPOCH_LIMIT \<Longrightarrow> \<exists>s'. exec run_test es s = Some s' \<and> test_inv s'"
proof (induction es arbitrary: s)
  case (Cons e es)
  then obtain s1 where "run_test e s = Some s1" "test_inv s1" "global_epoch s1 \<le> global_epoch s + 1"
    using run_test_inv [OF Cons.prems(1), of e] by auto
  then show ?case using Cons.IH [of s1] Cons.prems(2) by auto
qed simp

section \<open>Properties\<close>

text \<open>
  C14. Whatever the number of workers and their interleaving, the stress test never fails: no reader
  follows the pointer of an object that was destroyed, no assertion fails, and \<open>qsbr_sync\<close> never reads the
  block of a thread that is not registered. When the writer destroys an object, no reader is looking
  at it. The bound says that the 64-bit epoch does not wrap around.
\<close>

theorem qsbr_stress_safe:
  assumes "length es + 1 < EPOCH_LIMIT"
  shows "\<exists>s. exec run_test es (qsbr_create n) = Some s \<and>
    (\<forall>m. pcs s 0 = Destroy m \<longrightarrow> \<not> visible s m \<and> (\<forall>r<n_workers s. pcs s r \<noteq> Deref m))"
proof -
  have "global_epoch (qsbr_create n) + length es < EPOCH_LIMIT" using assms by (simp add: qsbr_create_def)
  then obtain s where "exec run_test es (qsbr_create n) = Some s" "test_inv s" using run_test_all [OF qsbr_create_inv] by blast
  moreover have "\<not> visible s m \<and> (\<forall>r<n_workers s. pcs s r \<noteq> Deref m)" if "pcs s 0 = Destroy m" for m
    using object_invD(3) [of s] calculation(2) that by (simp add: test_inv_def)
  ultimately show ?thesis by blast
qed

text \<open>Two workers: the writer inserts the four objects, removes the first one and waits for the reader.\<close>

definition sample_run :: "event list" where
  "sample_run =
     [Step 0, Step 1, Step 0, Step 1, Step 0, Step 1, Step 0, Step 0, Step 0, Step 0, Step 0, Step 0, Step 0, Step 0, Step 0,
     Step 0, Step 0, Step 0, Step 0, Step 0, Step 0, Step 0, Step 0, Step 0, Step 0, Step 0, Step 1, Step 1, Step 1, Step 1,
     Step 0, Step 0, Step 0, Step 0, Step 0]"

lemma epoch_two: "Suc (Suc 0) mod EPOCH_LIMIT = 2"
  by (simp add: EPOCH_LIMIT_def)

theorem qsbr_stress_safe_witness:
  "\<exists>s. exec run_test sample_run (qsbr_create 2) = Some s \<and> pcs s 0 = Destroy 1 \<and> \<not> visible s 1 \<and> pcs s 1 \<noteq> Deref 1"
proof -
  have "length sample_run + 1 < EPOCH_LIMIT" by (simp add: sample_run_def EPOCH_LIMIT_def)
  then obtain s where s: "exec run_test sample_run (qsbr_create 2) = Some s"
      "\<forall>m. pcs s 0 = Destroy m \<longrightarrow> \<not> visible s m \<and> (\<forall>r<n_workers s. pcs s r \<noteq> Deref m)"
    using qsbr_stress_safe [of sample_run 2] by blast
  moreover have "pcs s 0 = Destroy 1 \<and> n_workers s = 2"
  proof -
    have "map_option (\<lambda>s. (pcs s 0, n_workers s)) (exec run_test sample_run (qsbr_create 2)) = Some (Destroy 1, 2)"
      by (simp add: sample_run_def qsbr_create_def stress_defs N_DATA_def list_first_def epoch_two magic_val_def)
    then show ?thesis using s(1) by simp
  qed
  ultimately show ?thesis by auto
qed

end
