(* ===== verification/Spec2Isabelle.thy ===== *)
theory Spec2Isabelle
  imports Ringbuffer Mcslock Channel_Mutex Channel Hashmap Free_Later Lf_Timer Coro_List Coro Redirect Cmap Cmap_List Cmap_Hash Wc_Run Ring_Shm_Test Tpool_Correct Httpd Seqlock Refcnt Work_Steal Picosh Mpsc Qsbr
begin

text \<open>
  A verification development for a collection of small concurrent programs in C. The programs under
  \<^verbatim>\<open>src/\<close> are independent of each other: each directory is a data structure, a lock, a scheduler or a
  server with its own main program. The development has one theory, or a few, per program, all on top
  of \<open>Prelude\<close>; the programs interact only where a directory holds several parts (the server and
  its connection queue, the coroutines and their lists, the map and its lists, locks and hash).

  \<^bold>\<open>How programs are modelled.\<close> A C structure is a record, an enumeration or the place of a thread
  between two accesses to shared memory is a datatype, a pointer is an address \<open>ptr\<close> into a heap that
  maps addresses to blocks, and \<open>NULL\<close> is address zero. Every C function is a function of the same
  name. The result \<open>None\<close> is undefined behaviour, a failing assertion or (for loops without fuel) not
  returning, so a theorem that a run is \<open>Some\<close> excludes out-of-bounds accesses, uses of freed memory and
  double frees. Machine integers are words, or numbers with the reduction modulo a power of two written out,
  wherever the code relies on wrap-around. Memory from \<open>malloc\<close>, answers of the kernel, callbacks and
  the hash functions of a client are parameters or data of the events.

  Concurrent code is a step function \<open>step event state\<close>, one step per access to shared memory, and
  \<open>exec step events state\<close> runs a list of events; a statement about all lists of events is a statement
  about all interleavings. Memory is sequentially consistent: the memory orders of the C
  atomics and the fences are not modelled. Sequential code is composed in the option monad.

  \<^bold>\<open>Interfaces.\<close> \<open>Prelude\<close> holds the locales the programs share, each of them interpreted on the definitions
  of the programs: \<open>inductive_invariant\<close> and \<open>total_system\<close> (an invariant that every step keeps, and that
  no step fails in), \<open>bounded_fifo\<close> and \<open>fifo_queue\<close> (queues against sequences), \<open>map_store\<close> (finite maps) and \<open>drain\<close>
  (loops that empty a container).

  \<^bold>\<open>The theories.\<close>

  \<^item> \<open>Ringbuffer\<close> (\<^verbatim>\<open>ringbuffer/ringbuffer.c\<close>): the ring with free-running 32-bit indices. Bulk enqueue and dequeue
    agree with a bounded queue, across wrap-around of the indices, with the return codes of the code
    (which differ from the comments at the watermark and for a request that is too long).
  \<^item> \<open>Mcslock\<close> (\<^verbatim>\<open>mcslock/mcslock.c\<close>): the queue lock. Mutual exclusion, first-come first-served order and
    freedom from deadlock for any number of threads.
  \<^item> \<open>Channel_Mutex\<close>, \<open>Channel\<close> (\<^verbatim>\<open>channel/channel.c\<close>): the three-state futex mutex, with mutual exclusion and no lost
    wake-up, and the buffered channel, with the numbering of its messages.
  \<^item> \<open>Hashmap\<close>, \<open>Free_Later\<close> (\<^verbatim>\<open>hashmap/\<close>): the chained hash map refines finite maps; deferred release, with the
    theorem that nothing is ever released.
  \<^item> \<open>Lf_Timer\<close> (\<^verbatim>\<open>lf-timer/lf_timer.c\<close>): the timer table. Expiry calls back exactly the due timers; clients
    that keep to the interface never make it fail.
  \<^item> \<open>Coro_List\<close>, \<open>Coro\<close> (\<^verbatim>\<open>coro/\<close>): intrusive lists refine sequences, and the scheduler
    completes every task on a platform that lets it jump into functions already left, a parameter.
  \<^item> \<open>Redirect\<close> (\<^verbatim>\<open>redirect/main.c\<close>): the event library; starting and stopping keep its watcher list well-formed,
    except for the watcher of a redirected standard input, and such input is never read.
  \<^item> \<open>Cmap\<close>, \<open>Cmap_List\<close>, \<open>Cmap_Hash\<close> (\<^verbatim>\<open>cmap/\<close>): the map with expansion and rehash refines sets of nodes, and a reader that
    acquired its state visits each of them; lists; the hash of an integer is injective.
  \<^item> \<open>Wc_Cache\<close>, \<open>Wc_Merge\<close>, \<open>Wc_Map\<close>, \<open>Wc_Run\<close> (\<^verbatim>\<open>map-reduce/word-count.c\<close>): the word count prints every word of the
    file once with the number of its occurrences, for any number of workers, before its clean-up reads
    freed memory.
  \<^item> \<open>Ring_Shm\<close>, \<open>Ring_Shm_Correct\<close>, \<open>Ring_Shm_Test\<close> (\<^verbatim>\<open>ringbuf-shm/ringbuffer.c\<close>): the message ring, byte for byte; for any
    order of sends and receives messages come out in order, and the producer and consumer of the test never fail.
  \<^item> \<open>Tpool\<close>, \<open>Tpool_Correct\<close> (\<^verbatim>\<open>tpool/tpool.c\<close>): the thread pool; tasks run in order, futures deliver their results,
    and the shutdown runs every task.
  \<^item> \<open>Httpd_Queue\<close>, \<open>Httpd\<close> (\<^verbatim>\<open>httpd/httpd.c\<close>): the two-lock connection queue, the request parser, the receive loop and the
    replies of a worker.
  \<^item> \<open>Seqlock\<close> (\<^verbatim>\<open>seqlock/seqlock.c\<close>): reads return values that were written as a whole, until the counter wraps.
  \<^item> \<open>Refcnt\<close> (\<^verbatim>\<open>refcnt/main.c\<close>): the test program has no use after free, no double free and no leak.
  \<^item> \<open>Work_Steal\<close> (\<^verbatim>\<open>work-steal/work-steal.c\<close>): the deque refines a double-ended queue under every interleaving.
  \<^item> \<open>Picosh\<close> (\<^verbatim>\<open>picosh/picosh.c\<close>): the in-place backward parser agrees with a specification on strings.
  \<^item> \<open>Mpsc\<close> (\<^verbatim>\<open>mpsc/mpsc.c\<close>): the queue is first-in first-out, never touches freed nodes, and clearing it frees
    every node.
  \<^item> \<open>Qsbr\<close> (\<^verbatim>\<open>qsbr/main.c\<close>): no reader of the stress test follows the pointer of a destroyed object.

  \<^bold>\<open>Bounds and fuel.\<close> Loops that walk a structure recurse on it. A loop whose end depends on the state has
  fuel, and the theorem states the fuel that is enough: one unit per element of the structure it
  empties or walks. Free-running counters of 64 bits come with the hypothesis that the run has
  fewer than \<open>2 ^ 64\<close> events; where a 32-bit counter can wrap, the wrap is modelled and stated.

  \<^bold>\<open>Not modelled.\<close> The test drivers and benchmarks, which start threads and print timings; allocation wrappers;
  programs whose behaviour is that of kernel or C library calls (\<^verbatim>\<open>fiber\<close>, \<^verbatim>\<open>preempt_sched\<close>, \<^verbatim>\<open>tinync\<close>); weak memory.
  Further data structures of the collection are left out for their size: \<^verbatim>\<open>broadcast\<close>, \<^verbatim>\<open>hp_list\<close>, \<^verbatim>\<open>lf-queue\<close>, \<^verbatim>\<open>lfring\<close>,
  \<^verbatim>\<open>list-move\<close>, \<^verbatim>\<open>mbus\<close>, \<^verbatim>\<open>mpmc\<close>, \<^verbatim>\<open>rcu-list\<close>, \<^verbatim>\<open>rcu_queue\<close>, \<^verbatim>\<open>spmc\<close>, \<^verbatim>\<open>thread-rcu\<close> and the unbuffered channel.
\<close>

end
